(* ===== verification/ACE_Prelude.thy ===== *)
theory ACE_Prelude
  imports Main "HOL-Library.Word" "HOL-Library.Multiset"
begin

text \<open>
  Shared material of the development: the names of the model's machine types, the collection
  of facts on time values, and generic lemmas on lists and arithmetic
  that more than one component uses.
\<close>

section \<open>Names of the machine types\<close>

type_synonym byte = "8 word"

text \<open>Object addresses. Address 0 is the null pointer.\<close>

type_synonym addr = nat

abbreviation (input) NULL :: addr where
  "NULL \<equiv> 0"

section \<open>Fact collections\<close>

named_theorems tv_simps \<open>arithmetic of time values through their total in microseconds\<close>

section \<open>Lists\<close>

lemma last_in_set_Cons: "last (h # ys) \<in> insert h (set ys)"
  by (cases ys rule: rev_cases) auto

lemma hd_in_set_snoc: "hd (zs @ [h]) \<in> insert h (set zs)"
  by (cases zs) auto

text \<open>A sorted list is what is not above a bound, then what is above it.\<close>

lemma sorted_split:
  assumes "sorted (map f xs)"
  shows "xs = filter (\<lambda>a. f a \<le> t) xs @ filter (\<lambda>a. \<not> f a \<le> (t :: 'k :: linorder)) xs"
  using assms
proof (induction xs)
  case (Cons x xs)
  show ?case
  proof (cases "f x \<le> t")
    case False
    then have "\<forall>a \<in> set xs. \<not> f a \<le> t" using Cons.prems by fastforce
    then show ?thesis using False by (simp add: filter_empty_conv)
  qed (use Cons in simp)
qed simp

lemma distinct_concat_map:
  "distinct is \<Longrightarrow> (\<And>i. i \<in> set is \<Longrightarrow> distinct (X i)) \<Longrightarrow>
   (\<And>i j. i \<in> set is \<Longrightarrow> j \<in> set is \<Longrightarrow> i \<noteq> j \<Longrightarrow> set (X i) \<inter> set (X j) = {}) \<Longrightarrow> distinct (concat (map X is))"
proof (induction "is")
  case (Cons i "is")
  have "set (X i) \<inter> set (X j) = {}" if "j \<in> set is" for j using Cons.prems(1) Cons.prems(3) [of i j] that by auto
  then have "set (X i) \<inter> \<Union> (set ` set (map X is)) = {}" by auto
  then show ?case using Cons by simp
qed simp

section \<open>C++ integer division\<close>

text \<open>C++ division and remainder truncate towards zero.\<close>

definition cdiv :: "int \<Rightarrow> int \<Rightarrow> int" where
  "cdiv a b = sgn a * sgn b * (\<bar>a\<bar> div \<bar>b\<bar>)"

definition cmod :: "int \<Rightarrow> int \<Rightarrow> int" where
  "cmod a b = a - b * cdiv a b"

lemma cdiv_nonneg: "0 \<le> a \<Longrightarrow> 0 < b \<Longrightarrow> cdiv a b = a div b"
  by (cases "a = 0") (simp_all add: cdiv_def)

lemma cmod_nonneg: "0 \<le> a \<Longrightarrow> 0 < b \<Longrightarrow> cmod a b = a mod b"
  by (simp add: cmod_def cdiv_nonneg minus_mult_div_eq_mod)

end
