(* ===== verification/ACE_Time_Value.thy ===== *)
theory ACE_Time_Value
  imports ACE_Prelude
begin

text \<open>
  \<^verbatim>\<open>ACE_Time_Value\<close> (\<^verbatim>\<open>ace/Time_Value.h\<close>, \<^verbatim>\<open>.inl\<close>, \<^verbatim>\<open>.cpp\<close>): a pair of seconds and
  microseconds kept in a normal form by \<open>normalize\<close>. \<open>time_t\<close> and \<open>suseconds_t\<close> are 64-bit
  signed integers; signed overflow is undefined in C++, so the fields are integers, and the
  limits of \<open>time_t\<close> appear where the code tests them (the saturating mode). The unsigned
  64-bit conversions wrap, which is written out.
\<close>

section \<open>Data\<close>

definition ACE_ONE_SECOND_IN_USECS :: int where
  "ACE_ONE_SECOND_IN_USECS = 1000000"

definition TIME_T_MAX :: int where
  "TIME_T_MAX = 2 ^ 63 - 1"

definition TIME_T_MIN :: int where
  "TIME_T_MIN = - (2 ^ 63)"

datatype ace_time_value = ACE_Time_Value (tv_sec: int) (tv_usec: int)

definition zero_time :: ace_time_value where
  "zero_time = ACE_Time_Value 0 0"

definition max_time :: ace_time_value where
  "max_time = ACE_Time_Value TIME_T_MAX (ACE_ONE_SECOND_IN_USECS - 1)"

section \<open>Normalisation\<close>

text \<open>The four do-while loops of \<open>normalize\<close>, each entered with its guard true.\<close>

function norm_up :: "int \<Rightarrow> int \<Rightarrow> int \<times> int" where
  "norm_up sec usec =
     (let sec' = sec + 1; usec' = usec - ACE_ONE_SECOND_IN_USECS
      in if usec' \<ge> ACE_ONE_SECOND_IN_USECS then norm_up sec' usec' else (sec', usec'))"
  by pat_completeness auto
termination
  by (relation "measure (\<lambda>(s, u). nat u)") (auto simp: ACE_ONE_SECOND_IN_USECS_def)

function norm_up_sat :: "int \<Rightarrow> int \<Rightarrow> int \<times> int" where
  "norm_up_sat sec usec =
     (let (sec', usec') =
        (if sec < TIME_T_MAX then (sec + 1, usec - ACE_ONE_SECOND_IN_USECS)
         else (sec, ACE_ONE_SECOND_IN_USECS - 1))
      in if usec' \<ge> ACE_ONE_SECOND_IN_USECS then norm_up_sat sec' usec' else (sec', usec'))"
  by pat_completeness auto
termination
  by (relation "measure (\<lambda>(s, u). nat u)")
     (auto simp: ACE_ONE_SECOND_IN_USECS_def split: if_splits)

function norm_down :: "int \<Rightarrow> int \<Rightarrow> int \<times> int" where
  "norm_down sec usec =
     (let sec' = sec - 1; usec' = usec + ACE_ONE_SECOND_IN_USECS
      in if usec' \<le> - ACE_ONE_SECOND_IN_USECS then norm_down sec' usec' else (sec', usec'))"
  by pat_completeness auto
termination
  by (relation "measure (\<lambda>(s, u). nat (- u))") (auto simp: ACE_ONE_SECOND_IN_USECS_def)

function norm_down_sat :: "int \<Rightarrow> int \<Rightarrow> int \<times> int" where
  "norm_down_sat sec usec =
     (let (sec', usec') =
        (if sec > TIME_T_MIN then (sec - 1, usec + ACE_ONE_SECOND_IN_USECS)
         else (sec, - ACE_ONE_SECOND_IN_USECS + 1))
      in if usec' \<le> - ACE_ONE_SECOND_IN_USECS then norm_down_sat sec' usec' else (sec', usec'))"
  by pat_completeness auto
termination
  by (relation "measure (\<lambda>(s, u). nat (- u))")
     (auto simp: ACE_ONE_SECOND_IN_USECS_def split: if_splits)

declare norm_up.simps [simp del] norm_up_sat.simps [simp del]
  norm_down.simps [simp del] norm_down_sat.simps [simp del]

definition normalize :: "bool \<Rightarrow> ace_time_value \<Rightarrow> ace_time_value" where
  "normalize saturate tv =
     (let (sec, usec) =
        (if tv_usec tv \<ge> ACE_ONE_SECOND_IN_USECS
         then (if \<not> saturate then norm_up (tv_sec tv) (tv_usec tv)
               else norm_up_sat (tv_sec tv) (tv_usec tv))
         else if tv_usec tv \<le> - ACE_ONE_SECOND_IN_USECS
         then (if \<not> saturate then norm_down (tv_sec tv) (tv_usec tv)
               else norm_down_sat (tv_sec tv) (tv_usec tv))
         else (tv_sec tv, tv_usec tv))
      in if sec \<ge> 1 \<and> usec < 0
         then ACE_Time_Value (sec - 1) (usec + ACE_ONE_SECOND_IN_USECS)
         else if sec < 0 \<and> usec > 0
         then ACE_Time_Value (sec + 1) (usec - ACE_ONE_SECOND_IN_USECS)
         else ACE_Time_Value sec usec)"

section \<open>Construction, access and arithmetic\<close>

definition tv_set :: "int \<Rightarrow> int \<Rightarrow> ace_time_value" where
  "tv_set sec usec = normalize False (ACE_Time_Value sec usec)"

definition tv_set_timespec :: "int \<Rightarrow> int \<Rightarrow> ace_time_value" where
  "tv_set_timespec sec nsec = tv_set sec (cdiv nsec 1000)"

definition tv_to_timespec :: "ace_time_value \<Rightarrow> int \<times> int" where
  "tv_to_timespec tv = (tv_sec tv, tv_usec tv * 1000)"

definition tv_pre_incr :: "ace_time_value \<Rightarrow> ace_time_value" where
  "tv_pre_incr tv = normalize False (ACE_Time_Value (tv_sec tv) (tv_usec tv + 1))"

definition tv_pre_decr :: "ace_time_value \<Rightarrow> ace_time_value" where
  "tv_pre_decr tv = normalize False (ACE_Time_Value (tv_sec tv) (tv_usec tv - 1))"

text \<open>The postfix forms return the old value and leave the new one.\<close>

definition tv_post_incr :: "ace_time_value \<Rightarrow> ace_time_value \<times> ace_time_value" where
  "tv_post_incr tv = (tv, tv_pre_incr tv)"

definition tv_post_decr :: "ace_time_value \<Rightarrow> ace_time_value \<times> ace_time_value" where
  "tv_post_decr tv = (tv, tv_pre_decr tv)"

definition tv_add_assign :: "ace_time_value \<Rightarrow> ace_time_value \<Rightarrow> ace_time_value" where
  "tv_add_assign this tv =
     normalize False (ACE_Time_Value (tv_sec this + tv_sec tv) (tv_usec this + tv_usec tv))"

definition tv_sub_assign :: "ace_time_value \<Rightarrow> ace_time_value \<Rightarrow> ace_time_value" where
  "tv_sub_assign this tv =
     normalize False (ACE_Time_Value (tv_sec this - tv_sec tv) (tv_usec this - tv_usec tv))"

definition tv_greater :: "ace_time_value \<Rightarrow> ace_time_value \<Rightarrow> bool" where
  "tv_greater tv1 tv2 =
     (if tv_sec tv1 > tv_sec tv2 then True
      else if tv_sec tv1 = tv_sec tv2 \<and> tv_usec tv1 > tv_usec tv2 then True
      else False)"

definition tv_greater_eq :: "ace_time_value \<Rightarrow> ace_time_value \<Rightarrow> bool" where
  "tv_greater_eq tv1 tv2 =
     (if tv_sec tv1 > tv_sec tv2 then True
      else if tv_sec tv1 = tv_sec tv2 \<and> tv_usec tv1 \<ge> tv_usec tv2 then True
      else False)"

text \<open>
  \<open>operator <\<close>, \<open>operator <=\<close>, \<open>operator +\<close> and \<open>operator -\<close> become the library's order and
  arithmetic on the type, so that its automation applies to time values.
\<close>

instantiation ace_time_value :: "{linorder, plus, minus}"
begin

definition less_ace_time_value :: "ace_time_value \<Rightarrow> ace_time_value \<Rightarrow> bool" where
  "less_ace_time_value tv1 tv2 = tv_greater tv2 tv1"

definition less_eq_ace_time_value :: "ace_time_value \<Rightarrow> ace_time_value \<Rightarrow> bool" where
  "less_eq_ace_time_value tv1 tv2 = tv_greater_eq tv2 tv1"

definition plus_ace_time_value :: "ace_time_value \<Rightarrow> ace_time_value \<Rightarrow> ace_time_value" where
  "plus_ace_time_value tv1 tv2 = tv_add_assign tv1 tv2"

definition minus_ace_time_value :: "ace_time_value \<Rightarrow> ace_time_value \<Rightarrow> ace_time_value" where
  "minus_ace_time_value tv1 tv2 = tv_sub_assign tv1 tv2"

instance
proof
  fix x y z :: ace_time_value
  show "x < y \<longleftrightarrow> x \<le> y \<and> \<not> y \<le> x"
    by (auto simp: less_ace_time_value_def less_eq_ace_time_value_def
        tv_greater_def tv_greater_eq_def)
  show "x \<le> x"
    by (simp add: less_eq_ace_time_value_def tv_greater_eq_def)
  show "x \<le> z" if "x \<le> y" "y \<le> z"
    using that by (auto simp: less_eq_ace_time_value_def tv_greater_eq_def split: if_splits)
  show "x = y" if "x \<le> y" "y \<le> x"
    using that by (cases x; cases y)
      (auto simp: less_eq_ace_time_value_def tv_greater_eq_def split: if_splits)
  show "x \<le> y \<or> y \<le> x"
    by (auto simp: less_eq_ace_time_value_def tv_greater_eq_def)
qed

end

text \<open>Conversions to and from milliseconds and microseconds; \<open>ACE_UINT64\<close> wraps.\<close>

definition tv_get_msec :: "ace_time_value \<Rightarrow> int" where
  "tv_get_msec tv =
     ((tv_sec tv mod 2 ^ 64) * 1000 mod 2 ^ 64 + cdiv (tv_usec tv) 1000) mod 2 ^ 64"

definition tv_set_msec :: "int \<Rightarrow> ace_time_value" where
  "tv_set_msec ms = (let secs = ms div 1000 in ACE_Time_Value secs ((ms - secs * 1000) * 1000))"

definition tv_msec_long :: "int \<Rightarrow> ace_time_value" where
  "tv_msec_long milliseconds =
     (let secs = cdiv milliseconds 1000
      in ACE_Time_Value secs ((milliseconds - secs * 1000) * 1000))"

definition tv_to_usec :: "ace_time_value \<Rightarrow> int" where
  "tv_to_usec tv = ((tv_sec tv mod 2 ^ 64) * 1000000 mod 2 ^ 64 + tv_usec tv) mod 2 ^ 64"

section \<open>Specification\<close>

text \<open>The time a value denotes, in microseconds, and the normal form.\<close>

definition tv_total :: "ace_time_value \<Rightarrow> int" where
  "tv_total tv = tv_sec tv * 1000000 + tv_usec tv"

definition tv_normal :: "ace_time_value \<Rightarrow> bool" where
  "tv_normal tv \<longleftrightarrow>
     \<bar>tv_usec tv\<bar> < 1000000 \<and> (tv_sec tv \<ge> 1 \<longrightarrow> tv_usec tv \<ge> 0) \<and> (tv_sec tv < 0 \<longrightarrow> tv_usec tv \<le> 0)"

lemmas tv_order_defs = less_ace_time_value_def less_eq_ace_time_value_def
  tv_greater_def tv_greater_eq_def


lemmas sec_def = ACE_ONE_SECOND_IN_USECS_def

section \<open>The loops\<close>

lemma norm_up_spec:
  "usec \<ge> 1000000 \<Longrightarrow> norm_up sec usec = (s, u) \<Longrightarrow>
   s * 1000000 + u = sec * 1000000 + usec \<and> 0 \<le> u \<and> u < 1000000 \<and> s > sec"
proof (induction sec usec rule: norm_up.induct)
  case (1 sec usec)
  show ?case
  proof (cases "usec - 1000000 \<ge> 1000000")
    case True
    with "1.prems" have "norm_up (sec + 1) (usec - 1000000) = (s, u)"
      by (simp add: norm_up.simps [of sec usec] sec_def Let_def)
    with "1.IH" [OF refl refl] True show ?thesis
      by (auto simp: sec_def algebra_simps)
  next
    case False
    with "1.prems" show ?thesis
      by (auto simp: norm_up.simps [of sec usec] sec_def Let_def)
  qed
qed

lemma norm_down_spec:
  "usec \<le> - 1000000 \<Longrightarrow> norm_down sec usec = (s, u) \<Longrightarrow>
   s * 1000000 + u = sec * 1000000 + usec \<and> u \<le> 0 \<and> - 1000000 < u \<and> s < sec"
proof (induction sec usec rule: norm_down.induct)
  case (1 sec usec)
  show ?case
  proof (cases "usec + 1000000 \<le> - 1000000")
    case True
    with "1.prems" have "norm_down (sec - 1) (usec + 1000000) = (s, u)"
      by (simp add: norm_down.simps [of sec usec] sec_def Let_def)
    with "1.IH" [OF refl refl] True show ?thesis
      by (auto simp: sec_def algebra_simps)
  next
    case False
    with "1.prems" show ?thesis
      by (auto simp: norm_down.simps [of sec usec] sec_def Let_def)
  qed
qed

lemma norm_up_sat_spec:
  "usec \<ge> 1000000 \<Longrightarrow> sec \<le> TIME_T_MAX \<Longrightarrow> norm_up_sat sec usec = (s, u) \<Longrightarrow>
   s * 1000000 + u = min (sec * 1000000 + usec) (TIME_T_MAX * 1000000 + 999999) \<and>
   0 \<le> u \<and> u < 1000000 \<and> sec \<le> s \<and> s \<le> TIME_T_MAX"
proof (induction sec usec rule: norm_up_sat.induct)
  case (1 sec usec)
  show ?case
  proof (cases "sec < TIME_T_MAX \<and> usec - 1000000 \<ge> 1000000")
    case True
    with "1.prems" have "norm_up_sat (sec + 1) (usec - 1000000) = (s, u)"
      by (simp add: norm_up_sat.simps [of sec usec] sec_def Let_def)
    with "1.IH" [OF refl, of "sec + 1" "usec - 1000000"] True show ?thesis
      by (auto simp: sec_def algebra_simps)
  next
    case False
    with "1.prems" show ?thesis
      by (auto simp: norm_up_sat.simps [of sec usec] sec_def Let_def split: if_splits)
  qed
qed

lemma norm_down_sat_spec:
  "usec \<le> - 1000000 \<Longrightarrow> TIME_T_MIN \<le> sec \<Longrightarrow> norm_down_sat sec usec = (s, u) \<Longrightarrow>
   s * 1000000 + u = max (sec * 1000000 + usec) (TIME_T_MIN * 1000000 - 999999) \<and>
   u \<le> 0 \<and> - 1000000 < u \<and> s \<le> sec \<and> TIME_T_MIN \<le> s"
proof (induction sec usec rule: norm_down_sat.induct)
  case (1 sec usec)
  show ?case
  proof (cases "TIME_T_MIN < sec \<and> usec + 1000000 \<le> - 1000000")
    case True
    with "1.prems" have "norm_down_sat (sec - 1) (usec + 1000000) = (s, u)"
      by (simp add: norm_down_sat.simps [of sec usec] sec_def Let_def)
    with "1.IH" [OF refl, of "sec - 1" "usec + 1000000"] True show ?thesis
      by (auto simp: sec_def algebra_simps)
  next
    case False
    with "1.prems" show ?thesis
      by (auto simp: norm_down_sat.simps [of sec usec] sec_def Let_def split: if_splits)
  qed
qed

text \<open>The last adjustment of \<open>normalize\<close>: give the two fields the same sign.\<close>

lemma normalize_last_step:
  fixes sec usec :: int
  assumes "\<bar>usec\<bar> < 1000000"
  defines "r \<equiv> (if sec \<ge> 1 \<and> usec < 0
         then ACE_Time_Value (sec - 1) (usec + ACE_ONE_SECOND_IN_USECS)
         else if sec < 0 \<and> usec > 0
         then ACE_Time_Value (sec + 1) (usec - ACE_ONE_SECOND_IN_USECS)
         else ACE_Time_Value sec usec)"
  shows "tv_total r = sec * 1000000 + usec" "tv_normal r"
  using assms by (auto simp: tv_total_def tv_normal_def sec_def)

lemma normalize_plain:
  shows normalize_total [tv_simps]: "tv_total (normalize False tv) = tv_total tv"
    and normalize_normal: "tv_normal (normalize False tv)"
proof -
  define p where "p =
    (if tv_usec tv \<ge> ACE_ONE_SECOND_IN_USECS then norm_up (tv_sec tv) (tv_usec tv)
     else if tv_usec tv \<le> - ACE_ONE_SECOND_IN_USECS then norm_down (tv_sec tv) (tv_usec tv)
     else (tv_sec tv, tv_usec tv))"
  obtain s u where su: "p = (s, u)" by (cases p)
  have *: "s * 1000000 + u = tv_total tv \<and> \<bar>u\<bar> < 1000000"
    using norm_up_spec [of "tv_usec tv" "tv_sec tv" s u]
      norm_down_spec [of "tv_usec tv" "tv_sec tv" s u] su
    by (auto simp: p_def sec_def tv_total_def split: if_splits)
  have eq: "normalize False tv =
      (if s \<ge> 1 \<and> u < 0 then ACE_Time_Value (s - 1) (u + ACE_ONE_SECOND_IN_USECS)
       else if s < 0 \<and> u > 0 then ACE_Time_Value (s + 1) (u - ACE_ONE_SECOND_IN_USECS)
       else ACE_Time_Value s u)"
    using su unfolding p_def normalize_def by (cases tv) (simp split: if_splits)
  show "tv_total (normalize False tv) = tv_total tv" "tv_normal (normalize False tv)"
    unfolding eq using normalize_last_step [of u s] * by simp_all
qed

lemma normalize_saturating:
  assumes "TIME_T_MIN \<le> tv_sec tv" "tv_sec tv \<le> TIME_T_MAX"
  shows "tv_total (normalize True tv) =
      max (TIME_T_MIN * 1000000 - 999999) (min (TIME_T_MAX * 1000000 + 999999) (tv_total tv))"
    and "tv_normal (normalize True tv)"
proof -
  define p where "p =
    (if tv_usec tv \<ge> ACE_ONE_SECOND_IN_USECS then norm_up_sat (tv_sec tv) (tv_usec tv)
     else if tv_usec tv \<le> - ACE_ONE_SECOND_IN_USECS then norm_down_sat (tv_sec tv) (tv_usec tv)
     else (tv_sec tv, tv_usec tv))"
  obtain s u where su: "p = (s, u)" by (cases p)
  have *: "s * 1000000 + u = max (TIME_T_MIN * 1000000 - 999999)
        (min (TIME_T_MAX * 1000000 + 999999) (tv_total tv)) \<and> \<bar>u\<bar> < 1000000"
    using norm_up_sat_spec [of "tv_usec tv" "tv_sec tv" s u]
      norm_down_sat_spec [of "tv_usec tv" "tv_sec tv" s u] su assms
    by (auto simp: p_def sec_def tv_total_def TIME_T_MAX_def TIME_T_MIN_def min_def max_def
        split: if_splits)
  have eq: "normalize True tv =
      (if s \<ge> 1 \<and> u < 0 then ACE_Time_Value (s - 1) (u + ACE_ONE_SECOND_IN_USECS)
       else if s < 0 \<and> u > 0 then ACE_Time_Value (s + 1) (u - ACE_ONE_SECOND_IN_USECS)
       else ACE_Time_Value s u)"
    using su unfolding p_def normalize_def by (cases tv) (simp split: if_splits)
  show "tv_total (normalize True tv) = max (TIME_T_MIN * 1000000 - 999999)
        (min (TIME_T_MAX * 1000000 + 999999) (tv_total tv))"
    "tv_normal (normalize True tv)"
    unfolding eq using normalize_last_step [of u s] * by simp_all
qed

section \<open>Order and arithmetic\<close>

lemma tv_less_total: "tv_normal a \<Longrightarrow> tv_normal b \<Longrightarrow> a < b \<longleftrightarrow> tv_total a < tv_total b"
  by (cases a; cases b) (auto simp: tv_normal_def tv_total_def tv_order_defs)

lemma tv_le_total: "tv_normal a \<Longrightarrow> tv_normal b \<Longrightarrow> a \<le> b \<longleftrightarrow> tv_total a \<le> tv_total b"
  by (simp add: linorder_not_less [symmetric] tv_less_total)

lemma tv_total_inj: "tv_normal a \<Longrightarrow> tv_normal b \<Longrightarrow> tv_total a = tv_total b \<Longrightarrow> a = b"
  by (intro order_antisym) (simp_all add: tv_le_total)

lemma tv_plus [tv_simps]: "tv_total (a + b) = tv_total a + tv_total b"
  by (simp add: plus_ace_time_value_def tv_add_assign_def normalize_total)
     (simp add: tv_total_def algebra_simps)

lemma tv_minus [tv_simps]: "tv_total (a - b) = tv_total a - tv_total (b :: ace_time_value)"
  by (simp add: minus_ace_time_value_def tv_sub_assign_def normalize_total)
     (simp add: tv_total_def algebra_simps)

lemma tv_plus_normal [simp]: "tv_normal (a + b)"
  by (simp add: plus_ace_time_value_def tv_add_assign_def normalize_normal)

lemma tv_minus_normal [simp]: "tv_normal (a - b)"
  by (simp add: minus_ace_time_value_def tv_sub_assign_def normalize_normal)

lemma tv_set_total [tv_simps]: "tv_total (tv_set s u) = s * 1000000 + u"
  by (simp add: tv_set_def normalize_total) (simp add: tv_total_def)

lemma tv_set_normal [simp]: "tv_normal (tv_set s u)"
  by (simp add: tv_set_def normalize_normal)

lemma zero_time_normal [simp]: "tv_normal zero_time"
  by (simp add: zero_time_def tv_normal_def)

lemma zero_time_total [simp]: "tv_total zero_time = 0"
  by (simp add: zero_time_def tv_total_def)

lemma tv_to_usec_total:
  "0 \<le> tv_total tv \<Longrightarrow> tv_total tv < 2 ^ 64 \<Longrightarrow> tv_to_usec tv = tv_total tv"
proof -
  have "tv_to_usec tv = tv_total tv mod 2 ^ 64"
    unfolding tv_to_usec_def tv_total_def by (metis mod_add_left_eq mod_mult_left_eq)
  then show "0 \<le> tv_total tv \<Longrightarrow> tv_total tv < 2 ^ 64 \<Longrightarrow> ?thesis" by simp
qed

section \<open>Properties\<close>

text \<open>C11: \<open>normalize\<close> ends for every pair of fields, keeps the time they denote, and leaves less
  than a second in the microseconds with a sign that agrees with the seconds'.\<close>

theorem normalize_correct:
  "tv_total (normalize False tv) = tv_total tv \<and> tv_normal (normalize False tv)"
  by (simp add: normalize_total normalize_normal)

text \<open>C12: In the saturating mode, from any seconds that fit in \<open>time_t\<close>, the time is clamped to
  what \<open>time_t\<close> seconds and 999999 microseconds can hold and the result is in normal form.\<close>

theorem normalize_saturates:
  assumes "TIME_T_MIN \<le> tv_sec tv" "tv_sec tv \<le> TIME_T_MAX"
  shows "tv_total (normalize True tv) =
      max (TIME_T_MIN * 1000000 - 999999) (min (TIME_T_MAX * 1000000 + 999999) (tv_total tv)) \<and>
    tv_normal (normalize True tv)"
  using normalize_saturating [OF assms] by simp

theorem normalize_saturates_witness:
  "normalize True (ACE_Time_Value (TIME_T_MAX - 1) 2500000) = max_time"
proof (rule tv_total_inj)
  let ?v = "ACE_Time_Value (TIME_T_MAX - 1) 2500000"
  show "tv_normal (normalize True ?v)" "tv_total (normalize True ?v) = tv_total max_time"
    using normalize_saturates [of ?v]
    by (simp_all add: TIME_T_MAX_def TIME_T_MIN_def max_time_def tv_total_def sec_def)
  show "tv_normal max_time" by (simp add: max_time_def tv_normal_def TIME_T_MAX_def sec_def)
qed

text \<open>On values in normal form the comparison operators compare the times denoted, equal times
  have equal fields, and addition, subtraction, increment and decrement are exact.\<close>

theorem time_value_arithmetic:
  assumes "tv_normal a" "tv_normal b"
  shows "(tv_greater a b \<longleftrightarrow> tv_total a > tv_total b) \<and>
    (tv_greater_eq a b \<longleftrightarrow> tv_total a \<ge> tv_total b) \<and> (a = b \<longleftrightarrow> tv_total a = tv_total b) \<and>
    tv_total (tv_add_assign a b) = tv_total a + tv_total b \<and>
    tv_total (tv_sub_assign a b) = tv_total a - tv_total b \<and>
    tv_total (tv_pre_incr a) = tv_total a + 1 \<and> tv_total (tv_pre_decr a) = tv_total a - 1 \<and>
    tv_normal (tv_add_assign a b) \<and> tv_normal (tv_sub_assign a b) \<and>
    tv_normal (tv_pre_incr a) \<and> tv_normal (tv_pre_decr a)"
  using assms tv_less_total [of b a] tv_le_total [of b a] tv_total_inj [of a b]
    tv_plus [of a b] tv_minus [of a b] tv_plus_normal [of a b] tv_minus_normal [of a b]
  by (auto simp: less_ace_time_value_def less_eq_ace_time_value_def plus_ace_time_value_def
      minus_ace_time_value_def tv_pre_incr_def tv_pre_decr_def normalize_total normalize_normal)
     (simp_all add: tv_total_def)

theorem time_value_arithmetic_witness:
  "tv_greater (ACE_Time_Value 2 5) (ACE_Time_Value (- 1) (- 7)) \<and>
   tv_total (tv_sub_assign (ACE_Time_Value 2 5) (ACE_Time_Value (- 1) (- 7))) = 3000012"
  using time_value_arithmetic [of "ACE_Time_Value 2 5" "ACE_Time_Value (- 1) (- 7)"]
  by (simp add: tv_normal_def tv_total_def)

text \<open>Converting milliseconds to a time value and back is the identity on the 64-bit range.\<close>

theorem msec_roundtrip:
  assumes "0 \<le> ms" "ms < 2 ^ 64"
  shows "tv_get_msec (tv_set_msec ms) = ms \<and> tv_normal (tv_set_msec ms) \<and>
    tv_total (tv_set_msec ms) = ms * 1000"
proof -
  let ?s = "ms div 1000" and ?r = "ms - ms div 1000 * 1000"
  have r: "?r = ms mod 1000" by (simp add: minus_div_mult_eq_mod)
  have "0 \<le> ?r" "?r < 1000" unfolding r by simp_all
  then have c: "cdiv (?r * 1000) 1000 = ?r" by (simp add: cdiv_nonneg)
  have "tv_get_msec (tv_set_msec ms) = (?s * 1000 + ?r) mod 2 ^ 64"
    unfolding tv_get_msec_def tv_set_msec_def Let_def ace_time_value.sel c
    by (metis mod_add_left_eq mod_mult_left_eq)
  moreover have "tv_total (tv_set_msec ms) = ms * 1000"
    unfolding tv_set_msec_def tv_total_def Let_def by simp
  moreover have "0 \<le> ?s" using assms by simp
  moreover have "tv_normal (tv_set_msec ms)"
    using \<open>0 \<le> ?r\<close> \<open>?r < 1000\<close> \<open>0 \<le> ?s\<close> by (simp add: tv_set_msec_def tv_normal_def Let_def)
  ultimately show ?thesis using assms by simp
qed

theorem msec_roundtrip_witness:
  "tv_get_msec (tv_set_msec 123456) = 123456 \<and> tv_set_msec 123456 = ACE_Time_Value 123 456000"
  using msec_roundtrip [of 123456] by (simp add: tv_set_msec_def)

end
