(* ===== verification/ACE_Timer_Queue.thy ===== *)
theory ACE_Timer_Queue
  imports ACE_Time_Value
begin

text \<open>
  \<^verbatim>\<open>ACE_Timer_Node_T\<close> (\<^verbatim>\<open>ace/Timer_Queue_Iterator.h\<close>, \<^verbatim>\<open>.inl\<close>) and the base class
  \<^verbatim>\<open>ACE_Timer_Queue_T\<close> (\<^verbatim>\<open>ace/Timer_Queue_T.cpp\<close>) with its virtual functions. The virtual
  functions of a concrete queue are the fields of \<open>timer_queue_ops\<close>; the base-class
  operations take them as an argument, as the C++ object carries its virtual table. Nodes
  live in the concrete queue's store and are named by their address.

  The template parameters are arguments too: \<open>TYPE\<close> is a type variable, the clock
  (\<open>gettimeofday_static\<close>) is the argument \<open>now\<close>, and the FUNCTOR's callbacks are records of
  functions on the user's state.
\<close>

section \<open>Timer nodes\<close>

record 't timer_node =
  nd_type :: 't
  nd_act :: addr
  nd_timer_value :: ace_time_value
  nd_interval :: ace_time_value
  nd_prev :: addr
  nd_next :: addr
  nd_timer_id :: int

record 't dispatch_info =
  di_type :: 't
  di_act :: addr
  di_recurring_timer :: bool

text \<open>The default constructor leaves \<open>type_\<close> to its own default.\<close>

definition node_init :: "'t timer_node \<Rightarrow> 't timer_node" where
  "node_init nd =
     nd\<lparr>nd_act := NULL, nd_timer_value := zero_time, nd_interval := zero_time,
        nd_prev := NULL, nd_next := NULL, nd_timer_id := -1\<rparr>"

definition node_set ::
  "'t \<Rightarrow> addr \<Rightarrow> ace_time_value \<Rightarrow> ace_time_value \<Rightarrow> addr \<Rightarrow> int \<Rightarrow> 't timer_node \<Rightarrow> 't timer_node" where
  "node_set type a t i n timer_id nd =
     nd\<lparr>nd_type := type, nd_act := a, nd_timer_value := t, nd_interval := i, nd_next := n,
        nd_timer_id := timer_id\<rparr>"

definition node_set_dll ::
  "'t \<Rightarrow> addr \<Rightarrow> ace_time_value \<Rightarrow> ace_time_value \<Rightarrow> addr \<Rightarrow> addr \<Rightarrow> int \<Rightarrow>
   't timer_node \<Rightarrow> 't timer_node" where
  "node_set_dll type a t i p n timer_id nd =
     nd\<lparr>nd_type := type, nd_act := a, nd_timer_value := t, nd_interval := i, nd_prev := p, nd_next := n,
        nd_timer_id := timer_id\<rparr>"

definition get_dispatch_info :: "'t timer_node \<Rightarrow> 't dispatch_info" where
  "get_dispatch_info nd =
     \<lparr>di_type = nd_type nd, di_act = nd_act nd, di_recurring_timer = nd_interval nd > zero_time\<rparr>"

section \<open>The virtual functions and the functor\<close>

record ('q, 't) timer_queue_ops =
  op_is_empty :: "'q \<Rightarrow> bool"
  op_earliest_time :: "'q \<Rightarrow> ace_time_value"
  op_remove_first :: "'q \<Rightarrow> 'q \<times> addr"
  op_reschedule :: "'q \<Rightarrow> addr \<Rightarrow> 'q"
  op_free_node :: "'q \<Rightarrow> addr \<Rightarrow> 'q"
  op_node :: "'q \<Rightarrow> addr \<Rightarrow> 't timer_node"
  op_set_node :: "'q \<Rightarrow> addr \<Rightarrow> 't timer_node \<Rightarrow> 'q"
  op_schedule_i :: "'q \<Rightarrow> 't \<Rightarrow> addr \<Rightarrow> ace_time_value \<Rightarrow> ace_time_value \<Rightarrow> 'q \<times> int"

text \<open>
  Callbacks made with the queue's lock held act on the user's state only; the callbacks
  around a timeout are made with the lock released and may also operate on the queue.
\<close>

record ('u, 't) upcall_functor =
  fn_registration :: "'t \<Rightarrow> addr \<Rightarrow> 'u \<Rightarrow> 'u"
  fn_cancel_type :: "'t \<Rightarrow> int \<Rightarrow> int \<Rightarrow> 'u \<Rightarrow> 'u \<times> int"
  fn_cancel_timer :: "'t \<Rightarrow> int \<Rightarrow> int \<Rightarrow> 'u \<Rightarrow> 'u"
  fn_deletion :: "'t \<Rightarrow> addr \<Rightarrow> 'u \<Rightarrow> 'u"

record ('s, 't) timeout_functor =
  fn_preinvoke :: "'t dispatch_info \<Rightarrow> ace_time_value \<Rightarrow> 's \<Rightarrow> 's \<times> addr"
  fn_timeout :: "'t dispatch_info \<Rightarrow> ace_time_value \<Rightarrow> 's \<Rightarrow> 's"
  fn_postinvoke :: "'t dispatch_info \<Rightarrow> ace_time_value \<Rightarrow> addr \<Rightarrow> 's \<Rightarrow> 's"

section \<open>Base-class operations\<close>

text \<open>
  \<open>calculate_timeout (max_wait_time)\<close> returns the caller's pointer, or a pointer to the
  member \<open>timeout_\<close> it has set. The result is the time the pointer designates (\<open>None\<close> for a
  null pointer) with the member's new value.
\<close>

definition calculate_timeout ::
  "('q, 't) timer_queue_ops \<Rightarrow> ace_time_value \<Rightarrow> 'q \<Rightarrow> ace_time_value \<Rightarrow> ace_time_value option \<Rightarrow>
   ace_time_value option \<times> ace_time_value" where
  "calculate_timeout ops now q timeout max_wait_time =
     (if op_is_empty ops q then (max_wait_time, timeout)
      else let cur_time = now in
        if op_earliest_time ops q > cur_time
        then let timeout' = op_earliest_time ops q - cur_time in
          if (case max_wait_time of None \<Rightarrow> True | Some w \<Rightarrow> w > timeout')
          then (Some timeout', timeout') else (max_wait_time, timeout')
        else (Some zero_time, zero_time))"

text \<open>
  The second form writes through \<open>the_timeout\<close>; a null \<open>the_timeout\<close> is \<open>None\<close>, and so is a
  null result. The second component is what \<open>the_timeout\<close> points to afterwards.
\<close>

definition calculate_timeout_into ::
  "('q, 't) timer_queue_ops \<Rightarrow> ace_time_value \<Rightarrow> 'q \<Rightarrow> ace_time_value option \<Rightarrow>
   ace_time_value option \<Rightarrow> ace_time_value option \<times> ace_time_value option" where
  "calculate_timeout_into ops now q max_wait_time the_timeout =
     (case the_timeout of None \<Rightarrow> (None, None)
      | Some t0 \<Rightarrow>
        if op_is_empty ops q
        then (case max_wait_time of Some w \<Rightarrow> (Some w, Some w) | None \<Rightarrow> (None, Some t0))
        else let cur_time = now in
          if op_earliest_time ops q > cur_time
          then let t = op_earliest_time ops q - cur_time;
                   t' = (if \<not> (case max_wait_time of None \<Rightarrow> True | Some w \<Rightarrow> w > t)
                         then (case max_wait_time of Some w \<Rightarrow> w | None \<Rightarrow> t) else t)
               in (Some t', Some t')
          else (Some zero_time, Some zero_time))"

definition current_time :: "ace_time_value \<Rightarrow> ace_time_value \<Rightarrow> ace_time_value" where
  "current_time now timer_skew = tv_add_assign now timer_skew"

definition schedule ::
  "('q, 't) timer_queue_ops \<Rightarrow> ('u, 't) upcall_functor \<Rightarrow> 'q \<times> 'u \<Rightarrow> 't \<Rightarrow> addr \<Rightarrow>
   ace_time_value \<Rightarrow> ace_time_value \<Rightarrow> ('q \<times> 'u) \<times> int" where
  "schedule ops f s type act future_time interval =
     (let (q, u) = s;
          (q', result) = op_schedule_i ops q type act future_time interval
      in if result = -1 then ((q', u), result)
         else ((q', fn_registration f type act u), result))"

text \<open>
  \<open>interval_usec\<close>, \<open>old_diff_usec\<close> and \<open>new_timer_usec\<close> are unsigned 64-bit. The caller has
  checked that the interval is positive, so the divisor is not zero.
\<close>

definition recompute_next_abs_interval_time ::
  "'t timer_node \<Rightarrow> ace_time_value \<Rightarrow> 't timer_node" where
  "recompute_next_abs_interval_time expired cur_time =
     (if nd_timer_value expired \<le> cur_time then
        let interval_usec = tv_to_usec (nd_interval expired);
            old_diff = cur_time - nd_timer_value expired;
            old_diff_usec = tv_to_usec old_diff;
            new_timer_usec = (interval_usec - old_diff_usec mod interval_usec) mod 2 ^ 64;
            new_timer_value =
              tv_set (tv_sec cur_time + new_timer_usec div ACE_ONE_SECOND_IN_USECS)
                     (tv_usec cur_time + new_timer_usec mod ACE_ONE_SECOND_IN_USECS)
        in expired\<lparr>nd_timer_value := new_timer_value\<rparr>
      else expired)"

definition dispatch_info_i ::
  "('q, 't) timer_queue_ops \<Rightarrow> 'q \<Rightarrow> ace_time_value \<Rightarrow> 'q \<times> 't dispatch_info option" where
  "dispatch_info_i ops q cur_time =
     (if op_is_empty ops q then (q, None)
      else if op_earliest_time ops q \<le> cur_time then
        let (q1, expired) = op_remove_first ops q;
            info = get_dispatch_info (op_node ops q1 expired)
        in if nd_interval (op_node ops q1 expired) > zero_time
           then let q2 = op_set_node ops q1 expired
                      (recompute_next_abs_interval_time (op_node ops q1 expired) cur_time)
                in (op_reschedule ops q2 expired, Some info)
           else (op_free_node ops q1 expired, Some info)
      else (q, None))"

text \<open>The loop of \<open>expire\<close>: it may run for ever when callbacks keep scheduling due timers.\<close>

partial_function (option) expire_loop ::
  "('q, 't) timer_queue_ops \<Rightarrow> ('q \<times> 'u, 't) timeout_functor \<Rightarrow> ace_time_value \<Rightarrow>
   'q \<times> 'u \<Rightarrow> nat \<Rightarrow> ((('q \<times> 'u) \<times> nat) option)" where
  "expire_loop ops f cur_time s number_of_timers_expired =
     (case dispatch_info_i ops (fst s) cur_time of
        (q, None) \<Rightarrow> Some ((q, snd s), number_of_timers_expired)
      | (q, Some info) \<Rightarrow>
          let (s1, upcall_act) = fn_preinvoke f info cur_time (q, snd s);
              s2 = fn_timeout f info cur_time s1;
              s3 = fn_postinvoke f info cur_time upcall_act s2
          in expire_loop ops f cur_time s3 (Suc number_of_timers_expired))"

declare expire_loop.simps [code]

definition expire ::
  "('q, 't) timer_queue_ops \<Rightarrow> ('q \<times> 'u, 't) timeout_functor \<Rightarrow> ace_time_value \<Rightarrow>
   'q \<times> 'u \<Rightarrow> (('q \<times> 'u) \<times> nat) option" where
  "expire ops f cur_time s =
     (if op_is_empty ops (fst s) then Some (s, 0) else expire_loop ops f cur_time s 0)"

definition expire_single ::
  "('q, 't) timer_queue_ops \<Rightarrow> ('q \<times> 'u, 't) timeout_functor \<Rightarrow> ('q \<times> 'u \<Rightarrow> 'q \<times> 'u) \<Rightarrow>
   ace_time_value \<Rightarrow> ace_time_value \<Rightarrow> 'q \<times> 'u \<Rightarrow> ('q \<times> 'u) \<times> int" where
  "expire_single ops f pre_dispatch_command now timer_skew s =
     (if op_is_empty ops (fst s) then (s, 0)
      else let cur_time = now + timer_skew in
        (case dispatch_info_i ops (fst s) cur_time of
           (q, None) \<Rightarrow> ((q, snd s), 0)
         | (q, Some info) \<Rightarrow>
             let (s1, upcall_act) = fn_preinvoke f info cur_time (q, snd s);
                 s2 = pre_dispatch_command s1;
                 s3 = fn_timeout f info cur_time s2
             in (fn_postinvoke f info cur_time upcall_act s3, 1)))"

section \<open>Skipping missed expirations\<close>

text \<open>
  The loop that \<open>recompute_next_abs_interval_time\<close> replaced, as its comment gives it: add the
  interval at least once, and again while the value is not past the current time.
\<close>

function skip_intervals :: "int \<Rightarrow> int \<Rightarrow> int \<Rightarrow> int" where
  "skip_intervals v i c =
     (if 0 < i \<and> v + i \<le> c then skip_intervals (v + i) i c else v + i)"
  by pat_completeness auto
termination
  by (relation "measure (\<lambda>(v, i, c). nat (c - v))") auto

declare skip_intervals.simps [simp del]

lemma skip_intervals_closed:
  "0 < i \<Longrightarrow> v \<le> c \<Longrightarrow> skip_intervals v i c = c + (i - (c - v) mod i)"
proof (induction v i c rule: skip_intervals.induct)
  case (1 v i c)
  show ?case
  proof (cases "v + i \<le> c")
    case True
    with 1 have "skip_intervals v i c = c + (i - (c - (v + i)) mod i)"
      by (simp add: skip_intervals.simps [of v i c])
    moreover have "(c - (v + i)) mod i = (c - v) mod i"
      by (metis diff_diff_eq minus_mod_self2)
    ultimately show ?thesis by simp
  next
    case False
    with "1.prems" show ?thesis by (simp add: skip_intervals.simps [of v i c])
  qed
qed

lemma recompute_total:
  assumes "tv_normal (nd_timer_value nd)" "tv_normal cur" "nd_timer_value nd \<le> cur"
    and "0 < tv_total (nd_interval nd)" "tv_total (nd_interval nd) < 2 ^ 64"
    and "tv_total cur - tv_total (nd_timer_value nd) < 2 ^ 64"
  shows "tv_total (nd_timer_value (recompute_next_abs_interval_time nd cur)) =
    skip_intervals (tv_total (nd_timer_value nd)) (tv_total (nd_interval nd)) (tv_total cur)"
proof -
  let ?i = "tv_total (nd_interval nd)" and ?d = "tv_total cur - tv_total (nd_timer_value nd)"
  have d: "0 \<le> ?d" using assms(1-3) by (simp add: tv_le_total)
  have usec: "tv_to_usec (nd_interval nd) = ?i" "tv_to_usec (cur - nd_timer_value nd) = ?d"
    using assms d by (simp_all add: tv_to_usec_total tv_minus)
  have "0 \<le> ?d mod ?i" "?d mod ?i < ?i" using assms(4) by simp_all
  then have wrap: "(?i - ?d mod ?i) mod 2 ^ 64 = ?i - ?d mod ?i"
    using assms(4,5) by (intro mod_pos_pos_trivial) linarith+
  have "tv_total (nd_timer_value (recompute_next_abs_interval_time nd cur)) =
      tv_total cur + (?i - ?d mod ?i)"
    using assms(3) unfolding recompute_next_abs_interval_time_def Let_def usec wrap
    by (simp add: tv_set_total sec_def tv_total_def [of cur] algebra_simps)
  also have "\<dots> = skip_intervals (tv_total (nd_timer_value nd)) ?i (tv_total cur)"
    using assms(4) d by (simp add: skip_intervals_closed)
  finally show ?thesis .
qed

lemma recompute_frame [simp]:
  "nd_type (recompute_next_abs_interval_time nd c) = nd_type nd"
  "nd_act (recompute_next_abs_interval_time nd c) = nd_act nd"
  "nd_interval (recompute_next_abs_interval_time nd c) = nd_interval nd"
  "nd_timer_id (recompute_next_abs_interval_time nd c) = nd_timer_id nd"
  "nd_prev (recompute_next_abs_interval_time nd c) = nd_prev nd"
  "nd_next (recompute_next_abs_interval_time nd c) = nd_next nd"
  by (simp_all add: recompute_next_abs_interval_time_def Let_def)


section \<open>What a concrete timer queue promises, and what the base class makes of it\<close>

text \<open>The client's part of a node: everything but the links.\<close>

definition entry :: "'t timer_node \<Rightarrow> 't \<times> addr \<times> ace_time_value \<times> ace_time_value \<times> int" where
  "entry nd = (nd_type nd, nd_act nd, nd_timer_value nd, nd_interval nd, nd_timer_id nd)"

lemma entry_cong:
  assumes "entry a = entry b"
  shows "nd_type a = nd_type b" "nd_act a = nd_act b" "nd_timer_value a = nd_timer_value b"
    "nd_interval a = nd_interval b" "nd_timer_id a = nd_timer_id b"
    "get_dispatch_info a = get_dispatch_info b"
  using assms by (simp_all add: entry_def get_dispatch_info_def)

lemma entry_recompute:
  "entry a = entry b \<Longrightarrow>
   entry (recompute_next_abs_interval_time a c) = entry (recompute_next_abs_interval_time b c)"
  by (simp add: entry_def recompute_next_abs_interval_time_def Let_def)

lemma recompute_later:
  assumes "tv_normal (nd_timer_value nd)" "tv_normal (nd_interval nd)" "tv_normal cur"
    and "nd_timer_value nd \<le> cur" "nd_interval nd > zero_time"
    and "tv_total (nd_interval nd) < 2 ^ 64"
    and "tv_total cur - tv_total (nd_timer_value nd) < 2 ^ 64"
  shows "cur < nd_timer_value (recompute_next_abs_interval_time nd cur)"
    and "tv_normal (nd_timer_value (recompute_next_abs_interval_time nd cur))"
proof -
  let ?nd = "recompute_next_abs_interval_time nd cur"
  have i: "0 < tv_total (nd_interval nd)"
    using assms(2,5) by (simp add: tv_less_total)
  have le: "tv_total (nd_timer_value nd) \<le> tv_total cur"
    using assms(1,3,4) by (simp add: tv_le_total)
  show normal: "tv_normal (nd_timer_value ?nd)"
    using assms(4) by (simp add: recompute_next_abs_interval_time_def Let_def)
  have "tv_total (nd_timer_value ?nd) = tv_total cur + (tv_total (nd_interval nd)
      - (tv_total cur - tv_total (nd_timer_value nd)) mod tv_total (nd_interval nd))"
    using recompute_total [OF assms(1,3,4) i assms(6,7)] i le by (simp add: skip_intervals_closed)
  moreover have "(tv_total cur - tv_total (nd_timer_value nd)) mod tv_total (nd_interval nd)
      < tv_total (nd_interval nd)"
    using i by simp
  ultimately show "cur < nd_timer_value ?nd"
    using normal assms(3) by (simp add: tv_less_total)
qed

text \<open>
  The abstract timer queue: a multiset of timers, each with its type, act, time and interval. \<open>expire\<close> dispatches
  the timers that are due and moves the periodic ones by whole intervals past the current time.
\<close>

type_synonym 't timer = "'t \<times> addr \<times> ace_time_value \<times> ace_time_value"

definition timer_of :: "'t timer_node \<Rightarrow> 't timer" where
  "timer_of nd = (nd_type nd, nd_act nd, nd_timer_value nd, nd_interval nd)"

fun timer_due :: "ace_time_value \<Rightarrow> 't timer \<Rightarrow> bool" where
  "timer_due c (type, act, t, i) \<longleftrightarrow> t \<le> c"

fun timer_periodic :: "'t timer \<Rightarrow> bool" where
  "timer_periodic (type, act, t, i) \<longleftrightarrow> i > zero_time"

fun timer_next :: "ace_time_value \<Rightarrow> 't timer \<Rightarrow> 't timer" where
  "timer_next c (type, act, t, i) = (type, act, tv_set 0 (skip_intervals (tv_total t) (tv_total i) (tv_total c)), i)"

fun timer_info :: "'t timer \<Rightarrow> 't dispatch_info" where
  "timer_info (type, act, t, i) = \<lparr>di_type = type, di_act = act, di_recurring_timer = i > zero_time\<rparr>"

fun timer_sane :: "ace_time_value \<Rightarrow> 't timer \<Rightarrow> bool" where
  "timer_sane c (type, act, t, i) \<longleftrightarrow> tv_normal t \<and> tv_normal i \<and> tv_total i < 2 ^ 64 \<and> tv_total c - tv_total t < 2 ^ 64"

definition dispatch_spec :: "ace_time_value \<Rightarrow> 't timer multiset \<Rightarrow> 't dispatch_info multiset" where
  "dispatch_spec c M = image_mset timer_info (filter_mset (timer_due c) M)"

definition expire_spec :: "ace_time_value \<Rightarrow> 't timer multiset \<Rightarrow> 't timer multiset" where
  "expire_spec c M = filter_mset (\<lambda>x. \<not> timer_due c x) M +
     image_mset (timer_next c) (filter_mset (\<lambda>x. timer_due c x \<and> timer_periodic x) M)"

definition queue_contents :: "('q, 't) timer_queue_ops \<Rightarrow> ('q \<Rightarrow> addr set) \<Rightarrow> 'q \<Rightarrow> 't timer multiset" where
  "queue_contents ops queued q = image_mset (\<lambda>a. timer_of (op_node ops q a)) (mset_set (queued q))"

lemma timer_of_simps [simp]:
  "timer_due c (timer_of nd) \<longleftrightarrow> nd_timer_value nd \<le> c" "timer_periodic (timer_of nd) \<longleftrightarrow> nd_interval nd > zero_time"
  "timer_info (timer_of nd) = get_dispatch_info nd"
  by (simp_all add: timer_of_def get_dispatch_info_def)

lemma timer_of_entry: "entry a = entry b \<Longrightarrow> timer_of a = timer_of b"
  by (simp add: entry_def timer_of_def)

lemma timer_of_recompute:
  assumes "timer_sane c (timer_of nd)" "tv_normal c" "nd_timer_value nd \<le> c" "nd_interval nd > zero_time"
  shows "timer_of (recompute_next_abs_interval_time nd c) = timer_next c (timer_of nd)"
proof -
  let ?s = "skip_intervals (tv_total (nd_timer_value nd)) (tv_total (nd_interval nd)) (tv_total c)"
  have n: "tv_normal (nd_timer_value nd)" "tv_normal (nd_interval nd)" "tv_total (nd_interval nd) < 2 ^ 64"
    "tv_total c - tv_total (nd_timer_value nd) < 2 ^ 64" using assms(1) by (simp_all add: timer_of_def)
  have "0 < tv_total (nd_interval nd)" using n(2) assms(4) by (simp add: tv_less_total)
  note t = recompute_total [OF n(1) assms(2,3) this n(3,4)]
  have "nd_timer_value (recompute_next_abs_interval_time nd c) = tv_set 0 ?s"
    using t recompute_later(2) [OF n(1,2) assms(2-4) n(3,4)] by (intro tv_total_inj) (simp_all add: tv_set_total)
  then show ?thesis by (simp add: timer_of_def)
qed

lemma image_filter_mset_set:
  "finite A \<Longrightarrow> filter_mset P (image_mset f (mset_set A)) = image_mset f (mset_set {a \<in> A. P (f a)})"
  by (simp add: filter_mset_image_mset comp_def)

text \<open>
  A functor that leaves the queue alone: the three callbacks around one timeout amount to a
  change \<open>g\<close> of the user's state.
\<close>

definition upcall_effect ::
  "('s, 't) timeout_functor \<Rightarrow> 't dispatch_info \<Rightarrow> ace_time_value \<Rightarrow> 's \<Rightarrow> 's" where
  "upcall_effect f info cur_time s =
     (let (s1, upcall_act) = fn_preinvoke f info cur_time s;
          s2 = fn_timeout f info cur_time s1
      in fn_postinvoke f info cur_time upcall_act s2)"

definition inert ::
  "('q \<times> 'u, 't) timeout_functor \<Rightarrow> ace_time_value \<Rightarrow> ('t dispatch_info \<Rightarrow> 'u \<Rightarrow> 'u) \<Rightarrow> bool" where
  "inert f cur_time g \<longleftrightarrow> (\<forall>info q u. upcall_effect f info cur_time (q, u) = (q, g info u))"

text \<open>
  The contract of the virtual functions. \<open>queued q\<close> is the set of nodes in the queue and
  \<open>inv q L\<close> the invariant of a queue from which the nodes \<open>L\<close> have been taken by
  \<open>remove_first\<close> and not yet been given back. \<open>ok\<close> says which times the queue can hold.
\<close>

locale timer_queue =
  fixes ops :: "('q, 't) timer_queue_ops"
    and inv :: "'q \<Rightarrow> addr set \<Rightarrow> bool"
    and queued :: "'q \<Rightarrow> addr set"
    and ok :: "ace_time_value \<Rightarrow> bool"
  assumes finite_queued: "inv q L \<Longrightarrow> finite (queued q)"
    and queued_detached: "inv q L \<Longrightarrow> queued q \<inter> L = {}"
    and is_empty: "inv q L \<Longrightarrow> op_is_empty ops q \<longleftrightarrow> queued q = {}"
    and earliest: "inv q L \<Longrightarrow> queued q \<noteq> {} \<Longrightarrow>
      op_earliest_time ops q = Min ((\<lambda>a. nd_timer_value (op_node ops q a)) ` queued q)"
    and remove_first: "inv q L \<Longrightarrow> queued q \<noteq> {} \<Longrightarrow> op_remove_first ops q = (q', n) \<Longrightarrow>
      n \<in> queued q \<and> nd_timer_value (op_node ops q n) = op_earliest_time ops q \<and>
      queued q' = queued q - {n} \<and> inv q' (insert n L) \<and>
      (\<forall>a \<in> queued q \<union> L. entry (op_node ops q' a) = entry (op_node ops q a))"
    and set_node: "inv q L \<Longrightarrow> n \<in> L \<Longrightarrow> ok (nd_timer_value nd) \<Longrightarrow>
      nd_timer_id nd = nd_timer_id (op_node ops q n) \<Longrightarrow>
      nd_prev nd = nd_prev (op_node ops q n) \<Longrightarrow> nd_next nd = nd_next (op_node ops q n) \<Longrightarrow>
      inv (op_set_node ops q n nd) L \<and> queued (op_set_node ops q n nd) = queued q \<and>
      (\<forall>a \<in> queued q \<union> L. entry (op_node ops (op_set_node ops q n nd) a) =
         (if a = n then entry nd else entry (op_node ops q a)))"
    and reschedule: "inv q L \<Longrightarrow> n \<in> L \<Longrightarrow>
      inv (op_reschedule ops q n) (L - {n}) \<and>
      queued (op_reschedule ops q n) = insert n (queued q) \<and>
      (\<forall>a \<in> queued q \<union> L. entry (op_node ops (op_reschedule ops q n) a) = entry (op_node ops q a))"
    and free_node: "inv q L \<Longrightarrow> n \<in> L \<Longrightarrow>
      inv (op_free_node ops q n) (L - {n}) \<and> queued (op_free_node ops q n) = queued q \<and>
      (\<forall>a \<in> queued q \<union> (L - {n}). entry (op_node ops (op_free_node ops q n) a) =
         entry (op_node ops q a))"
begin

definition val :: "'q \<Rightarrow> addr \<Rightarrow> ace_time_value" where
  "val q a = nd_timer_value (op_node ops q a)"

definition due :: "'q \<Rightarrow> ace_time_value \<Rightarrow> addr set" where
  "due q c = {a \<in> queued q. val q a \<le> c}"

definition sane :: "'q \<Rightarrow> ace_time_value \<Rightarrow> bool" where
  "sane q c \<longleftrightarrow> tv_normal c \<and> (\<forall>a \<in> queued q.
     tv_normal (val q a) \<and> tv_normal (nd_interval (op_node ops q a)) \<and>
     tv_total (nd_interval (op_node ops q a)) < 2 ^ 64 \<and> tv_total c - tv_total (val q a) < 2 ^ 64) \<and>
     (\<forall>a \<in> due q c. nd_interval (op_node ops q a) > zero_time \<longrightarrow>
       ok (nd_timer_value (recompute_next_abs_interval_time (op_node ops q a) c)))"

lemma earliest_le:
  assumes "inv q L" "a \<in> queued q"
  shows "op_earliest_time ops q \<le> val q a"
proof -
  from assms(2) have ne: "queued q \<noteq> {}" by auto
  show ?thesis
    unfolding earliest [OF assms(1) ne] val_def
    using finite_queued [OF assms(1)] assms(2) by (intro Min_le) auto
qed

lemma dispatch_none:
  assumes "inv q L" "dispatch_info_i ops q c = (q', None)"
  shows "q' = q" "due q c = {}"
proof -
  show "q' = q"
    using assms(2) by (auto simp: dispatch_info_i_def Let_def split: if_splits prod.splits)
  have "op_is_empty ops q \<or> \<not> op_earliest_time ops q \<le> c"
    using assms(2) by (auto simp: dispatch_info_i_def Let_def split: if_splits prod.splits)
  then show "due q c = {}"
    using is_empty [OF assms(1)] earliest_le [OF assms(1)] by (force simp: due_def)
qed

text \<open>One dispatched timer: an earliest one, freed or moved past the current time.\<close>

definition dispatched :: "'q \<Rightarrow> ace_time_value \<Rightarrow> 'q \<Rightarrow> addr \<Rightarrow> bool" where
  "dispatched q c q' n \<longleftrightarrow>
     n \<in> due q c \<and> (\<forall>a \<in> queued q. val q n \<le> val q a) \<and>
     queued q' = (if nd_interval (op_node ops q n) > zero_time then queued q else queued q - {n}) \<and>
     (\<forall>a \<in> queued q'. entry (op_node ops q' a) =
        entry (if a = n then recompute_next_abs_interval_time (op_node ops q n) c
               else op_node ops q a))"

lemma dispatch_some:
  assumes "inv q L" "dispatch_info_i ops q c = (q', Some info)" "sane q c"
  shows "\<exists>n. dispatched q c q' n \<and> info = get_dispatch_info (op_node ops q n) \<and> inv q' L"
proof -
  have ne: "queued q \<noteq> {}" and le: "op_earliest_time ops q \<le> c"
    using assms is_empty [OF assms(1)] by (auto simp: dispatch_info_i_def split: if_splits)
  obtain q1 n where rf: "op_remove_first ops q = (q1, n)" by fastforce
  note R = remove_first [OF assms(1) ne rf]
  have n: "n \<in> due q c" "\<forall>a \<in> queued q. val q n \<le> val q a"
    using R le earliest_le [OF assms(1)] by (auto simp: due_def val_def)
  have nL: "n \<notin> L" using R queued_detached [OF assms(1)] by auto
  then have L: "insert n L - {n} = L" by auto
  have E1: "entry (op_node ops q1 n) = entry (op_node ops q n)" using R by simp
  note info = entry_cong [OF E1]
  show ?thesis
  proof (cases "nd_interval (op_node ops q n) > zero_time")
    case True
    define nd where "nd = recompute_next_abs_interval_time (op_node ops q1 n) c"
    define q2 where "q2 = op_set_node ops q1 n nd"
    have d: "q' = op_reschedule ops q2 n" "info = get_dispatch_info (op_node ops q n)"
      using assms(2) ne le True is_empty [OF assms(1)] info rf
      by (auto simp: dispatch_info_i_def Let_def q2_def nd_def)
    have I1: "inv q1 (insert n L)" using R by simp
    have okn: "ok (nd_timer_value nd)"
      using assms(3) n(1) True entry_cong(3) [OF entry_recompute [OF E1]] by (auto simp: sane_def nd_def)
    have S: "inv q2 (insert n L)" "queued q2 = queued q1"
        "\<forall>a \<in> queued q1 \<union> insert n L. entry (op_node ops q2 a) =
           (if a = n then entry nd else entry (op_node ops q1 a))"
      using set_node [OF I1, of n nd] okn by (simp_all add: nd_def q2_def)
    have T: "inv q' L" "queued q' = queued q"
        "\<forall>a \<in> queued q2 \<union> insert n L. entry (op_node ops q' a) = entry (op_node ops q2 a)"
      using reschedule [OF S(1), of n] S(2) R L by (auto simp: d(1))
    have "dispatched q c q' n"
      unfolding dispatched_def using n R S(2,3) T True entry_recompute [OF E1]
      by (auto simp: nd_def)
    with d T(1) show ?thesis by blast
  next
    case False
    have d: "q' = op_free_node ops q1 n" "info = get_dispatch_info (op_node ops q n)"
      using assms(2) ne le False is_empty [OF assms(1)] info rf
      by (auto simp: dispatch_info_i_def Let_def)
    have T: "inv q' L" "queued q' = queued q - {n}"
        "\<forall>a \<in> queued q'. entry (op_node ops q' a) = entry (op_node ops q1 a)"
      using free_node [of q1 "insert n L" n] R L by (auto simp: d(1))
    have "dispatched q c q' n"
      unfolding dispatched_def using n R T False by auto
    with d T(1) show ?thesis by blast
  qed
qed

text \<open>What one dispatch leaves due, and that it keeps the queue's times in range.\<close>

lemma dispatched_due:
  assumes "dispatched q c q' n" "sane q c"
  shows "due q' c = due q c - {n}" "sane q' c"
proof -
  have n: "n \<in> queued q" "val q n \<le> c"
    using assms(1) by (auto simp: dispatched_def due_def)
  have sub: "queued q' \<subseteq> queued q" using assms(1) by (auto simp: dispatched_def split: if_splits)
  have other: "entry (op_node ops q' a) = entry (op_node ops q a)" if "a \<in> queued q'" "a \<noteq> n" for a
    using assms(1) that by (simp add: dispatched_def)
  have same: "val q' a = val q a" "nd_interval (op_node ops q' a) = nd_interval (op_node ops q a)"
    if "a \<in> queued q'" "a \<noteq> n" for a
    using entry_cong(3,4) [OF other [OF that]] by (simp_all add: val_def)
  have later: "c < val q' n" "tv_normal (val q' n)"
      "nd_interval (op_node ops q' n) = nd_interval (op_node ops q n)" if "n \<in> queued q'"
  proof -
    have i: "nd_interval (op_node ops q n) > zero_time"
      using that assms(1) by (auto simp: dispatched_def split: if_splits)
    have E: "entry (op_node ops q' n) = entry (recompute_next_abs_interval_time (op_node ops q n) c)"
      using assms(1) that by (simp add: dispatched_def)
    show "c < val q' n" "tv_normal (val q' n)"
      "nd_interval (op_node ops q' n) = nd_interval (op_node ops q n)"
      using recompute_later [of "op_node ops q n" c] i n assms(2) entry_cong(3,4) [OF E]
      by (auto simp: sane_def val_def)
  qed
  have "n \<notin> due q' c" using later(1) by (auto simp: due_def)
  moreover have "a \<in> due q' c \<longleftrightarrow> a \<in> due q c" if "a \<noteq> n" for a
    using same that assms(1) by (auto simp: due_def dispatched_def split: if_splits)
  ultimately have "a \<in> due q' c \<longleftrightarrow> a \<in> due q c - {n}" for a by (cases "a = n") simp_all
  then show due': "due q' c = due q c - {n}" by (rule set_eqI)
  have "tv_normal (val q' a) \<and> tv_normal (nd_interval (op_node ops q' a)) \<and>
     tv_total (nd_interval (op_node ops q' a)) < 2 ^ 64 \<and> tv_total c - tv_total (val q' a) < 2 ^ 64"
    if "a \<in> queued q'" for a
  proof (cases "a = n")
    case True
    with that later assms(2) n(1) have "tv_total c < tv_total (val q' a)"
      by (auto simp: sane_def tv_less_total)
    then show ?thesis using True that later assms(2) n(1) by (auto simp: sane_def)
  next
    case False
    then show ?thesis using that same [OF that] sub assms(2) by (auto simp: sane_def)
  qed
  moreover have "ok (nd_timer_value (recompute_next_abs_interval_time (op_node ops q' a) c))"
    if "a \<in> due q' c" "nd_interval (op_node ops q' a) > zero_time" for a
  proof -
    have a: "a \<in> queued q'" "a \<noteq> n" "a \<in> due q c" using that(1) due' by (auto simp: due_def)
    have "ok (nd_timer_value (recompute_next_abs_interval_time (op_node ops q a) c))"
      using assms(2) a(3) that(2) same(2) [OF a(1,2)] by (simp add: sane_def)
    then show ?thesis using entry_cong(3) [OF entry_recompute [OF other [OF a(1,2)]]] by simp
  qed
  ultimately show "sane q' c" using assms(2) by (simp add: sane_def)
qed

text \<open>
  \<open>expire\<close> with callbacks that leave the queue alone: every due timer is dispatched once, in the
  order of the times, and the loop ends with nothing due; one-shot timers are gone and
  periodic ones have moved past the current time.
\<close>

definition expired_to :: "'q \<Rightarrow> ace_time_value \<Rightarrow> 'q \<Rightarrow> bool" where
  "expired_to q c q' \<longleftrightarrow>
     queued q' = queued q - {a \<in> due q c. \<not> nd_interval (op_node ops q a) > zero_time} \<and>
     (\<forall>a \<in> queued q'. entry (op_node ops q' a) =
        entry (if a \<in> due q c then recompute_next_abs_interval_time (op_node ops q a) c
               else op_node ops q a)) \<and>
     due q' c = {}"

lemma expired_to_step:
  assumes "dispatched q c q1 n" "sane q c" "expired_to q1 c q'"
  shows "expired_to q c q'"
proof -
  note D = dispatched_due [OF assms(1,2)]
  have n: "n \<in> due q c" "n \<in> queued q" using assms(1) by (auto simp: dispatched_def due_def)
  have q1: "queued q1 = (if nd_interval (op_node ops q n) > zero_time then queued q else queued q - {n})"
    using assms(1) by (simp add: dispatched_def)
  have sub: "due q c \<subseteq> queued q" "due q1 c \<subseteq> queued q1" by (auto simp: due_def)
  have E: "entry (op_node ops q1 a) = entry (op_node ops q a)" if "a \<in> queued q1" "a \<noteq> n" for a
    using assms(1) that by (simp add: dispatched_def)
  have En: "entry (op_node ops q1 n) = entry (recompute_next_abs_interval_time (op_node ops q n) c)"
    if "n \<in> queued q1"
    using assms(1) that by (simp add: dispatched_def)
  have I: "{a \<in> due q1 c. \<not> nd_interval (op_node ops q1 a) > zero_time} =
      {a \<in> due q c. \<not> nd_interval (op_node ops q a) > zero_time} - {n}"
    using D(1) sub(2) entry_cong(4) [OF E] by auto
  have Q: "queued q' = queued q - {a \<in> due q c. \<not> nd_interval (op_node ops q a) > zero_time}"
    using assms(3) n q1 unfolding expired_to_def I by auto
  have "entry (op_node ops q' a) = entry (if a \<in> due q c
      then recompute_next_abs_interval_time (op_node ops q a) c else op_node ops q a)"
    if a: "a \<in> queued q'" for a
  proof -
    have a1: "a \<in> queued q1" using a assms(3) by (auto simp: expired_to_def)
    have *: "entry (op_node ops q' a) = entry (if a \<in> due q1 c
        then recompute_next_abs_interval_time (op_node ops q1 a) c else op_node ops q1 a)"
      using a assms(3) by (simp add: expired_to_def)
    show ?thesis
      using * D(1) n(1) E [OF a1] En a1 entry_recompute [OF E [OF a1]] by (cases "a = n") auto
  qed
  with Q assms(3) show ?thesis by (simp add: expired_to_def)
qed

lemma expire_loop_unfold:
  assumes "inert f c g"
  shows "expire_loop ops f c (q, u) k =
    (case dispatch_info_i ops q c of
       (q1, None) \<Rightarrow> Some ((q1, u), k)
     | (q1, Some info) \<Rightarrow> expire_loop ops f c (q1, g info u) (Suc k))"
proof -
  have "(let (s1, upcall_act) = fn_preinvoke f info c (q1, u); s2 = fn_timeout f info c s1;
           s3 = fn_postinvoke f info c upcall_act s2
         in expire_loop ops f c s3 (Suc k)) = expire_loop ops f c (q1, g info u) (Suc k)" for q1 info
    using assms by (auto simp: inert_def upcall_effect_def Let_def split: prod.splits)
  then show ?thesis
    by (subst expire_loop.simps) (simp split: prod.split option.split)
qed

lemma expire_loop_correct:
  assumes "inert f c g"
  shows "inv q L \<Longrightarrow> sane q c \<Longrightarrow> \<exists>q' ns.
    expire_loop ops f c (q, u) k =
      Some ((q', fold (\<lambda>n. g (get_dispatch_info (op_node ops q n))) ns u), k + card (due q c)) \<and>
    distinct ns \<and> set ns = due q c \<and> sorted (map (val q) ns) \<and> inv q' L \<and> expired_to q c q'"
proof (induction "card (due q c)" arbitrary: q u k)
  case 0
  have "finite (due q c)" using finite_queued [OF 0(2)] by (simp add: due_def)
  with 0 have none: "due q c = {}" by simp
  obtain q1 r where d: "dispatch_info_i ops q c = (q1, r)" by fastforce
  have "r = None"
    using d dispatch_some [OF 0(2) _ 0(3), of q1] none by (cases r) (auto simp: dispatched_def)
  with d dispatch_none [OF 0(2)] have d': "dispatch_info_i ops q c = (q, None)" by auto
  show ?case
    using none 0(2) expire_loop_unfold [OF assms, of q u k]
    by (intro exI [of _ q] exI [of _ "[]"]) (simp add: d' expired_to_def)
next
  case (Suc m)
  have fin: "finite (due q c)" using finite_queued [OF Suc(3)] by (simp add: due_def)
  obtain q1 r where d: "dispatch_info_i ops q c = (q1, r)" by fastforce
  have "r \<noteq> None"
  proof
    assume "r = None"
    with d dispatch_none(2) [OF Suc(3)] have "due q c = {}" by simp
    with Suc(2) show False by simp
  qed
  then obtain info where r: "r = Some info" by auto
  obtain n where n: "dispatched q c q1 n" "info = get_dispatch_info (op_node ops q n)" "inv q1 L"
    using dispatch_some [OF Suc(3) _ Suc(4)] d r by blast
  note D = dispatched_due [OF n(1) Suc(4)]
  have nd: "n \<in> due q c" using n(1) by (simp add: dispatched_def)
  then have card: "card (due q1 c) = m" "card (due q c) = Suc m"
    using Suc(2) D(1) fin by simp_all
  obtain q' ns where IH: "expire_loop ops f c (q1, g info u) (Suc k) =
      Some ((q', fold (\<lambda>n. g (get_dispatch_info (op_node ops q1 n))) ns (g info u)),
        Suc k + card (due q1 c))"
    "distinct ns" "set ns = due q1 c" "sorted (map (val q1) ns)" "inv q' L" "expired_to q1 c q'"
    using Suc(1) [OF card(1) [symmetric] n(3) D(2)] by blast
  have same: "entry (op_node ops q1 a) = entry (op_node ops q a)" if "a \<in> set ns" for a
    using n(1) that IH(3) D(1) by (auto simp: dispatched_def due_def)
  have vals: "map (val q) ns = map (val q1) ns"
    using entry_cong(3) [OF same] by (simp add: val_def)
  have least: "\<forall>a \<in> set ns. val q n \<le> val q a"
    using n(1) IH(3) D(1) by (auto simp: dispatched_def due_def)
  have infos: "fold (\<lambda>n. g (get_dispatch_info (op_node ops q1 n))) ns v =
      fold (\<lambda>n. g (get_dispatch_info (op_node ops q n))) ns v" for v
    using entry_cong(6) [OF same] by (intro fold_cong) simp_all
  have "expire_loop ops f c (q, u) k =
      Some ((q', fold (\<lambda>n. g (get_dispatch_info (op_node ops q n))) (n # ns) u), k + card (due q c))"
    using expire_loop_unfold [OF assms, of q u k] d r IH(1) card infos by (simp add: n(2))
  moreover have "distinct (n # ns)" "set (n # ns) = due q c"
    using IH(2,3) D(1) nd by auto
  moreover have "sorted (map (val q) (n # ns))"
    using IH(4) least by (simp add: vals [symmetric])
  ultimately show ?case
    using IH(5) expired_to_step [OF n(1) Suc(4) IH(6)] by blast
qed

lemma expire_correct:
  assumes "inert f c g" "inv q L" "sane q c"
  shows "\<exists>q' ns. expire ops f c (q, u) =
      Some ((q', fold (\<lambda>n. g (get_dispatch_info (op_node ops q n))) ns u), card (due q c)) \<and>
    distinct ns \<and> set ns = due q c \<and> sorted (map (val q) ns) \<and> inv q' L \<and> expired_to q c q'"
proof (cases "op_is_empty ops q")
  case True
  then have "due q c = {}" "queued q = {}" using is_empty [OF assms(2)] by (auto simp: due_def)
  with True assms(2) show ?thesis
    by (intro exI [of _ q] exI [of _ "[]"]) (simp add: expire_def expired_to_def)
next
  case False
  then show ?thesis using expire_loop_correct [OF assms, of u 0] by (simp add: expire_def)
qed

text \<open>The concrete queue refines the multiset of timers.\<close>

lemma expire_refines:
  assumes "inert f c g" "inv q L" "sane q c"
  shows "\<exists>q' infos. expire ops f c (q, u) = Some ((q', fold g infos u), length infos) \<and> inv q' L \<and>
    mset infos = dispatch_spec c (queue_contents ops queued q) \<and>
    queue_contents ops queued q' = expire_spec c (queue_contents ops queued q)"
proof -
  obtain q' ns where E: "expire ops f c (q, u) =
      Some ((q', fold (\<lambda>n. g (get_dispatch_info (op_node ops q n))) ns u), card (due q c))"
    "distinct ns" "set ns = due q c" "inv q' L" "expired_to q c q'"
    using expire_correct [OF assms] by blast
  let ?t = "\<lambda>a. timer_of (op_node ops q a)" and ?p = "{a \<in> due q c. nd_interval (op_node ops q a) > zero_time}"
  define infos where "infos = map (\<lambda>n. get_dispatch_info (op_node ops q n)) ns"
  have fin: "finite (queued q)" by (rule finite_queued [OF assms(2)])
  note F = image_filter_mset_set [OF fin, of _ ?t]
  have d: "{a \<in> queued q. timer_due c (?t a)} = due q c" "{a \<in> queued q. \<not> timer_due c (?t a)} = queued q - due q c"
    "{a \<in> queued q. timer_due c (?t a) \<and> timer_periodic (?t a)} = ?p" by (auto simp: due_def val_def)
  have "mset infos = dispatch_spec c (queue_contents ops queued q)"
    using E(2,3) unfolding dispatch_spec_def queue_contents_def F d infos_def
    by (simp add: image_mset.compositionality comp_def mset_set_set [symmetric])
  moreover have "queue_contents ops queued q' = expire_spec c (queue_contents ops queued q)"
  proof -
    have q': "queued q' = (queued q - due q c) \<union> ?p" using E(5) by (auto simp: expired_to_def due_def)
    have late: "timer_of (op_node ops q' a) = ?t a" if "a \<in> queued q - due q c" for a
      using E(5) that q' by (intro timer_of_entry) (simp add: expired_to_def)
    have moved: "timer_of (op_node ops q' a) = timer_next c (?t a)" if "a \<in> ?p" for a
    proof -
      have a: "a \<in> queued q'" "a \<in> queued q" "val q a \<le> c" using that q' by (auto simp: due_def)
      have "timer_of (op_node ops q' a) = timer_of (recompute_next_abs_interval_time (op_node ops q a) c)"
        using E(5) that a(1) by (intro timer_of_entry) (simp add: expired_to_def)
      then show ?thesis
        using timer_of_recompute [of c "op_node ops q a"] assms(3) a that
        by (simp add: sane_def val_def) (simp add: timer_of_def)
    qed
    have "mset_set (queued q') = mset_set (queued q - due q c) + mset_set ?p"
      unfolding q' using fin by (intro mset_set_Union) (auto simp: due_def)
    then have "queue_contents ops queued q' = image_mset ?t (mset_set (queued q - due q c)) +
        image_mset (\<lambda>a. timer_next c (?t a)) (mset_set ?p)"
      unfolding queue_contents_def using late moved fin
      by (auto simp: due_def intro!: arg_cong2 [of _ _ _ _ "(+)"] image_mset_cong)
    then show ?thesis
      unfolding expire_spec_def queue_contents_def F d by (simp add: image_mset.compositionality comp_def)
  qed
  moreover have "fold (\<lambda>n. g (get_dispatch_info (op_node ops q n))) ns u = fold g infos u"
    by (simp add: infos_def fold_map comp_def)
  moreover have "card (due q c) = length infos" using distinct_card [OF E(2)] E(3) by (simp add: infos_def)
  ultimately show ?thesis using E(1,4) by (intro exI [of _ q'] exI [of _ infos]) simp
qed

lemma sane_contents:
  assumes "inv q L" "tv_normal c" "\<forall>x \<in># queue_contents ops queued q. timer_sane c x"
    and "\<And>a. a \<in> due q c \<Longrightarrow> nd_interval (op_node ops q a) > zero_time \<Longrightarrow>
      ok (nd_timer_value (recompute_next_abs_interval_time (op_node ops q a) c))"
  shows "sane q c"
proof -
  have "timer_sane c (timer_of (op_node ops q a))" if "a \<in> queued q" for a
    using assms(3) that finite_queued [OF assms(1)] by (simp add: queue_contents_def)
  then show ?thesis using assms(2,4) by (simp add: sane_def val_def timer_of_def)
qed

text \<open>The wait computed for the event loop: never past the earliest timer, never negative.\<close>

lemma earliest_attained:
  assumes "inv q L" "queued q \<noteq> {}"
  shows "\<exists>a \<in> queued q. op_earliest_time ops q = val q a"
proof -
  have "op_earliest_time ops q \<in> (\<lambda>a. nd_timer_value (op_node ops q a)) ` queued q"
    unfolding earliest [OF assms] using finite_queued [OF assms(1)] assms(2)
    by (intro Min_in) auto
  then show ?thesis by (auto simp: val_def)
qed

lemma calculate_timeout_correct:
  assumes "inv q L" "queued q \<noteq> {}" "tv_normal now" "\<forall>a \<in> queued q. tv_normal (val q a)"
    and "\<forall>m. max_wait = Some m \<longrightarrow> tv_normal m"
  shows "\<exists>w a. fst (calculate_timeout ops now q t0 max_wait) = Some w \<and>
    a \<in> queued q \<and> (\<forall>b \<in> queued q. val q a \<le> val q b) \<and>
    tv_total w = (let d = tv_total (val q a) - tv_total now
      in if d \<le> 0 then 0 else case max_wait of None \<Rightarrow> d | Some m \<Rightarrow> min (tv_total m) d)"
proof -
  obtain a where a: "a \<in> queued q" "op_earliest_time ops q = val q a"
    using earliest_attained [OF assms(1,2)] by blast
  have least: "\<forall>b \<in> queued q. val q a \<le> val q b"
    using earliest_le [OF assms(1)] a by auto
  have ne: "\<not> op_is_empty ops q" using is_empty [OF assms(1)] assms(2) by simp
  have na: "tv_normal (val q a)" using a assms(4) by simp
  have d: "val q a > now \<longleftrightarrow> tv_total (val q a) - tv_total now > 0"
    using tv_less_total [OF assms(3) na] by auto
  have m: "m > val q a - now \<longleftrightarrow> tv_total m > tv_total (val q a) - tv_total now"
    if "max_wait = Some m" for m
    using that assms(5) tv_less_total [of "val q a - now" m] by (simp add: tv_minus)
  have "\<exists>w. fst (calculate_timeout ops now q t0 max_wait) = Some w \<and>
    tv_total w = (let d = tv_total (val q a) - tv_total now
      in if d \<le> 0 then 0 else case max_wait of None \<Rightarrow> d | Some m \<Rightarrow> min (tv_total m) d)"
    using ne a(2) d m
    by (cases max_wait) (auto simp: calculate_timeout_def Let_def tv_minus min_def)
  with a(1) least show ?thesis by blast
qed

end

section \<open>Properties\<close>

text \<open>C9: The closed form of \<open>recompute_next_abs_interval_time\<close> agrees with the loop it replaced
  (add the interval until the time is past the current time), as long as the interval and the
  delay fit in 64 bits of microseconds; nothing else of the node changes.\<close>

theorem recompute_is_skip_loop:
  assumes "tv_normal (nd_timer_value expired)" "tv_normal (nd_interval expired)" "tv_normal cur_time"
    and "nd_timer_value expired \<le> cur_time" "nd_interval expired > zero_time"
    and "tv_total (nd_interval expired) < 2 ^ 64"
    and "tv_total cur_time - tv_total (nd_timer_value expired) < 2 ^ 64"
  shows "tv_total (nd_timer_value (recompute_next_abs_interval_time expired cur_time)) =
      skip_intervals (tv_total (nd_timer_value expired)) (tv_total (nd_interval expired))
        (tv_total cur_time) \<and>
    cur_time < nd_timer_value (recompute_next_abs_interval_time expired cur_time) \<and>
    recompute_next_abs_interval_time expired cur_time = expired\<lparr>nd_timer_value :=
      nd_timer_value (recompute_next_abs_interval_time expired cur_time)\<rparr>"
proof -
  have "0 < tv_total (nd_interval expired)" using assms(2,5) by (simp add: tv_less_total)
  then show ?thesis
    using recompute_total [OF assms(1,3,4) _ assms(6,7)] recompute_later(1) [OF assms]
    by (simp add: recompute_next_abs_interval_time_def Let_def)
qed

theorem recompute_is_skip_loop_witness:
  "tv_total (nd_timer_value (recompute_next_abs_interval_time
      \<lparr>nd_type = (), nd_act = 0, nd_timer_value = ACE_Time_Value 5 0, nd_interval = ACE_Time_Value 2 0,
       nd_prev = 0, nd_next = 0, nd_timer_id = 1\<rparr> (ACE_Time_Value 10 500000))) = 11000000"
proof -
  let ?n = "\<lparr>nd_type = (), nd_act = 0, nd_timer_value = ACE_Time_Value 5 0,
    nd_interval = ACE_Time_Value 2 0, nd_prev = 0, nd_next = 0, nd_timer_id = 1\<rparr>"
  have "tv_total (nd_timer_value (recompute_next_abs_interval_time ?n (ACE_Time_Value 10 500000))) =
      skip_intervals 5000000 2000000 10500000"
    using recompute_is_skip_loop [of ?n "ACE_Time_Value 10 500000"]
    by (simp add: tv_normal_def tv_total_def tv_order_defs zero_time_def)
  then show ?thesis by (simp add: skip_intervals_closed)
qed

end
