(* ===== verification/ACE_Links.thy ===== *)
theory ACE_Links
  imports ACE_Prelude
begin

text \<open>
  Linked lists in a store: predicates that say which addresses a chain of links visits, and
  what linking a node in and out does to them. Every component that keeps its nodes on a
  linked list uses these lemmas.
\<close>

section \<open>Null-terminated singly linked chains\<close>

primrec chain :: "(addr \<Rightarrow> addr) \<Rightarrow> addr \<Rightarrow> addr list \<Rightarrow> bool" where
  "chain nxt p [] \<longleftrightarrow> p = NULL"
| "chain nxt p (x # xs) \<longleftrightarrow> p = x \<and> x \<noteq> NULL \<and> chain nxt (nxt x) xs"

lemma chain_upd [simp]: "y \<notin> set xs \<Longrightarrow> chain (nxt(y := z)) p xs \<longleftrightarrow> chain nxt p xs"
  by (induction xs arbitrary: p) auto

lemma chain_cong: "(\<And>x. x \<in> set xs \<Longrightarrow> f x = g x) \<Longrightarrow> chain f p xs \<longleftrightarrow> chain g p xs"
  by (induction xs arbitrary: p) auto

lemma chain_unique: "chain nxt p xs \<Longrightarrow> chain nxt p ys \<Longrightarrow> xs = ys"
proof (induction xs arbitrary: p ys)
  case Nil
  then show ?case by (cases ys) auto
next
  case (Cons x xs)
  then show ?case by (cases ys) auto
qed

lemma chain_NULL_iff: "chain nxt p xs \<Longrightarrow> p = NULL \<longleftrightarrow> xs = []"
  by (cases xs) auto

lemma chain_nonnull: "chain nxt p xs \<Longrightarrow> NULL \<notin> set xs"
  by (induction xs arbitrary: p) auto

lemma chain_head: "chain nxt p xs \<Longrightarrow> p \<noteq> NULL \<Longrightarrow> \<exists>ys. xs = p # ys \<and> chain nxt (nxt p) ys"
  by (cases xs) auto

text \<open>Appending a second chain behind the last node of a first one.\<close>

lemma chain_append:
  "chain nxt p (xs @ [l]) \<Longrightarrow> distinct (xs @ [l]) \<Longrightarrow> l \<notin> set ys \<Longrightarrow> chain nxt q ys \<Longrightarrow>
   chain (nxt(l := q)) p (xs @ l # ys)"
  by (induction xs arbitrary: p) auto

text \<open>Walking to the last node of a chain, as the code does with a trailing pointer.\<close>

primrec walk_to_last :: "(addr \<Rightarrow> addr) \<Rightarrow> nat \<Rightarrow> addr \<Rightarrow> addr \<Rightarrow> addr" where
  "walk_to_last nxt 0 previous current = previous"
| "walk_to_last nxt (Suc fuel) previous current =
     (if current \<noteq> NULL then walk_to_last nxt fuel current (nxt current) else previous)"

lemma walk_to_last_chain:
  "chain nxt current xs \<Longrightarrow> length xs \<le> fuel \<Longrightarrow>
   walk_to_last nxt fuel previous current = last (previous # xs)"
proof (induction xs arbitrary: fuel previous current)
  case Nil
  then show ?case by (cases fuel) auto
next
  case (Cons x xs)
  then show ?case by (cases fuel) auto
qed

section \<open>Circular doubly linked lists with a sentinel\<close>

primrec seg :: "(addr \<Rightarrow> addr) \<Rightarrow> (addr \<Rightarrow> addr) \<Rightarrow> addr \<Rightarrow> addr list \<Rightarrow> addr \<Rightarrow> bool" where
  "seg nxt prv p [] z \<longleftrightarrow> nxt p = z \<and> prv z = p"
| "seg nxt prv p (x # xs) z \<longleftrightarrow> nxt p = x \<and> prv x = p \<and> seg nxt prv x xs z"

definition ring :: "(addr \<Rightarrow> addr) \<Rightarrow> (addr \<Rightarrow> addr) \<Rightarrow> addr \<Rightarrow> addr list \<Rightarrow> bool" where
  "ring nxt prv h xs \<longleftrightarrow> distinct (h # xs) \<and> seg nxt prv h xs h"

lemma seg_append:
  "seg nxt prv p (xs @ y # ys) z \<longleftrightarrow> seg nxt prv p xs y \<and> seg nxt prv y ys z"
  by (induction xs arbitrary: p) auto

lemma seg_first: "seg nxt prv p xs z \<Longrightarrow> nxt p = hd (xs @ [z])"
  by (cases xs) auto

lemma seg_last: "seg nxt prv p xs z \<Longrightarrow> prv z = last (p # xs)"
  by (induction xs arbitrary: p) auto

lemma seg_cong:
  assumes "\<And>x. x \<in> set (p # xs) \<Longrightarrow> nxt x = nxt' x" "\<And>x. x \<in> set (xs @ [z]) \<Longrightarrow> prv x = prv' x"
  shows "seg nxt prv p xs z \<longleftrightarrow> seg nxt' prv' p xs z"
  using assms by (induction xs arbitrary: p) auto

lemma ring_first: "ring nxt prv h xs \<Longrightarrow> nxt h = hd (xs @ [h])"
  by (auto simp: ring_def dest: seg_first)

lemma ring_last: "ring nxt prv h xs \<Longrightarrow> prv h = last (h # xs)"
  by (auto simp: ring_def dest: seg_last)

lemma ring_empty_iff: "ring nxt prv h xs \<Longrightarrow> nxt h = h \<longleftrightarrow> xs = []"
  by (cases xs) (auto simp: ring_def)

lemma ring_cong:
  assumes "\<And>x. x \<in> set (h # xs) \<Longrightarrow> nxt x = nxt' x" "\<And>x. x \<in> set (h # xs) \<Longrightarrow> prv x = prv' x"
  shows "ring nxt prv h xs \<longleftrightarrow> ring nxt' prv' h xs"
  unfolding ring_def using seg_cong [of h xs nxt nxt' h prv prv'] assms by auto

text \<open>The neighbours of a node.\<close>

lemma ring_neighbours:
  assumes "ring nxt prv h (ys @ n # zs)"
  shows "prv n = last (h # ys)" "nxt n = hd (zs @ [h])"
proof -
  have "seg nxt prv h ys n" "seg nxt prv n zs h" using assms by (auto simp: ring_def seg_append)
  then show "prv n = last (h # ys)" "nxt n = hd (zs @ [h])"
    using seg_last seg_first by blast+
qed

lemma ring_next_after:
  assumes "ring nxt prv h (ys @ zs)"
  shows "nxt (last (h # ys)) = hd (zs @ [h])"
proof (cases ys rule: rev_cases)
  case Nil
  then show ?thesis using ring_first [OF assms] by simp
next
  case (snoc ys' y)
  then have "ring nxt prv h (ys' @ y # zs)" using assms by simp
  from ring_neighbours(2) [OF this] snoc show ?thesis by simp
qed

text \<open>Linking a node in behind \<open>p\<close>: both links of the node, then its neighbours'.\<close>

lemma seg_insert:
  assumes "seg nxt prv a (ys @ zs) z" "distinct (a # ys @ zs)" "n \<notin> set (a # ys @ zs)" "n \<noteq> z"
    and "z \<notin> set (ys @ zs)"
    and "p = last (a # ys)" "q = hd (zs @ [z])"
  shows "seg (nxt(n := q, p := n)) (prv(n := p, q := n)) a (ys @ n # zs) z"
  using assms
proof (induction ys arbitrary: a)
  case Nil
  show ?case
  proof (cases zs)
    case Nil
    with Nil.prems show ?thesis by auto
  next
    case (Cons b bs)
    with Nil.prems have "seg nxt prv b bs z" by auto
    moreover have "seg (nxt(n := q, p := n)) (prv(n := p, q := n)) b bs z \<longleftrightarrow> seg nxt prv b bs z"
      using Nil.prems Cons by (intro seg_cong) auto
    ultimately show ?thesis using Nil.prems Cons
      by (simp del: fun_upd_apply add: fun_upd_same fun_upd_other)
  qed
next
  case (Cons y ys)
  have "seg (nxt(n := q, p := n)) (prv(n := p, q := n)) y (ys @ n # zs) z"
    using Cons.prems by (intro Cons.IH) auto
  moreover have "p \<noteq> a" using Cons.prems last_in_set_Cons [of y ys] by auto
  moreover have "q \<noteq> y" using Cons.prems hd_in_set_snoc [of zs z] by auto
  ultimately show ?case using Cons.prems
    by (simp del: fun_upd_apply last.simps add: fun_upd_same fun_upd_other)
qed

lemma ring_insert:
  assumes "ring nxt prv h (ys @ zs)" "n \<notin> set (h # ys @ zs)"
    and "p = last (h # ys)" "q = hd (zs @ [h])"
  shows "ring (nxt(n := q, p := n)) (prv(n := p, q := n)) h (ys @ n # zs)"
  unfolding ring_def using assms seg_insert [of nxt prv h ys zs h n p q] by (auto simp: ring_def)

text \<open>Unlinking a node: its neighbours are linked to each other.\<close>

lemma seg_remove:
  assumes "seg nxt prv a (ys @ n # zs) z" "distinct (a # ys @ n # zs)" "z \<notin> set (ys @ n # zs)"
    and "p = last (a # ys)" "q = hd (zs @ [z])"
  shows "seg (nxt(p := q)) (prv(q := p)) a (ys @ zs) z"
  using assms
proof (induction ys arbitrary: a)
  case Nil
  show ?case
  proof (cases zs)
    case Nil
    with Nil.prems show ?thesis by auto
  next
    case (Cons b bs)
    with Nil.prems have "seg nxt prv b bs z" by auto
    moreover have "seg (nxt(p := q)) (prv(q := p)) b bs z \<longleftrightarrow> seg nxt prv b bs z"
      using Nil.prems Cons by (intro seg_cong) auto
    ultimately show ?thesis using Nil.prems Cons
      by (simp del: fun_upd_apply add: fun_upd_same fun_upd_other)
  qed
next
  case (Cons y ys)
  have "seg (nxt(p := q)) (prv(q := p)) y (ys @ zs) z"
    using Cons.prems by (intro Cons.IH) auto
  moreover have "p \<noteq> a" using Cons.prems last_in_set_Cons [of y ys] by auto
  moreover have "q \<noteq> y" using Cons.prems hd_in_set_snoc [of zs z] by auto
  ultimately show ?case using Cons.prems
    by (simp del: fun_upd_apply last.simps add: fun_upd_same fun_upd_other)
qed

lemma ring_remove:
  assumes "ring nxt prv h (ys @ n # zs)"
    and "p = last (h # ys)" "q = hd (zs @ [h])"
  shows "ring (nxt(p := q)) (prv(q := p)) h (ys @ zs)"
  unfolding ring_def using assms seg_remove [of nxt prv h ys n zs h p q] by (auto simp: ring_def)

end
