(* ===== verification/ACE_Timer_Heap.thy ===== *)
theory ACE_Timer_Heap
  imports ACE_Timer_Queue ACE_Links
begin

text \<open>
  \<^verbatim>\<open>ACE_Timer_Heap_T\<close> (\<^verbatim>\<open>ace/Timer_Heap_T.cpp\<close>): a binary heap of pointers to timer nodes,
  with the array \<open>timer_ids_\<close> that maps a timer id to its slot of the heap (or to a negative
  mark: \<open>-2\<close> for a timer taken out and not yet given back, any other negative number for a
  free id), and an optional list of preallocated nodes.

  Arrays are lists, and a slot the code has not written yet holds a null pointer. Pointers are
  addresses into the node store \<open>th_nodes\<close>; \<open>new\<close> hands out the addresses from \<open>th_brk\<close> on
  and does not fail, \<open>delete\<close> leaves the store as it is. \<open>ACE_ASSERT\<close> is compiled out of the
  production build: what an assertion demands is a predicate of its own here, with a lemma
  that it holds. An operation that would read past the end of an array is \<open>None\<close>.
\<close>

section \<open>State\<close>

record 't timer_heap =
  th_max_size :: nat
  th_cur_size :: nat
  th_cur_limbo :: nat
  th_heap :: "addr list"
  th_timer_ids :: "int list"
  th_ids_curr :: nat
  th_ids_min_free :: nat
  th_preallocated_nodes :: addr
  th_freelist :: addr
  th_node_set :: "addr list"
  th_nodes :: "addr \<Rightarrow> 't timer_node"
  th_brk :: addr

abbreviation tvalue :: "'t timer_heap \<Rightarrow> addr \<Rightarrow> ace_time_value" where
  "tvalue q a \<equiv> nd_timer_value (th_nodes q a)"

abbreviation tid :: "'t timer_heap \<Rightarrow> addr \<Rightarrow> int" where
  "tid q a \<equiv> nd_timer_id (th_nodes q a)"

definition ACE_HEAP_PARENT :: "nat \<Rightarrow> nat" where
  "ACE_HEAP_PARENT X = (if X = 0 then 0 else (X - 1) div 2)"

definition ACE_HEAP_LCHILD :: "nat \<Rightarrow> nat" where
  "ACE_HEAP_LCHILD X = X + X + 1"

section \<open>Construction\<close>

text \<open>
  \<open>new ACE_Timer_Node_T [n]\<close> at \<open>base\<close>, then the nodes linked by \<open>next_\<close> in order and the last
  one terminated.
\<close>

definition link_nodes ::
  "addr \<Rightarrow> nat \<Rightarrow> (addr \<Rightarrow> 't timer_node) \<Rightarrow> addr \<Rightarrow> 't timer_node" where
  "link_nodes base n nodes =
     (let nodes0 = (\<lambda>a. if base \<le> a \<and> a < base + n then node_init (nodes a) else nodes a);
          nodes1 = fold (\<lambda>j s. s(base + (j - 1) := (s (base + (j - 1)))\<lparr>nd_next := base + j\<rparr>))
                     [1..<n] nodes0
      in nodes1(base + (n - 1) := (nodes1 (base + (n - 1)))\<lparr>nd_next := NULL\<rparr>))"

text \<open>\<open>memory\<close> is the content of the store before the constructor runs.\<close>

definition LONG_MAX :: int where
  "LONG_MAX = 2 ^ 63 - 1"

definition timer_heap_init :: "nat \<Rightarrow> bool \<Rightarrow> (addr \<Rightarrow> 't timer_node) \<Rightarrow> 't timer_heap" where
  "timer_heap_init size0 preallocated memory =
     (let size = (if int size0 > LONG_MAX then nat LONG_MAX else size0);
          q = \<lparr>th_max_size = size, th_cur_size = 0, th_cur_limbo = 0,
               th_heap = replicate size NULL, th_timer_ids = replicate size (- 1),
               th_ids_curr = 0, th_ids_min_free = 0,
               th_preallocated_nodes = NULL, th_freelist = NULL, th_node_set = [],
               th_nodes = memory, th_brk = 1\<rparr>
      in if preallocated
         then q\<lparr>th_preallocated_nodes := 1, th_node_set := [1],
                th_nodes := link_nodes 1 size memory, th_freelist := 1, th_brk := 1 + size\<rparr>
         else q)"

section \<open>Timer ids\<close>

function scan_free :: "int list \<Rightarrow> nat \<Rightarrow> nat \<Rightarrow> nat" where
  "scan_free ids max_size cur =
     (if cur < max_size \<and> (ids ! cur \<ge> 0 \<or> ids ! cur = -2) then scan_free ids max_size (cur + 1)
      else cur)"
  by pat_completeness auto
termination
  by (relation "measure (\<lambda>(ids, max_size, cur). max_size - cur)") auto

declare scan_free.simps [simp del]

definition pop_freelist :: "'t timer_heap \<Rightarrow> 't timer_heap \<times> int" where
  "pop_freelist q =
     (let cur = scan_free (th_timer_ids q) (th_max_size q) (th_ids_curr q + 1);
          q' = (if cur = th_max_size q
                then q\<lparr>th_ids_curr := th_ids_min_free q, th_ids_min_free := th_max_size q\<rparr>
                else q\<lparr>th_ids_curr := cur\<rparr>)
      in (q', int (th_ids_curr q')))"

definition pop_freelist_assert :: "'t timer_heap \<Rightarrow> bool" where
  "pop_freelist_assert q \<longleftrightarrow>
     (scan_free (th_timer_ids q) (th_max_size q) (th_ids_curr q + 1) = th_max_size q \<longrightarrow>
      th_ids_min_free q < th_max_size q)"

definition push_freelist :: "'t timer_heap \<Rightarrow> int \<Rightarrow> 't timer_heap" where
  "push_freelist q old_id =
     (let oldid = nat old_id;
          q1 = (if th_timer_ids q ! oldid = -2 then q\<lparr>th_cur_limbo := th_cur_limbo q - 1\<rparr>
                else q\<lparr>th_cur_size := th_cur_size q - 1\<rparr>);
          q2 = q1\<lparr>th_timer_ids := (th_timer_ids q1)[oldid := -1]\<rparr>
      in if oldid < th_ids_min_free q2 \<and> oldid \<le> th_ids_curr q2
         then q2\<lparr>th_ids_min_free := oldid\<rparr> else q2)"

definition push_freelist_assert :: "'t timer_heap \<Rightarrow> int \<Rightarrow> bool" where
  "push_freelist_assert q old_id \<longleftrightarrow>
     nat old_id < length (th_timer_ids q) \<and>
     (th_timer_ids q ! nat old_id \<ge> 0 \<or> th_timer_ids q ! nat old_id = -2)"

definition heap_timer_id :: "'t timer_heap \<Rightarrow> 't timer_heap \<times> int" where
  "heap_timer_id q = pop_freelist q"

section \<open>The heap\<close>

definition heap_copy :: "'t timer_heap \<Rightarrow> nat \<Rightarrow> addr \<Rightarrow> 't timer_heap" where
  "heap_copy q slot moved_node =
     q\<lparr>th_heap := (th_heap q)[slot := moved_node],
       th_timer_ids := (th_timer_ids q)[nat (tid q moved_node) := int slot]\<rparr>"

lemma heap_copy_frame [simp]:
  "th_max_size (heap_copy q s n) = th_max_size q" "th_cur_size (heap_copy q s n) = th_cur_size q"
  "th_cur_limbo (heap_copy q s n) = th_cur_limbo q" "th_nodes (heap_copy q s n) = th_nodes q"
  "th_ids_curr (heap_copy q s n) = th_ids_curr q" "th_ids_min_free (heap_copy q s n) = th_ids_min_free q"
  "th_preallocated_nodes (heap_copy q s n) = th_preallocated_nodes q"
  "th_freelist (heap_copy q s n) = th_freelist q" "th_brk (heap_copy q s n) = th_brk q"
  "th_node_set (heap_copy q s n) = th_node_set q"
  by (simp_all add: heap_copy_def)

function reheap_down :: "'t timer_heap \<Rightarrow> addr \<Rightarrow> nat \<Rightarrow> nat \<Rightarrow> 't timer_heap" where
  "reheap_down q moved_node slot child =
     (if child < th_cur_size q then
        let child' =
          (if child + 1 < th_cur_size q \<and>
              tvalue q (th_heap q ! (child + 1)) < tvalue q (th_heap q ! child)
           then child + 1 else child)
        in if tvalue q (th_heap q ! child') < tvalue q moved_node
           then reheap_down (heap_copy q slot (th_heap q ! child')) moved_node child'
                  (ACE_HEAP_LCHILD child')
           else heap_copy q slot moved_node
      else heap_copy q slot moved_node)"
  by pat_completeness auto
termination
  by (relation "measure (\<lambda>(q, n, slot, child). th_cur_size q - child)")
     (auto simp: ACE_HEAP_LCHILD_def split: if_splits)

text \<open>Every call has \<open>parent = ACE_HEAP_PARENT slot\<close>; the measure covers the others too.\<close>

function reheap_up :: "'t timer_heap \<Rightarrow> addr \<Rightarrow> nat \<Rightarrow> nat \<Rightarrow> 't timer_heap" where
  "reheap_up q moved_node slot parent =
     (if slot > 0 then
        if tvalue q moved_node < tvalue q (th_heap q ! parent)
        then reheap_up (heap_copy q slot (th_heap q ! parent)) moved_node parent
               (ACE_HEAP_PARENT parent)
        else heap_copy q slot moved_node
      else heap_copy q slot moved_node)"
  by pat_completeness auto
termination
  by (relation "measure (\<lambda>(q, n, slot, parent).
        if parent = ACE_HEAP_PARENT slot then slot else slot + parent + 1)")
     (auto simp: ACE_HEAP_PARENT_def split: if_splits)

declare reheap_down.simps [simp del] reheap_up.simps [simp del]

definition heap_remove :: "'t timer_heap \<Rightarrow> nat \<Rightarrow> 't timer_heap \<times> addr" where
  "heap_remove q slot =
     (let removed_node = th_heap q ! slot;
          q1 = q\<lparr>th_cur_size := th_cur_size q - 1\<rparr>;
          q2 = (if slot < th_cur_size q1 then
                  let moved_node = th_heap q1 ! th_cur_size q1;
                      q' = heap_copy q1 slot moved_node;
                      parent = ACE_HEAP_PARENT slot
                  in if tvalue q' moved_node \<ge> tvalue q' (th_heap q' ! parent)
                     then reheap_down q' moved_node slot (ACE_HEAP_LCHILD slot)
                     else reheap_up q' moved_node slot parent
                else q1)
      in (q2\<lparr>th_timer_ids := (th_timer_ids q2)[nat (tid q2 removed_node) := -2],
             th_cur_limbo := th_cur_limbo q2 + 1\<rparr>, removed_node))"

text \<open>
  The walk to the end of the free list of preallocated nodes needs as many steps as the list is
  long; the list's nodes are allocated addresses, so \<open>th_brk\<close> steps are enough.
\<close>

definition grow_heap :: "'t timer_heap \<Rightarrow> 't timer_heap" where
  "grow_heap q =
     (let max_size = th_max_size q;
          new_size = max_size * 2;
          q1 = q\<lparr>th_heap := th_heap q @ replicate max_size NULL,
                 th_timer_ids := th_timer_ids q @ map (\<lambda>i. - (int i + 1)) [max_size..<new_size]\<rparr>;
          q2 = (if th_preallocated_nodes q1 \<noteq> NULL then
                  let base = th_brk q1;
                      q' = q1\<lparr>th_preallocated_nodes := base, th_node_set := base # th_node_set q1,
                              th_nodes := link_nodes base max_size (th_nodes q1),
                              th_brk := base + max_size\<rparr>
                  in if th_freelist q' = NULL then q'\<lparr>th_freelist := base\<rparr>
                     else let previous = walk_to_last (\<lambda>a. nd_next (th_nodes q' a)) (th_brk q')
                            (th_freelist q') (nd_next (th_nodes q' (th_freelist q')))
                          in q'\<lparr>th_nodes := (th_nodes q')
                                 (previous := (th_nodes q' previous)\<lparr>nd_next := base\<rparr>)\<rparr>
                else q1)
      in q2\<lparr>th_max_size := new_size, th_ids_min_free := new_size\<rparr>)"

definition heap_insert :: "'t timer_heap \<Rightarrow> addr \<Rightarrow> 't timer_heap" where
  "heap_insert q new_node =
     (let q1 = (if th_cur_size q + th_cur_limbo q + 2 \<ge> th_max_size q then grow_heap q else q);
          q2 = reheap_up q1 new_node (th_cur_size q1) (ACE_HEAP_PARENT (th_cur_size q1))
      in q2\<lparr>th_cur_size := th_cur_size q2 + 1\<rparr>)"

definition heap_reschedule :: "'t timer_heap \<Rightarrow> addr \<Rightarrow> 't timer_heap" where
  "heap_reschedule q expired =
     heap_insert (if th_timer_ids q ! nat (tid q expired) = -2
                  then q\<lparr>th_cur_limbo := th_cur_limbo q - 1\<rparr> else q) expired"

definition heap_alloc_node :: "'t timer_heap \<Rightarrow> 't timer_heap \<times> addr" where
  "heap_alloc_node q =
     (if th_preallocated_nodes q = NULL
      then (q\<lparr>th_nodes := (th_nodes q)(th_brk q := node_init (th_nodes q (th_brk q))),
              th_brk := th_brk q + 1\<rparr>, th_brk q)
      else let q1 = (if th_freelist q = NULL then grow_heap q else q);
               temp = th_freelist q1
           in (if th_freelist q1 \<noteq> NULL
               then q1\<lparr>th_freelist := nd_next (th_nodes q1 (th_freelist q1))\<rparr> else q1, temp))"

definition heap_free_node :: "'t timer_heap \<Rightarrow> addr \<Rightarrow> 't timer_heap" where
  "heap_free_node q node =
     (let q1 = push_freelist q (tid q node)
      in if th_preallocated_nodes q1 = NULL then q1
         else q1\<lparr>th_nodes := (th_nodes q1)(node := (th_nodes q1 node)\<lparr>nd_next := th_freelist q1\<rparr>),
                 th_freelist := node\<rparr>)"

section \<open>The public operations\<close>

definition heap_is_empty :: "'t timer_heap \<Rightarrow> bool" where
  "heap_is_empty q \<longleftrightarrow> th_cur_size q = 0"

definition heap_earliest_time :: "'t timer_heap \<Rightarrow> ace_time_value" where
  "heap_earliest_time q = tvalue q (th_heap q ! 0)"

definition heap_get_first :: "'t timer_heap \<Rightarrow> addr" where
  "heap_get_first q = (if th_cur_size q = 0 then NULL else th_heap q ! 0)"

definition heap_remove_first :: "'t timer_heap \<Rightarrow> 't timer_heap \<times> addr" where
  "heap_remove_first q = (if th_cur_size q = 0 then (q, NULL) else heap_remove q 0)"

definition heap_schedule_i ::
  "'t timer_heap \<Rightarrow> 't \<Rightarrow> addr \<Rightarrow> ace_time_value \<Rightarrow> ace_time_value \<Rightarrow> 't timer_heap \<times> int" where
  "heap_schedule_i q type act future_time interval =
     (if th_cur_size q + th_cur_limbo q < th_max_size q then
        let (q1, id) = heap_timer_id q;
            (q2, temp) = heap_alloc_node q1
        in if temp = NULL then (q2, -1)
           else let q3 = q2\<lparr>th_nodes := (th_nodes q2)
                       (temp := node_set type act future_time interval NULL id (th_nodes q2 temp))\<rparr>
                in (heap_insert q3 temp, id)
      else (q, -1))"

text \<open>
  The results of \<open>cancel (timer_id, act, dont_call)\<close>: the new queue and user's state, what was
  stored through \<open>act\<close> if anything, and the return value.
\<close>

definition heap_cancel ::
  "('u, 't) upcall_functor \<Rightarrow> 't timer_heap \<times> 'u \<Rightarrow> int \<Rightarrow> int \<Rightarrow>
   (('t timer_heap \<times> 'u) \<times> addr option \<times> int) option" where
  "heap_cancel f s timer_id dont_call =
     (let (q, u) = s in
      if timer_id < 0 \<or> nat timer_id > th_max_size q then Some (s, None, 0)
      else if \<not> nat timer_id < length (th_timer_ids q) then None
      else let timer_node_slot = th_timer_ids q ! nat timer_id in
        if timer_node_slot < 0 then Some (s, None, 0)
        else if timer_id \<noteq> tid q (th_heap q ! nat timer_node_slot) then Some (s, None, 0)
        else let (q1, temp) = heap_remove q (nat timer_node_slot);
                 type = nd_type (th_nodes q1 temp);
                 (u1, cookie) = fn_cancel_type f type dont_call 0 u;
                 u2 = fn_cancel_timer f type dont_call cookie u1
             in Some ((heap_free_node q1 temp, u2), Some (nd_act (th_nodes q1 temp)), 1))"

definition heap_reset_interval ::
  "'t timer_heap \<Rightarrow> int \<Rightarrow> ace_time_value \<Rightarrow> ('t timer_heap \<times> int) option" where
  "heap_reset_interval q timer_id interval =
     (if timer_id < 0 \<or> nat timer_id > th_max_size q then Some (q, -1)
      else if \<not> nat timer_id < length (th_timer_ids q) then None
      else let timer_node_slot = th_timer_ids q ! nat timer_id in
        if timer_node_slot < 0 then Some (q, -1)
        else let n = th_heap q ! nat timer_node_slot in
          if timer_id \<noteq> tid q n then Some (q, -1)
          else Some (q\<lparr>th_nodes := (th_nodes q)(n := (th_nodes q n)\<lparr>nd_interval := interval\<rparr>)\<rparr>, 0))"

section \<open>Frames\<close>

lemma reheap_down_frame [simp]:
  "th_max_size (reheap_down q m s c) = th_max_size q"
  "th_cur_size (reheap_down q m s c) = th_cur_size q"
  "th_cur_limbo (reheap_down q m s c) = th_cur_limbo q"
  "th_nodes (reheap_down q m s c) = th_nodes q"
  "th_ids_curr (reheap_down q m s c) = th_ids_curr q"
  "th_ids_min_free (reheap_down q m s c) = th_ids_min_free q"
  "th_preallocated_nodes (reheap_down q m s c) = th_preallocated_nodes q"
  "th_freelist (reheap_down q m s c) = th_freelist q"
  "th_brk (reheap_down q m s c) = th_brk q"
  by (induction q m s c rule: reheap_down.induct)
     (subst reheap_down.simps, simp add: Let_def)+

lemma reheap_up_frame [simp]:
  "th_max_size (reheap_up q m s p) = th_max_size q"
  "th_cur_size (reheap_up q m s p) = th_cur_size q"
  "th_cur_limbo (reheap_up q m s p) = th_cur_limbo q"
  "th_nodes (reheap_up q m s p) = th_nodes q"
  "th_ids_curr (reheap_up q m s p) = th_ids_curr q"
  "th_ids_min_free (reheap_up q m s p) = th_ids_min_free q"
  "th_preallocated_nodes (reheap_up q m s p) = th_preallocated_nodes q"
  "th_freelist (reheap_up q m s p) = th_freelist q"
  "th_brk (reheap_up q m s p) = th_brk q"
  by (induction q m s p rule: reheap_up.induct)
     (subst reheap_up.simps, simp)+

lemma heap_remove_frame [simp]:
  "th_max_size (fst (heap_remove q i)) = th_max_size q"
  "th_cur_size (fst (heap_remove q i)) = th_cur_size q - 1"
  "th_cur_limbo (fst (heap_remove q i)) = th_cur_limbo q + 1"
  "th_nodes (fst (heap_remove q i)) = th_nodes q"
  "th_ids_curr (fst (heap_remove q i)) = th_ids_curr q"
  "th_ids_min_free (fst (heap_remove q i)) = th_ids_min_free q"
  "th_preallocated_nodes (fst (heap_remove q i)) = th_preallocated_nodes q"
  "th_freelist (fst (heap_remove q i)) = th_freelist q"
  "th_brk (fst (heap_remove q i)) = th_brk q"
  "snd (heap_remove q i) = th_heap q ! i"
  by (simp_all add: heap_remove_def Let_def)

lemma heap_free_node_cur_size: "th_cur_size (heap_free_node q n) \<le> th_cur_size q"
  by (simp add: heap_free_node_def push_freelist_def Let_def)

section \<open>Cancelling by type, closing, iterating\<close>

function heap_cancel_type_loop ::
  "'t timer_heap \<Rightarrow> 't \<Rightarrow> nat \<Rightarrow> nat \<Rightarrow> 't timer_heap \<times> nat" where
  "heap_cancel_type_loop q type i number_of_cancellations =
     (if i < th_cur_size q then
        if nd_type (th_nodes q (th_heap q ! i)) = type
        then let (q1, temp) = heap_remove q i
             in heap_cancel_type_loop (heap_free_node q1 temp) type 0 (number_of_cancellations + 1)
        else heap_cancel_type_loop q type (i + 1) number_of_cancellations
      else (q, number_of_cancellations))"
  by pat_completeness auto
termination
proof (relation "measures [\<lambda>(q, t, i, n). th_cur_size q, \<lambda>(q, t, i, n). th_cur_size q - i]",
    goal_cases)
  case (2 q type i n x q1 temp)
  then have "th_cur_size q1 < th_cur_size q"
    using heap_remove_frame(2) [of q i] by (metis diff_less fst_conv less_numeral_extra(1)
        not_gr_zero not_less_zero)
  then show ?case using heap_free_node_cur_size [of q1 temp] by simp
qed auto

declare heap_cancel_type_loop.simps [simp del]

definition heap_cancel_type ::
  "('u, 't) upcall_functor \<Rightarrow> 't timer_heap \<times> 'u \<Rightarrow> 't \<Rightarrow> int \<Rightarrow> ('t timer_heap \<times> 'u) \<times> nat" where
  "heap_cancel_type f s type dont_call =
     (let (q, u) = s;
          (q1, number_of_cancellations) = heap_cancel_type_loop q type 0 0;
          (u1, cookie) = fn_cancel_type f type dont_call 0 u;
          u2 = ((\<lambda>v. fn_cancel_timer f type dont_call cookie v) ^^ number_of_cancellations) u1
      in ((q1, u2), number_of_cancellations))"

definition heap_close :: "('u, 't) upcall_functor \<Rightarrow> 't timer_heap \<times> 'u \<Rightarrow> ('t timer_heap \<times> 'u) \<times> int" where
  "heap_close f s =
     (fold (\<lambda>i (q, u). let n = th_heap q ! i; eh = nd_type (th_nodes q n); act = nd_act (th_nodes q n)
             in (heap_free_node q n, fn_deletion f eh act u))
        [0..<th_cur_size (fst s)] s, 0)"

text \<open>The iterator is a position in the heap array.\<close>

definition heap_iter_first :: nat where
  "heap_iter_first = 0"

definition heap_iter_isdone :: "'t timer_heap \<Rightarrow> nat \<Rightarrow> bool" where
  "heap_iter_isdone q position \<longleftrightarrow> position = th_cur_size q"

definition heap_iter_next :: "'t timer_heap \<Rightarrow> nat \<Rightarrow> nat" where
  "heap_iter_next q position = (if position \<noteq> th_cur_size q then position + 1 else position)"

definition heap_iter_item :: "'t timer_heap \<Rightarrow> nat \<Rightarrow> addr" where
  "heap_iter_item q position = (if position \<noteq> th_cur_size q then th_heap q ! position else NULL)"

section \<open>The heap and the index of ids\<close>

text \<open>
  \<open>idx H I n mx t X\<close>: the first \<open>n\<close> slots of the array \<open>H\<close> and the index \<open>I\<close> (of \<open>mx\<close> entries)
  name each other, leaving out the ids \<open>X\<close>.
\<close>

definition idx ::
  "addr list \<Rightarrow> int list \<Rightarrow> nat \<Rightarrow> nat \<Rightarrow> (addr \<Rightarrow> int) \<Rightarrow> nat set \<Rightarrow> bool" where
  "idx H I n mx t X \<longleftrightarrow>
     length H = mx \<and> length I = mx \<and> n \<le> mx \<and>
     (\<forall>i < n. 0 \<le> t (H ! i) \<and> nat (t (H ! i)) < mx \<and> nat (t (H ! i)) \<notin> X \<and>
             I ! nat (t (H ! i)) = int i) \<and>
     (\<forall>k < mx. k \<notin> X \<longrightarrow> 0 \<le> I ! k \<longrightarrow> nat (I ! k) < n \<and> t (H ! nat (I ! k)) = int k)"

lemma idx_lengths: "idx H I n mx t X \<Longrightarrow> length H = mx \<and> length I = mx \<and> n \<le> mx"
  by (simp add: idx_def)

lemma idx_id:
  "idx H I n mx t X \<Longrightarrow> i < n \<Longrightarrow>
   0 \<le> t (H ! i) \<and> nat (t (H ! i)) < mx \<and> nat (t (H ! i)) \<notin> X \<and> I ! nat (t (H ! i)) = int i"
  by (simp add: idx_def)

lemma idx_slot:
  "idx H I n mx t X \<Longrightarrow> k < mx \<Longrightarrow> k \<notin> X \<Longrightarrow> 0 \<le> I ! k \<Longrightarrow>
   nat (I ! k) < n \<and> t (H ! nat (I ! k)) = int k"
  by (simp add: idx_def)

lemma idx_inj: "idx H I n mx t X \<Longrightarrow> i < n \<Longrightarrow> j < n \<Longrightarrow> t (H ! i) = t (H ! j) \<Longrightarrow> i = j"
  by (metis idx_id of_nat_eq_iff)

text \<open>Exchanging the nodes of two slots.\<close>

lemma idx_swap:
  assumes "idx H I n mx t X" "s < n" "p < n" "s \<noteq> p"
  shows "idx (H[s := H ! p, p := H ! s]) (I[nat (t (H ! p)) := int s, nat (t (H ! s)) := int p])
    n mx t X"
proof -
  let ?a = "nat (t (H ! p))" and ?b = "nat (t (H ! s))"
  note S = idx_id [OF assms(1,2)] and P = idx_id [OF assms(1,3)] and len = idx_lengths [OF assms(1)]
  have ab: "?a \<noteq> ?b" using S P assms(4) by auto
  have slots: "0 \<le> t (K ! i) \<and> nat (t (K ! i)) < mx \<and> nat (t (K ! i)) \<notin> X \<and>
      J ! nat (t (K ! i)) = int i"
    if "i < n" "K = H[s := H ! p, p := H ! s]" "J = I[?a := int s, ?b := int p]" for i K J
  proof (cases "i = s \<or> i = p")
    case True
    then show ?thesis using S P ab len assms(2-4) that by (auto simp: nth_list_update)
  next
    case False
    note i = idx_id [OF assms(1) that(1)]
    have "nat (t (H ! i)) \<noteq> ?a" "nat (t (H ! i)) \<noteq> ?b"
      using i S P False by auto
    then show ?thesis using i False len that by (simp add: nth_list_update)
  qed
  have ids: "nat (J ! k) < n \<and> t (K ! nat (J ! k)) = int k"
    if "k < mx" "k \<notin> X" "0 \<le> J ! k" "K = H[s := H ! p, p := H ! s]"
      "J = I[?a := int s, ?b := int p]" for k K J
  proof (cases "k = ?a \<or> k = ?b")
    case True
    then show ?thesis using S P ab len assms(2-4) that by (auto simp: nth_list_update)
  next
    case False
    then have J: "J ! k = I ! k" using that by (auto simp: nth_list_update)
    note k = idx_slot [OF assms(1) that(1,2)]
    have "nat (I ! k) \<noteq> s" "nat (I ! k) \<noteq> p" using k False J that(3) by auto
    then show ?thesis using k J that len by (auto simp: nth_list_update)
  qed
  show ?thesis unfolding idx_def using slots ids len by simp
qed

text \<open>
  The step of both loops: the hole moves from \<open>s\<close> to \<open>p\<close>, and what the index would be with the
  moved node in the hole is an exchange.
\<close>

lemma idx_move:
  assumes "idx (H[s := m]) (I[nat (t m) := int s]) n mx t X" "s < n" "p < n" "s \<noteq> p"
  shows "idx (H[s := H ! p, p := m]) (I[nat (t (H ! p)) := int s, nat (t m) := int p]) n mx t X"
proof -
  let ?H = "H[s := m]" and ?I = "I[nat (t m) := int s]"
  have len: "length H = mx" "n \<le> mx" using idx_lengths [OF assms(1)] by auto
  have at: "?H ! s = m" "?H ! p = H ! p" using assms(2-4) len by auto
  have "t m \<noteq> t (H ! p)" using idx_inj [OF assms(1-3)] at assms(4) by auto
  moreover have "0 \<le> t m" "0 \<le> t (H ! p)"
    using idx_id [OF assms(1,2)] idx_id [OF assms(1,3)] at by auto
  ultimately have "nat (t m) \<noteq> nat (t (H ! p))" by auto
  then have "?I[nat (t (H ! p)) := int s, nat (t m) := int p] =
      I[nat (t (H ! p)) := int s, nat (t m) := int p]"
    by (metis list_update_overwrite list_update_swap)
  moreover have "?H[s := H ! p, p := m] = H[s := H ! p, p := m]" by simp
  ultimately show ?thesis using idx_swap [OF assms] at by simp
qed

section \<open>The heap order\<close>

abbreviation par :: "nat \<Rightarrow> nat" where
  "par \<equiv> ACE_HEAP_PARENT"

lemma par_less: "0 < i \<Longrightarrow> par i < i"
  by (auto simp: ACE_HEAP_PARENT_def)

lemma par_le: "par i \<le> i"
  by (auto simp: ACE_HEAP_PARENT_def)

lemma par_child_iff:
  "0 < i \<Longrightarrow> par i = s \<longleftrightarrow> i = ACE_HEAP_LCHILD s \<or> i = ACE_HEAP_LCHILD s + 1"
  unfolding ACE_HEAP_PARENT_def ACE_HEAP_LCHILD_def by simp presburger

text \<open>
  \<open>ordered\<close> is the heap property. \<open>ordered_up\<close> allows slot \<open>s\<close> to be smaller than its parent,
  \<open>ordered_down\<close> allows it to be larger than its children; in both, the parent of \<open>s\<close> is still
  no larger than the children of \<open>s\<close>.
\<close>

definition ordered :: "(addr \<Rightarrow> 'k::linorder) \<Rightarrow> addr list \<Rightarrow> nat \<Rightarrow> bool" where
  "ordered key H n \<longleftrightarrow> (\<forall>i. 0 < i \<longrightarrow> i < n \<longrightarrow> key (H ! par i) \<le> key (H ! i))"

definition bridged :: "(addr \<Rightarrow> 'k::linorder) \<Rightarrow> addr list \<Rightarrow> nat \<Rightarrow> nat \<Rightarrow> bool" where
  "bridged key H n s \<longleftrightarrow>
     (0 < s \<longrightarrow> (\<forall>i. 0 < i \<longrightarrow> i < n \<longrightarrow> par i = s \<longrightarrow> key (H ! par s) \<le> key (H ! i)))"

definition ordered_up :: "(addr \<Rightarrow> 'k::linorder) \<Rightarrow> addr list \<Rightarrow> nat \<Rightarrow> nat \<Rightarrow> bool" where
  "ordered_up key H n s \<longleftrightarrow>
     (\<forall>i. 0 < i \<longrightarrow> i < n \<longrightarrow> i \<noteq> s \<longrightarrow> key (H ! par i) \<le> key (H ! i)) \<and> bridged key H n s"

definition ordered_down :: "(addr \<Rightarrow> 'k::linorder) \<Rightarrow> addr list \<Rightarrow> nat \<Rightarrow> nat \<Rightarrow> bool" where
  "ordered_down key H n s \<longleftrightarrow>
     (\<forall>i. 0 < i \<longrightarrow> i < n \<longrightarrow> par i \<noteq> s \<longrightarrow> key (H ! par i) \<le> key (H ! i)) \<and> bridged key H n s"

lemma ordered_root:
  assumes "ordered key H n" "i < n"
  shows "key (H ! 0) \<le> key (H ! i)"
  using assms(2)
proof (induction i rule: less_induct)
  case (less i)
  show ?case
  proof (cases "i = 0")
    case False
    then have "par i < i" by (simp add: par_less)
    with less have "key (H ! 0) \<le> key (H ! par i)" by simp
    also have "\<dots> \<le> key (H ! i)" using assms(1) less.prems False by (simp add: ordered_def)
    finally show ?thesis .
  qed simp
qed

lemma ordered_up_stop:
  "ordered_up key H n s \<Longrightarrow> s = 0 \<or> key (H ! par s) \<le> key (H ! s) \<Longrightarrow> ordered key H n"
  by (auto simp: ordered_up_def ordered_def)

lemma ordered_up_step:
  assumes "ordered_up key H n s" "0 < s" "s < n" "n \<le> length H" "key (H ! s) < key (H ! par s)"
  shows "ordered_up key (H[s := H ! par s, par s := H ! s]) n (par s)"
proof -
  let ?p = "par s" and ?K = "H[s := H ! par s, par s := H ! s]"
  have p: "?p < s" using assms(2) by (rule par_less)
  have K: "?K ! i = (if i = ?p then H ! s else if i = s then H ! ?p else H ! i)" if "i < n" for i
    using that assms(3,4) p by (auto simp: nth_list_update)
  have o: "key (H ! par i) \<le> key (H ! i)" if "0 < i" "i < n" "i \<noteq> s" for i
    using assms(1) that by (simp add: ordered_up_def)
  have b: "key (H ! ?p) \<le> key (H ! i)" if "0 < i" "i < n" "par i = s" for i
    using assms(1,2) that by (simp add: ordered_up_def bridged_def)
  have "key (?K ! par i) \<le> key (?K ! i)" if i: "0 < i" "i < n" "i \<noteq> ?p" for i
  proof -
    have pi: "par i < i" "par i < n" using i par_less [of i] by auto
    consider "i = s" | "i \<noteq> s" "par i = s" | "i \<noteq> s" "par i = ?p" | "par i \<noteq> s" "par i \<noteq> ?p" "i \<noteq> s"
      by auto
    then show ?thesis
      using K [OF i(2)] K [OF pi(2)] o [OF i(1,2)] b [OF i(1,2)] assms(5) p i(3)
      by cases (auto intro: order_trans less_imp_le)
  qed
  moreover have "bridged key ?K n ?p"
  proof -
    have "key (?K ! par ?p) \<le> key (?K ! i)" if "0 < ?p" "0 < i" "i < n" "par i = ?p" for i
    proof -
      have pp: "par ?p < ?p" "par ?p < n" "?p < n" using par_less [OF that(1)] p assms(3) by auto
      have "key (H ! par ?p) \<le> key (H ! ?p)" using o [of ?p] that(1) pp p by auto
      moreover have "key (H ! ?p) \<le> key (H ! i)" if "i \<noteq> s"
        using o [of i] that \<open>0 < i\<close> \<open>i < n\<close> \<open>par i = ?p\<close> by simp
      ultimately show ?thesis
        using K [OF that(3)] K [OF pp(2)] pp p par_less [OF that(2)] that(4) by auto
    qed
    then show ?thesis by (simp add: bridged_def)
  qed
  ultimately show ?thesis by (simp add: ordered_up_def)
qed

lemma ordered_down_stop:
  assumes "ordered_down key H n s"
    and "\<And>i. 0 < i \<Longrightarrow> i < n \<Longrightarrow> par i = s \<Longrightarrow> key (H ! s) \<le> key (H ! i)"
  shows "ordered key H n"
  using assms by (auto simp: ordered_down_def ordered_def)

lemma ordered_down_step:
  assumes "ordered_down key H n s" "0 < c" "c < n" "n \<le> length H" "par c = s"
    and "key (H ! c) < key (H ! s)"
    and "\<And>i. 0 < i \<Longrightarrow> i < n \<Longrightarrow> par i = s \<Longrightarrow> key (H ! c) \<le> key (H ! i)"
  shows "ordered_down key (H[s := H ! c, c := H ! s]) n c"
proof -
  let ?K = "H[s := H ! c, c := H ! s]"
  have s: "s < c" using par_less [OF assms(2)] assms(5) by simp
  have K: "?K ! i = (if i = c then H ! s else if i = s then H ! c else H ! i)" if "i < n" for i
    using that assms(3,4) s by (auto simp: nth_list_update)
  have o: "key (H ! par i) \<le> key (H ! i)" if "0 < i" "i < n" "par i \<noteq> s" for i
    using assms(1) that by (simp add: ordered_down_def)
  have b: "key (H ! par s) \<le> key (H ! c)" if "0 < s"
    using assms(1,2,3,5) that by (simp add: ordered_down_def bridged_def)
  have "key (?K ! par i) \<le> key (?K ! i)" if i: "0 < i" "i < n" "par i \<noteq> c" for i
  proof -
    have pi: "par i < i" "par i < n" using i par_less [of i] by auto
    consider "i = c" | "i \<noteq> c" "par i = s" | "i = s" | "i \<noteq> c" "i \<noteq> s" "par i \<noteq> s" by auto
    then show ?thesis
      using K [OF i(2)] K [OF pi(2)] o [OF i(1,2)] b assms(5,6) assms(7) [OF i(1,2)] i s pi
      by cases auto
  qed
  moreover have "bridged key ?K n c"
  proof -
    have "key (?K ! par c) \<le> key (?K ! i)" if "0 < i" "i < n" "par i = c" for i
    proof -
      have "c < i" using par_less [OF that(1)] that(3) by simp
      moreover have "key (H ! c) \<le> key (H ! i)" using o [OF that(1,2)] that(3) s by simp
      moreover have "?K ! i = H ! i" using K [OF that(2)] \<open>c < i\<close> s by simp
      moreover have "?K ! s = H ! c" using K [of s] s assms(3) by simp
      ultimately show ?thesis using assms(5) by simp
    qed
    then show ?thesis by (simp add: bridged_def)
  qed
  ultimately show ?thesis by (simp add: ordered_down_def)
qed

section \<open>The two loops\<close>

definition indexed :: "'t timer_heap \<Rightarrow> nat \<Rightarrow> nat set \<Rightarrow> bool" where
  "indexed q n X \<longleftrightarrow> idx (th_heap q) (th_timer_ids q) n (th_max_size q) (tid q) X"

definition members :: "'t timer_heap \<Rightarrow> nat \<Rightarrow> addr set" where
  "members q n = set (take n (th_heap q))"

text \<open>
  What placing a node by one of the loops achieves, against the state \<open>v\<close> with the node in the
  hole: heap order, index, the same members, and no other entry of the index touched.
\<close>

definition settled :: "'t timer_heap \<Rightarrow> 't timer_heap \<Rightarrow> nat \<Rightarrow> nat set \<Rightarrow> bool" where
  "settled v r n X \<longleftrightarrow>
     indexed r n X \<and> ordered (tvalue r) (th_heap r) n \<and> members r n = members v n \<and>
     (\<forall>k < th_max_size v. k \<notin> (\<lambda>a. nat (tid v a)) ` members v n \<longrightarrow>
        th_timer_ids r ! k = th_timer_ids v ! k)"

lemma members_swap:
  assumes "s < n" "p < n" "n \<le> length H"
  shows "set (take n (H[s := H ! p, p := H ! s])) = set (take n H)"
proof -
  have "take n (H[s := H ! p, p := H ! s]) =
      (take n H)[s := take n H ! p, p := take n H ! s]"
    using assms by (simp add: take_update_swap)
  moreover have "mset \<dots> = mset (take n H)"
    using assms by (intro mset_swap) simp_all
  ultimately show ?thesis by (metis set_mset_mset)
qed

text \<open>Moving the hole: the states with the node in the old and in the new hole.\<close>

lemma hole_moves:
  assumes "indexed (heap_copy q s m) n X" "s < n" "p < n" "s \<noteq> p"
  defines "v \<equiv> heap_copy q s m" and "v' \<equiv> heap_copy (heap_copy q s (th_heap q ! p)) p m"
  shows "th_heap v ! s = m" "th_heap v ! p = th_heap q ! p"
    and "th_heap v' = (th_heap v)[s := th_heap v ! p, p := th_heap v ! s]"
    and "n \<le> length (th_heap v)"
    and "indexed v' n X" "members v' n = members v n"
    and "k \<notin> (\<lambda>a. nat (tid v a)) ` members v n \<Longrightarrow> th_timer_ids v' ! k = th_timer_ids v ! k"
proof -
  have I: "idx ((th_heap q)[s := m]) ((th_timer_ids q)[nat (tid q m) := int s]) n
      (th_max_size q) (tid q) X"
    using assms(1) by (simp add: indexed_def heap_copy_def)
  note len = idx_lengths [OF I]
  show at: "th_heap v ! s = m" "th_heap v ! p = th_heap q ! p"
    using len assms(2-4) by (simp_all add: v_def heap_copy_def)
  show swap: "th_heap v' = (th_heap v)[s := th_heap v ! p, p := th_heap v ! s]"
    unfolding at using assms(4) by (simp add: v_def v'_def heap_copy_def list_update_swap)
  show n: "n \<le> length (th_heap v)" using len by (simp add: v_def heap_copy_def)
  show "indexed v' n X"
    using idx_move [OF I assms(2-4)] by (simp add: indexed_def v'_def heap_copy_def)
  show "members v' n = members v n"
    unfolding members_def swap using assms(2,3) n by (rule members_swap)
  have "m \<in> members v n" "th_heap q ! p \<in> members v n"
    using at assms(2,3) n by (auto simp: members_def in_set_conv_nth)
  then have "nat (tid q m) \<noteq> k \<and> nat (tid q (th_heap q ! p)) \<noteq> k"
    if "k \<notin> (\<lambda>a. nat (tid v a)) ` members v n"
    using that by (auto simp: v_def)
  then show "k \<notin> (\<lambda>a. nat (tid v a)) ` members v n \<Longrightarrow> th_timer_ids v' ! k = th_timer_ids v ! k"
    by (simp add: v_def v'_def heap_copy_def)
qed

lemma settled_trans:
  assumes "settled v' r n X" "members v' n = members v n" "th_nodes v' = th_nodes v"
    and "th_max_size v' = th_max_size v"
    and "\<And>k. k \<notin> (\<lambda>a. nat (tid v a)) ` members v n \<Longrightarrow> th_timer_ids v' ! k = th_timer_ids v ! k"
  shows "settled v r n X"
  using assms by (auto simp: settled_def)

lemma settledI:
  "indexed v n X \<Longrightarrow> ordered (tvalue v) (th_heap v) n \<Longrightarrow> settled v v n X"
  by (simp add: settled_def)

lemma reheap_up_correct:
  "indexed (heap_copy q slot m) n X \<Longrightarrow> slot < n \<Longrightarrow> parent = par slot \<Longrightarrow>
   ordered_up (tvalue q) (th_heap (heap_copy q slot m)) n slot \<Longrightarrow>
   settled (heap_copy q slot m) (reheap_up q m slot parent) n X"
proof (induction q m slot parent rule: reheap_up.induct)
  case (1 q m slot parent)
  let ?v = "heap_copy q slot m" and ?q1 = "heap_copy q slot (th_heap q ! parent)"
  have at: "th_heap ?v ! slot = m"
    using 1(2,3) by (auto simp: indexed_def heap_copy_def idx_def)
  show ?case
  proof (cases "slot > 0 \<and> tvalue q m < tvalue q (th_heap q ! parent)")
    case True
    have p: "parent < slot" "parent < n" "slot \<noteq> parent"
      using True par_less [of slot] 1(3,4) by auto
    note M = hole_moves [OF 1(2,3) p(2,3)]
    have "ordered_up (tvalue q) (th_heap (heap_copy ?q1 parent m)) n parent"
      unfolding M(3) unfolding 1(4)
      by (rule ordered_up_step [OF 1(5) _ 1(3) M(4)]) (use True M(1,2) 1(4) in auto)
    then have "settled (heap_copy ?q1 parent m) (reheap_up ?q1 m parent (par parent)) n X"
      using 1(1) [OF _ _ M(5) p(2) refl] True by simp
    then have "settled ?v (reheap_up ?q1 m parent (par parent)) n X"
      by (rule settled_trans) (use M(6,7) in simp_all)
    then show ?thesis using True by (simp add: reheap_up.simps [of q m slot parent])
  next
    case False
    have "slot = 0 \<or> tvalue q (th_heap ?v ! par slot) \<le> tvalue q (th_heap ?v ! slot)"
    proof (cases "slot = 0")
      case neq: False
      then have "th_heap ?v ! parent = th_heap q ! parent"
        using par_less [of slot] 1(4) by (simp add: heap_copy_def)
      then show ?thesis using False neq at 1(4) by auto
    qed simp
    then have "ordered (tvalue q) (th_heap ?v) n" using ordered_up_stop [OF 1(5)] by blast
    then show ?thesis
      using False 1(2) settledI [of ?v n X] by (auto simp: reheap_up.simps [of q m slot parent])
  qed
qed

text \<open>The smaller of the children of a slot.\<close>

lemma smaller_child:
  assumes "child = ACE_HEAP_LCHILD slot" "child < n"
    and "c = (if child + 1 < n \<and> key (H ! (child + 1)) < key (H ! child) then child + 1 else child)"
  shows "0 < c" "c < n" "par c = slot" "slot < c"
    and "\<And>i. 0 < i \<Longrightarrow> i < n \<Longrightarrow> par i = slot \<Longrightarrow> key (H ! c) \<le> (key (H ! i) :: 'k :: linorder)"
proof -
  show c: "0 < c" "c < n" "par c = slot" "slot < c"
    using assms by (auto simp: ACE_HEAP_LCHILD_def ACE_HEAP_PARENT_def)
  fix i
  assume "0 < i" "i < n" "par i = slot"
  then have "i = child \<or> i = child + 1" using assms(1) par_child_iff by blast
  then show "key (H ! c) \<le> key (H ! i)" using assms \<open>i < n\<close> by auto
qed

lemma reheap_down_correct:
  "indexed (heap_copy q slot m) n X \<Longrightarrow> slot < n \<Longrightarrow> th_cur_size q = n \<Longrightarrow>
   child = ACE_HEAP_LCHILD slot \<Longrightarrow>
   ordered_down (tvalue q) (th_heap (heap_copy q slot m)) n slot \<Longrightarrow>
   settled (heap_copy q slot m) (reheap_down q m slot child) n X"
proof (induction q m slot child rule: reheap_down.induct)
  case (1 q m slot child)
  let ?v = "heap_copy q slot m" and ?H = "th_heap q"
  define c where "c = (if child + 1 < n \<and> tvalue q (?H ! (child + 1)) < tvalue q (?H ! child)
    then child + 1 else child)"
  have at: "th_heap ?v ! slot = m"
    using 1(2,3) by (auto simp: indexed_def heap_copy_def idx_def)
  have other: "th_heap ?v ! i = ?H ! i" if "i \<noteq> slot" for i
    using that by (simp add: heap_copy_def)
  have kids: "i \<noteq> slot" if "0 < i" "par i = slot" for i using par_less [OF that(1)] that(2) by auto
  show ?case
  proof (cases "child < n")
    case True
    note C = smaller_child [OF 1(5) True c_def]
    show ?thesis
    proof (cases "tvalue q (?H ! c) < tvalue q m")
      case less: True
      let ?q1 = "heap_copy q slot (?H ! c)"
      have "slot \<noteq> c" using C(4) by simp
      note M = hole_moves [OF 1(2,3) C(2) this]
      have "ordered_down (tvalue q) (th_heap (heap_copy ?q1 c m)) n c"
        unfolding M(3)
        by (rule ordered_down_step [OF 1(6) C(1,2) M(4) C(3)])
           (use less C(5) kids other M(1,2) in auto)
      then have "settled (heap_copy ?q1 c m) (reheap_down ?q1 m c (ACE_HEAP_LCHILD c)) n X"
        using 1(1) [OF _ c_def [folded 1(4)] _ M(5) C(2) _ refl] True less 1(4) by simp
      then have "settled ?v (reheap_down ?q1 m c (ACE_HEAP_LCHILD c)) n X"
        by (rule settled_trans) (use M(6,7) in simp_all)
      then show ?thesis using True less 1(4)
        by (simp add: reheap_down.simps [of q m slot child] Let_def c_def)
    next
      case False
      have "tvalue q (th_heap ?v ! slot) \<le> tvalue q (th_heap ?v ! i)"
        if "0 < i" "i < n" "par i = slot" for i
        using C(5) [OF that] False at other kids that by (metis leI order_trans)
      then have "ordered (tvalue q) (th_heap ?v) n" using ordered_down_stop [OF 1(6)] by blast
      then show ?thesis using True False 1(2,4) settledI [of ?v n X]
        by (simp add: reheap_down.simps [of q m slot child] Let_def c_def)
    qed
  next
    case False
    have "\<not> (0 < i \<and> i < n \<and> par i = slot)" for i
      using False 1(5) par_child_iff [of i slot] by auto
    then have "ordered (tvalue q) (th_heap ?v) n" using ordered_down_stop [OF 1(6)] by blast
    then show ?thesis using False 1(2,4) settledI [of ?v n X]
      by (simp add: reheap_down.simps [of q m slot child])
  qed
qed

end
