(* ===== verification/ACE_Timer_Heap_Inv.thy ===== *)
theory ACE_Timer_Heap_Inv
  imports ACE_Timer_Heap
begin

text \<open>
  The invariant of the timer heap and that every operation keeps it: the index and the heap
  order, the nodes taken out and not yet given back, the search for a free id (whose assertion
  never fails), and the pool of preallocated nodes. The operations implement the contract of
  \<open>ACE_Timer_Queue\<close>.
\<close>

section \<open>The invariant\<close>

definition is_free :: "int \<Rightarrow> bool" where
  "is_free x \<longleftrightarrow> x < 0 \<and> x \<noteq> -2"

text \<open>The free ids that the next wrap-around of the search will not see.\<close>

definition hidden :: "'t timer_heap \<Rightarrow> nat set \<Rightarrow> nat set" where
  "hidden q E = {i. i \<le> th_ids_curr q \<and> i < th_max_size q \<and> i < th_ids_min_free q \<and> i \<notin> E \<and>
     is_free (th_timer_ids q ! i)}"

lemma finite_hidden [simp]: "finite (hidden q E)"
  by (rule finite_subset [of _ "{..th_ids_curr q}"]) (auto simp: hidden_def)

text \<open>
  The search state for a free id, where the ids \<open>E\<close> have been given out but are not in use yet:
  \<open>timer_ids_min_free_\<close>, when set, is a free id already passed, and at most one free id is hidden.
\<close>

definition search_ok :: "'t timer_heap \<Rightarrow> nat set \<Rightarrow> bool" where
  "search_ok q E \<longleftrightarrow>
     th_ids_curr q < th_max_size q \<and>
     (th_ids_min_free q < th_max_size q \<longrightarrow>
        is_free (th_timer_ids q ! th_ids_min_free q) \<and> th_ids_min_free q \<le> th_ids_curr q \<and>
        th_ids_min_free q \<notin> E) \<and>
     card (hidden q E) \<le> 1"

text \<open>The nodes taken out of the heap, one for each id marked \<open>-2\<close> outside \<open>E\<close>.\<close>

definition limbo_ok :: "'t timer_heap \<Rightarrow> addr set \<Rightarrow> nat set \<Rightarrow> bool" where
  "limbo_ok q L E \<longleftrightarrow>
     finite L \<and> card L = th_cur_limbo q \<and> inj_on (tid q) L \<and>
     (\<forall>a \<in> L. 0 \<le> tid q a \<and> nat (tid q a) < th_max_size q \<and> nat (tid q a) \<notin> E \<and>
        th_timer_ids q ! nat (tid q a) = -2) \<and>
     (\<forall>k < th_max_size q. k \<notin> E \<longrightarrow> th_timer_ids q ! k = -2 \<longrightarrow> (\<exists>a \<in> L. tid q a = int k))"

text \<open>The preallocated nodes: those not in use are on the free list.\<close>

definition pool_ok :: "'t timer_heap \<Rightarrow> addr set \<Rightarrow> bool" where
  "pool_ok q A \<longleftrightarrow>
     0 < th_brk q \<and> finite A \<and> (\<forall>a \<in> A. 0 < a \<and> a < th_brk q) \<and>
     (th_preallocated_nodes q = NULL \<or>
      (\<exists>fs. chain (\<lambda>a. nd_next (th_nodes q a)) (th_freelist q) fs \<and> distinct fs \<and>
         set fs \<inter> A = {} \<and> (\<forall>a \<in> set fs. a < th_brk q) \<and> length fs + card A = th_max_size q))"

definition heap_inv :: "'t timer_heap \<Rightarrow> addr set \<Rightarrow> bool" where
  "heap_inv q L \<longleftrightarrow>
     indexed q (th_cur_size q) {} \<and> ordered (tvalue q) (th_heap q) (th_cur_size q) \<and>
     limbo_ok q L {} \<and> search_ok q {} \<and>
     th_cur_size q + th_cur_limbo q + 2 \<le> th_max_size q \<and>
     pool_ok q (members q (th_cur_size q) \<union> L)"

definition heap_queued :: "'t timer_heap \<Rightarrow> addr set" where
  "heap_queued q = members q (th_cur_size q)"

section \<open>Counting ids\<close>

lemma members_nth:
  "indexed q n X \<Longrightarrow> a \<in> members q n \<longleftrightarrow> (\<exists>i < n. th_heap q ! i = a)"
  by (auto simp: members_def indexed_def idx_def in_set_conv_nth)

lemma members_tid:
  assumes "indexed q n X" "a \<in> members q n"
  shows "0 \<le> tid q a" "nat (tid q a) < th_max_size q" "0 \<le> th_timer_ids q ! nat (tid q a)"
  using assms members_nth [OF assms(1)] by (auto simp: indexed_def idx_def)

lemma members_inj: "indexed q n X \<Longrightarrow> inj_on (tid q) (members q n)"
  using members_nth [of q n X] idx_inj unfolding indexed_def inj_on_def by metis

lemma card_members:
  assumes "indexed q n X"
  shows "card (members q n) = n"
proof -
  have len: "n \<le> length (th_heap q)" using assms by (simp add: indexed_def idx_def)
  have "distinct (take n (th_heap q))"
    using len assms idx_inj [of "th_heap q" "th_timer_ids q" n "th_max_size q" "tid q" X]
    by (auto simp: distinct_conv_nth indexed_def)
  then show ?thesis using len distinct_card [of "take n (th_heap q)"] by (simp add: members_def)
qed

lemma marks_in_use:
  assumes "indexed q n {}"
  shows "{k. k < th_max_size q \<and> 0 \<le> th_timer_ids q ! k} = (\<lambda>a. nat (tid q a)) ` members q n"
proof (intro set_eqI iffI)
  fix k
  assume k: "k \<in> {k. k < th_max_size q \<and> 0 \<le> th_timer_ids q ! k}"
  then have "nat (th_timer_ids q ! k) < n \<and> tid q (th_heap q ! nat (th_timer_ids q ! k)) = int k"
    using assms idx_slot [of "th_heap q" "th_timer_ids q" n "th_max_size q" "tid q" "{}" k]
    by (simp add: indexed_def)
  then show "k \<in> (\<lambda>a. nat (tid q a)) ` members q n"
    using members_nth [OF assms, of "th_heap q ! nat (th_timer_ids q ! k)"]
    by (intro image_eqI [of _ _ "th_heap q ! nat (th_timer_ids q ! k)"]) auto
next
  fix k
  assume "k \<in> (\<lambda>a. nat (tid q a)) ` members q n"
  then show "k \<in> {k. k < th_max_size q \<and> 0 \<le> th_timer_ids q ! k}"
    using members_tid [OF assms] by auto
qed

lemma card_marks_in_use:
  assumes "indexed q n {}"
  shows "card {k. k < th_max_size q \<and> 0 \<le> th_timer_ids q ! k} = n"
proof -
  have "inj_on (\<lambda>a. nat (tid q a)) (members q n)"
    using members_inj [OF assms] members_tid(1) [OF assms] unfolding inj_on_def
    by (metis eq_nat_nat_iff)
  then show ?thesis
    unfolding marks_in_use [OF assms] using card_members [OF assms] by (simp add: card_image)
qed

lemma card_marks_limbo:
  assumes "limbo_ok q L E" "E \<inter> {k. k < th_max_size q \<and> th_timer_ids q ! k = -2} = {}"
  shows "card {k. k < th_max_size q \<and> th_timer_ids q ! k = -2} = th_cur_limbo q"
proof -
  have "{k. k < th_max_size q \<and> th_timer_ids q ! k = -2} = (\<lambda>a. nat (tid q a)) ` L"
  proof (intro set_eqI iffI)
    fix k
    assume "k \<in> {k. k < th_max_size q \<and> th_timer_ids q ! k = -2}"
    then show "k \<in> (\<lambda>a. nat (tid q a)) ` L"
      using assms unfolding limbo_ok_def by (metis (mono_tags, lifting) Int_iff empty_iff image_eqI
          mem_Collect_eq nat_int)
  qed (use assms(1) in \<open>auto simp: limbo_ok_def\<close>)
  moreover have "inj_on (\<lambda>a. nat (tid q a)) L"
    using assms(1) unfolding limbo_ok_def inj_on_def by (metis eq_nat_nat_iff)
  ultimately show ?thesis using assms(1) by (simp add: card_image limbo_ok_def)
qed

lemma card_marks_free:
  assumes "indexed q n {}" "limbo_ok q L {}"
  shows "card {k. k < th_max_size q \<and> is_free (th_timer_ids q ! k)} + n + th_cur_limbo q = th_max_size q"
proof -
  let ?A = "{k. k < th_max_size q \<and> is_free (th_timer_ids q ! k)}"
    and ?B = "{k. k < th_max_size q \<and> 0 \<le> th_timer_ids q ! k}"
    and ?C = "{k. k < th_max_size q \<and> th_timer_ids q ! k = -2}"
  have "{..<th_max_size q} = ?A \<union> (?B \<union> ?C)" by (auto simp: is_free_def)
  moreover have "card (?A \<union> (?B \<union> ?C)) = card ?A + (card ?B + card ?C)"
    by (subst card_Un_disjoint, simp, simp, force simp: is_free_def,
        subst card_Un_disjoint) (auto simp: is_free_def)
  ultimately have "th_max_size q = card ?A + (card ?B + card ?C)" by (metis card_lessThan)
  then show ?thesis using card_marks_in_use [OF assms(1)] card_marks_limbo [OF assms(2)] by simp
qed

section \<open>Giving out an id\<close>

lemma scan_free_spec:
  "cur \<le> mx \<Longrightarrow> r = scan_free ids mx cur \<Longrightarrow>
   cur \<le> r \<and> r \<le> mx \<and> (r < mx \<longrightarrow> is_free (ids ! r)) \<and> (\<forall>i. cur \<le> i \<longrightarrow> i < r \<longrightarrow> \<not> is_free (ids ! i))"
proof (induction ids mx cur rule: scan_free.induct)
  case (1 ids mx cur)
  show ?case
  proof (cases "cur < mx \<and> (ids ! cur \<ge> 0 \<or> ids ! cur = -2)")
    case True
    with 1 have "cur + 1 \<le> r \<and> r \<le> mx \<and> (r < mx \<longrightarrow> is_free (ids ! r)) \<and>
        (\<forall>i. cur + 1 \<le> i \<longrightarrow> i < r \<longrightarrow> \<not> is_free (ids ! i))"
      by (simp add: scan_free.simps [of ids mx cur])
    moreover have "\<not> is_free (ids ! cur)" using True by (auto simp: is_free_def)
    ultimately show ?thesis
      by (metis Suc_eq_plus1 Suc_leI le_neq_implies_less less_or_eq_imp_le add_leD1)
  next
    case False
    with 1 show ?thesis by (auto simp: scan_free.simps [of ids mx cur] is_free_def)
  qed
qed

lemma pop_freelist_frame [simp]:
  "th_max_size (fst (pop_freelist q)) = th_max_size q"
  "th_cur_size (fst (pop_freelist q)) = th_cur_size q"
  "th_cur_limbo (fst (pop_freelist q)) = th_cur_limbo q"
  "th_heap (fst (pop_freelist q)) = th_heap q"
  "th_timer_ids (fst (pop_freelist q)) = th_timer_ids q"
  "th_nodes (fst (pop_freelist q)) = th_nodes q"
  "th_preallocated_nodes (fst (pop_freelist q)) = th_preallocated_nodes q"
  "th_freelist (fst (pop_freelist q)) = th_freelist q"
  "th_brk (fst (pop_freelist q)) = th_brk q"
  by (simp_all add: pop_freelist_def Let_def)

text \<open>
  The search finds a free id: the assertion in \<open>pop_freelist\<close> holds, the id given out was free,
  and the search state is good again without it.
\<close>

lemma pop_freelist_correct:
  assumes "search_ok q {}" "2 \<le> card {k. k < th_max_size q \<and> is_free (th_timer_ids q ! k)}"
    and "pop_freelist q = (q', tk)"
  shows "pop_freelist_assert q" "0 \<le> tk" "nat tk < th_max_size q"
    and "is_free (th_timer_ids q ! nat tk)" "search_ok q' {nat tk}"
proof -
  let ?mx = "th_max_size q" and ?ids = "th_timer_ids q" and ?m = "th_ids_min_free q"
    and ?c = "th_ids_curr q"
  define r where "r = scan_free ?ids ?mx (?c + 1)"
  have S: "?c < ?mx" "?m < ?mx \<Longrightarrow> is_free (?ids ! ?m) \<and> ?m \<le> ?c" "card (hidden q {}) \<le> 1"
    using assms(1) by (auto simp: search_ok_def)
  have R: "?c + 1 \<le> r" "r \<le> ?mx" "r < ?mx \<Longrightarrow> is_free (?ids ! r)"
      "\<And>i. ?c + 1 \<le> i \<Longrightarrow> i < r \<Longrightarrow> \<not> is_free (?ids ! i)"
    using scan_free_spec [of "?c + 1" ?mx r ?ids] S(1) by (auto simp: r_def)
  have wrap: "?m < ?mx" if "r = ?mx"
  proof (rule ccontr)
    assume "\<not> ?m < ?mx"
    then have "k \<in> hidden q {}" if "k < ?mx" "is_free (?ids ! k)" for k
      using R(4) [of k] \<open>r = ?mx\<close> that by (cases "k \<le> ?c") (auto simp: hidden_def)
    then have "{k. k < ?mx \<and> is_free (?ids ! k)} \<subseteq> hidden q {}" by blast
    then have "card {k. k < ?mx \<and> is_free (?ids ! k)} \<le> 1"
      using S(3) card_mono [OF finite_hidden, of _ q "{}"] by (meson le_trans)
    with assms(2) show False by simp
  qed
  then show "pop_freelist_assert q" by (simp add: pop_freelist_assert_def r_def)
  have P: "q' = (if r = ?mx then q\<lparr>th_ids_curr := ?m, th_ids_min_free := ?mx\<rparr>
                 else q\<lparr>th_ids_curr := r\<rparr>)" "tk = int (th_ids_curr q')"
    using assms(3) by (auto simp: pop_freelist_def Let_def r_def)
  have tk: "nat tk = (if r = ?mx then ?m else r)" by (simp add: P)
  show "0 \<le> tk" by (simp add: P(2))
  show "nat tk < ?mx" "is_free (?ids ! nat tk)" using wrap S(2) R tk by auto
  have "hidden q' {nat tk} \<subseteq> hidden q {}"
  proof
    fix i
    assume i: "i \<in> hidden q' {nat tk}"
    show "i \<in> hidden q {}"
    proof (cases "r = ?mx")
      case True
      then show ?thesis using i wrap S(2) tk by (auto simp: P(1) hidden_def)
    next
      case False
      then have "i \<le> ?c" using i R(4) [of i] tk by (force simp: P(1) hidden_def)
      then show ?thesis using i False by (auto simp: P(1) hidden_def)
    qed
  qed
  then have "card (hidden q' {nat tk}) \<le> 1"
    using S(3) card_mono [OF finite_hidden] by (meson le_trans)
  then show "search_ok q' {nat tk}"
    using tk wrap S R by (auto simp: search_ok_def P(1))
qed

section \<open>Putting a node into the heap\<close>

lemma idx_extend:
  assumes "idx H I n mx t {}" "n < mx" "0 \<le> t m" "nat (t m) < mx" "I ! nat (t m) < 0"
  shows "idx (H[n := m]) (I[nat (t m) := int n]) (Suc n) mx t {}"
proof -
  note len = idx_lengths [OF assms(1)]
  have "0 \<le> t (H ! i) \<and> nat (t (H ! i)) < mx \<and> nat (t (H ! i)) \<noteq> nat (t m) \<and>
      I ! nat (t (H ! i)) = int i" if "i < n" for i
    using idx_id [OF assms(1) that] assms(5) by auto
  moreover have "nat (I ! k) < n \<and> t (H ! nat (I ! k)) = int k" if "k < mx" "0 \<le> I ! k" for k
    using idx_slot [OF assms(1)] that by simp
  ultimately show ?thesis
    using len assms(2-4) unfolding idx_def by (auto simp: nth_list_update less_Suc_eq) blast
qed

lemma ordered_up_extend:
  assumes "ordered key H n" "n < length H"
  shows "ordered_up key (H[n := m]) (Suc n) n"
proof -
  have "par i \<noteq> n" "par i < n" if "0 < i" "i < Suc n" for i
    using par_less [OF that(1)] that(2) by auto
  then show ?thesis
    using assms by (auto simp: ordered_up_def ordered_def bridged_def nth_list_update)
qed

text \<open>A node ready to be inserted: not in the heap, its id given out but not in use.\<close>

definition pending :: "'t timer_heap \<Rightarrow> addr \<Rightarrow> addr set \<Rightarrow> bool" where
  "pending q n L \<longleftrightarrow>
     indexed q (th_cur_size q) {} \<and> ordered (tvalue q) (th_heap q) (th_cur_size q) \<and>
     limbo_ok q L {nat (tid q n)} \<and> search_ok q {nat (tid q n)} \<and>
     pool_ok q (insert n (members q (th_cur_size q) \<union> L)) \<and>
     n \<notin> members q (th_cur_size q) \<union> L \<and>
     0 \<le> tid q n \<and> nat (tid q n) < th_max_size q \<and> th_timer_ids q ! nat (tid q n) < 0"

lemma settled_marks:
  assumes "settled v r n X" "indexed v n X" "k < th_max_size v" "k \<notin> X"
    and "th_timer_ids v ! k < 0"
  shows "th_timer_ids r ! k = th_timer_ids v ! k"
proof -
  have "k \<notin> (\<lambda>a. nat (tid v a)) ` members v n"
    using members_tid(3) [OF assms(2)] assms(5) by fastforce
  then show ?thesis using assms(1,3) by (simp add: settled_def)
qed

lemma settled_marks_back:
  assumes "settled v r n X" "indexed v n X" "k < th_max_size v" "th_timer_ids r ! k < 0"
    and "th_nodes r = th_nodes v" "th_max_size r = th_max_size v"
  shows "th_timer_ids v ! k = th_timer_ids r ! k"
proof -
  have r: "indexed r n X" "members r n = members v n" using assms(1) by (simp_all add: settled_def)
  have "k \<notin> (\<lambda>a. nat (tid v a)) ` members v n"
    using members_tid(3) [OF r(1)] assms(4,5) r(2) by fastforce
  then show ?thesis using assms(1,3) by (simp add: settled_def)
qed

lemma search_ok_cong:
  assumes "th_ids_curr r = th_ids_curr q" "th_ids_min_free r = th_ids_min_free q"
    and "th_max_size r = th_max_size q"
    and "\<And>k. k < th_max_size q \<Longrightarrow> k \<notin> E' \<and> is_free (th_timer_ids r ! k) \<longleftrightarrow>
      k \<notin> E \<and> is_free (th_timer_ids q ! k)"
  shows "search_ok r E' \<longleftrightarrow> search_ok q E"
proof -
  have "hidden r E' = hidden q E" using assms by (auto simp: hidden_def)
  then show ?thesis using assms unfolding search_ok_def by metis
qed

lemma limbo_ok_cong:
  assumes "th_cur_limbo r = th_cur_limbo q" "th_max_size r = th_max_size q" "th_nodes r = th_nodes q"
    and "\<And>k. k < th_max_size q \<Longrightarrow> k \<notin> E' \<and> th_timer_ids r ! k = -2 \<longleftrightarrow>
      k \<notin> E \<and> th_timer_ids q ! k = -2"
  shows "limbo_ok r L E' \<longleftrightarrow> limbo_ok q L E"
  unfolding limbo_ok_def assms(1-3) using assms(4) by blast

lemma pool_ok_cong:
  assumes "th_brk r = th_brk q" "th_preallocated_nodes r = th_preallocated_nodes q"
    and "th_nodes r = th_nodes q" "th_freelist r = th_freelist q" "th_max_size r = th_max_size q"
  shows "pool_ok r A \<longleftrightarrow> pool_ok q A"
  by (simp add: pool_ok_def assms)

lemma place_node:
  assumes "pending q n L" "th_cur_size q + th_cur_limbo q + 3 \<le> th_max_size q"
  defines "r \<equiv> reheap_up q n (th_cur_size q) (par (th_cur_size q))"
  defines "q' \<equiv> r\<lparr>th_cur_size := th_cur_size r + 1\<rparr>"
  shows "heap_inv q' L" "heap_queued q' = insert n (heap_queued q)" "th_nodes q' = th_nodes q"
proof -
  let ?c = "th_cur_size q" and ?v = "heap_copy q (th_cur_size q) n" and ?k = "nat (tid q n)"
  have P: "indexed q ?c {}" "ordered (tvalue q) (th_heap q) ?c" "limbo_ok q L {?k}"
      "search_ok q {?k}" "pool_ok q (insert n (members q ?c \<union> L))" "0 \<le> tid q n"
      "?k < th_max_size q" "th_timer_ids q ! ?k < 0"
    using assms(1) by (simp_all add: pending_def)
  have len: "length (th_heap q) = th_max_size q" "length (th_timer_ids q) = th_max_size q"
      "?c < th_max_size q"
    using P(1) assms(2) by (auto simp: indexed_def idx_def)
  have V: "indexed ?v (Suc ?c) {}"
    using idx_extend [of "th_heap q" "th_timer_ids q" ?c "th_max_size q" "tid q" n] P len
    by (simp add: indexed_def heap_copy_def)
  have "ordered_up (tvalue q) (th_heap ?v) (Suc ?c) ?c"
    using ordered_up_extend [OF P(2)] len by (simp add: heap_copy_def)
  then have S: "settled ?v r (Suc ?c) {}"
    unfolding r_def using V by (intro reheap_up_correct) simp_all
  have mem: "members ?v (Suc ?c) = insert n (members q ?c)"
    using len by (simp add: members_def heap_copy_def take_Suc_conv_app_nth)
  have neg: "th_timer_ids r ! k < 0 \<longleftrightarrow> k \<noteq> ?k \<and> th_timer_ids q ! k < 0"
      "k \<noteq> ?k \<Longrightarrow> th_timer_ids q ! k < 0 \<Longrightarrow> th_timer_ids r ! k = th_timer_ids q ! k"
    if "k < th_max_size q" for k
  proof -
    have v: "th_timer_ids ?v ! k = (if k = ?k then int ?c else th_timer_ids q ! k)"
      using that len by (auto simp: heap_copy_def nth_list_update)
    show "k \<noteq> ?k \<Longrightarrow> th_timer_ids q ! k < 0 \<Longrightarrow> th_timer_ids r ! k = th_timer_ids q ! k"
      using settled_marks [OF S V, of k] that v by simp
    then show "th_timer_ids r ! k < 0 \<longleftrightarrow> k \<noteq> ?k \<and> th_timer_ids q ! k < 0"
      using settled_marks_back [OF S V, of k] that v by (auto simp: r_def split: if_splits)
  qed
  have q': "th_nodes q' = th_nodes q" "th_max_size q' = th_max_size q" "th_cur_size q' = Suc ?c"
      "th_heap q' = th_heap r" "th_timer_ids q' = th_timer_ids r" "th_cur_limbo q' = th_cur_limbo q"
    by (simp_all add: q'_def r_def)
  show "th_nodes q' = th_nodes q" by (rule q'(1))
  have mem': "members q' (Suc ?c) = insert n (members q ?c)"
    using S mem q'(4) by (simp add: settled_def members_def)
  then show "heap_queued q' = insert n (heap_queued q)" by (simp add: heap_queued_def q'(3))
  have "indexed q' (Suc ?c) {}" "ordered (tvalue q') (th_heap q') (Suc ?c)"
    using S by (simp_all add: settled_def indexed_def q' r_def)
  moreover have "search_ok q' {}"
  proof -
    have "search_ok q' {} \<longleftrightarrow> search_ok q {?k}"
      by (rule search_ok_cong) (use neg in \<open>auto simp: q'_def r_def is_free_def\<close>)
    then show ?thesis using P(4) by simp
  qed
  moreover have "limbo_ok q' L {}"
  proof -
    have "limbo_ok q' L {} \<longleftrightarrow> limbo_ok q L {?k}"
      by (rule limbo_ok_cong) (use neg in \<open>force simp: q'_def r_def\<close>)+
    then show ?thesis using P(3) by simp
  qed
  moreover have "pool_ok q' (members q' (Suc ?c) \<union> L)"
  proof -
    have "pool_ok q' A \<longleftrightarrow> pool_ok q A" for A by (rule pool_ok_cong) (simp_all add: q'_def r_def)
    then show ?thesis using P(5) mem' by simp
  qed
  ultimately show "heap_inv q' L"
    unfolding heap_inv_def q'(3) using assms(2) by (simp add: q')
qed

section \<open>Growing\<close>

lemma link_nodes_loop:
  "fold (\<lambda>j s. s(base + (j - 1) := (s (base + (j - 1)))\<lparr>nd_next := base + j\<rparr>)) [1..<m] s a =
   (if base \<le> a \<and> a < base + (m - 1) then (s a)\<lparr>nd_next := a + 1\<rparr> else s a)"
proof (induction m arbitrary: a)
  case (Suc m)
  show ?case
  proof (cases "m = 0")
    case False
    then have "[1..<Suc m] = [1..<m] @ [m]" by simp
    with False Suc show ?thesis by auto
  qed simp
qed simp

lemma link_nodes_outside: "0 < n \<Longrightarrow> \<not> (base \<le> a \<and> a < base + n) \<Longrightarrow> link_nodes base n nodes a = nodes a"
  unfolding link_nodes_def Let_def fun_upd_apply link_nodes_loop by auto

lemma link_nodes_next:
  "0 < n \<Longrightarrow> base \<le> a \<Longrightarrow> a < base + n \<Longrightarrow>
   nd_next (link_nodes base n nodes a) = (if a = base + (n - 1) then NULL else a + 1)"
  unfolding link_nodes_def Let_def fun_upd_apply link_nodes_loop by auto

lemma link_nodes_chain:
  assumes "0 < n" "0 < base"
  shows "chain (\<lambda>a. nd_next (link_nodes base n nodes a)) base [base..<base + n]"
proof -
  have "chain (\<lambda>a. nd_next (link_nodes base n nodes a)) (base + i) [base + i..<base + n]"
    if "i < n" for i
    using that
  proof (induction "n - i" arbitrary: i)
    case (Suc d)
    show ?case
    proof (cases "Suc i < n")
      case True
      then have "chain (\<lambda>a. nd_next (link_nodes base n nodes a)) (base + Suc i) [base + Suc i..<base + n]"
        using Suc.hyps(1) [of "Suc i"] Suc.hyps(2) by simp
      then show ?thesis
        using True assms link_nodes_next [of n base "base + i" nodes] by (simp add: upt_conv_Cons)
    next
      case False
      then have "i = n - 1" using Suc.prems by simp
      then show ?thesis using assms link_nodes_next [of n base "base + i" nodes] Suc.prems
        by (simp add: upt_conv_Cons)
    qed
  qed simp
  from this [of 0] assms show ?thesis by simp
qed

lemma grow_heap_frame [simp]:
  "th_cur_size (grow_heap q) = th_cur_size q" "th_cur_limbo (grow_heap q) = th_cur_limbo q"
  "th_max_size (grow_heap q) = th_max_size q * 2" "th_ids_curr (grow_heap q) = th_ids_curr q"
  "th_ids_min_free (grow_heap q) = th_max_size q * 2"
  "th_heap (grow_heap q) = th_heap q @ replicate (th_max_size q) NULL"
  "th_timer_ids (grow_heap q) =
     th_timer_ids q @ map (\<lambda>i. - (int i + 1)) [th_max_size q..<th_max_size q * 2]"
  by (simp_all add: grow_heap_def Let_def)

text \<open>The pool after growing, and the nodes in use with all but their links.\<close>

lemma grow_pool:
  assumes "pool_ok q A" "0 < th_max_size q"
  shows "pool_ok (grow_heap q) A" "a \<in> A \<Longrightarrow> th_nodes (grow_heap q) a = th_nodes q a"
proof -
  let ?m = "th_max_size q" and ?b = "th_brk q"
  have A: "0 < ?b" "finite A" "\<forall>a \<in> A. 0 < a \<and> a < ?b" using assms(1) by (auto simp: pool_ok_def)
  have "pool_ok (grow_heap q) A \<and> (a \<in> A \<longrightarrow> th_nodes (grow_heap q) a = th_nodes q a)"
  proof (cases "th_preallocated_nodes q = NULL")
    case True
    then show ?thesis using A by (simp add: pool_ok_def grow_heap_def Let_def)
  next
    case False
    then obtain fs where fs: "chain (\<lambda>a. nd_next (th_nodes q a)) (th_freelist q) fs" "distinct fs"
        "set fs \<inter> A = {}" "\<forall>a \<in> set fs. a < ?b" "length fs + card A = ?m"
      using assms(1) by (auto simp: pool_ok_def)
    let ?N = "link_nodes ?b ?m (th_nodes q)"
    have out: "?N a = th_nodes q a" if "a < ?b" for a
      using that assms(2) by (simp add: link_nodes_outside)
    have new: "chain (\<lambda>a. nd_next (?N a)) ?b [?b..<?b + ?m]"
      using assms(2) A(1) by (rule link_nodes_chain)
    have old: "chain (\<lambda>a. nd_next (?N a)) (th_freelist q) fs"
      using fs(1,4) out chain_cong [of fs "\<lambda>a. nd_next (?N a)" "\<lambda>a. nd_next (th_nodes q a)"] by simp
    have small: "length fs \<le> ?b"
      using fs(2,4) card_mono [of "{..<?b}" "set fs"] by (auto simp: distinct_card subset_iff)
    show ?thesis
    proof (cases "th_freelist q = NULL")
      case empty: True
      then have "fs = []" using fs(1) by (simp add: chain_NULL_iff)
      then have "pool_ok (grow_heap q) A"
        using False empty new fs(5) A assms(2) unfolding pool_ok_def
        by (auto simp: grow_heap_def Let_def intro!: exI [of _ "[?b..<?b + ?m]"])
      then show ?thesis using False empty A(3) out by (simp add: grow_heap_def Let_def)
    next
      case nonempty: False
      then obtain ys where ys: "fs = th_freelist q # ys"
          "chain (\<lambda>a. nd_next (?N a)) (nd_next (?N (th_freelist q))) ys"
        using chain_head [OF old] by blast
      define l where "l = last fs"
      have l: "walk_to_last (\<lambda>a. nd_next (?N a)) (?b + ?m) (th_freelist q)
          (nd_next (?N (th_freelist q))) = l"
        using walk_to_last_chain [OF ys(2), of "?b + ?m" "th_freelist q"] small ys(1)
        by (simp add: l_def)
      have fsl: "fs = butlast fs @ [l]" using ys(1) by (simp add: l_def)
      have "l \<in> set fs" using ys(1) unfolding l_def by (intro last_in_set) simp
      then have lb: "l < ?b" "l \<in> set fs" "l \<notin> A"
        using fs(3,4) by auto
      have eq: "(\<lambda>a. nd_next ((?N(l := (?N l)\<lparr>nd_next := ?b\<rparr>)) a)) =
          (\<lambda>a. nd_next (?N a))(l := ?b)" by auto
      have "chain ((\<lambda>a. nd_next (?N a))(l := ?b)) (th_freelist q) (butlast fs @ l # [?b..<?b + ?m])"
        using old fs(2) fsl lb(1) new by (intro chain_append) auto
      moreover have "butlast fs @ l # [?b..<?b + ?m] = fs @ [?b..<?b + ?m]"
        using fsl by (metis append_Cons append_Nil append_assoc)
      ultimately have "chain (\<lambda>a. nd_next ((?N(l := (?N l)\<lparr>nd_next := ?b\<rparr>)) a)) (th_freelist q)
          (fs @ [?b..<?b + ?m])" unfolding eq by simp
      moreover have G: "th_nodes (grow_heap q) = ?N(l := (?N l)\<lparr>nd_next := ?b\<rparr>)"
          "th_freelist (grow_heap q) = th_freelist q" "th_brk (grow_heap q) = ?b + ?m"
        using False nonempty l by (simp_all add: grow_heap_def Let_def)
      ultimately have "pool_ok (grow_heap q) A"
        unfolding pool_ok_def G
        by (intro conjI disjI2 exI [of _ "fs @ [?b..<?b + ?m]"]) (use fs A in auto)
      then show ?thesis unfolding G using lb(3) A(3) out by auto
    qed
  qed
  then show "pool_ok (grow_heap q) A" "a \<in> A \<Longrightarrow> th_nodes (grow_heap q) a = th_nodes q a" by auto
qed

lemma idx_cong:
  assumes "idx H I n mx t X" "\<And>i. i < n \<Longrightarrow> t' (H ! i) = t (H ! i)"
  shows "idx H I n mx t' X"
  using assms unfolding idx_def by auto

lemma ordered_cong:
  assumes "ordered key H n" "\<And>i. i < n \<Longrightarrow> key' (H ! i) = key (H ! i)"
  shows "ordered key' H n"
  using assms par_less unfolding ordered_def by (metis order.strict_trans)

lemma grow_pending:
  assumes "pending q n L" "is_free (th_timer_ids q ! nat (tid q n))"
    and "th_cur_size q + th_cur_limbo q + 2 = th_max_size q"
  shows "pending (grow_heap q) n L" "heap_queued (grow_heap q) = heap_queued q"
    and "a \<in> insert n (heap_queued q \<union> L) \<Longrightarrow> th_nodes (grow_heap q) a = th_nodes q a"
    and "th_cur_size (grow_heap q) + th_cur_limbo (grow_heap q) + 3 \<le> th_max_size (grow_heap q)"
proof -
  let ?g = "grow_heap q" and ?m = "th_max_size q" and ?c = "th_cur_size q" and ?k = "nat (tid q n)"
  let ?A = "insert n (members q ?c \<union> L)"
  have P: "indexed q ?c {}" "ordered (tvalue q) (th_heap q) ?c" "limbo_ok q L {?k}"
      "search_ok q {?k}" "pool_ok q ?A" "n \<notin> members q ?c \<union> L" "0 \<le> tid q n"
      "?k < ?m" "th_timer_ids q ! ?k < 0"
    using assms(1) by (simp_all add: pending_def)
  have len: "length (th_heap q) = ?m" "length (th_timer_ids q) = ?m" "?c < ?m" "2 \<le> ?m"
    using P(1) assms(3) by (auto simp: indexed_def idx_def)
  have same: "th_nodes ?g a = th_nodes q a" if "a \<in> ?A" for a
    using grow_pool(2) [OF P(5) _ that] len by simp
  then show "a \<in> insert n (heap_queued q \<union> L) \<Longrightarrow> th_nodes ?g a = th_nodes q a"
    by (simp add: heap_queued_def)
  have mem: "members ?g ?c = members q ?c" using len by (simp add: members_def)
  then show "heap_queued ?g = heap_queued q" by (simp add: heap_queued_def)
  show "th_cur_size ?g + th_cur_limbo ?g + 3 \<le> th_max_size ?g" using assms(3) by simp
  have H: "th_heap ?g ! i = th_heap q ! i" if "i < ?c" for i using that len by (simp add: nth_append)
  have I: "th_timer_ids ?g ! k = (if k < ?m then th_timer_ids q ! k else - (int k + 1))"
    if "k < ?m * 2" for k
    using that len by (simp add: nth_append)
  have slot: "th_heap q ! i \<in> ?A" if "i < ?c" for i using members_nth [OF P(1)] that by auto
  have "idx (th_heap ?g) (th_timer_ids ?g) ?c (?m * 2) (tid q) {}"
    using P(1) len H I unfolding indexed_def idx_def by (auto split: if_splits)
  then have "indexed ?g ?c {}"
    unfolding indexed_def using same slot H by (auto elim!: idx_cong)
  moreover have "ordered (tvalue ?g) (th_heap ?g) ?c"
  proof -
    have "ordered (tvalue q) (th_heap ?g) ?c"
      using P(2) H par_less unfolding ordered_def by (metis order.strict_trans)
    then show ?thesis using same slot H by (elim ordered_cong) auto
  qed
  moreover have "limbo_ok ?g L {?k}"
  proof -
    have "inj_on (tid ?g) L \<longleftrightarrow> inj_on (tid q) L" using same by (intro inj_on_cong) simp
    then show ?thesis
      using P(3) same I len unfolding limbo_ok_def by (auto split: if_splits)
  qed
  moreover have "search_ok ?g {?k}"
  proof -
    have lk: "limbo_ok q L {}" using P(3) assms(2) unfolding limbo_ok_def is_free_def by auto
    have two: "card {k. k < ?m \<and> is_free (th_timer_ids q ! k)} = 2"
      using card_marks_free [OF P(1) lk] assms(3) by simp
    have "hidden ?g {?k} \<subseteq> {k. k < ?m \<and> is_free (th_timer_ids q ! k)} - {?k}"
      using P(4) I by (auto simp: hidden_def search_ok_def)
    then have "card (hidden ?g {?k}) \<le> card ({k. k < ?m \<and> is_free (th_timer_ids q ! k)} - {?k})"
      by (rule card_mono [rotated]) simp
    also have "\<dots> = 1" using two P(8) assms(2) by simp
    finally show ?thesis using P(4) by (simp add: search_ok_def)
  qed
  moreover have "pool_ok ?g ?A" using grow_pool(1) [OF P(5)] len by simp
  ultimately show "pending ?g n L"
    using P(6-9) I [of ?k] len same mem by (simp add: pending_def)
qed

lemma heap_insert_correct:
  assumes "pending q n L" "is_free (th_timer_ids q ! nat (tid q n))"
    and "th_cur_size q + th_cur_limbo q + 2 \<le> th_max_size q"
  shows "heap_inv (heap_insert q n) L" "heap_queued (heap_insert q n) = insert n (heap_queued q)"
    and "a \<in> insert n (heap_queued q \<union> L) \<Longrightarrow> th_nodes (heap_insert q n) a = th_nodes q a"
proof -
  define g where "g = (if th_cur_size q + th_cur_limbo q + 2 \<ge> th_max_size q then grow_heap q else q)"
  have G: "pending g n L" "heap_queued g = heap_queued q"
      "th_cur_size g + th_cur_limbo g + 3 \<le> th_max_size g"
    using assms grow_pending(1,2,4) [OF assms(1,2)] by (auto simp: g_def)
  have N: "th_nodes g a = th_nodes q a" if "a \<in> insert n (heap_queued q \<union> L)" for a
    using assms that grow_pending(3) [OF assms(1,2)] by (auto simp: g_def)
  have ins: "heap_insert q n = (let r = reheap_up g n (th_cur_size g) (par (th_cur_size g))
      in r\<lparr>th_cur_size := th_cur_size r + 1\<rparr>)"
    by (simp add: heap_insert_def g_def Let_def)
  show "heap_inv (heap_insert q n) L" "heap_queued (heap_insert q n) = insert n (heap_queued q)"
    "a \<in> insert n (heap_queued q \<union> L) \<Longrightarrow> th_nodes (heap_insert q n) a = th_nodes q a"
    using place_node [OF G(1,3)] N G(2) by (simp_all add: ins Let_def)
qed

section \<open>Scheduling\<close>

lemma queued_limbo_disjoint:
  assumes "indexed q n {}" "limbo_ok q L E"
  shows "members q n \<inter> L = {}"
  using members_tid(3) [OF assms(1)] assms(2) unfolding limbo_ok_def by fastforce

lemma heap_inv_card:
  assumes "heap_inv q L"
  shows "card (heap_queued q \<union> L) = th_cur_size q + th_cur_limbo q"
proof -
  have I: "indexed q (th_cur_size q) {}" "limbo_ok q L {}" using assms by (auto simp: heap_inv_def)
  show ?thesis
    unfolding heap_queued_def
    using card_Un_disjoint [OF _ _ queued_limbo_disjoint [OF I]] card_members [OF I(1)] I(2)
    by (simp add: limbo_ok_def members_def)
qed

lemma alloc_node_correct:
  assumes "pool_ok q A" "card A < th_max_size q" "heap_alloc_node q = (q', temp)"
  shows "temp \<noteq> NULL" "temp \<notin> A" "pool_ok q' (insert temp A)"
    and "a \<noteq> temp \<Longrightarrow> th_nodes q' a = th_nodes q a"
    and "th_max_size q' = th_max_size q" "th_cur_size q' = th_cur_size q"
    and "th_cur_limbo q' = th_cur_limbo q" "th_heap q' = th_heap q"
    and "th_timer_ids q' = th_timer_ids q" "th_ids_curr q' = th_ids_curr q"
    and "th_ids_min_free q' = th_ids_min_free q"
proof -
  have A: "0 < th_brk q" "finite A" "\<forall>a \<in> A. 0 < a \<and> a < th_brk q"
    using assms(1) by (auto simp: pool_ok_def)
  have "temp \<noteq> NULL \<and> temp \<notin> A \<and> pool_ok q' (insert temp A) \<and>
      (a \<noteq> temp \<longrightarrow> th_nodes q' a = th_nodes q a) \<and> th_max_size q' = th_max_size q \<and>
      th_cur_size q' = th_cur_size q \<and> th_cur_limbo q' = th_cur_limbo q \<and> th_heap q' = th_heap q \<and>
      th_timer_ids q' = th_timer_ids q \<and> th_ids_curr q' = th_ids_curr q \<and>
      th_ids_min_free q' = th_ids_min_free q"
  proof (cases "th_preallocated_nodes q = NULL")
    case True
    then have q': "temp = th_brk q" "q' = q\<lparr>th_nodes :=
        (th_nodes q)(th_brk q := node_init (th_nodes q (th_brk q))), th_brk := th_brk q + 1\<rparr>"
      using assms(3) by (auto simp: heap_alloc_node_def)
    have "pool_ok q' (insert temp A)" using A True unfolding q' pool_ok_def by auto
    then show ?thesis using A q' by auto
  next
    case False
    then obtain fs where fs: "chain (\<lambda>a. nd_next (th_nodes q a)) (th_freelist q) fs" "distinct fs"
        "set fs \<inter> A = {}" "\<forall>a \<in> set fs. a < th_brk q" "length fs + card A = th_max_size q"
      using assms(1) by (auto simp: pool_ok_def)
    from fs(5) assms(2) obtain f gs where f: "fs = f # gs" by (cases fs) auto
    with fs(1) have hd: "th_freelist q = f" "f \<noteq> NULL"
        "chain (\<lambda>a. nd_next (th_nodes q a)) (nd_next (th_nodes q f)) gs" by auto
    then have q': "temp = f" "q' = q\<lparr>th_freelist := nd_next (th_nodes q f)\<rparr>"
      using False assms(3) by (auto simp: heap_alloc_node_def Let_def)
    have "card (insert f A) = Suc (card A)" using fs(3) f A(2) by simp
    then have "pool_ok q' (insert temp A)"
      unfolding pool_ok_def q'
      by (intro conjI disjI2 exI [of _ gs]) (use A hd fs f in auto)
    then show ?thesis using q' hd fs(3) f by auto
  qed
  then show "temp \<noteq> NULL" "temp \<notin> A" "pool_ok q' (insert temp A)"
    "a \<noteq> temp \<Longrightarrow> th_nodes q' a = th_nodes q a"
    "th_max_size q' = th_max_size q" "th_cur_size q' = th_cur_size q"
    "th_cur_limbo q' = th_cur_limbo q" "th_heap q' = th_heap q"
    "th_timer_ids q' = th_timer_ids q" "th_ids_curr q' = th_ids_curr q"
    "th_ids_min_free q' = th_ids_min_free q" by auto
qed

text \<open>A change to the store that keeps what the invariant reads of the nodes in use.\<close>

lemma pool_ok_node_update:
  assumes "pool_ok q A" "n \<in> A"
  shows "pool_ok (q\<lparr>th_nodes := (th_nodes q)(n := nd)\<rparr>) A"
proof -
  have "chain (\<lambda>a. nd_next (((th_nodes q)(n := nd)) a)) f fs \<longleftrightarrow>
      chain (\<lambda>a. nd_next (th_nodes q a)) f fs" if "set fs \<inter> A = {}" for f fs
    using that assms(2) by (intro chain_cong) auto
  then show ?thesis using assms(1) unfolding pool_ok_def by auto
qed

lemma heap_schedule_correct:
  assumes "heap_inv q L" "heap_schedule_i q type act t i = (q', tk)"
  shows "heap_inv q' L" "0 \<le> tk"
    and "\<exists>n. n \<notin> heap_queued q \<union> L \<and> heap_queued q' = insert n (heap_queued q) \<and>
      entry (th_nodes q' n) = (type, act, t, i, tk) \<and>
      (\<forall>a \<in> heap_queued q \<union> L. th_nodes q' a = th_nodes q a \<and> tid q a \<noteq> tk)"
proof -
  let ?c = "th_cur_size q" and ?A = "members q (th_cur_size q) \<union> L"
  have I: "indexed q ?c {}" "ordered (tvalue q) (th_heap q) ?c" "limbo_ok q L {}" "search_ok q {}"
      "?c + th_cur_limbo q + 2 \<le> th_max_size q" "pool_ok q ?A"
    using assms(1) by (auto simp: heap_inv_def)
  have two: "2 \<le> card {k. k < th_max_size q \<and> is_free (th_timer_ids q ! k)}"
    using card_marks_free [OF I(1,3)] I(5) by linarith
  obtain q1 k where pop: "pop_freelist q = (q1, k)" by fastforce
  note K = pop_freelist_correct [OF I(4) two pop]
  have q1: "th_max_size q1 = th_max_size q" "th_cur_size q1 = ?c" "th_cur_limbo q1 = th_cur_limbo q"
      "th_heap q1 = th_heap q" "th_timer_ids q1 = th_timer_ids q" "th_nodes q1 = th_nodes q"
      "pool_ok q1 ?A"
    using pop_freelist_frame [of q] I(6) pool_ok_cong [of q1 q] pop by auto
  obtain q2 n where al: "heap_alloc_node q1 = (q2, n)" by fastforce
  have "card ?A < th_max_size q1"
    using heap_inv_card [OF assms(1)] I(5) q1(1) by (simp add: heap_queued_def)
  note N = alloc_node_correct [OF q1(7) this al]
  define nd where "nd = node_set type act t i NULL k (th_nodes q2 n)"
  define q3 where "q3 = q2\<lparr>th_nodes := (th_nodes q2)(n := nd)\<rparr>"
  have res: "q' = heap_insert q3 n" "tk = k"
    using assms(2) I(5) pop al N(1)
    by (auto simp: heap_schedule_i_def heap_timer_id_def q3_def nd_def Let_def)
  have old: "th_nodes q3 a = th_nodes q a" if "a \<noteq> n" for a
    using that N(4) q1(6) by (simp add: q3_def)
  have q3: "th_max_size q3 = th_max_size q" "th_cur_size q3 = ?c" "th_cur_limbo q3 = th_cur_limbo q"
      "th_heap q3 = th_heap q" "th_timer_ids q3 = th_timer_ids q"
    using N q1 by (simp_all add: q3_def)
  have mem: "members q3 ?c = members q ?c" by (simp add: members_def q3)
  have slot: "th_heap q ! j \<noteq> n" if "j < ?c" for j using members_nth [OF I(1)] N(2) that by auto
  have tn: "tid q3 n = k" by (simp add: q3_def nd_def node_set_def)
  have nL: "a \<noteq> n" if "a \<in> L" for a using that N(2) by auto
  have marks: "0 \<le> tid q a \<and> nat (tid q a) \<noteq> nat k" if "a \<in> ?A" for a
    using that members_tid [OF I(1)] I(3) K(4) unfolding limbo_ok_def is_free_def by fastforce
  have "pending q3 n L"
  proof -
    have "indexed q3 ?c {}"
      using I(1) slot old unfolding indexed_def q3 by (auto elim!: idx_cong)
    moreover have "ordered (tvalue q3) (th_heap q3) ?c"
      unfolding q3 using I(2) slot old by (elim ordered_cong) auto
    moreover have "limbo_ok q3 L {nat k}"
    proof -
      have "inj_on (tid q3) L \<longleftrightarrow> inj_on (tid q) L" using old nL by (intro inj_on_cong) simp
      then show ?thesis
        using I(3) old nL marks unfolding limbo_ok_def q3 by auto
    qed
    moreover have "search_ok q3 {nat k}"
    proof -
      have "search_ok q3 {nat k} \<longleftrightarrow> search_ok q1 {nat k}"
        by (rule search_ok_cong) (use N q1 in \<open>simp_all add: q3_def\<close>)
      then show ?thesis using K(5) by simp
    qed
    moreover have "pool_ok q3 (insert n ?A)"
      unfolding q3_def by (rule pool_ok_node_update [OF N(3)]) simp
    ultimately show ?thesis
      using N(2) K tn by (simp add: pending_def q3 mem is_free_def)
  qed
  note R = heap_insert_correct [OF this]
  have fr: "is_free (th_timer_ids q3 ! nat (tid q3 n))" "th_cur_size q3 + th_cur_limbo q3 + 2 \<le> th_max_size q3"
    using K(4) tn I(5) q3 by simp_all
  have Q: "heap_queued q3 = heap_queued q" by (simp add: heap_queued_def q3 mem)
  show "heap_inv q' L" using R(1) [OF fr] res by simp
  show "0 \<le> tk" using K(2) res by simp
  have E: "entry (th_nodes q' n) = (type, act, t, i, tk)"
    using R(3) [OF fr, of n] res by (simp add: entry_def q3_def nd_def node_set_def)
  have "th_nodes q' a = th_nodes q a \<and> tid q a \<noteq> tk" if a: "a \<in> heap_queued q \<union> L" for a
  proof -
    have "a \<noteq> n" using a N(2) by (auto simp: heap_queued_def)
    moreover have "nat (tid q a) \<noteq> nat k" using marks [of a] a by (simp add: heap_queued_def)
    ultimately show ?thesis using R(3) [OF fr, of a] a Q res old [of a] by auto
  qed
  with E show "\<exists>n. n \<notin> heap_queued q \<union> L \<and> heap_queued q' = insert n (heap_queued q) \<and>
      entry (th_nodes q' n) = (type, act, t, i, tk) \<and>
      (\<forall>a \<in> heap_queued q \<union> L. th_nodes q' a = th_nodes q a \<and> tid q a \<noteq> tk)"
    using N(2) R(2) [OF fr] Q res by (intro exI [of _ n]) (simp add: heap_queued_def)
qed

section \<open>Taking a node out\<close>

lemma heap_copy_idem [simp]: "heap_copy (heap_copy q s m) s m = heap_copy q s m"
  by (simp add: heap_copy_def)

lemma idx_remove:
  assumes "idx H I (Suc c) mx t {}" "s < c"
  shows "idx (H[s := H ! c]) (I[nat (t (H ! c)) := int s]) c mx t {nat (t (H ! s))}"
proof -
  note len = idx_lengths [OF assms(1)]
  note C = idx_id [OF assms(1), of c] and S = idx_id [OF assms(1), of s]
  have other: "0 \<le> t (H ! i) \<and> nat (t (H ! i)) < mx \<and> nat (t (H ! i)) \<noteq> nat (t (H ! s)) \<and>
      nat (t (H ! i)) \<noteq> nat (t (H ! c)) \<and> I ! nat (t (H ! i)) = int i"
    if "i < c" "i \<noteq> s" for i
    using idx_id [OF assms(1), of i] C S that assms(2) by auto
  have cs: "nat (t (H ! c)) \<noteq> nat (t (H ! s))" using C S assms(2) by auto
  have ids: "nat (I ! k) < c \<and> nat (I ! k) \<noteq> s \<and> t (H ! nat (I ! k)) = int k"
    if "k < mx" "0 \<le> I ! k" "k \<noteq> nat (t (H ! s))" "k \<noteq> nat (t (H ! c))" for k
  proof -
    have *: "nat (I ! k) < Suc c" "t (H ! nat (I ! k)) = int k"
      using idx_slot [OF assms(1) that(1) _ that(2)] by auto
    then have "nat (I ! k) \<noteq> c" "nat (I ! k) \<noteq> s" using that(3,4) by auto
    with * show ?thesis by simp
  qed
  show ?thesis
    unfolding idx_def using len C S other cs ids assms(2) by (auto simp: nth_list_update)
qed

lemma idx_drop_last:
  assumes "idx H I (Suc c) mx t {}"
  shows "idx H I c mx t {nat (t (H ! c))}"
proof -
  have "nat (t (H ! i)) \<noteq> nat (t (H ! c))" if "i < c" for i
    using idx_id [OF assms, of i] idx_id [OF assms, of c] that by auto
  moreover have "nat (I ! k) < c" if "k < mx" "k \<noteq> nat (t (H ! c))" "0 \<le> I ! k" for k
    using idx_slot [OF assms that(1) _ that(3)] that(2) by (auto simp: less_Suc_eq)
  ultimately show ?thesis using assms unfolding idx_def by auto
qed

lemma idx_mark:
  assumes "idx H I n mx t {k}" "x < 0"
  shows "idx H (I[k := x]) n mx t {}"
proof -
  have "nat (I[k := x] ! j) < n \<and> t (H ! nat (I[k := x] ! j)) = int j"
    if "j < mx" "0 \<le> I[k := x] ! j" for j
  proof -
    have "j \<noteq> k" "I[k := x] ! j = I ! j"
      using that assms(2) idx_lengths [OF assms(1)] by (cases "j = k"; simp)+
    then show ?thesis using idx_slot [OF assms(1) that(1)] that(2) by simp
  qed
  moreover have "I[k := x] ! nat (t (H ! i)) = int i" if "i < n" for i
    using idx_id [OF assms(1) that] by simp
  ultimately show ?thesis using assms(1) unfolding idx_def by simp
qed

lemma ordered_remove:
  assumes "ordered key H (Suc c)" "s < c" "Suc c \<le> length H"
  defines "K \<equiv> H[s := H ! c]"
  shows "key (K ! par s) \<le> key (H ! c) \<Longrightarrow> ordered_down key K c s"
    and "\<not> key (K ! par s) \<le> key (H ! c) \<Longrightarrow> ordered_up key K c s"
proof -
  have o: "key (H ! par i) \<le> key (H ! i)" if "0 < i" "i \<le> c" for i
    using assms(1) that by (simp add: ordered_def)
  have K: "K ! i = (if i = s then H ! c else H ! i)" for i using assms(2,3) by (simp add: K_def)
  have b: "bridged key K c s"
    unfolding bridged_def
  proof (intro impI allI)
    fix i assume i: "0 < s" "0 < i" "i < c" "par i = s"
    then have "i \<noteq> s" "par s \<noteq> s" using par_less [of i] par_less [of s] by auto
    moreover have "key (H ! par s) \<le> key (H ! s)" "key (H ! s) \<le> key (H ! i)"
      using o [of s] o [of i] i assms(2) by auto
    ultimately show "key (K ! par s) \<le> key (K ! i)" by (simp add: K)
  qed
  show "ordered_down key K c s" if "key (K ! par s) \<le> key (H ! c)"
    using that o b unfolding ordered_down_def K by auto
  assume n: "\<not> key (K ! par s) \<le> key (H ! c)"
  then have s: "0 < s" "par s < s" using par_less [of s] by (auto simp: K ACE_HEAP_PARENT_def split: if_splits)
  have "key (H ! c) \<le> key (H ! i)" if "0 < i" "i < c" "par i = s" for i
    using n o [of s] o [of i] that s assms(2) by (simp add: K)
  then show "ordered_up key K c s"
    using o b unfolding ordered_up_def K by auto
qed

lemma set_take_remove:
  assumes "distinct (take (Suc c) H)" "s < c" "Suc c \<le> length H"
  shows "set (take c (H[s := H ! c])) = set (take (Suc c) H) - {H ! s}"
proof -
  have d: "H ! i = H ! j \<longleftrightarrow> i = j" if "i \<le> c" "j \<le> c" for i j
    using assms(1,3) that nth_eq_iff_index_eq [of "take (Suc c) H" i j] by simp
  have K: "H[s := H ! c] ! i = (if i = s then H ! c else H ! i)" for i using assms(2,3) by simp
  have "set (take c (H[s := H ! c])) = (\<lambda>i. H[s := H ! c] ! i) ` {..<c}"
    using assms(3) nth_image [of c "H[s := H ! c]"] by (simp add: lessThan_atLeast0)
  also have "\<dots> = (\<lambda>i. H ! i) ` ({..<Suc c} - {s})"
  proof -
    have "(\<lambda>i. H[s := H ! c] ! i) ` insert s ({..<c} - {s}) = (\<lambda>i. H ! i) ` insert c ({..<c} - {s})"
      unfolding image_insert by (intro arg_cong2 [of _ _ _ _ insert] image_cong) (simp_all only: K, auto)
    moreover have "insert s ({..<c} - {s}) = {..<c}" "insert c ({..<c} - {s}) = {..<Suc c} - {s}"
      using assms(2) by auto
    ultimately show ?thesis by metis
  qed
  also have "\<dots> = set (take (Suc c) H) - {H ! s}"
    using assms(2,3) nth_image [of "Suc c" H] d by (auto simp: lessThan_atLeast0 image_iff) 
  finally show ?thesis .
qed

text \<open>The part of \<open>remove\<close> that closes the gap, before the id of the node is marked.\<close>

definition close_gap :: "'t timer_heap \<Rightarrow> nat \<Rightarrow> 't timer_heap" where
  "close_gap q slot =
     (let q1 = q\<lparr>th_cur_size := th_cur_size q - 1\<rparr>;
          moved_node = th_heap q1 ! th_cur_size q1;
          q' = heap_copy q1 slot moved_node
      in if slot < th_cur_size q1
         then if tvalue q' moved_node \<ge> tvalue q' (th_heap q' ! par slot)
              then reheap_down q' moved_node slot (ACE_HEAP_LCHILD slot)
              else reheap_up q' moved_node slot (par slot)
         else q1)"

lemma heap_remove_gap:
  "heap_remove q slot =
     (let r = close_gap q slot; n = th_heap q ! slot
      in (r\<lparr>th_timer_ids := (th_timer_ids r)[nat (tid r n) := -2],
            th_cur_limbo := th_cur_limbo r + 1\<rparr>, n))"
  by (simp add: heap_remove_def close_gap_def Let_def)

lemma close_gap_correct:
  assumes "indexed q (Suc c) {}" "ordered (tvalue q) (th_heap q) (Suc c)" "th_cur_size q = Suc c"
    and "slot \<le> c"
  defines "n \<equiv> th_heap q ! slot"
  shows "indexed (close_gap q slot) c {nat (tid q n)}"
    and "ordered (tvalue q) (th_heap (close_gap q slot)) c"
    and "members (close_gap q slot) c = members q (Suc c) - {n}"
    and "k < th_max_size q \<Longrightarrow> k \<noteq> nat (tid q n) \<Longrightarrow>
      th_timer_ids (close_gap q slot) ! k < 0 \<longleftrightarrow> th_timer_ids q ! k < 0"
    and "k < th_max_size q \<Longrightarrow> th_timer_ids q ! k < 0 \<Longrightarrow>
      th_timer_ids (close_gap q slot) ! k = th_timer_ids q ! k"
proof -
  have I: "idx (th_heap q) (th_timer_ids q) (Suc c) (th_max_size q) (tid q) {}"
    using assms(1) by (simp add: indexed_def)
  note len = idx_lengths [OF I]
  have dist: "distinct (take (Suc c) (th_heap q))"
    using len idx_inj [OF I] by (auto simp: distinct_conv_nth)
  have "indexed (close_gap q slot) c {nat (tid q n)} \<and>
      ordered (tvalue q) (th_heap (close_gap q slot)) c \<and>
      members (close_gap q slot) c = members q (Suc c) - {n} \<and>
      (k < th_max_size q \<longrightarrow> k \<noteq> nat (tid q n) \<longrightarrow>
         (th_timer_ids (close_gap q slot) ! k < 0 \<longleftrightarrow> th_timer_ids q ! k < 0)) \<and>
      (k < th_max_size q \<longrightarrow> th_timer_ids q ! k < 0 \<longrightarrow>
         th_timer_ids (close_gap q slot) ! k = th_timer_ids q ! k)"
  proof (cases "slot < c")
    case True
    let ?q1 = "q\<lparr>th_cur_size := c\<rparr>" and ?m = "th_heap q ! c" and ?X = "{nat (tid q n)}"
    let ?v = "heap_copy ?q1 slot ?m"
    have V: "indexed ?v c ?X"
      using idx_remove [OF I True] by (simp add: indexed_def heap_copy_def n_def)
    have ord: "tvalue q (th_heap ?v ! par slot) \<le> tvalue q ?m \<Longrightarrow>
          ordered_down (tvalue q) (th_heap ?v) c slot"
        "\<not> tvalue q (th_heap ?v ! par slot) \<le> tvalue q ?m \<Longrightarrow>
          ordered_up (tvalue q) (th_heap ?v) c slot"
      using ordered_remove [OF assms(2) True] len by (simp_all add: heap_copy_def)
    have gap: "close_gap q slot = (if tvalue q (th_heap ?v ! par slot) \<le> tvalue q ?m
        then reheap_down ?v ?m slot (ACE_HEAP_LCHILD slot) else reheap_up ?v ?m slot (par slot))"
      using True assms(3) by (simp add: close_gap_def Let_def)
    have "settled ?v (close_gap q slot) c ?X"
      unfolding gap
      using reheap_down_correct [of ?v slot ?m c ?X] reheap_up_correct [of ?v slot ?m c ?X] V True ord
      by simp
    note S = this settled_marks [OF this V] settled_marks_back [OF this V]
    have mem: "members ?v c = members q (Suc c) - {n}"
      using set_take_remove [OF dist True] len by (simp add: members_def heap_copy_def n_def)
    have mk: "0 \<le> th_timer_ids q ! nat (tid q ?m)" "0 \<le> th_timer_ids q ! nat (tid q n)"
      using idx_id [OF I, of c] idx_id [OF I, of slot] True by (simp_all add: n_def)
    have ids: "th_timer_ids ?v ! k = (if k = nat (tid q ?m) then int slot else th_timer_ids q ! k)"
      if "k < th_max_size q"
      using that len by (auto simp: heap_copy_def nth_list_update)
    have fr: "th_nodes (close_gap q slot) = th_nodes q" "th_max_size (close_gap q slot) = th_max_size q"
      by (simp_all add: gap)
    have marks: "th_timer_ids (close_gap q slot) ! k = th_timer_ids q ! k"
      if "k < th_max_size q" "th_timer_ids q ! k < 0"
    proof -
      have "k \<noteq> nat (tid q ?m)" "k \<noteq> nat (tid q n)" using that mk by auto
      then show ?thesis using S(2) [of k] ids [OF that(1)] that by simp
    qed
    moreover have "th_timer_ids q ! k < 0"
      if "k < th_max_size q" "th_timer_ids (close_gap q slot) ! k < 0"
      using S(3) [of k] ids [OF that(1)] that fr by (auto split: if_splits)
    ultimately show ?thesis using S(1) mem fr by (auto simp: settled_def)
  next
    case False
    then have s: "slot = c" using assms(4) by simp
    have gap: "close_gap q slot = q\<lparr>th_cur_size := c\<rparr>"
      using assms(3) s by (simp add: close_gap_def Let_def)
    have "members q c = members q (Suc c) - {n}"
      using dist len by (auto simp: members_def n_def s take_Suc_conv_app_nth)
    moreover have "ordered (tvalue q) (th_heap q) c" using assms(2) by (simp add: ordered_def)
    moreover have "members (q\<lparr>th_cur_size := c\<rparr>) c = members q c" by (simp add: members_def)
    ultimately show ?thesis
      unfolding gap using idx_drop_last [OF I] by (simp add: indexed_def n_def s)
  qed
  then show "indexed (close_gap q slot) c {nat (tid q n)}"
    "ordered (tvalue q) (th_heap (close_gap q slot)) c"
    "members (close_gap q slot) c = members q (Suc c) - {n}"
    "k < th_max_size q \<Longrightarrow> k \<noteq> nat (tid q n) \<Longrightarrow>
      th_timer_ids (close_gap q slot) ! k < 0 \<longleftrightarrow> th_timer_ids q ! k < 0"
    "k < th_max_size q \<Longrightarrow> th_timer_ids q ! k < 0 \<Longrightarrow>
      th_timer_ids (close_gap q slot) ! k = th_timer_ids q ! k" by auto
qed

lemma heap_remove_correct:
  assumes "heap_inv q L" "slot < th_cur_size q" "heap_remove q slot = (q', n)"
  shows "n = th_heap q ! slot" "n \<in> heap_queued q" "n \<notin> L" "heap_inv q' (insert n L)"
    and "heap_queued q' = heap_queued q - {n}" "th_nodes q' = th_nodes q"
    and "th_max_size q' = th_max_size q" "0 < th_cur_limbo q'"
proof -
  obtain c where c: "th_cur_size q = Suc c" using assms(2) by (cases "th_cur_size q") auto
  let ?r = "close_gap q slot" and ?k = "nat (tid q n)"
  have J: "indexed q (Suc c) {}" "ordered (tvalue q) (th_heap q) (Suc c)" "limbo_ok q L {}"
      "search_ok q {}" "th_cur_size q + th_cur_limbo q + 2 \<le> th_max_size q"
      "pool_ok q (members q (Suc c) \<union> L)"
    using assms(1) c by (auto simp: heap_inv_def)
  have F: "th_max_size q' = th_max_size q" "th_cur_size q' = c" "th_cur_limbo q' = th_cur_limbo q + 1"
      "th_nodes q' = th_nodes q" "th_ids_curr q' = th_ids_curr q"
      "th_ids_min_free q' = th_ids_min_free q" "th_brk q' = th_brk q" "th_freelist q' = th_freelist q"
      "th_preallocated_nodes q' = th_preallocated_nodes q"
    using heap_remove_frame [of q slot] assms(3) c by simp_all
  show n: "n = th_heap q ! slot" using heap_remove_frame(10) [of q slot] assms(3) by simp
  have R: "th_max_size ?r = th_max_size q" "th_nodes ?r = th_nodes q"
    by (simp_all add: close_gap_def Let_def)
  have q': "q' = ?r\<lparr>th_timer_ids := (th_timer_ids ?r)[?k := -2], th_cur_limbo := th_cur_limbo ?r + 1\<rparr>"
    using assms(3) R n by (simp add: heap_remove_gap Let_def)
  note G = close_gap_correct [OF J(1,2) c, of slot, folded n]
  have slot: "slot \<le> c" using assms(2) c by simp
  show nq: "n \<in> heap_queued q"
    using members_nth [OF J(1)] assms(2) n c by (auto simp: heap_queued_def)
  note T = members_tid [OF J(1), of n]
  have T: "0 \<le> tid q n" "?k < th_max_size q" "0 \<le> th_timer_ids q ! ?k"
    using members_tid [OF J(1), of n] nq by (simp_all add: heap_queued_def c)
  show nL: "n \<notin> L"
    using queued_limbo_disjoint [OF J(1,3)] nq by (auto simp: heap_queued_def c)
  have len: "length (th_timer_ids ?r) = th_max_size q"
    using G(1) [OF slot] R by (simp add: indexed_def idx_def)
  have mk: "th_timer_ids q' ! k = (if k = ?k then -2 else th_timer_ids ?r ! k)" for k
    using len T(2) by (simp add: q')
  have ix: "indexed q' c {}"
    using idx_mark [of "th_heap ?r" "th_timer_ids ?r" c "th_max_size q" "tid q" ?k "-2"] G(1) [OF slot] R
    by (simp add: indexed_def q')
  have od: "ordered (tvalue q') (th_heap q') c" using G(2) [OF slot] F(4) by (simp add: q')
  have mem: "members q' c = members q (Suc c) - {n}"
    using G(3) [OF slot] by (simp add: q' members_def)
  then show "heap_queued q' = heap_queued q - {n}" by (simp add: heap_queued_def F c)
  have marks: "th_timer_ids q' ! k < 0 \<longleftrightarrow> th_timer_ids q ! k < 0"
      "th_timer_ids q ! k < 0 \<Longrightarrow> th_timer_ids q' ! k = th_timer_ids q ! k"
    if "k < th_max_size q" "k \<noteq> ?k" for k
    using G(4,5) [OF slot that(1)] that mk by auto
  have "limbo_ok q' (insert n L) {}"
  proof -
    have "tid q a \<noteq> tid q n" if "a \<in> L" for a
      using that J(3) T(3) unfolding limbo_ok_def by fastforce
    moreover have "th_timer_ids q' ! k = -2 \<longleftrightarrow> k = ?k \<or> th_timer_ids q ! k = -2"
      if "k < th_max_size q" for k
      using marks [OF that] mk [of k] by (cases "k = ?k") fastforce+
    ultimately show ?thesis
      using J(3) nL T unfolding limbo_ok_def F by (auto simp: inj_on_def)
  qed
  moreover have "search_ok q' {}"
  proof -
    have "search_ok q' {} \<longleftrightarrow> search_ok q {}"
    proof (rule search_ok_cong)
      fix k assume k: "k < th_max_size q"
      show "k \<notin> {} \<and> is_free (th_timer_ids q' ! k) \<longleftrightarrow> k \<notin> {} \<and> is_free (th_timer_ids q ! k)"
        using marks [OF k] mk [of k] T(3) unfolding is_free_def by (cases "k = ?k") auto
    qed (simp_all add: F)
    then show ?thesis using J(4) by simp
  qed
  moreover have "pool_ok q' (members q' c \<union> insert n L)"
  proof -
    have "members q' c \<union> insert n L = members q (Suc c) \<union> L"
      using mem nq by (auto simp: heap_queued_def c)
    moreover have "pool_ok q' A \<longleftrightarrow> pool_ok q A" for A
      by (rule pool_ok_cong) (simp_all add: F)
    ultimately show ?thesis using J(6) by simp
  qed
  ultimately show "heap_inv q' (insert n L)"
    unfolding heap_inv_def F using ix od J(5) F c by simp
  show "th_nodes q' = th_nodes q" "th_max_size q' = th_max_size q" "0 < th_cur_limbo q'"
    by (simp_all add: F)
qed

section \<open>Giving a node back\<close>

text \<open>The parts of the invariant read only the nodes in use.\<close>

lemma indexed_nodes:
  assumes "indexed q n X" "th_heap r = th_heap q" "th_timer_ids r = th_timer_ids q"
    and "th_max_size r = th_max_size q" "\<And>a. a \<in> members q n \<Longrightarrow> tid r a = tid q a"
  shows "indexed r n X"
  using assms members_nth [OF assms(1)] unfolding indexed_def by (auto elim!: idx_cong)

lemma ordered_nodes:
  assumes "indexed q n X" "ordered (tvalue q) (th_heap q) n" "th_heap r = th_heap q"
    and "\<And>a. a \<in> members q n \<Longrightarrow> tvalue r a = tvalue q a"
  shows "ordered (tvalue r) (th_heap r) n"
  unfolding assms(3) using assms(2,4) members_nth [OF assms(1)] by (auto elim!: ordered_cong)

lemma limbo_ok_nodes:
  assumes "limbo_ok q L E" "th_cur_limbo r = th_cur_limbo q" "th_timer_ids r = th_timer_ids q"
    and "th_max_size r = th_max_size q" "\<And>a. a \<in> L \<Longrightarrow> tid r a = tid q a"
  shows "limbo_ok r L E"
proof -
  have "inj_on (tid r) L \<longleftrightarrow> inj_on (tid q) L" using assms(5) by (intro inj_on_cong) simp
  then show ?thesis using assms unfolding limbo_ok_def by auto
qed

lemma limbo_ok_shrink:
  assumes "limbo_ok q L {}" "n \<in> L" "th_cur_limbo r = th_cur_limbo q - 1"
    and "th_max_size r = th_max_size q" "th_nodes r = th_nodes q"
    and "\<And>j. j < th_max_size q \<Longrightarrow> j \<notin> E \<and> th_timer_ids r ! j = -2 \<longleftrightarrow>
      j \<noteq> nat (tid q n) \<and> th_timer_ids q ! j = -2"
  shows "limbo_ok r (L - {n}) E"
proof -
  have L: "finite L" "card L = th_cur_limbo q" "inj_on (tid q) L"
    using assms(1) by (auto simp: limbo_ok_def)
  have T: "0 \<le> tid q a" "nat (tid q a) < th_max_size q" "th_timer_ids q ! nat (tid q a) = -2"
    if "a \<in> L" for a
    using assms(1) that by (auto simp: limbo_ok_def)
  have B: "\<exists>a \<in> L. tid q a = int k" if "k < th_max_size q" "th_timer_ids q ! k = -2" for k
    using assms(1) that by (auto simp: limbo_ok_def)
  have "nat (tid q a) \<noteq> nat (tid q n)" if "a \<in> L - {n}" for a
    using that T(1) [of a] T(1) [OF assms(2)] L(3) assms(2) by (auto simp: inj_on_def)
  then have A: "\<forall>a \<in> L - {n}. 0 \<le> tid q a \<and> nat (tid q a) < th_max_size q \<and> nat (tid q a) \<notin> E \<and>
      th_timer_ids r ! nat (tid q a) = -2"
    using T assms(6) by blast
  have "\<exists>a \<in> L - {n}. tid q a = int k"
    if k: "k < th_max_size q" "k \<notin> E" "th_timer_ids r ! k = -2" for k
  proof -
    have *: "k \<noteq> nat (tid q n)" "th_timer_ids q ! k = -2" using assms(6) [OF k(1)] k by auto
    obtain a where "a \<in> L" "tid q a = int k" using B [OF k(1) *(2)] by blast
    with *(1) show ?thesis by (intro bexI [of _ a]) auto
  qed
  moreover have "inj_on (tid q) (L - {n})" "card (L - {n}) = th_cur_limbo q - 1"
    using L assms(2) by (auto intro: inj_on_subset)
  ultimately show ?thesis unfolding limbo_ok_def assms(3-5) using L(1) A by simp
qed

lemma idx_unmark:
  assumes "idx H I n mx t {}" "I ! k < 0" "k < mx" "x < 0"
  shows "idx H (I[k := x]) n mx t {}"
proof -
  have "nat (t (H ! i)) \<noteq> k" if "i < n" for i using idx_id [OF assms(1) that] assms(2) by auto
  then have "idx H I n mx t {k}" using assms(1) unfolding idx_def by auto
  then show ?thesis using assms(4) by (rule idx_mark)
qed

lemma push_freelist_frame [simp]:
  "th_max_size (push_freelist q k) = th_max_size q" "th_heap (push_freelist q k) = th_heap q"
  "th_nodes (push_freelist q k) = th_nodes q" "th_brk (push_freelist q k) = th_brk q"
  "th_ids_curr (push_freelist q k) = th_ids_curr q" "th_freelist (push_freelist q k) = th_freelist q"
  "th_preallocated_nodes (push_freelist q k) = th_preallocated_nodes q"
  "th_timer_ids (push_freelist q k) = (th_timer_ids q)[nat k := -1]"
  by (simp_all add: push_freelist_def Let_def)

lemma push_freelist_correct:
  assumes "heap_inv q L" "n \<in> L"
  defines "r \<equiv> push_freelist q (tid q n)"
  shows "push_freelist_assert q (tid q n)" "th_cur_size r = th_cur_size q"
    and "th_cur_limbo r = th_cur_limbo q - 1" "0 < th_cur_limbo q"
    and "indexed r (th_cur_size q) {}" "limbo_ok r (L - {n}) {}" "search_ok r {}"
proof -
  let ?k = "nat (tid q n)" and ?m = "th_max_size q"
  have J: "indexed q (th_cur_size q) {}" "limbo_ok q L {}" "search_ok q {}"
    using assms(1) by (auto simp: heap_inv_def)
  have T: "0 \<le> tid q n" "?k < ?m" "th_timer_ids q ! ?k = -2" "finite L" "card L = th_cur_limbo q"
    using J(2) assms(2) by (auto simp: limbo_ok_def)
  have len: "length (th_timer_ids q) = ?m" using J(1) by (simp add: indexed_def idx_def)
  show "push_freelist_assert q (tid q n)" using T len by (simp add: push_freelist_assert_def)
  show lim: "0 < th_cur_limbo q" using T assms(2) card_gt_0_iff [of L] by auto
  show R: "th_cur_size r = th_cur_size q" "th_cur_limbo r = th_cur_limbo q - 1"
    using T(3) by (simp_all add: r_def push_freelist_def Let_def)
  have F: "th_timer_ids r = (th_timer_ids q)[?k := -1]" by (simp add: r_def)
  have mk: "th_timer_ids r ! j = (if j = ?k then -1 else th_timer_ids q ! j)" if "j < ?m" for j
    using that len by (simp add: F)
  show "indexed r (th_cur_size q) {}"
    using idx_unmark [of "th_heap q" "th_timer_ids q" _ ?m "tid q" ?k "-1"] J(1) T
    by (simp add: indexed_def r_def)
  show "limbo_ok r (L - {n}) {}"
    by (rule limbo_ok_shrink [OF J(2) assms(2)]) (use R in \<open>simp_all add: mk\<close>, simp_all add: r_def)
  have min: "th_ids_min_free r = (if ?k < th_ids_min_free q \<and> ?k \<le> th_ids_curr q then ?k
      else th_ids_min_free q)"
    using T(3) by (simp add: r_def push_freelist_def Let_def)
  have "hidden r {} \<subseteq> hidden q {}"
  proof
    fix j assume j: "j \<in> hidden r {}"
    then have "j < ?m" "j \<noteq> ?k" using min by (auto simp: hidden_def r_def split: if_splits)
    then show "j \<in> hidden q {}" using j mk [of j] min by (auto simp: hidden_def r_def split: if_splits)
  qed
  then have "card (hidden r {}) \<le> card (hidden q {})" by (rule card_mono [OF finite_hidden])
  then show "search_ok r {}"
    using J(3) min mk T(2) unfolding search_ok_def
    by (auto simp: r_def is_free_def nth_list_update len)
qed

lemma heap_free_node_correct:
  assumes "heap_inv q L" "n \<in> L"
  defines "q' \<equiv> heap_free_node q n"
  shows "heap_inv q' (L - {n})" "heap_queued q' = heap_queued q" "th_max_size q' = th_max_size q"
    and "a \<noteq> n \<Longrightarrow> th_nodes q' a = th_nodes q a"
    and "push_freelist_assert q (tid q n)"
proof -
  let ?r = "push_freelist q (tid q n)" and ?c = "th_cur_size q" and ?A = "members q (th_cur_size q) \<union> L"
  note P = push_freelist_correct [OF assms(1,2)]
  have J: "indexed q ?c {}" "ordered (tvalue q) (th_heap q) ?c" "limbo_ok q L {}"
      "?c + th_cur_limbo q + 2 \<le> th_max_size q" "pool_ok q ?A"
    using assms(1) by (auto simp: heap_inv_def)
  show "push_freelist_assert q (tid q n)" by (rule P(1))
  have q': "q' = (if th_preallocated_nodes q = NULL then ?r
      else ?r\<lparr>th_nodes := (th_nodes q)(n := (th_nodes q n)\<lparr>nd_next := th_freelist q\<rparr>), th_freelist := n\<rparr>)"
    by (simp add: q'_def heap_free_node_def Let_def)
  have F: "th_max_size q' = th_max_size q" "th_cur_size q' = ?c" "th_cur_limbo q' = th_cur_limbo ?r"
      "th_heap q' = th_heap q" "th_timer_ids q' = th_timer_ids ?r" "th_brk q' = th_brk q"
      "th_ids_curr q' = th_ids_curr ?r" "th_ids_min_free q' = th_ids_min_free ?r"
      "\<And>a. tid q' a = tid q a" "\<And>a. tvalue q' a = tvalue q a"
    using P(2) by (simp_all add: q')
  show "a \<noteq> n \<Longrightarrow> th_nodes q' a = th_nodes q a" "th_max_size q' = th_max_size q" by (simp_all add: q')
  have mem: "members q' ?c = members q ?c" by (simp add: members_def F)
  then show "heap_queued q' = heap_queued q" by (simp add: heap_queued_def F)
  have n: "n \<notin> members q ?c" using queued_limbo_disjoint [OF J(1,3)] assms(2) by auto
  have "indexed q' ?c {}" by (rule indexed_nodes [OF P(5)]) (simp_all add: F)
  moreover have "ordered (tvalue q') (th_heap q') ?c"
    by (rule ordered_nodes [OF J(1,2)]) (simp_all add: F)
  moreover have "limbo_ok q' (L - {n}) {}" by (rule limbo_ok_nodes [OF P(6)]) (simp_all add: F)
  moreover have "search_ok q' {}"
  proof -
    have "search_ok q' {} \<longleftrightarrow> search_ok ?r {}" by (rule search_ok_cong) (simp_all add: F)
    then show ?thesis using P(7) by simp
  qed
  moreover have "pool_ok q' (members q ?c \<union> (L - {n}))"
  proof (cases "th_preallocated_nodes q = NULL")
    case True
    then show ?thesis using J(5) F(6) unfolding pool_ok_def by (auto simp: q')
  next
    case False
    then obtain fs where fs: "chain (\<lambda>a. nd_next (th_nodes q a)) (th_freelist q) fs" "distinct fs"
        "set fs \<inter> ?A = {}" "\<forall>a \<in> set fs. a < th_brk q" "length fs + card ?A = th_max_size q"
      using J(5) by (auto simp: pool_ok_def)
    have A: "finite ?A" "\<forall>a \<in> ?A. 0 < a \<and> a < th_brk q" "n \<in> ?A" "0 < th_brk q"
      using J(5) assms(2) by (auto simp: pool_ok_def)
    have eq: "members q ?c \<union> (L - {n}) = ?A - {n}" using n by auto
    have "chain (\<lambda>a. nd_next (th_nodes q' a)) (th_freelist q) fs \<longleftrightarrow>
        chain (\<lambda>a. nd_next (th_nodes q a)) (th_freelist q) fs"
      using fs(3) A(3) by (intro chain_cong) (auto simp: q')
    then have "chain (\<lambda>a. nd_next (th_nodes q' a)) (th_freelist q') (n # fs)"
      using fs(1) False A by (simp add: q')
    moreover have "length (n # fs) + card (?A - {n}) = th_max_size q'"
      using fs(5) A card_Suc_Diff1 [OF A(1,3)] F(1) by simp
    ultimately show ?thesis
      unfolding pool_ok_def eq using fs A F(6) by (intro conjI disjI2 exI [of _ "n # fs"]) auto
  qed
  ultimately show "heap_inv q' (L - {n})"
    unfolding heap_inv_def F(2) using mem J(4) F(1,3) P(3,4) by simp
qed

section \<open>Putting a node back into the heap\<close>

lemma heap_reschedule_correct:
  assumes "heap_inv q L" "n \<in> L"
  shows "heap_inv (heap_reschedule q n) (L - {n})"
    and "heap_queued (heap_reschedule q n) = insert n (heap_queued q)"
    and "th_nodes (heap_reschedule q n) = th_nodes q"
proof -
  let ?r = "q\<lparr>th_cur_limbo := th_cur_limbo q - 1\<rparr>" and ?c = "th_cur_size q" and ?k = "nat (tid q n)"
  have J: "indexed q ?c {}" "ordered (tvalue q) (th_heap q) ?c" "limbo_ok q L {}" "search_ok q {}"
      "?c + th_cur_limbo q + 2 \<le> th_max_size q" "pool_ok q (members q ?c \<union> L)"
    using assms(1) by (auto simp: heap_inv_def)
  have T: "0 \<le> tid q n" "?k < th_max_size q" "th_timer_ids q ! ?k = -2" "finite L"
      "card L = th_cur_limbo q"
    using J(3) assms(2) by (auto simp: limbo_ok_def)
  have lim: "0 < th_cur_limbo q" using T assms(2) card_gt_0_iff [of L] by auto
  have mem: "members ?r ?c = members q ?c" by (simp add: members_def)
  have n: "n \<notin> members q ?c" using queued_limbo_disjoint [OF J(1,3)] assms(2) by auto
  have "limbo_ok ?r (L - {n}) {?k}" by (rule limbo_ok_shrink [OF J(3) assms(2)]) simp_all
  moreover have "search_ok ?r {?k}"
  proof -
    have "search_ok ?r {?k} \<longleftrightarrow> search_ok q {}"
      by (rule search_ok_cong) (use T(3) in \<open>auto simp: is_free_def\<close>)
    then show ?thesis using J(4) by simp
  qed
  moreover have "pool_ok ?r (insert n (members q ?c \<union> (L - {n})))"
  proof -
    have "insert n (members q ?c \<union> (L - {n})) = members q ?c \<union> L" using assms(2) by auto
    then show ?thesis using J(6) pool_ok_cong [of ?r q] by simp
  qed
  ultimately have "pending ?r n (L - {n})"
    using J(1,2) n T mem by (simp add: pending_def indexed_def)
  moreover have fits: "th_cur_size ?r + th_cur_limbo ?r + 3 \<le> th_max_size ?r" using J(5) lim by simp
  ultimately have "heap_inv (heap_insert ?r n) (L - {n})"
      "heap_queued (heap_insert ?r n) = insert n (heap_queued ?r)" "th_nodes (heap_insert ?r n) = th_nodes ?r"
    using place_node [of ?r n "L - {n}"] by (simp_all add: heap_insert_def Let_def)
  moreover have "heap_reschedule q n = heap_insert ?r n" by (simp add: heap_reschedule_def T(3))
  moreover have "heap_queued ?r = heap_queued q" by (simp add: heap_queued_def members_def)
  ultimately show "heap_inv (heap_reschedule q n) (L - {n})"
    "heap_queued (heap_reschedule q n) = insert n (heap_queued q)"
    "th_nodes (heap_reschedule q n) = th_nodes q" by simp_all
qed

lemma heap_set_node_correct:
  assumes "heap_inv q L" "n \<in> L" "nd_timer_id nd = tid q n"
  defines "q' \<equiv> q\<lparr>th_nodes := (th_nodes q)(n := nd)\<rparr>"
  shows "heap_inv q' L" "heap_queued q' = heap_queued q"
proof -
  let ?c = "th_cur_size q"
  have J: "indexed q ?c {}" "ordered (tvalue q) (th_heap q) ?c" "limbo_ok q L {}" "search_ok q {}"
      "pool_ok q (members q ?c \<union> L)"
    using assms(1) by (auto simp: heap_inv_def)
  have n: "n \<notin> members q ?c" using queued_limbo_disjoint [OF J(1,3)] assms(2) by auto
  have mem: "members q' ?c = members q ?c" by (simp add: members_def q'_def)
  then show "heap_queued q' = heap_queued q" by (simp add: heap_queued_def q'_def)
  have "indexed q' ?c {}" by (rule indexed_nodes [OF J(1)]) (use assms(3) in \<open>simp_all add: q'_def\<close>)
  moreover have "ordered (tvalue q') (th_heap q') ?c"
    by (rule ordered_nodes [OF J(1,2)]) (use n in \<open>auto simp: q'_def\<close>)
  moreover have "limbo_ok q' L {}"
    by (rule limbo_ok_nodes [OF J(3)]) (use assms(3) in \<open>simp_all add: q'_def\<close>)
  moreover have "search_ok q' {}"
    using J(4) search_ok_cong [of q' q "{}" "{}"] by (simp add: q'_def)
  moreover have "pool_ok q' (members q ?c \<union> L)"
    unfolding q'_def by (rule pool_ok_node_update [OF J(5)]) (use assms(2) in simp)
  ultimately show "heap_inv q' L"
    using assms(1) mem by (simp add: heap_inv_def) (simp add: q'_def)
qed

end
