(* ===== verification/ACE_Timer_Heap_Correct.thy ===== *)
theory ACE_Timer_Heap_Correct
  imports ACE_Timer_Heap_Inv
begin

text \<open>
  The timer heap as a timer queue: the constructor establishes the invariant, the virtual
  functions satisfy the contract \<open>timer_queue\<close>, and the public operations (\<open>schedule\<close>,
  \<open>cancel\<close> in both forms, \<open>reset_interval\<close>, \<open>close\<close>, \<open>expire\<close>) do what they promise.
\<close>

section \<open>Construction\<close>

lemma timer_heap_init_inv:
  assumes "2 \<le> size0"
  shows "heap_inv (timer_heap_init size0 pre memory) {}"
    and "heap_queued (timer_heap_init size0 pre memory) = {}"
proof -
  let ?q = "timer_heap_init size0 pre memory"
  define size where "size = (if int size0 > LONG_MAX then nat LONG_MAX else size0)"
  have size: "2 \<le> size" using assms by (simp add: size_def LONG_MAX_def)
  have F: "th_max_size ?q = size" "th_cur_size ?q = 0" "th_cur_limbo ?q = 0"
      "th_heap ?q = replicate size NULL" "th_timer_ids ?q = replicate size (-1)"
      "th_ids_curr ?q = 0" "th_ids_min_free ?q = 0"
    by (simp_all add: timer_heap_init_def Let_def size_def)
  show "heap_queued ?q = {}" by (simp add: heap_queued_def members_def F)
  have "indexed ?q 0 {}" by (simp add: indexed_def idx_def F)
  moreover have "hidden ?q {} = {}" by (simp add: hidden_def F)
  then have "search_ok ?q {}" using size by (simp add: search_ok_def F is_free_def)
  moreover have "limbo_ok ?q {} {}" by (simp add: limbo_ok_def F)
  moreover have "pool_ok ?q {}"
  proof (cases pre)
    case False
    then show ?thesis by (simp add: pool_ok_def timer_heap_init_def Let_def)
  next
    case True
    have "chain (\<lambda>a. nd_next (link_nodes 1 size memory a)) 1 [1..<1 + size]"
      using size by (intro link_nodes_chain) simp_all
    then have "chain (\<lambda>a. nd_next (th_nodes ?q a)) (th_freelist ?q) [1..<1 + size]"
      using True by (simp add: timer_heap_init_def Let_def size_def)
    moreover have "th_brk ?q = 1 + size" using True by (simp add: timer_heap_init_def Let_def size_def)
    ultimately show ?thesis
      unfolding pool_ok_def F by (intro conjI disjI2 exI [of _ "[1..<1 + size]"]) auto
  qed
  ultimately show "heap_inv ?q {}"
    using size by (simp add: heap_inv_def F members_def ordered_def)
qed

section \<open>The contract of a timer queue\<close>

definition heap_ops :: "('t timer_heap, 't) timer_queue_ops" where
  "heap_ops = \<lparr>op_is_empty = heap_is_empty, op_earliest_time = heap_earliest_time,
     op_remove_first = heap_remove_first, op_reschedule = heap_reschedule,
     op_free_node = heap_free_node, op_node = th_nodes,
     op_set_node = (\<lambda>q a nd. q\<lparr>th_nodes := (th_nodes q)(a := nd)\<rparr>),
     op_schedule_i = heap_schedule_i\<rparr>"

lemma heap_ops_simps [simp]:
  "op_is_empty heap_ops = heap_is_empty" "op_earliest_time heap_ops = heap_earliest_time"
  "op_remove_first heap_ops = heap_remove_first" "op_reschedule heap_ops = heap_reschedule"
  "op_free_node heap_ops = heap_free_node" "op_node heap_ops = th_nodes"
  "op_set_node heap_ops q a nd = q\<lparr>th_nodes := (th_nodes q)(a := nd)\<rparr>"
  "op_schedule_i heap_ops = heap_schedule_i"
  by (simp_all add: heap_ops_def)

lemma heap_inv_parts:
  assumes "heap_inv q L"
  shows "indexed q (th_cur_size q) {}" "ordered (tvalue q) (th_heap q) (th_cur_size q)"
    and "limbo_ok q L {}" "heap_queued q \<inter> L = {}" "finite (heap_queued q)"
    and "card (heap_queued q) = th_cur_size q" "length (th_timer_ids q) = th_max_size q"
    and "a \<in> heap_queued q \<longleftrightarrow> (\<exists>i < th_cur_size q. th_heap q ! i = a)"
proof -
  show I: "indexed q (th_cur_size q) {}" "ordered (tvalue q) (th_heap q) (th_cur_size q)" "limbo_ok q L {}"
    using assms by (auto simp: heap_inv_def)
  show "heap_queued q \<inter> L = {}" using queued_limbo_disjoint [OF I(1,3)] by (simp add: heap_queued_def)
  show "finite (heap_queued q)" by (simp add: heap_queued_def members_def)
  show "card (heap_queued q) = th_cur_size q" using card_members [OF I(1)] by (simp add: heap_queued_def)
  show "length (th_timer_ids q) = th_max_size q" using I(1) by (simp add: indexed_def idx_def)
  show "a \<in> heap_queued q \<longleftrightarrow> (\<exists>i < th_cur_size q. th_heap q ! i = a)"
    unfolding heap_queued_def by (rule members_nth [OF I(1)])
qed

lemma heap_empty_iff: "heap_inv q L \<Longrightarrow> heap_is_empty q \<longleftrightarrow> heap_queued q = {}"
  using heap_inv_parts(5,6) [of q L] by (auto simp: heap_is_empty_def)

lemma heap_root_least:
  assumes "heap_inv q L" "a \<in> heap_queued q"
  shows "heap_earliest_time q \<le> tvalue q a" "th_heap q ! 0 \<in> heap_queued q"
proof -
  obtain i where i: "i < th_cur_size q" "a = th_heap q ! i"
    using assms(2) heap_inv_parts(8) [OF assms(1)] by auto
  then show "heap_earliest_time q \<le> tvalue q a"
    using ordered_root [OF heap_inv_parts(2) [OF assms(1)]] by (simp add: heap_earliest_time_def)
  have "0 < th_cur_size q" using i(1) by simp
  then show "th_heap q ! 0 \<in> heap_queued q" using heap_inv_parts(8) [OF assms(1)] by blast
qed

lemma heap_earliest_Min:
  assumes "heap_inv q L" "heap_queued q \<noteq> {}"
  shows "heap_earliest_time q = Min (tvalue q ` heap_queued q)"
proof -
  obtain a where "a \<in> heap_queued q" using assms(2) by auto
  then have "th_heap q ! 0 \<in> heap_queued q" by (rule heap_root_least(2) [OF assms(1)])
  then show ?thesis
    using heap_root_least(1) [OF assms(1)] heap_inv_parts(5) [OF assms(1)]
    by (intro Min_eqI [symmetric]) (auto simp: heap_earliest_time_def)
qed

interpretation th: timer_queue heap_ops heap_inv heap_queued "\<lambda>_. True"
proof (unfold_locales, goal_cases)
  case (1 q L)
  then show ?case by (rule heap_inv_parts)
next
  case (2 q L)
  then show ?case by (rule heap_inv_parts)
next
  case (3 q L)
  then show ?case by (simp add: heap_empty_iff)
next
  case (4 q L)
  then show ?case by (simp add: heap_earliest_Min)
next
  case (5 q L q' n)
  then have ne: "0 < th_cur_size q" using heap_empty_iff [of q L] by (simp add: heap_is_empty_def)
  with 5 have "heap_remove q 0 = (q', n)" by (simp add: heap_remove_first_def)
  note R = heap_remove_correct [OF 5(1) ne this]
  then show ?case using R by (auto simp: heap_earliest_time_def)
next
  case (6 q L n nd)
  then show ?case using heap_set_node_correct [of q L n nd] by simp
next
  case (7 q L n)
  then show ?case using heap_reschedule_correct [of q L n] by simp
next
  case (8 q L n)
  note F = heap_free_node_correct [OF 8]
  have "n \<notin> heap_queued q" using heap_inv_parts(4) [OF 8(1)] 8(2) by auto
  then have "entry (th_nodes (heap_free_node q n) a) = entry (th_nodes q a)"
    if "a \<in> heap_queued q \<union> (L - {n})" for a
    using that F(4) [of a] by fastforce
  then show ?case using F by simp
qed

section \<open>Looking a timer up by its id\<close>

text \<open>The node that \<open>cancel\<close> and \<open>reset_interval\<close> find under an id in range.\<close>

lemma id_lookup:
  assumes "heap_inv q L" "0 \<le> k" "nat k < th_max_size q"
  shows "a \<in> heap_queued q \<and> tid q a = k \<longleftrightarrow>
    0 \<le> th_timer_ids q ! nat k \<and> a = th_heap q ! nat (th_timer_ids q ! nat k)"
    and "0 \<le> th_timer_ids q ! nat k \<Longrightarrow> nat (th_timer_ids q ! nat k) < th_cur_size q \<and>
      tid q (th_heap q ! nat (th_timer_ids q ! nat k)) = k"
proof -
  have I: "idx (th_heap q) (th_timer_ids q) (th_cur_size q) (th_max_size q) (tid q) {}"
    using heap_inv_parts(1) [OF assms(1)] by (simp add: indexed_def)
  show slot: "0 \<le> th_timer_ids q ! nat k \<Longrightarrow> nat (th_timer_ids q ! nat k) < th_cur_size q \<and>
      tid q (th_heap q ! nat (th_timer_ids q ! nat k)) = k"
    using idx_slot [OF I assms(3)] assms(2) by simp
  show "a \<in> heap_queued q \<and> tid q a = k \<longleftrightarrow>
    0 \<le> th_timer_ids q ! nat k \<and> a = th_heap q ! nat (th_timer_ids q ! nat k)"
    using slot heap_inv_parts(8) [OF assms(1), of a] idx_id [OF I] by auto
qed

lemma tid_range:
  assumes "heap_inv q L" "a \<in> heap_queued q"
  shows "0 \<le> tid q a" "nat (tid q a) < th_max_size q"
  using members_tid [OF heap_inv_parts(1) [OF assms(1)]] assms(2) by (simp_all add: heap_queued_def)

lemma remove_free_correct:
  assumes "heap_inv q L" "slot < th_cur_size q" "heap_remove q slot = (q1, n)"
  defines "q' \<equiv> heap_free_node q1 n"
  shows "heap_inv q' L" "heap_queued q' = heap_queued q - {n}" "n = th_heap q ! slot"
    and "n \<in> heap_queued q" "th_nodes q1 = th_nodes q" "th_max_size q' = th_max_size q"
    and "a \<noteq> n \<Longrightarrow> th_nodes q' a = th_nodes q a"
proof -
  note R = heap_remove_correct [OF assms(1-3)]
  note F = heap_free_node_correct [OF R(4), of n]
  have "insert n L - {n} = L" using R(3) by auto
  then show "heap_inv q' L" "heap_queued q' = heap_queued q - {n}" "n = th_heap q ! slot"
    "n \<in> heap_queued q" "th_nodes q1 = th_nodes q" "th_max_size q' = th_max_size q"
    "a \<noteq> n \<Longrightarrow> th_nodes q' a = th_nodes q a"
    using R F by (simp_all add: q'_def)
qed

lemma cancel_found:
  assumes "heap_inv q L" "n \<in> heap_queued q"
  shows "\<exists>q'. heap_cancel f (q, u) (tid q n) dont_call =
      Some ((q', let (u1, cookie) = fn_cancel_type f (nd_type (th_nodes q n)) dont_call 0 u
                 in fn_cancel_timer f (nd_type (th_nodes q n)) dont_call cookie u1),
            Some (nd_act (th_nodes q n)), 1) \<and>
    heap_inv q' L \<and> heap_queued q' = heap_queued q - {n} \<and>
    (\<forall>a \<in> heap_queued q'. th_nodes q' a = th_nodes q a)"
proof -
  let ?k = "tid q n" and ?s = "th_timer_ids q ! nat (tid q n)"
  note K = tid_range [OF assms]
  have S: "0 \<le> ?s" "n = th_heap q ! nat ?s" "nat ?s < th_cur_size q"
    using id_lookup [OF assms(1) K] assms(2) by auto
  obtain q1 m where rm: "heap_remove q (nat ?s) = (q1, m)" by fastforce
  note R = remove_free_correct [OF assms(1) S(3) rm]
  have m: "m = n" using R(3) S(2) by simp
  have "heap_cancel f (q, u) ?k dont_call =
      Some ((heap_free_node q1 n, let (u1, cookie) = fn_cancel_type f (nd_type (th_nodes q n)) dont_call 0 u
                 in fn_cancel_timer f (nd_type (th_nodes q n)) dont_call cookie u1),
            Some (nd_act (th_nodes q n)), 1)"
    using K S(1,2) rm m R(5) heap_inv_parts(7) [OF assms(1)]
    by (simp add: heap_cancel_def Let_def case_prod_unfold)
  then show ?thesis using R m by auto
qed

lemma cancel_missing:
  assumes "heap_inv q L" "\<forall>n \<in> heap_queued q. tid q n \<noteq> k" "k \<noteq> int (th_max_size q)"
  shows "heap_cancel f (q, u) k dont_call = Some ((q, u), None, 0)"
proof (cases "k < 0 \<or> nat k > th_max_size q")
  case False
  then have k: "0 \<le> k" "nat k < th_max_size q" using assms(3) by auto
  have "\<not> 0 \<le> th_timer_ids q ! nat k"
    using id_lookup(1) [OF assms(1) k, of "th_heap q ! nat (th_timer_ids q ! nat k)"] assms(2) by auto
  then show ?thesis using k heap_inv_parts(7) [OF assms(1)] by (simp add: heap_cancel_def)
qed (auto simp: heap_cancel_def)

lemma queued_node_update:
  assumes "heap_inv q L" "n \<in> heap_queued q"
    and "nd_timer_id nd = tid q n" "nd_timer_value nd = tvalue q n"
  defines "q' \<equiv> q\<lparr>th_nodes := (th_nodes q)(n := nd)\<rparr>"
  shows "heap_inv q' L" "heap_queued q' = heap_queued q"
proof -
  let ?c = "th_cur_size q"
  note J = heap_inv_parts [OF assms(1)]
  have mem: "members q' ?c = members q ?c" by (simp add: members_def q'_def)
  then show "heap_queued q' = heap_queued q" by (simp add: heap_queued_def q'_def)
  have "indexed q' ?c {}" by (rule indexed_nodes [OF J(1)]) (use assms(3) in \<open>simp_all add: q'_def\<close>)
  moreover have "ordered (tvalue q') (th_heap q') ?c"
    by (rule ordered_nodes [OF J(1,2)]) (use assms(4) in \<open>simp_all add: q'_def\<close>)
  moreover have "limbo_ok q' L {}"
    by (rule limbo_ok_nodes [OF J(3)]) (use assms(3) in \<open>simp_all add: q'_def\<close>)
  moreover have "search_ok q' {} \<longleftrightarrow> search_ok q {}" by (rule search_ok_cong) (simp_all add: q'_def)
  moreover have "pool_ok q' (members q ?c \<union> L)"
    unfolding q'_def by (rule pool_ok_node_update) (use assms in \<open>simp_all add: heap_inv_def heap_queued_def\<close>)
  ultimately show "heap_inv q' L"
    using assms(1) mem by (simp add: heap_inv_def) (simp add: q'_def)
qed

section \<open>Cancelling every timer of a type\<close>

lemma cancel_type_loop_correct:
  "heap_inv q L \<Longrightarrow> (\<forall>j < i. nd_type (th_nodes q (th_heap q ! j)) \<noteq> type) \<Longrightarrow>
   heap_cancel_type_loop q type i k = (q', k') \<Longrightarrow>
   heap_inv q' L \<and> heap_queued q' = {a \<in> heap_queued q. nd_type (th_nodes q a) \<noteq> type} \<and>
   k' = k + card {a \<in> heap_queued q. nd_type (th_nodes q a) = type} \<and>
   (\<forall>a \<in> heap_queued q'. th_nodes q' a = th_nodes q a)"
proof (induction q type i k rule: heap_cancel_type_loop.induct)
  case (1 q type i k)
  let ?T = "{a \<in> heap_queued q. nd_type (th_nodes q a) = type}"
  note Q = heap_inv_parts(8) [OF 1(3)]
  show ?case
  proof (cases "i < th_cur_size q")
    case lt: True
    show ?thesis
    proof (cases "nd_type (th_nodes q (th_heap q ! i)) = type")
      case True
      obtain q1 n where rm: "heap_remove q i = (q1, n)" by fastforce
      define r where "r = heap_free_node q1 n"
      note R = remove_free_correct [OF 1(3) lt rm, folded r_def]
      have "heap_cancel_type_loop r type 0 (k + 1) = (q', k')"
        using 1(5) lt True rm by (simp add: heap_cancel_type_loop.simps [of q type i k] r_def)
      then have IH: "heap_inv q' L" "heap_queued q' = {a \<in> heap_queued r. nd_type (th_nodes r a) \<noteq> type}"
          "k' = k + 1 + card {a \<in> heap_queued r. nd_type (th_nodes r a) = type}"
          "\<forall>a \<in> heap_queued q'. th_nodes q' a = th_nodes r a"
        using 1(1) [OF lt True rm [symmetric] refl] R(1) by (simp_all add: r_def)
      have same: "a \<noteq> n \<Longrightarrow> nd_type (th_nodes r a) = nd_type (th_nodes q a)" for a
        using R(7) by simp
      have n: "n \<in> ?T" using R(3,4) True by simp
      have "{a \<in> heap_queued r. nd_type (th_nodes r a) = type} = ?T - {n}"
      proof (rule set_eqI)
        fix a
        show "a \<in> {a \<in> heap_queued r. nd_type (th_nodes r a) = type} \<longleftrightarrow> a \<in> ?T - {n}"
          using same [of a] R(2) by (cases "a = n") simp_all
      qed
      moreover have "Suc (card (?T - {n})) = card ?T"
        using n heap_inv_parts(5) [OF 1(3)] by (intro card_Suc_Diff1) simp_all
      moreover have "{a \<in> heap_queued r. nd_type (th_nodes r a) \<noteq> type} =
          {a \<in> heap_queued q. nd_type (th_nodes q a) \<noteq> type}"
      proof (rule set_eqI)
        fix a
        show "a \<in> {a \<in> heap_queued r. nd_type (th_nodes r a) \<noteq> type} \<longleftrightarrow>
            a \<in> {a \<in> heap_queued q. nd_type (th_nodes q a) \<noteq> type}"
          using same [of a] R(2) n by (cases "a = n") simp_all
      qed
      moreover have "\<forall>a \<in> heap_queued q'. th_nodes q' a = th_nodes q a"
        using IH(2,4) R(2,7) by simp
      ultimately show ?thesis using IH(1-3) by simp
    next
      case False
      then have "heap_cancel_type_loop q type (i + 1) k = (q', k')"
        using 1(5) lt by (simp add: heap_cancel_type_loop.simps [of q type i k])
      moreover have "\<forall>j < i + 1. nd_type (th_nodes q (th_heap q ! j)) \<noteq> type"
        using 1(4) False by (auto simp: less_Suc_eq)
      ultimately show ?thesis using 1(2) [OF lt False 1(3)] by blast
    qed
  next
    case False
    then have "q' = q" "k' = k" using 1(5) by (simp_all add: heap_cancel_type_loop.simps [of q type i k])
    moreover have "nd_type (th_nodes q a) \<noteq> type" if a: "a \<in> heap_queued q" for a
    proof -
      obtain j where "j < th_cur_size q" "a = th_heap q ! j" using a Q [of a] by auto
      then show ?thesis using 1(4) False by auto
    qed
    then have "?T = {}" "{a \<in> heap_queued q. nd_type (th_nodes q a) \<noteq> type} = heap_queued q" by auto
    moreover from this(1) have "card ?T = 0" by (simp only: card.empty)
    ultimately show ?thesis using 1(3) by (simp only: conj_ac) simp
  qed
qed

section \<open>Closing\<close>

text \<open>
  \<open>close\<close> frees every node still queued: the entries of the heap array stay as they are, and the
  size falls to zero because no freed id is marked as taken out.
\<close>

definition close_step ::
  "('u, 't) upcall_functor \<Rightarrow> nat \<Rightarrow> 't timer_heap \<times> 'u \<Rightarrow> 't timer_heap \<times> 'u" where
  "close_step f i = (\<lambda>(q, u). (heap_free_node q (th_heap q ! i),
     fn_deletion f (nd_type (th_nodes q (th_heap q ! i))) (nd_act (th_nodes q (th_heap q ! i))) u))"

lemma close_prefix:
  assumes "heap_inv q L" "m \<le> th_cur_size q" "fold (close_step f) [0..<m] (q, u) = (r, v)"
  shows "th_heap r = th_heap q" "th_cur_size r = th_cur_size q - m"
    and "\<forall>a. entry (th_nodes r a) = entry (th_nodes q a)"
    and "\<forall>i < th_cur_size q. m \<le> i \<longrightarrow> th_timer_ids r ! nat (tid q (th_heap q ! i)) = int i"
    and "v = fold (\<lambda>a. fn_deletion f (nd_type (th_nodes q a)) (nd_act (th_nodes q a)))
               (take m (th_heap q)) u"
proof -
  have I: "idx (th_heap q) (th_timer_ids q) (th_cur_size q) (th_max_size q) (tid q) {}"
    using heap_inv_parts(1) [OF assms(1)] by (simp add: indexed_def)
  have len: "th_cur_size q \<le> length (th_heap q)" using idx_lengths [OF I] by simp
  have "th_heap r = th_heap q \<and> th_cur_size r = th_cur_size q - m \<and>
    (\<forall>a. entry (th_nodes r a) = entry (th_nodes q a)) \<and>
    (\<forall>i < th_cur_size q. m \<le> i \<longrightarrow> th_timer_ids r ! nat (tid q (th_heap q ! i)) = int i) \<and>
    v = fold (\<lambda>a. fn_deletion f (nd_type (th_nodes q a)) (nd_act (th_nodes q a)))
          (take m (th_heap q)) u"
    using assms(2,3)
  proof (induction m arbitrary: r v)
    case 0
    then show ?case using idx_id [OF I] by simp
  next
    case (Suc m)
    obtain p w where pw: "fold (close_step f) [0..<m] (q, u) = (p, w)" by fastforce
    let ?n = "th_heap q ! m"
    have IH: "th_heap p = th_heap q" "th_cur_size p = th_cur_size q - m"
        "\<And>a. entry (th_nodes p a) = entry (th_nodes q a)"
        "\<And>i. i < th_cur_size q \<Longrightarrow> m \<le> i \<Longrightarrow> th_timer_ids p ! nat (tid q (th_heap q ! i)) = int i"
        "w = fold (\<lambda>a. fn_deletion f (nd_type (th_nodes q a)) (nd_act (th_nodes q a)))
          (take m (th_heap q)) u"
      using Suc(1) [OF _ pw] Suc(2) by auto
    note E = entry_cong [OF IH(3)]
    have r: "r = heap_free_node p ?n" "v = fn_deletion f (nd_type (th_nodes q ?n)) (nd_act (th_nodes q ?n)) w"
      using Suc(3) pw IH(1) E close_step_def [of f m] by simp_all
    have "th_timer_ids p ! nat (tid p ?n) = int m" using IH(4) [of m] Suc(2) E(5) [of ?n] by simp
    then have "th_cur_size r = th_cur_size p - 1" "th_heap r = th_heap p"
        "th_timer_ids r = (th_timer_ids p)[nat (tid q ?n) := -1]"
        "\<And>a. entry (th_nodes r a) = entry (th_nodes p a)"
      using E(5) [of ?n] by (simp_all add: r(1) heap_free_node_def push_freelist_def Let_def entry_def)
    moreover have "(th_timer_ids p)[nat (tid q ?n) := -1] ! nat (tid q (th_heap q ! i)) = int i"
      if "i < th_cur_size q" "Suc m \<le> i" for i
    proof -
      have "nat (tid q (th_heap q ! i)) \<noteq> nat (tid q ?n)"
        using idx_id [OF I that(1)] idx_id [OF I, of m] that(2) Suc(2) by auto
      then show ?thesis using IH(4) [OF that(1)] that(2) by simp
    qed
    moreover have "take (Suc m) (th_heap q) = take m (th_heap q) @ [?n]"
      using Suc(2) len by (simp add: take_Suc_conv_app_nth)
    ultimately show ?case using IH r(2) Suc(2) by simp
  qed
  then show "th_heap r = th_heap q" "th_cur_size r = th_cur_size q - m"
    "\<forall>a. entry (th_nodes r a) = entry (th_nodes q a)"
    "\<forall>i < th_cur_size q. m \<le> i \<longrightarrow> th_timer_ids r ! nat (tid q (th_heap q ! i)) = int i"
    "v = fold (\<lambda>a. fn_deletion f (nd_type (th_nodes q a)) (nd_act (th_nodes q a)))
               (take m (th_heap q)) u" by auto
qed

lemma heap_close_steps: "heap_close f (q, u) = (fold (close_step f) [0..<th_cur_size q] (q, u), 0)"
proof -
  have "(\<lambda>i (q, u). let n = th_heap q ! i; eh = nd_type (th_nodes q n); act = nd_act (th_nodes q n)
          in (heap_free_node q n, fn_deletion f eh act u)) = close_step f"
    by (auto simp: close_step_def Let_def fun_eq_iff)
  then show ?thesis by (simp add: heap_close_def)
qed

section \<open>A concrete queue\<close>

text \<open>
  A heap of four slots with preallocated nodes, and three timers scheduled in it: at 5 s every
  2 s, at 3 s once, and at 9 s once.
\<close>

abbreviation seconds :: "int \<Rightarrow> ace_time_value" where
  "seconds n \<equiv> ACE_Time_Value n 0"

definition heap0 :: "nat timer_heap" where
  "heap0 = timer_heap_init 4 True (\<lambda>_. \<lparr>nd_type = 0, nd_act = 0, nd_timer_value = zero_time,
     nd_interval = zero_time, nd_prev = 0, nd_next = 0, nd_timer_id = 0\<rparr>)"

definition heap1 :: "nat timer_heap" where
  "heap1 = fst (heap_schedule_i heap0 7 70 (seconds 5) (seconds 2))"

definition heap2 :: "nat timer_heap" where
  "heap2 = fst (heap_schedule_i heap1 8 80 (seconds 3) zero_time)"

definition heap3 :: "nat timer_heap" where
  "heap3 = fst (heap_schedule_i heap2 7 90 (seconds 9) zero_time)"

lemma heap0_inv: "heap_inv heap0 {}"
  unfolding heap0_def by (rule timer_heap_init_inv) simp

lemma heap3_inv: "heap_inv heap1 {}" "heap_inv heap2 {}" "heap_inv heap3 {}"
proof -
  have step: "heap_inv (fst (heap_schedule_i q ty act t i)) {}" if "heap_inv q {}"
    for q :: "nat timer_heap" and ty act t i
    using heap_schedule_correct(1) [OF that] by (metis prod.collapse)
  show "heap_inv heap1 {}" unfolding heap1_def by (rule step [OF heap0_inv])
  then show "heap_inv heap2 {}" unfolding heap2_def by (rule step)
  then show "heap_inv heap3 {}" unfolding heap3_def by (rule step)
qed

text \<open>Callbacks that record the timers they are called for and leave the queue alone.\<close>

definition log_functor :: "('q \<times> 't dispatch_info list, 't) timeout_functor" where
  "log_functor = \<lparr>fn_preinvoke = (\<lambda>info c s. (s, 0)),
     fn_timeout = (\<lambda>info c (q, log). (q, log @ [info])), fn_postinvoke = (\<lambda>info c act s. s)\<rparr>"

lemma log_functor_inert: "inert log_functor c (\<lambda>info log. log @ [info])"
  by (simp add: inert_def log_functor_def upcall_effect_def)

definition log_upcalls :: "('t list, 't) upcall_functor" where
  "log_upcalls = \<lparr>fn_registration = (\<lambda>t act u. u), fn_cancel_type = (\<lambda>t d c u. (u, c)),
     fn_cancel_timer = (\<lambda>t d c u. u @ [t]), fn_deletion = (\<lambda>t act u. u @ [t])\<rparr>"

lemma heap3_shape:
  "th_cur_size heap3 = 3" "th_max_size heap3 = 8" "th_cur_limbo heap3 = 0"
  "heap_queued heap3 = {1, 2, 3}" "th_heap heap3 ! 0 = 2"
  "tvalue heap3 1 = seconds 5" "tvalue heap3 2 = seconds 3" "tvalue heap3 3 = seconds 9"
  "nd_interval (th_nodes heap3 1) = seconds 2" "nd_interval (th_nodes heap3 2) = zero_time"
  "nd_interval (th_nodes heap3 3) = zero_time"
  "tid heap3 1 = 1" "tid heap3 2 = 2" "tid heap3 3 = 3"
  by code_simp+

section \<open>Properties\<close>

text \<open>The constructor, called with room for two timers or more and with or without
  preallocated nodes, establishes the invariant of an empty heap.\<close>

theorem timer_heap_init_correct:
  assumes "2 \<le> size0"
  shows "heap_inv (timer_heap_init size0 preallocated memory) {} \<and>
    heap_queued (timer_heap_init size0 preallocated memory) = {} \<and>
    heap_is_empty (timer_heap_init size0 preallocated memory)"
  using timer_heap_init_inv [OF assms, of preallocated memory] heap_empty_iff by blast

theorem timer_heap_init_correct_witness:
  "heap_inv (timer_heap_init 2 True (th_nodes heap0)) {} \<and>
   heap_queued (timer_heap_init 2 True (th_nodes heap0)) = {} \<and>
   heap_is_empty (timer_heap_init 2 True (th_nodes heap0))"
  by (rule timer_heap_init_correct) simp



text \<open>C8: The search for a free id always succeeds: in a heap that satisfies its invariant the
  assertion of \<open>pop_freelist\<close> holds and the id it hands out is free, although growing the heap
  leaves one free id out of the search.\<close>

theorem pop_freelist_finds:
  assumes "heap_inv q L" "pop_freelist q = (q', k)"
  shows "pop_freelist_assert q \<and> 0 \<le> k \<and> nat k < th_max_size q \<and>
    th_timer_ids q ! nat k < 0 \<and> th_timer_ids q ! nat k \<noteq> -2 \<and>
    (\<forall>a \<in> heap_queued q \<union> L. tid q a \<noteq> k)"
proof -
  have I: "indexed q (th_cur_size q) {}" "limbo_ok q L {}" "search_ok q {}"
      "th_cur_size q + th_cur_limbo q + 2 \<le> th_max_size q"
    using assms(1) by (auto simp: heap_inv_def)
  have "2 \<le> card {k. k < th_max_size q \<and> is_free (th_timer_ids q ! k)}"
    using card_marks_free [OF I(1,2)] I(4) by linarith
  note P = pop_freelist_correct [OF I(3) this assms(2)]
  moreover have "tid q a \<noteq> k" if "a \<in> heap_queued q \<union> L" for a
    using that P(4) members_tid(3) [OF I(1)] I(2)
    unfolding limbo_ok_def is_free_def heap_queued_def by fastforce
  ultimately show ?thesis by (auto simp: is_free_def)
qed

theorem pop_freelist_finds_witness:
  "pop_freelist heap3 = (fst (pop_freelist heap3), 4) \<and> pop_freelist_assert heap3"
proof -
  have "snd (pop_freelist heap3) = 4" by code_simp
  then have "pop_freelist heap3 = (fst (pop_freelist heap3), 4)" by (metis prod.collapse)
  then show ?thesis using pop_freelist_finds [OF heap3_inv(3)] by blast
qed

text \<open>C5: The time of the root is the least of all the timers in the heap, and \<open>remove_first\<close>
  takes out a node with that time and nothing else.\<close>

theorem heap_remove_first_correct:
  assumes "heap_inv q L" "heap_queued q \<noteq> {}" "heap_remove_first q = (q', n)"
  shows "heap_earliest_time q = Min (tvalue q ` heap_queued q) \<and> n \<in> heap_queued q \<and>
    tvalue q n = heap_earliest_time q \<and> heap_queued q' = heap_queued q - {n} \<and>
    th_nodes q' = th_nodes q \<and> heap_inv q' (insert n L)"
proof -
  have ne: "0 < th_cur_size q" using heap_empty_iff [OF assms(1)] assms(2) by (simp add: heap_is_empty_def)
  with assms(3) have "heap_remove q 0 = (q', n)" by (simp add: heap_remove_first_def)
  note R = heap_remove_correct [OF assms(1) ne this]
  then show ?thesis using heap_earliest_Min [OF assms(1,2)] by (simp add: heap_earliest_time_def)
qed

theorem heap_remove_first_correct_witness:
  "heap_earliest_time heap3 = Min (tvalue heap3 ` {1, 2, 3}) \<and>
   heap_queued (fst (heap_remove_first heap3)) = {1, 3} \<and> heap_inv (fst (heap_remove_first heap3)) {2}"
proof -
  have "snd (heap_remove_first heap3) = 2" by code_simp
  then have r: "heap_remove_first heap3 = (fst (heap_remove_first heap3), 2)" by (metis prod.collapse)
  have "heap_queued heap3 \<noteq> {}" "heap_queued heap3 = {1, 2, 3}" "{1, 2, 3} - {2} = {1, 3 :: nat}"
    using heap3_shape(4) by auto
  then show ?thesis using heap_remove_first_correct [OF heap3_inv(3) _ r] by metis
qed

text \<open>C7: Cancelling by id, for every id but the one just past the index: if a queued timer has the
  id, that timer is removed and nothing else, its \<open>act\<close> is handed back, each close hook is called
  once and the result is 1; otherwise nothing changes and the result is 0.\<close>

theorem heap_cancel_correct:
  assumes "heap_inv q L" "timer_id \<noteq> int (th_max_size q)"
  shows "(\<forall>n \<in> heap_queued q. tid q n \<noteq> timer_id) \<and>
      heap_cancel f (q, u) timer_id dont_call = Some ((q, u), None, 0) \<or>
    (\<exists>n q'. n \<in> heap_queued q \<and> tid q n = timer_id \<and>
       heap_cancel f (q, u) timer_id dont_call =
         Some ((q', let (u1, cookie) = fn_cancel_type f (nd_type (th_nodes q n)) dont_call 0 u
                    in fn_cancel_timer f (nd_type (th_nodes q n)) dont_call cookie u1),
               Some (nd_act (th_nodes q n)), 1) \<and>
       heap_inv q' L \<and> heap_queued q' = heap_queued q - {n} \<and>
       (\<forall>a \<in> heap_queued q'. th_nodes q' a = th_nodes q a))"
proof (cases "\<exists>n \<in> heap_queued q. tid q n = timer_id")
  case True
  then obtain n where n: "n \<in> heap_queued q" "tid q n = timer_id" by blast
  show ?thesis
    by (rule disjI2, rule exI [of _ n]) (use n cancel_found [OF assms(1) n(1), of f u dont_call] in simp)
next
  case False
  then have "\<forall>n \<in> heap_queued q. tid q n \<noteq> timer_id" by blast
  then show ?thesis using cancel_missing [OF assms(1) _ assms(2)] by (intro disjI1 conjI)
qed

theorem heap_cancel_correct_witness:
  "\<exists>q'. heap_cancel log_upcalls (heap3, []) 3 0 = Some ((q', [7]), Some 90, 1) \<and>
     heap_queued q' = {1, 2}"
proof -
  have k: "3 \<noteq> int (th_max_size heap3)" and e: "\<exists>n \<in> heap_queued heap3. tid heap3 n = 3"
    using heap3_shape by simp_all
  from heap_cancel_correct [OF heap3_inv(3) k, of log_upcalls "[]" 0] show ?thesis
  proof (elim disjE exE conjE, goal_cases)
    case 1
    with e show ?case by blast
  next
    case (2 n q')
    have n: "n = 3" using 2(1,2) heap3_shape by auto
    have "nd_type (th_nodes heap3 3) = 7" "nd_act (th_nodes heap3 3) = 90" by code_simp+
    then have "heap_cancel log_upcalls (heap3, []) 3 0 = Some ((q', [7]), Some 90, 1)"
      using 2(3) n by (simp add: log_upcalls_def)
    moreover have "heap_queued q' = {1, 2}" using 2(5) heap3_shape(4) n by auto
    ultimately show ?case by blast
  qed
qed

text \<open>C10: The bounds check of \<open>cancel\<close> and \<open>reset_interval\<close> lets the id that is equal to the size
  of the index through, and the read of \<open>timer_ids_\<close> that follows is out of bounds.\<close>

theorem heap_cancel_reads_past_end:
  assumes "heap_inv q L"
  shows "heap_cancel f (q, u) (int (th_max_size q)) dont_call = None \<and>
    heap_reset_interval q (int (th_max_size q)) interval = None"
  using heap_inv_parts(7) [OF assms] by (simp add: heap_cancel_def heap_reset_interval_def)

theorem heap_cancel_reads_past_end_witness:
  "heap_cancel log_upcalls (heap3, []) 8 0 = None \<and> heap_reset_interval heap3 8 zero_time = None"
  using heap_cancel_reads_past_end [OF heap3_inv(3), of log_upcalls "[]" 0 zero_time] heap3_shape(2)
  by simp

text \<open>\<open>reset_interval\<close> sets the interval of the queued timer with the id and returns 0, or
  changes nothing and returns -1 when there is none; no other field of any node changes.\<close>

theorem heap_reset_interval_correct:
  assumes "heap_inv q L" "timer_id \<noteq> int (th_max_size q)"
  shows "(\<forall>n \<in> heap_queued q. tid q n \<noteq> timer_id) \<and>
      heap_reset_interval q timer_id interval = Some (q, -1) \<or>
    (\<exists>n q'. n \<in> heap_queued q \<and> tid q n = timer_id \<and>
       heap_reset_interval q timer_id interval = Some (q', 0) \<and>
       th_nodes q' = (th_nodes q)(n := (th_nodes q n)\<lparr>nd_interval := interval\<rparr>) \<and>
       heap_inv q' L \<and> heap_queued q' = heap_queued q)"
proof (cases "\<exists>n \<in> heap_queued q. tid q n = timer_id")
  case True
  then obtain n where n: "n \<in> heap_queued q" "tid q n = timer_id" by blast
  let ?q' = "q\<lparr>th_nodes := (th_nodes q)(n := (th_nodes q n)\<lparr>nd_interval := interval\<rparr>)\<rparr>"
  have k: "0 \<le> timer_id" "nat timer_id < th_max_size q" using tid_range [OF assms(1) n(1)] n(2) by auto
  have "heap_reset_interval q timer_id interval = Some (?q', 0)"
    using id_lookup(1) [OF assms(1) k, of n] n k heap_inv_parts(7) [OF assms(1)]
    by (auto simp: heap_reset_interval_def Let_def)
  then show ?thesis
    using n queued_node_update [OF assms(1) n(1), of "(th_nodes q n)\<lparr>nd_interval := interval\<rparr>"]
    by (intro disjI2 exI [of _ n] exI [of _ ?q']) simp
next
  case False
  have "heap_reset_interval q timer_id interval = Some (q, -1)"
  proof (cases "timer_id < 0 \<or> nat timer_id > th_max_size q")
    case in_range: False
    then have k: "0 \<le> timer_id" "nat timer_id < th_max_size q" using assms(2) by auto
    have "\<not> 0 \<le> th_timer_ids q ! nat timer_id"
      using id_lookup(1) [OF assms(1) k, of "th_heap q ! nat (th_timer_ids q ! nat timer_id)"] False by auto
    then show ?thesis using k heap_inv_parts(7) [OF assms(1)] by (simp add: heap_reset_interval_def)
  qed (auto simp: heap_reset_interval_def)
  with False show ?thesis by blast
qed

theorem heap_reset_interval_correct_witness:
  "\<exists>q'. heap_reset_interval heap3 2 (seconds 6) = Some (q', 0) \<and>
     nd_interval (th_nodes q' 2) = seconds 6 \<and> nd_interval (th_nodes q' 1) = seconds 2"
proof -
  have k: "2 \<noteq> int (th_max_size heap3)" and e: "\<exists>n \<in> heap_queued heap3. tid heap3 n = 2"
    using heap3_shape by simp_all
  from heap_reset_interval_correct [OF heap3_inv(3) k, of "seconds 6"] show ?thesis
  proof (elim disjE exE conjE, goal_cases)
    case 1
    with e show ?case by blast
  next
    case (2 n q')
    have "n = 2" using 2(1,2) heap3_shape by auto
    then show ?case using 2(3,4) heap3_shape(9) by auto
  qed
qed

text \<open>Cancelling by type removes all the timers of the type and no other, calls the close hook
  once for the type and once for each of them, and returns their number.\<close>

theorem heap_cancel_type_correct:
  assumes "heap_inv q L" "heap_cancel_type f (q, u) type dont_call = ((q', u'), k)"
  shows "heap_inv q' L \<and> heap_queued q' = {a \<in> heap_queued q. nd_type (th_nodes q a) \<noteq> type} \<and>
    k = card {a \<in> heap_queued q. nd_type (th_nodes q a) = type} \<and>
    (\<forall>a \<in> heap_queued q'. th_nodes q' a = th_nodes q a) \<and>
    (\<exists>u1 cookie. fn_cancel_type f type dont_call 0 u = (u1, cookie) \<and>
       u' = (fn_cancel_timer f type dont_call cookie ^^ k) u1)"
proof -
  obtain u1 cookie where c: "fn_cancel_type f type dont_call 0 u = (u1, cookie)" by fastforce
  have "heap_cancel_type_loop q type 0 0 = (q', k)" "u' = (fn_cancel_timer f type dont_call cookie ^^ k) u1"
    using assms(2) c by (auto simp: heap_cancel_type_def Let_def split: prod.splits)
  then show ?thesis using cancel_type_loop_correct [OF assms(1), of 0 type 0 q' k] c by simp
qed

theorem heap_cancel_type_correct_witness:
  "\<exists>q'. heap_cancel_type log_upcalls (heap3, []) 7 0 = ((q', [7, 7]), 2) \<and> heap_queued q' = {2}"
proof -
  obtain q' u' k where r: "heap_cancel_type log_upcalls (heap3, []) 7 0 = ((q', u'), k)"
    by (metis prod.collapse)
  note C = heap_cancel_type_correct [OF heap3_inv(3) r]
  have t: "nd_type (th_nodes heap3 1) = 7" "nd_type (th_nodes heap3 2) = 8" "nd_type (th_nodes heap3 3) = 7"
    by code_simp+
  have "{a \<in> heap_queued heap3. nd_type (th_nodes heap3 a) = 7} = {1, 3}"
    "{a \<in> heap_queued heap3. nd_type (th_nodes heap3 a) \<noteq> 7} = {2}"
    unfolding heap3_shape(4) using t by auto
  then have "k = 2" "heap_queued q' = {2}" using C by simp_all
  moreover have "u' = [7, 7]" using C \<open>k = 2\<close> by (auto simp: log_upcalls_def numeral_2_eq_2)
  ultimately show ?thesis using r by simp
qed

text \<open>\<open>close\<close> empties the heap and calls the deletion hook once for each queued timer, in the
  order of the heap array.\<close>

theorem heap_close_correct:
  assumes "heap_inv q L" "heap_close f (q, u) = ((q', u'), k)"
  shows "heap_is_empty q' \<and> k = 0 \<and>
    u' = fold (\<lambda>a. fn_deletion f (nd_type (th_nodes q a)) (nd_act (th_nodes q a)))
           (take (th_cur_size q) (th_heap q)) u \<and>
    set (take (th_cur_size q) (th_heap q)) = heap_queued q \<and>
    length (take (th_cur_size q) (th_heap q)) = card (heap_queued q)"
proof -
  have "fold (close_step f) [0..<th_cur_size q] (q, u) = (q', u')" "k = 0"
    using assms(2) by (simp_all add: heap_close_steps)
  note C = close_prefix [OF assms(1) _ this(1)] this(2)
  have "th_cur_size q \<le> length (th_heap q)"
    using heap_inv_parts(1) [OF assms(1)] by (simp add: indexed_def idx_def)
  then show ?thesis
    using C heap_inv_parts(6) [OF assms(1)] by (simp add: heap_is_empty_def heap_queued_def members_def)
qed

theorem heap_close_correct_witness:
  "heap_is_empty (fst (fst (heap_close log_upcalls (heap3, [])))) \<and>
   snd (fst (heap_close log_upcalls (heap3, []))) = [8, 7, 7]"
proof -
  have "snd (fst (heap_close log_upcalls (heap3, []))) = [8, 7, 7]" by code_simp
  then show ?thesis using heap_close_correct [OF heap3_inv(3), of log_upcalls "[]"] by (metis prod.collapse)
qed

text \<open>A heap built with room for one timer only grows wrongly: \<open>grow_heap\<close> writes \<open>-(i + 1)\<close>
  as the mark of the new free ids, which for the second id is the mark of a timer that has been
  taken out. After one timer is scheduled the search finds no free id any more.\<close>

theorem timer_heap_size_one_runs_out:
  "(let q = fst (heap_schedule_i (timer_heap_init 1 False (th_nodes heap0)) 7 70 (seconds 5) zero_time)
    in th_timer_ids q ! 1 = -2 \<and> th_cur_limbo q = 0 \<and> th_max_size q = 2 \<and> \<not> pop_freelist_assert q)"
  by code_simp

text \<open>C1: \<open>expire\<close> on a timer heap, with callbacks that do not operate on the queue: the loop ends;
  each timer that is due is dispatched exactly once, in the order of the times, and no other
  timer is; the count returned is their number. Afterwards nothing is due: one-shot timers are
  gone, periodic ones are queued at the first multiple of their interval past the current time,
  and the rest are as they were.\<close>

theorem heap_expire_correct:
  assumes "heap_inv q L" "inert f cur_time g" "tv_normal cur_time"
    and "\<forall>a \<in> heap_queued q. tv_normal (tvalue q a) \<and> tv_normal (nd_interval (th_nodes q a)) \<and>
      tv_total (nd_interval (th_nodes q a)) < 2 ^ 64 \<and>
      tv_total cur_time - tv_total (tvalue q a) < 2 ^ 64"
  shows "\<exists>q' ns. expire heap_ops f cur_time (q, u) =
      Some ((q', fold (\<lambda>n. g (get_dispatch_info (th_nodes q n))) ns u), length ns) \<and>
    distinct ns \<and> set ns = {a \<in> heap_queued q. tvalue q a \<le> cur_time} \<and> sorted (map (tvalue q) ns) \<and>
    heap_inv q' L \<and>
    heap_queued q' = heap_queued q - {a \<in> set ns. nd_interval (th_nodes q a) \<le> zero_time} \<and>
    (\<forall>a \<in> heap_queued q'. entry (th_nodes q' a) = entry (if a \<in> set ns
       then recompute_next_abs_interval_time (th_nodes q a) cur_time else th_nodes q a)) \<and>
    (\<forall>a \<in> heap_queued q'. cur_time < tvalue q' a)"
proof -
  have s: "th.sane q cur_time" using assms(3,4) by (simp add: th.sane_def th.val_def)
  obtain q' ns where E: "expire heap_ops f cur_time (q, u) =
      Some ((q', fold (\<lambda>n. g (get_dispatch_info (th_nodes q n))) ns u), card (th.due q cur_time))"
    "distinct ns" "set ns = th.due q cur_time" "sorted (map (th.val q) ns)" "heap_inv q' L"
    "th.expired_to q cur_time q'"
    using th.expire_correct [OF assms(2,1) s, of u] by auto
  have due: "th.due q cur_time = {a \<in> heap_queued q. tvalue q a \<le> cur_time}"
    "th.due q' cur_time = {a \<in> heap_queued q'. tvalue q' a \<le> cur_time}"
    by (simp_all add: th.due_def th.val_def)
  have "th.val q = tvalue q" by (simp add: fun_eq_iff th.val_def)
  then have "sorted (map (tvalue q) ns)" using E(4) by simp
  moreover have "card (th.due q cur_time) = length ns" using E(2,3) distinct_card by metis
  moreover have "\<forall>a \<in> heap_queued q'. cur_time < tvalue q' a"
    using E(6) due(2) unfolding th.expired_to_def by force
  moreover have "heap_queued q' = heap_queued q - {a \<in> set ns. nd_interval (th_nodes q a) \<le> zero_time}"
    "\<forall>a \<in> heap_queued q'. entry (th_nodes q' a) = entry (if a \<in> set ns
       then recompute_next_abs_interval_time (th_nodes q a) cur_time else th_nodes q a)"
    using E(6) unfolding E(3) th.expired_to_def heap_ops_simps not_less by blast+
  ultimately show ?thesis using E(1,2,3,5) due(1) by auto
qed

theorem heap_expire_correct_witness:
  "\<exists>q' log. expire heap_ops log_functor (seconds 6) (heap3, []) = Some ((q', log), 2) \<and>
     heap_queued q' = {1, 3} \<and> tvalue q' 1 = seconds 7 \<and> tvalue q' 3 = seconds 9 \<and> length log = 2"
proof -
  have ok: "\<forall>a \<in> heap_queued heap3. tv_normal (tvalue heap3 a) \<and> tv_normal (nd_interval (th_nodes heap3 a)) \<and>
      tv_total (nd_interval (th_nodes heap3 a)) < 2 ^ 64 \<and>
      tv_total (seconds 6) - tv_total (tvalue heap3 a) < 2 ^ 64"
    using heap3_shape by (simp add: tv_normal_def tv_total_def zero_time_def)
  have c: "tv_normal (seconds 6)" by (simp add: tv_normal_def)
  obtain q' ns where E: "expire heap_ops log_functor (seconds 6) (heap3, []) =
      Some ((q', fold (\<lambda>n log. log @ [get_dispatch_info (th_nodes heap3 n)]) ns []), length ns)"
    "distinct ns" "set ns = {a \<in> heap_queued heap3. tvalue heap3 a \<le> seconds 6}"
    "heap_queued q' = heap_queued heap3 - {a \<in> set ns. nd_interval (th_nodes heap3 a) \<le> zero_time}"
    "\<forall>a \<in> heap_queued q'. entry (th_nodes q' a) = entry (if a \<in> set ns
       then recompute_next_abs_interval_time (th_nodes heap3 a) (seconds 6) else th_nodes heap3 a)"
    using heap_expire_correct [OF heap3_inv(3) log_functor_inert c ok, of "[]"] by blast
  have le: "seconds 5 \<le> seconds 6" "seconds 3 \<le> seconds 6" "\<not> seconds 9 \<le> seconds 6"
    "\<not> seconds 2 \<le> zero_time" by code_simp+
  have ns: "set ns = {1, 2}" unfolding E(3) using heap3_shape le by auto
  then have len: "length ns = 2" using E(2) distinct_card [of ns] by simp
  have q': "heap_queued q' = {1, 3}" unfolding E(4) ns using heap3_shape le by auto
  have "length (fold (\<lambda>n log. log @ [get_dispatch_info (th_nodes heap3 n)]) ms l) = length l + length ms"
    for ms l by (induction ms arbitrary: l) simp_all
  note L = this [of ns "[]"]
  have "entry (th_nodes q' 1) = entry (recompute_next_abs_interval_time (th_nodes heap3 1) (seconds 6))"
    "entry (th_nodes q' 3) = entry (th_nodes heap3 3)"
    using E(5) q' ns by auto
  note V = this [THEN entry_cong(3)]
  have "nd_timer_value (recompute_next_abs_interval_time (th_nodes heap3 1) (seconds 6)) = seconds 7"
    by code_simp
  then show ?thesis using E(1) len q' L V heap3_shape(8) by auto
qed

text \<open>The wait computed for the event loop from a heap with timers in it: none if the earliest
  timer is due, otherwise the time to it, cut down to the caller's maximum.\<close>

theorem heap_calculate_timeout_correct:
  assumes "heap_inv q L" "heap_queued q \<noteq> {}" "tv_normal now"
    and "\<forall>a \<in> heap_queued q. tv_normal (tvalue q a)" "\<forall>m. max_wait = Some m \<longrightarrow> tv_normal m"
  shows "\<exists>w a. fst (calculate_timeout heap_ops now q timeout max_wait) = Some w \<and>
    a \<in> heap_queued q \<and> (\<forall>b \<in> heap_queued q. tvalue q a \<le> tvalue q b) \<and>
    tv_total w = (let d = tv_total (tvalue q a) - tv_total now
      in if d \<le> 0 then 0 else case max_wait of None \<Rightarrow> d | Some m \<Rightarrow> min (tv_total m) d)"
  using th.calculate_timeout_correct [OF assms(1-3), of max_wait timeout] assms(4,5)
  by (simp add: th.val_def)

theorem heap_calculate_timeout_correct_witness:
  "\<exists>w. fst (calculate_timeout heap_ops (seconds 1) heap3 zero_time None) = Some w \<and>
     tv_total w = 2 * 1000000"
proof -
  have n: "tv_normal (seconds 1)" "\<forall>a \<in> heap_queued heap3. tv_normal (tvalue heap3 a)"
    using heap3_shape by (simp_all add: tv_normal_def)
  have ne: "heap_queued heap3 \<noteq> {}" using heap3_shape(4) by simp
  obtain w a where w: "fst (calculate_timeout heap_ops (seconds 1) heap3 zero_time None) = Some w"
      "a \<in> heap_queued heap3" "\<forall>b \<in> heap_queued heap3. tvalue heap3 a \<le> tvalue heap3 b"
      "tv_total w = (let d = tv_total (tvalue heap3 a) - tv_total (seconds 1)
         in if d \<le> 0 then 0 else case None of None \<Rightarrow> d | Some m \<Rightarrow> min (tv_total m) d)"
    using heap_calculate_timeout_correct [OF heap3_inv(3) ne n, of None zero_time] by auto
  have "\<not> seconds 5 \<le> seconds 3" "\<not> seconds 9 \<le> seconds 3" by code_simp+
  then have "a = 2" using w(2,3) heap3_shape by auto
  then show ?thesis using w(1,4) heap3_shape by (simp add: tv_total_def)
qed

end
