(* ===== verification/ACE_Timer_List.thy ===== *)
theory ACE_Timer_List
  imports ACE_Timer_Queue ACE_Links
begin

text \<open>
  \<^verbatim>\<open>ACE_Locked_Free_List\<close> (\<^verbatim>\<open>ace/Free_List.cpp\<close>), the pool of timer nodes, and
  \<^verbatim>\<open>ACE_Timer_List_T\<close> (\<^verbatim>\<open>ace/Timer_List_T.cpp\<close>), a timer queue kept as a circular doubly linked list
  sorted by time, with a dummy head node. Both work on one store of nodes; the free list uses
  the \<open>next_\<close> link of the nodes it holds. \<open>new\<close> hands out the addresses from \<open>fl_brk\<close> on and does
  not fail, \<open>delete\<close> leaves the store as it is. The template argument of the free list is the
  timer node, as the timer queue instantiates it.

  The loops that follow links carry fuel. Every list has pairwise distinct addresses below
  \<open>fl_brk\<close>, so \<open>fl_brk\<close> steps are enough; the lemmas state the results outright.
\<close>

section \<open>The free list\<close>

definition ACE_FREE_LIST_WITH_POOL :: nat where
  "ACE_FREE_LIST_WITH_POOL = 1"

definition ACE_PURE_FREE_LIST :: nat where
  "ACE_PURE_FREE_LIST = 2"

record 't free_list =
  fl_mode :: nat
  fl_free_list :: addr
  fl_lwm :: nat
  fl_hwm :: nat
  fl_inc :: nat
  fl_size :: nat
  fl_nodes :: "addr \<Rightarrow> 't timer_node"
  fl_brk :: addr

definition fl_alloc_one :: "('t, 'z) free_list_scheme \<Rightarrow> ('t, 'z) free_list_scheme" where
  "fl_alloc_one q =
     (let temp = fl_brk q
      in q\<lparr>fl_nodes := (fl_nodes q)(temp := (node_init (fl_nodes q temp))\<lparr>nd_next := fl_free_list q\<rparr>),
           fl_free_list := temp, fl_size := fl_size q + 1, fl_brk := temp + 1\<rparr>)"

definition fl_alloc :: "nat \<Rightarrow> ('t, 'z) free_list_scheme \<Rightarrow> ('t, 'z) free_list_scheme" where
  "fl_alloc n q = (fl_alloc_one ^^ n) q"

fun fl_dealloc :: "nat \<Rightarrow> ('t, 'z) free_list_scheme \<Rightarrow> ('t, 'z) free_list_scheme" where
  "fl_dealloc n q =
     (if fl_free_list q \<noteq> NULL \<and> n > 0
      then fl_dealloc (n - 1) (q\<lparr>fl_free_list := nd_next (fl_nodes q (fl_free_list q)),
                                 fl_size := fl_size q - 1\<rparr>)
      else q)"

declare fl_dealloc.simps [simp del]

text \<open>\<open>memory\<close> is the content of the store before the constructor runs.\<close>

definition fl_init :: "nat \<Rightarrow> nat \<Rightarrow> nat \<Rightarrow> nat \<Rightarrow> nat \<Rightarrow> (addr \<Rightarrow> 't timer_node) \<Rightarrow> 't free_list" where
  "fl_init mode prealloc lwm hwm inc memory =
     fl_alloc prealloc \<lparr>fl_mode = mode, fl_free_list = NULL, fl_lwm = lwm, fl_hwm = hwm,
       fl_inc = inc, fl_size = 0, fl_nodes = memory, fl_brk = 1\<rparr>"

definition fl_add :: "('t, 'z) free_list_scheme \<Rightarrow> addr \<Rightarrow> ('t, 'z) free_list_scheme" where
  "fl_add q element =
     (if fl_mode q = ACE_PURE_FREE_LIST \<or> fl_size q < fl_hwm q
      then q\<lparr>fl_nodes := (fl_nodes q)(element := (fl_nodes q element)\<lparr>nd_next := fl_free_list q\<rparr>),
             fl_free_list := element, fl_size := fl_size q + 1\<rparr>
      else q)"

definition fl_remove :: "('t, 'z) free_list_scheme \<Rightarrow> ('t, 'z) free_list_scheme \<times> addr" where
  "fl_remove q =
     (let q1 = (if fl_mode q \<noteq> ACE_PURE_FREE_LIST \<and> fl_size q \<le> fl_lwm q
                then fl_alloc (fl_inc q) q else q);
          temp = fl_free_list q1
      in if temp \<noteq> NULL
         then (q1\<lparr>fl_free_list := nd_next (fl_nodes q1 (fl_free_list q1)), fl_size := fl_size q1 - 1\<rparr>, temp)
         else (q1, temp))"

definition fl_resize :: "('t, 'z) free_list_scheme \<Rightarrow> nat \<Rightarrow> ('t, 'z) free_list_scheme" where
  "fl_resize q newsize =
     (if fl_mode q \<noteq> ACE_PURE_FREE_LIST
      then if newsize < fl_size q then fl_dealloc (fl_size q - newsize) q
           else fl_alloc (newsize - fl_size q) q
      else q)"

section \<open>The timer list\<close>

record 't timer_list = "'t free_list" +
  tl_head :: addr
  tl_id_counter :: int

abbreviation nxt :: "('t, 'z) free_list_scheme \<Rightarrow> addr \<Rightarrow> addr" where
  "nxt q \<equiv> (\<lambda>a. nd_next (fl_nodes q a))"

abbreviation prv :: "('t, 'z) free_list_scheme \<Rightarrow> addr \<Rightarrow> addr" where
  "prv q \<equiv> (\<lambda>a. nd_prev (fl_nodes q a))"

abbreviation lvalue :: "('t, 'z) free_list_scheme \<Rightarrow> addr \<Rightarrow> ace_time_value" where
  "lvalue q a \<equiv> nd_timer_value (fl_nodes q a)"

abbreviation lid :: "('t, 'z) free_list_scheme \<Rightarrow> addr \<Rightarrow> int" where
  "lid q a \<equiv> nd_timer_id (fl_nodes q a)"

definition set_next :: "('t, 'z) free_list_scheme \<Rightarrow> addr \<Rightarrow> addr \<Rightarrow> ('t, 'z) free_list_scheme" where
  "set_next q a b = q\<lparr>fl_nodes := (fl_nodes q)(a := (fl_nodes q a)\<lparr>nd_next := b\<rparr>)\<rparr>"

definition set_prev :: "('t, 'z) free_list_scheme \<Rightarrow> addr \<Rightarrow> addr \<Rightarrow> ('t, 'z) free_list_scheme" where
  "set_prev q a b = q\<lparr>fl_nodes := (fl_nodes q)(a := (fl_nodes q a)\<lparr>nd_prev := b\<rparr>)\<rparr>"

text \<open>The base class has built the pool before the head node is allocated.\<close>

definition timer_list_init :: "'t free_list \<Rightarrow> 't timer_list" where
  "timer_list_init fl =
     (let head = fl_brk fl;
          q = \<lparr>fl_mode = fl_mode fl, fl_free_list = fl_free_list fl, fl_lwm = fl_lwm fl,
               fl_hwm = fl_hwm fl, fl_inc = fl_inc fl, fl_size = fl_size fl,
               fl_nodes = (fl_nodes fl)(head := node_init (fl_nodes fl head)),
               fl_brk = head + 1, tl_head = head, tl_id_counter = 0\<rparr>
      in set_prev (set_next q head head) head head)"

definition list_get_first :: "'t timer_list \<Rightarrow> addr" where
  "list_get_first q = (let first = nxt q (tl_head q) in if first \<noteq> tl_head q then first else NULL)"

definition list_is_empty :: "'t timer_list \<Rightarrow> bool" where
  "list_is_empty q \<longleftrightarrow> list_get_first q = NULL"

definition list_earliest_time :: "'t timer_list \<Rightarrow> ace_time_value" where
  "list_earliest_time q =
     (let first = list_get_first q in if first \<noteq> NULL then lvalue q first else zero_time)"

primrec search_back :: "'t timer_list \<Rightarrow> ace_time_value \<Rightarrow> nat \<Rightarrow> addr \<Rightarrow> addr" where
  "search_back q expire_at 0 p = p"
| "search_back q expire_at (Suc fuel) p =
     (if p \<noteq> tl_head q \<and> lvalue q p > expire_at then search_back q expire_at fuel (prv q p) else p)"

definition list_schedule_node :: "'t timer_list \<Rightarrow> addr \<Rightarrow> ace_time_value \<Rightarrow> 't timer_list" where
  "list_schedule_node q n expire_at =
     (if list_is_empty q
      then let q1 = set_prev q n (tl_head q); q2 = set_next q1 n (tl_head q);
               q3 = set_prev q2 (tl_head q) n
           in set_next q3 (tl_head q) n
      else let p = search_back q expire_at (fl_brk q) (prv q (tl_head q));
               q1 = set_prev q n p; q2 = set_next q1 n (nxt q1 p);
               q3 = set_prev q2 (nxt q2 p) n
           in set_next q3 p n)"

definition list_alloc_node :: "'t timer_list \<Rightarrow> 't timer_list \<times> addr" where
  "list_alloc_node q = fl_remove q"

definition list_free_node :: "'t timer_list \<Rightarrow> addr \<Rightarrow> 't timer_list" where
  "list_free_node q n = fl_add q n"

definition list_reschedule :: "'t timer_list \<Rightarrow> addr \<Rightarrow> 't timer_list" where
  "list_reschedule q n = list_schedule_node q n (lvalue q n)"

definition list_schedule_i ::
  "'t timer_list \<Rightarrow> 't \<Rightarrow> addr \<Rightarrow> ace_time_value \<Rightarrow> ace_time_value \<Rightarrow> 't timer_list \<times> int" where
  "list_schedule_i q type act future_time interval =
     (let (q1, n) = list_alloc_node q
      in if n \<noteq> NULL
         then let id = tl_id_counter q1; q2 = q1\<lparr>tl_id_counter := tl_id_counter q1 + 1\<rparr>
              in if id \<noteq> -1
                 then let q3 = q2\<lparr>fl_nodes := (fl_nodes q2)
                        (n := node_set_dll type act future_time interval NULL NULL id (fl_nodes q2 n))\<rparr>
                      in (list_schedule_node q3 n future_time, id)
                 else (q2, id)
         else (q1, -1))"

primrec find_from :: "'t timer_list \<Rightarrow> int \<Rightarrow> nat \<Rightarrow> addr \<Rightarrow> addr" where
  "find_from q timer_id 0 n = NULL"
| "find_from q timer_id (Suc fuel) n =
     (if n \<noteq> tl_head q
      then if lid q n = timer_id then n else find_from q timer_id fuel (nxt q n)
      else NULL)"

definition find_node :: "'t timer_list \<Rightarrow> int \<Rightarrow> addr" where
  "find_node q timer_id =
     (let n = list_get_first q in if n = NULL then NULL else find_from q timer_id (fl_brk q) n)"

definition list_reset_interval :: "'t timer_list \<Rightarrow> int \<Rightarrow> ace_time_value \<Rightarrow> 't timer_list \<times> int" where
  "list_reset_interval q timer_id interval =
     (let n = find_node q timer_id
      in if n \<noteq> NULL
         then (q\<lparr>fl_nodes := (fl_nodes q)(n := (fl_nodes q n)\<lparr>nd_interval := interval\<rparr>)\<rparr>, 0)
         else (q, -1))"

definition list_unlink :: "'t timer_list \<Rightarrow> addr \<Rightarrow> 't timer_list" where
  "list_unlink q n =
     (let q1 = set_next q (prv q n) (nxt q n);
          q2 = set_prev q1 (nxt q1 n) (prv q1 n);
          q3 = set_prev q2 n NULL
      in set_next q3 n NULL)"

definition list_cancel_i :: "'t timer_list \<Rightarrow> addr \<Rightarrow> 't timer_list" where
  "list_cancel_i q n = list_free_node (list_unlink q n) n"

definition list_cancel ::
  "('u, 't) upcall_functor \<Rightarrow> 't timer_list \<times> 'u \<Rightarrow> int \<Rightarrow> int \<Rightarrow>
   ('t timer_list \<times> 'u) \<times> addr option \<times> int" where
  "list_cancel f s timer_id skip_close =
     (let (q, u) = s; n = find_node q timer_id
      in if n \<noteq> NULL
         then let act = nd_act (fl_nodes q n); type = nd_type (fl_nodes q n);
                  (u1, cookie) = fn_cancel_type f type skip_close 0 u;
                  u2 = fn_cancel_timer f type skip_close cookie u1
              in ((list_cancel_i q n, u2), Some act, 1)
         else (s, None, 0))"

primrec list_cancel_type_loop ::
  "nat \<Rightarrow> 't timer_list \<Rightarrow> 't \<Rightarrow> addr \<Rightarrow> nat \<Rightarrow> 't timer_list \<times> nat" where
  "list_cancel_type_loop 0 q type n num_canceled = (q, num_canceled)"
| "list_cancel_type_loop (Suc fuel) q type n num_canceled =
     (if n \<noteq> tl_head q
      then if nd_type (fl_nodes q n) = type
           then list_cancel_type_loop fuel (list_cancel_i q n) type (nxt q n) (num_canceled + 1)
           else list_cancel_type_loop fuel q type (nxt q n) num_canceled
      else (q, num_canceled))"

definition list_cancel_type ::
  "('u, 't) upcall_functor \<Rightarrow> 't timer_list \<times> 'u \<Rightarrow> 't \<Rightarrow> int \<Rightarrow> ('t timer_list \<times> 'u) \<times> nat" where
  "list_cancel_type f s type skip_close =
     (let (q, u) = s;
          (q1, num_canceled) =
            (if \<not> list_is_empty q
             then list_cancel_type_loop (fl_brk q) q type (list_get_first q) 0 else (q, 0));
          (u1, cookie) = fn_cancel_type f type skip_close 0 u;
          u2 = ((\<lambda>v. fn_cancel_timer f type skip_close cookie v) ^^ num_canceled) u1
      in ((q1, u2), num_canceled))"

definition list_remove_first :: "'t timer_list \<Rightarrow> 't timer_list \<times> addr" where
  "list_remove_first q =
     (let first = list_get_first q
      in if first \<noteq> NULL then (list_unlink q first, first) else (q, NULL))"

primrec list_close_loop ::
  "nat \<Rightarrow> ('u, 't) upcall_functor \<Rightarrow> 't timer_list \<times> 'u \<Rightarrow> addr \<Rightarrow> 't timer_list \<times> 'u" where
  "list_close_loop 0 f s n = s"
| "list_close_loop (Suc fuel) f s n =
     (if n \<noteq> tl_head (fst s)
      then let (q, u) = s;
               u1 = fn_deletion f (nd_type (fl_nodes q n)) (nd_act (fl_nodes q n)) u;
               nx = nxt q n
           in list_close_loop fuel f (list_free_node q n, u1) nx
      else s)"

definition list_close :: "('u, 't) upcall_functor \<Rightarrow> 't timer_list \<times> 'u \<Rightarrow> ('t timer_list \<times> 'u) \<times> int" where
  "list_close f s =
     (if \<not> list_is_empty (fst s)
      then list_close_loop (fl_brk (fst s)) f s (list_get_first (fst s)) else s, 0)"

text \<open>The iterator is the current node, null at the end.\<close>

definition list_iter_first :: "'t timer_list \<Rightarrow> addr" where
  "list_iter_first q = list_get_first q"

definition list_iter_isdone :: "addr \<Rightarrow> bool" where
  "list_iter_isdone current_node \<longleftrightarrow> current_node = NULL"

definition list_iter_next :: "'t timer_list \<Rightarrow> addr \<Rightarrow> addr" where
  "list_iter_next q current_node =
     (let c = (if \<not> list_iter_isdone current_node then nxt q current_node else current_node)
      in if c = tl_head q then NULL else c)"

definition list_iter_item :: "addr \<Rightarrow> addr" where
  "list_iter_item current_node = (if \<not> list_iter_isdone current_node then current_node else NULL)"

section \<open>The free list keeps its chain\<close>

text \<open>\<open>fl_ok q fs A\<close>: the nodes \<open>fs\<close> are free and the nodes \<open>A\<close> are in use.\<close>

definition fl_ok :: "('t, 'z) free_list_scheme \<Rightarrow> addr list \<Rightarrow> addr set \<Rightarrow> bool" where
  "fl_ok q fs A \<longleftrightarrow>
     chain (nxt q) (fl_free_list q) fs \<and> distinct fs \<and> fl_size q = length fs \<and> 0 < fl_brk q \<and>
     (\<forall>a \<in> set fs \<union> A. 0 < a \<and> a < fl_brk q) \<and> set fs \<inter> A = {}"

lemma fl_ok_finite: "fl_ok q fs A \<Longrightarrow> finite A"
  by (rule finite_subset [of _ "{..<fl_brk q}"]) (auto simp: fl_ok_def)

lemma fl_alloc_frame [simp]:
  "fl_mode (fl_alloc n q) = fl_mode q" "fl_lwm (fl_alloc n q) = fl_lwm q"
  "fl_hwm (fl_alloc n q) = fl_hwm q" "fl_inc (fl_alloc n q) = fl_inc q"
  "free_list.more (fl_alloc n q) = free_list.more q"
  unfolding fl_alloc_def by (induction n) (simp_all add: fl_alloc_one_def Let_def)

lemma timer_list_more:
  "free_list.more q = free_list.more r \<Longrightarrow> tl_head q = tl_head r \<and> tl_id_counter q = tl_id_counter r"
  by (cases q; cases r) simp

lemma fl_alloc_correct:
  assumes "fl_ok q fs A"
  shows "\<exists>ns. fl_ok (fl_alloc n q) (ns @ fs) A \<and> length ns = n \<and>
    (\<forall>a < fl_brk q. fl_nodes (fl_alloc n q) a = fl_nodes q a) \<and> fl_brk q \<le> fl_brk (fl_alloc n q)"
proof (induction n)
  case 0
  then show ?case using assms by (simp add: fl_alloc_def)
next
  case (Suc n)
  let ?r = "fl_alloc n q"
  obtain ns where ns: "fl_ok ?r (ns @ fs) A" "length ns = n"
      "\<forall>a < fl_brk q. fl_nodes ?r a = fl_nodes q a" "fl_brk q \<le> fl_brk ?r"
    using Suc by blast
  have step: "fl_alloc (Suc n) q = fl_alloc_one ?r" by (simp add: fl_alloc_def)
  have "chain (nxt (fl_alloc_one ?r)) (fl_free_list ?r) (ns @ fs) \<longleftrightarrow>
      chain (nxt ?r) (fl_free_list ?r) (ns @ fs)"
    using ns(1) by (intro chain_cong) (auto simp: fl_alloc_one_def Let_def fl_ok_def)
  then have "fl_ok (fl_alloc_one ?r) ((fl_brk ?r # ns) @ fs) A"
    using ns(1) unfolding fl_ok_def by (auto simp: fl_alloc_one_def Let_def intro: less_SucI)
  then show ?case
    unfolding step using ns by (intro exI [of _ "fl_brk ?r # ns"]) (auto simp: fl_alloc_one_def Let_def)
qed

lemma fl_remove_correct:
  assumes "fl_ok q fs A" "fl_mode q \<noteq> ACE_PURE_FREE_LIST" "0 < fl_inc q" "fl_remove q = (q', n)"
  shows "n \<noteq> NULL" "n \<notin> A" "\<exists>gs. fl_ok q' gs (insert n A)"
    and "a \<in> A \<Longrightarrow> fl_nodes q' a = fl_nodes q a"
    and "fl_mode q' = fl_mode q" "fl_inc q' = fl_inc q" "free_list.more q' = free_list.more q"
proof -
  define r where "r = (if fl_size q \<le> fl_lwm q then fl_alloc (fl_inc q) q else q)"
  obtain hs where hs: "fl_ok r hs A" "hs \<noteq> []" "\<forall>a \<in> A. fl_nodes r a = fl_nodes q a"
  proof (cases "fl_size q \<le> fl_lwm q")
    case True
    obtain ns where ns: "fl_ok r (ns @ fs) A" "length ns = fl_inc q"
        "\<forall>a < fl_brk q. fl_nodes r a = fl_nodes q a"
      using fl_alloc_correct [OF assms(1), of "fl_inc q"] True by (auto simp: r_def)
    have "\<forall>a \<in> A. a < fl_brk q" using assms(1) by (auto simp: fl_ok_def)
    moreover have "ns @ fs \<noteq> []" using ns(2) assms(3) by auto
    ultimately show ?thesis using that [of "ns @ fs"] ns by blast
  next
    case False
    then have "fs \<noteq> []" using assms(1) by (auto simp: fl_ok_def)
    then show ?thesis using that [of fs] False assms(1) by (simp add: r_def)
  qed
  then obtain f gs where f: "hs = f # gs" by (cases hs) auto
  have fr: "fl_free_list r = f" "f \<noteq> NULL" "chain (nxt r) (nxt r f) gs" "f \<notin> A" "f \<notin> set gs"
    using hs(1) f by (auto simp: fl_ok_def)
  then have q': "q' = r\<lparr>fl_free_list := nxt r f, fl_size := fl_size r - 1\<rparr>" "n = f"
    using assms(2,4) by (auto simp: fl_remove_def r_def Let_def)
  show "n \<noteq> NULL" "n \<notin> A" using fr q' by auto
  have "fl_ok q' gs (insert n A)" using hs(1) f fr unfolding fl_ok_def q' by auto
  then show "\<exists>gs. fl_ok q' gs (insert n A)" by blast
  show "a \<in> A \<Longrightarrow> fl_nodes q' a = fl_nodes q a" using hs(3) by (simp add: q')
  show "fl_mode q' = fl_mode q" "fl_inc q' = fl_inc q" "free_list.more q' = free_list.more q"
    by (simp_all add: q' r_def)
qed

lemma fl_add_frame [simp]:
  "fl_mode (fl_add q n) = fl_mode q" "fl_inc (fl_add q n) = fl_inc q" "fl_brk (fl_add q n) = fl_brk q"
  "free_list.more (fl_add q n) = free_list.more q" "entry (fl_nodes (fl_add q n) a) = entry (fl_nodes q a)"
  "a \<noteq> n \<Longrightarrow> fl_nodes (fl_add q n) a = fl_nodes q a"
  by (simp_all add: fl_add_def entry_def)

lemma fl_add_correct:
  assumes "fl_ok q fs A" "n \<in> A"
  shows "\<exists>gs. fl_ok (fl_add q n) gs (A - {n})"
proof (cases "fl_mode q = ACE_PURE_FREE_LIST \<or> fl_size q < fl_hwm q")
  case True
  have "chain (nxt (fl_add q n)) (fl_free_list q) fs \<longleftrightarrow> chain (nxt q) (fl_free_list q) fs"
  proof (rule chain_cong)
    fix x assume "x \<in> set fs"
    then have "x \<noteq> n" using assms by (auto simp: fl_ok_def)
    then show "nxt (fl_add q n) x = nxt q x" by simp
  qed
  then have "fl_ok (fl_add q n) (n # fs) (A - {n})"
    using assms True unfolding fl_ok_def by (auto simp: fl_add_def)
  then show ?thesis by blast
next
  case False
  then have "fl_ok (fl_add q n) fs (A - {n})" using assms by (auto simp: fl_add_def fl_ok_def)
  then show ?thesis by blast
qed

lemma fl_dealloc_correct:
  "fl_ok q fs A \<Longrightarrow> fl_ok (fl_dealloc n q) (drop n fs) A"
proof (induction n arbitrary: q fs)
  case 0
  then show ?case by (simp add: fl_dealloc.simps [of 0])
next
  case (Suc n)
  show ?case
  proof (cases fs)
    case Nil
    with Suc.prems show ?thesis by (simp add: fl_dealloc.simps [of "Suc n" q] fl_ok_def)
  next
    case (Cons f gs)
    with Suc.prems have "fl_ok (q\<lparr>fl_free_list := nxt q (fl_free_list q), fl_size := fl_size q - 1\<rparr>) gs A"
      by (auto simp: fl_ok_def)
    from Suc.IH [OF this] Cons Suc.prems show ?thesis
      by (simp add: fl_dealloc.simps [of "Suc n" q]) (simp add: fl_ok_def)
  qed
qed

lemma fl_resize_correct:
  assumes "fl_ok q fs A" "fl_mode q \<noteq> ACE_PURE_FREE_LIST"
  shows "\<exists>gs. fl_ok (fl_resize q newsize) gs A \<and> length gs = newsize"
proof (cases "newsize < fl_size q")
  case True
  then show ?thesis
    using fl_dealloc_correct [OF assms(1), of "fl_size q - newsize"] assms
    by (intro exI [of _ "drop (fl_size q - newsize) fs"]) (simp add: fl_resize_def fl_ok_def)
next
  case False
  obtain ns where "fl_ok (fl_alloc (newsize - fl_size q) q) (ns @ fs) A" "length ns = newsize - fl_size q"
    using fl_alloc_correct [OF assms(1)] by blast
  then show ?thesis
    using False assms by (intro exI [of _ "ns @ fs"]) (simp add: fl_resize_def fl_ok_def)
qed

section \<open>The invariant of the timer list\<close>

text \<open>The queued nodes in the order of the links.\<close>

primrec walk_ring :: "'t timer_list \<Rightarrow> nat \<Rightarrow> addr \<Rightarrow> addr list" where
  "walk_ring q 0 n = []"
| "walk_ring q (Suc fuel) n = (if n \<noteq> tl_head q then n # walk_ring q fuel (nxt q n) else [])"

definition list_nodes :: "'t timer_list \<Rightarrow> addr list" where
  "list_nodes q = walk_ring q (fl_brk q) (nxt q (tl_head q))"

definition list_queued :: "'t timer_list \<Rightarrow> addr set" where
  "list_queued q = set (list_nodes q)"

definition list_at :: "'t timer_list \<Rightarrow> addr list \<Rightarrow> addr set \<Rightarrow> bool" where
  "list_at q xs L \<longleftrightarrow>
     ring (nxt q) (prv q) (tl_head q) xs \<and> sorted (map (lvalue q) xs) \<and>
     set xs \<inter> L = {} \<and> tl_head q \<notin> L \<and> inj_on (lid q) (set xs \<union> L) \<and>
     (\<forall>a \<in> set xs \<union> L. 0 \<le> lid q a \<and> lid q a < tl_id_counter q) \<and> 0 \<le> tl_id_counter q \<and>
     fl_mode q \<noteq> ACE_PURE_FREE_LIST \<and> 0 < fl_inc q \<and>
     (\<exists>fs. fl_ok q fs (insert (tl_head q) (set xs \<union> L)))"

definition list_inv :: "'t timer_list \<Rightarrow> addr set \<Rightarrow> bool" where
  "list_inv q L \<longleftrightarrow> list_at q (list_nodes q) L"

lemma walk_ring_seg:
  "seg (nxt q) (prv q) p xs (tl_head q) \<Longrightarrow> tl_head q \<notin> set xs \<Longrightarrow> length xs < fuel \<Longrightarrow>
   walk_ring q fuel (nxt q p) = xs"
proof (induction xs arbitrary: p fuel)
  case Nil
  then show ?case by (cases fuel) auto
next
  case (Cons x xs)
  then show ?case by (cases fuel) auto
qed

lemma list_at_length: "list_at q xs L \<Longrightarrow> length xs < fl_brk q"
proof -
  assume a: "list_at q xs L"
  then have "set xs \<subseteq> {0<..<fl_brk q}" "distinct xs" "0 < fl_brk q"
    by (auto simp: list_at_def fl_ok_def ring_def)
  then show ?thesis using card_mono [of "{0<..<fl_brk q}" "set xs"] distinct_card [of xs] by simp
qed

lemma list_at_nodes: "list_at q xs L \<Longrightarrow> list_nodes q = xs"
  using walk_ring_seg [of q "tl_head q" xs "fl_brk q"] list_at_length [of q xs L]
  by (auto simp: list_nodes_def list_at_def ring_def)

lemma list_inv_iff: "list_inv q L \<longleftrightarrow> (\<exists>xs. list_at q xs L)"
  using list_at_nodes unfolding list_inv_def by metis

lemma list_at_first:
  assumes "list_at q xs L"
  shows "list_get_first q = (if xs = [] then NULL else hd xs)" "xs \<noteq> [] \<Longrightarrow> hd xs \<noteq> NULL"
proof -
  have r: "ring (nxt q) (prv q) (tl_head q) xs" using assms by (simp add: list_at_def)
  show nz: "xs \<noteq> [] \<Longrightarrow> hd xs \<noteq> NULL"
    using assms hd_in_set [of xs] by (auto simp: list_at_def fl_ok_def)
  show "list_get_first q = (if xs = [] then NULL else hd xs)"
  proof (cases xs)
    case Nil
    then show ?thesis using ring_first [OF r] by (simp add: list_get_first_def)
  next
    case (Cons x ys)
    then have "x \<noteq> tl_head q" using r by (auto simp: ring_def)
    then show ?thesis using ring_first [OF r] Cons by (simp add: list_get_first_def)
  qed
qed

lemma list_at_empty: "list_at q xs L \<Longrightarrow> list_is_empty q \<longleftrightarrow> xs = []"
  using list_at_first [of q xs L] by (auto simp: list_is_empty_def)

section \<open>Linking and unlinking\<close>

lemma set_link_at [simp]:
  "nd_next (fl_nodes (set_next q a b) c) = (if c = a then b else nd_next (fl_nodes q c))"
  "nd_prev (fl_nodes (set_next q a b) c) = nd_prev (fl_nodes q c)"
  "nd_next (fl_nodes (set_prev q a b) c) = nd_next (fl_nodes q c)"
  "nd_prev (fl_nodes (set_prev q a b) c) = (if c = a then b else nd_prev (fl_nodes q c))"
  by (simp_all add: set_next_def set_prev_def)

lemma set_link_simps:
  "nxt (set_next q a b) = (nxt q)(a := b)" "prv (set_next q a b) = prv q"
  "nxt (set_prev q a b) = nxt q" "prv (set_prev q a b) = (prv q)(a := b)"
  by (auto simp: set_next_def set_prev_def fun_eq_iff)

lemma set_link_frame [simp]:
  "entry (fl_nodes (set_next q a b) c) = entry (fl_nodes q c)"
  "entry (fl_nodes (set_prev q a b) c) = entry (fl_nodes q c)"
  "fl_mode (set_next q a b) = fl_mode q" "fl_mode (set_prev q a b) = fl_mode q"
  "fl_inc (set_next q a b) = fl_inc q" "fl_inc (set_prev q a b) = fl_inc q"
  "fl_brk (set_next q a b) = fl_brk q" "fl_brk (set_prev q a b) = fl_brk q"
  "fl_size (set_next q a b) = fl_size q" "fl_size (set_prev q a b) = fl_size q"
  "fl_free_list (set_next q a b) = fl_free_list q" "fl_free_list (set_prev q a b) = fl_free_list q"
  "free_list.more (set_next q a b) = free_list.more q"
  "free_list.more (set_prev q a b) = free_list.more q"
  by (simp_all add: set_next_def set_prev_def entry_def)

text \<open>
  What the parts of the invariant read: changing links of nodes in use moves nodes between the
  ring and the nodes taken out, as long as the entries stay.
\<close>

lemma list_at_relink:
  assumes "list_at q xs L" "ring (nxt r) (prv r) (tl_head q) ys" "set ys \<union> M = set xs \<union> L"
    and "set ys \<inter> M = {}" "sorted (map (lvalue q) ys)"
    and "\<And>a. entry (fl_nodes r a) = entry (fl_nodes q a)"
    and "\<And>a. a \<notin> insert (tl_head q) (set xs \<union> L) \<Longrightarrow> nxt r a = nxt q a"
    and "fl_free_list r = fl_free_list q" "fl_size r = fl_size q" "fl_brk r = fl_brk q"
    and "fl_mode r = fl_mode q" "fl_inc r = fl_inc q" "free_list.more r = free_list.more q"
  shows "list_at r ys M"
proof -
  note E = entry_cong [OF assms(6)]
  have m: "tl_head r = tl_head q" "tl_id_counter r = tl_id_counter q"
    using timer_list_more [OF assms(13)] by auto
  have X: "insert (tl_head q) (set ys \<union> M) = insert (tl_head q) (set xs \<union> L)" using assms(3) by simp
  have "tl_head q \<notin> set ys" using assms(2) by (auto simp: ring_def)
  obtain fs where fs: "fl_ok q fs (insert (tl_head q) (set xs \<union> L))" using assms(1) by (auto simp: list_at_def)
  have "chain (nxt r) (fl_free_list q) fs \<longleftrightarrow> chain (nxt q) (fl_free_list q) fs"
  proof (rule chain_cong)
    fix x assume "x \<in> set fs"
    then have "x \<notin> insert (tl_head q) (set xs \<union> L)" using fs unfolding fl_ok_def by blast
    then show "nxt r x = nxt q x" by (rule assms(7))
  qed
  then have "fl_ok r fs (insert (tl_head q) (set ys \<union> M))"
    unfolding X using fs assms(8-10) by (simp add: fl_ok_def)
  moreover have "tl_head q \<notin> M"
    using assms(1,3,4) by (auto simp: list_at_def ring_def)
  moreover have "map (lvalue r) ys = map (lvalue q) ys" using E by simp
  then have "sorted (map (lvalue r) ys)" using assms(5) by (simp only:)
  moreover have "lid r = lid q" using E by (simp add: fun_eq_iff)
  ultimately show ?thesis
    unfolding list_at_def using assms(1-4) m E(5) by (auto simp: list_at_def assms(11,12))
qed

lemma list_unlink_correct:
  assumes "list_at q (ys @ n # zs) L"
  shows "list_at (list_unlink q n) (ys @ zs) (insert n L)"
    and "entry (fl_nodes (list_unlink q n) a) = entry (fl_nodes q a)"
    and "fl_brk (list_unlink q n) = fl_brk q" "tl_head (list_unlink q n) = tl_head q"
proof -
  let ?h = "tl_head q" and ?r = "list_unlink q n"
  have R: "ring (nxt q) (prv q) ?h (ys @ n # zs)" using assms by (simp add: list_at_def)
  define p s where "p = last (?h # ys)" and "s = hd (zs @ [?h])"
  have d: "distinct (?h # ys @ n # zs)" using R by (simp add: ring_def)
  have ps: "prv q n = p" "nxt q n = s" using ring_neighbours [OF R] by (simp_all add: p_def s_def)
  have pin: "p \<in> insert ?h (set ys)" "s \<in> insert ?h (set zs)"
    using last_in_set_Cons [of ?h ys] hd_in_set_snoc [of zs ?h] by (simp_all add: p_def s_def)
  then have ne: "p \<noteq> n" "s \<noteq> n" using d by auto
  have r: "?r = set_next (set_prev (set_prev (set_next q p s) s p) n NULL) n NULL"
    using ps ne by (simp add: list_unlink_def Let_def)
  have links: "nxt ?r = (nxt q)(p := s, n := NULL)" "prv ?r = (prv q)(s := p, n := NULL)"
    unfolding r set_link_simps by (rule refl)+
  from r have E: "\<And>a. entry (fl_nodes ?r a) = entry (fl_nodes q a)"
    and F: "fl_free_list ?r = fl_free_list q" "fl_size ?r = fl_size q" "fl_brk ?r = fl_brk q"
      "fl_mode ?r = fl_mode q" "fl_inc ?r = fl_inc q" "free_list.more ?r = free_list.more q"
    by simp_all
  have "ring ((nxt q)(p := s)) ((prv q)(s := p)) ?h (ys @ zs)"
    by (rule ring_remove [OF R p_def s_def])
  moreover have "ring (nxt ?r) (prv ?r) ?h (ys @ zs) \<longleftrightarrow>
      ring ((nxt q)(p := s)) ((prv q)(s := p)) ?h (ys @ zs)"
    unfolding links using d by (intro ring_cong) auto
  ultimately have ring: "ring (nxt ?r) (prv ?r) ?h (ys @ zs)" by simp
  have srt: "sorted (map (lvalue q) (ys @ zs))"
    using assms by (auto simp: list_at_def sorted_append)
  show "list_at ?r (ys @ zs) (insert n L)"
    by (rule list_at_relink [OF assms ring])
       (use assms d pin srt E F in \<open>auto simp: list_at_def fun_cong [OF links(1)] ring_def\<close>)
  show "entry (fl_nodes ?r a) = entry (fl_nodes q a)" "fl_brk ?r = fl_brk q" "tl_head ?r = tl_head q"
    using E F timer_list_more [OF F(6)] by auto
qed

lemma search_back_ring:
  "seg (nxt q) (prv q) (tl_head q) (ys @ zs) e \<Longrightarrow> tl_head q \<notin> set (ys @ zs) \<Longrightarrow>
   length zs < fuel \<Longrightarrow> \<forall>a \<in> set zs. lvalue q a > t \<Longrightarrow> ys = [] \<or> \<not> lvalue q (last ys) > t \<Longrightarrow>
   search_back q t fuel (prv q e) = last (tl_head q # ys)"
proof (induction zs arbitrary: fuel e rule: rev_induct)
  case Nil
  obtain f where "fuel = Suc f" using Nil by (cases fuel) auto
  then show ?case using Nil seg_last [OF Nil(1)] by (cases ys rule: rev_cases) auto
next
  case (snoc z zs)
  obtain f where f: "fuel = Suc f" using snoc.prems by (cases fuel) auto
  have "seg (nxt q) (prv q) (tl_head q) ((ys @ zs) @ z # []) e" using snoc.prems(1) by simp
  then have s: "seg (nxt q) (prv q) (tl_head q) (ys @ zs) z" "prv q e = z"
    by (simp_all only: seg_append seg.simps)
  have "search_back q t f (prv q z) = last (tl_head q # ys)"
    using snoc.IH [OF s(1)] snoc.prems f by auto
  moreover have "z \<noteq> tl_head q" "lvalue q z > t" using snoc.prems by auto
  ultimately show ?case using s(2) f by simp
qed

text \<open>
  Linking a node in by its time: behind all the nodes that are not later, so that timers with
  the same time stay in the order in which they were scheduled.
\<close>

definition insort_list :: "'t timer_list \<Rightarrow> addr \<Rightarrow> addr list \<Rightarrow> addr list" where
  "insort_list q n xs =
     filter (\<lambda>a. lvalue q a \<le> lvalue q n) xs @ n # filter (\<lambda>a. \<not> lvalue q a \<le> lvalue q n) xs"

lemma list_schedule_node_correct:
  assumes "list_at q xs (insert n L)" "n \<notin> L"
  defines "r \<equiv> list_schedule_node q n (lvalue q n)"
  shows "list_at r (insort_list q n xs) L" "entry (fl_nodes r a) = entry (fl_nodes q a)"
    and "fl_brk r = fl_brk q" "tl_head r = tl_head q"
proof -
  let ?h = "tl_head q" and ?t = "lvalue q n"
  define ys zs where "ys = filter (\<lambda>a. lvalue q a \<le> ?t) xs" and "zs = filter (\<lambda>a. \<not> lvalue q a \<le> ?t) xs"
  have srt: "sorted (map (lvalue q) xs)" using assms(1) by (simp add: list_at_def)
  have xs: "xs = ys @ zs" unfolding ys_def zs_def by (rule sorted_split [OF srt])
  have R: "ring (nxt q) (prv q) ?h (ys @ zs)" using assms(1) xs by (simp add: list_at_def)
  have n: "n \<notin> set (?h # ys @ zs)" using assms(1) xs by (auto simp: list_at_def)
  define p s where "p = last (?h # ys)" and "s = hd (zs @ [?h])"
  have np: "nxt q p = s" unfolding p_def s_def by (rule ring_next_after [OF R])
  have pin: "p \<in> insert ?h (set ys)" "s \<in> insert ?h (set zs)"
    using last_in_set_Cons [of ?h ys] hd_in_set_snoc [of zs ?h] by (simp_all add: p_def s_def)
  then have ne: "p \<noteq> n" using n by auto
  have r: "r = set_next (set_prev (set_next (set_prev q n p) n s) s n) p n"
  proof (cases "xs = []")
    case True
    then have "p = ?h" "s = ?h" using xs by (simp_all add: p_def s_def)
    then show ?thesis
      using list_at_empty [OF assms(1)] True by (simp add: r_def list_schedule_node_def Let_def)
  next
    case False
    have "search_back q ?t (fl_brk q) (prv q ?h) = p"
      unfolding p_def
    proof (rule search_back_ring)
      show "seg (nxt q) (prv q) ?h (ys @ zs) ?h" "?h \<notin> set (ys @ zs)" using R by (auto simp: ring_def)
      show "length zs < fl_brk q" using list_at_length [OF assms(1)] xs by simp
      show "\<forall>a \<in> set zs. ?t < lvalue q a" by (auto simp: zs_def)
      have "\<forall>a \<in> set ys. lvalue q a \<le> ?t" by (auto simp: ys_def)
      then show "ys = [] \<or> \<not> ?t < lvalue q (last ys)" by (cases ys rule: rev_cases) auto
    qed
    then show ?thesis
      using list_at_empty [OF assms(1)] False np ne by (simp add: r_def list_schedule_node_def Let_def)
  qed
  have links: "nxt r = (nxt q)(n := s, p := n)" "prv r = (prv q)(n := p, s := n)"
    unfolding r set_link_simps by (rule refl)+
  from r have E: "\<And>a. entry (fl_nodes r a) = entry (fl_nodes q a)"
    and F: "fl_free_list r = fl_free_list q" "fl_size r = fl_size q" "fl_brk r = fl_brk q"
      "fl_mode r = fl_mode q" "fl_inc r = fl_inc q" "free_list.more r = free_list.more q"
    by simp_all
  have ring: "ring (nxt r) (prv r) ?h (ys @ n # zs)"
    unfolding links by (rule ring_insert [OF R n p_def s_def])
  have "sorted (map (lvalue q) (ys @ n # zs))"
    using srt unfolding xs by (auto simp: sorted_append ys_def zs_def)
  then show "list_at r (insort_list q n xs) L"
    unfolding insort_list_def ys_def [symmetric] zs_def [symmetric]
    by (intro list_at_relink [OF assms(1) ring])
       (use assms(1,2) n pin E F xs in \<open>auto simp: fun_cong [OF links(1)] list_at_def\<close>)
  show "entry (fl_nodes r a) = entry (fl_nodes q a)" "fl_brk r = fl_brk q" "tl_head r = tl_head q"
    using E F timer_list_more [OF F(6)] by auto
qed

section \<open>The operations\<close>

lemma list_at_frame:
  assumes "list_at q xs L" "M \<subseteq> L"
    and "\<And>a. a \<in> insert (tl_head q) (set xs) \<Longrightarrow> nxt r a = nxt q a \<and> prv r a = prv q a"
    and "\<And>a. a \<in> set xs \<Longrightarrow> lvalue r a = lvalue q a" "\<And>a. a \<in> set xs \<union> M \<Longrightarrow> lid r a = lid q a"
    and "tl_head r = tl_head q" "tl_id_counter r = tl_id_counter q" "fl_mode r = fl_mode q"
    and "fl_inc r = fl_inc q" "\<exists>gs. fl_ok r gs (insert (tl_head q) (set xs \<union> M))"
  shows "list_at r xs M"
proof -
  have "ring (nxt r) (prv r) (tl_head q) xs \<longleftrightarrow> ring (nxt q) (prv q) (tl_head q) xs"
    using assms(3) by (intro ring_cong) auto
  moreover have "map (lvalue r) xs = map (lvalue q) xs" using assms(4) by (intro map_cong) auto
  then have "sorted (map (lvalue r) xs) \<longleftrightarrow> sorted (map (lvalue q) xs)" by (simp only:)
  moreover have "inj_on (lid r) (set xs \<union> M) \<longleftrightarrow> inj_on (lid q) (set xs \<union> M)"
    using assms(5) by (intro inj_on_cong) auto
  moreover have "inj_on (lid q) (set xs \<union> M)"
    using assms(1,2) unfolding list_at_def by (meson Un_mono inj_on_subset order_refl)
  moreover have "\<forall>a \<in> set xs \<union> M. 0 \<le> lid r a \<and> lid r a < tl_id_counter q"
    using assms(1,2,5) by (auto simp: list_at_def)
  moreover have "set xs \<inter> M = {}" "tl_head q \<notin> M" using assms(1,2) by (auto simp: list_at_def)
  ultimately show ?thesis using assms(1,10) unfolding list_at_def assms(6-9) by blast
qed

lemma list_free_node_correct:
  assumes "list_at q xs L" "n \<in> L"
  shows "list_at (list_free_node q n) xs (L - {n})"
    and "entry (fl_nodes (list_free_node q n) a) = entry (fl_nodes q a)"
    and "fl_brk (list_free_node q n) = fl_brk q" "tl_head (list_free_node q n) = tl_head q"
    and "a \<noteq> n \<Longrightarrow> fl_nodes (list_free_node q n) a = fl_nodes q a"
proof -
  let ?r = "list_free_node q n"
  show E: "entry (fl_nodes ?r a) = entry (fl_nodes q a)" for a by (simp add: list_free_node_def)
  have "free_list.more ?r = free_list.more q" by (simp add: list_free_node_def)
  note m = timer_list_more [OF this]
  show "fl_brk ?r = fl_brk q" "tl_head ?r = tl_head q" using m by (simp_all add: list_free_node_def)
  show N: "a \<noteq> n \<Longrightarrow> fl_nodes ?r a = fl_nodes q a" for a by (simp add: list_free_node_def)
  have L: "set xs \<inter> L = {}" "tl_head q \<notin> L" using assms(1) by (auto simp: list_at_def)
  obtain fs where "fl_ok q fs (insert (tl_head q) (set xs \<union> L))"
    using assms(1) by (auto simp: list_at_def)
  then have "\<exists>gs. fl_ok ?r gs (insert (tl_head q) (set xs \<union> L) - {n})"
    unfolding list_free_node_def using assms(2) by (intro fl_add_correct) auto
  moreover have "insert (tl_head q) (set xs \<union> L) - {n} = insert (tl_head q) (set xs \<union> (L - {n}))"
    using L assms(2) by auto
  moreover have "nxt ?r a = nxt q a \<and> prv ?r a = prv q a" if "a \<in> insert (tl_head q) (set xs)" for a
  proof -
    have "a \<noteq> n" using that L assms(2) by auto
    then show ?thesis using N [of a] by simp
  qed
  ultimately show "list_at ?r xs (L - {n})"
    using m entry_cong(3,5) [OF E]
    by (intro list_at_frame [OF assms(1)]) (auto simp: list_free_node_def)
qed

lemma list_node_update:
  assumes "list_at q xs L" "n \<in> L" "nd_timer_id nd = lid q n"
  shows "list_at (q\<lparr>fl_nodes := (fl_nodes q)(n := nd)\<rparr>) xs L"
proof (rule list_at_frame [OF assms(1)])
  let ?r = "q\<lparr>fl_nodes := (fl_nodes q)(n := nd)\<rparr>" and ?A = "insert (tl_head q) (set xs \<union> L)"
  obtain fs where fs: "fl_ok q fs ?A" using assms(1) by (auto simp: list_at_def)
  have "chain (nxt ?r) (fl_free_list q) fs \<longleftrightarrow> chain (nxt q) (fl_free_list q) fs"
    using fs assms(2) by (intro chain_cong) (auto simp: fl_ok_def)
  then show "\<exists>gs. fl_ok ?r gs ?A" using fs by (intro exI [of _ fs]) (simp add: fl_ok_def)
qed (use assms in \<open>auto simp: list_at_def\<close>)

lemma list_schedule_i_at:
  assumes "list_at q xs L" "list_schedule_i q type act t i = (q', k)"
  shows "\<exists>n. n \<notin> set xs \<union> L \<and> list_at q' (filter (\<lambda>a. lvalue q a \<le> t) xs @ n #
        filter (\<lambda>a. \<not> lvalue q a \<le> t) xs) L \<and> k = tl_id_counter q \<and>
      entry (fl_nodes q' n) = (type, act, t, i, k) \<and>
      (\<forall>a \<in> set xs \<union> L. entry (fl_nodes q' a) = entry (fl_nodes q a) \<and> lid q a \<noteq> k)"
proof -
  let ?h = "tl_head q" and ?A = "insert (tl_head q) (set xs \<union> L)"
  obtain fs where fs: "fl_ok q fs ?A" using assms(1) by (auto simp: list_at_def)
  have I: "ring (nxt q) (prv q) ?h xs" "sorted (map (lvalue q) xs)" "set xs \<inter> L = {}" "?h \<notin> L"
      "inj_on (lid q) (set xs \<union> L)" "\<forall>a \<in> set xs \<union> L. 0 \<le> lid q a \<and> lid q a < tl_id_counter q"
      "0 \<le> tl_id_counter q" "fl_mode q \<noteq> ACE_PURE_FREE_LIST" "0 < fl_inc q"
    using assms(1) by (auto simp: list_at_def)
  obtain q1 n where al: "fl_remove q = (q1, n)" by fastforce
  note A = fl_remove_correct [OF fs I(8,9) al]
  note m = timer_list_more [OF A(7)]
  define nd where "nd = node_set_dll type act t i NULL NULL (tl_id_counter q) (fl_nodes q1 n)"
  define q3 where "q3 = q1\<lparr>tl_id_counter := tl_id_counter q + 1, fl_nodes := (fl_nodes q1)(n := nd)\<rparr>"
  have res: "q' = list_schedule_node q3 n t" "k = tl_id_counter q"
    using assms(2) al A(1) I(7) m
    by (auto simp: list_schedule_i_def list_alloc_node_def Let_def q3_def nd_def)
  have same: "fl_nodes q3 a = fl_nodes q a" if "a \<in> ?A" for a
    using that A(2) A(4) [OF that] by (auto simp: q3_def)
  have q3: "tl_head q3 = ?h" "tl_id_counter q3 = tl_id_counter q + 1" "fl_mode q3 = fl_mode q"
      "fl_inc q3 = fl_inc q" "lid q3 n = tl_id_counter q" "lvalue q3 n = t"
    using m A(5,6) by (simp_all add: q3_def nd_def node_set_dll_def)
  have "list_at q3 xs (insert n L)"
  proof -
    have "ring (nxt q3) (prv q3) ?h xs \<longleftrightarrow> ring (nxt q) (prv q) ?h xs"
      using same by (intro ring_cong) auto
    moreover have "map (lvalue q3) xs = map (lvalue q) xs" using same by (intro map_cong) auto
    then have "sorted (map (lvalue q3) xs) \<longleftrightarrow> sorted (map (lvalue q) xs)" by (simp only:)
    moreover have "inj_on (lid q3) (set xs \<union> insert n L)"
    proof -
      have "inj_on (lid q3) (set xs \<union> L) \<longleftrightarrow> inj_on (lid q) (set xs \<union> L)"
        using same by (intro inj_on_cong) auto
      moreover have "lid q3 n \<notin> lid q3 ` (set xs \<union> L - {n})"
      proof
        assume "lid q3 n \<in> lid q3 ` (set xs \<union> L - {n})"
        then obtain a where "lid q3 n = lid q3 a" "a \<in> set xs \<union> L - {n}" by (rule imageE)
        then show False using same [of a] I(6) q3(5) by auto
      qed
      ultimately show ?thesis using I(5) by simp
    qed
    moreover have "0 \<le> lid q3 a \<and> lid q3 a < tl_id_counter q + 1" if "a \<in> set xs \<union> insert n L" for a
      using that I(6,7) same [of a] q3(5) by (cases "a = n") (auto intro: less_imp_le)
    moreover have "\<exists>gs. fl_ok q3 gs (insert ?h (set xs \<union> insert n L))"
    proof -
      obtain gs where gs: "fl_ok q1 gs (insert n ?A)" using A(3) by blast
      have "chain (nxt q3) (fl_free_list q1) gs \<longleftrightarrow> chain (nxt q1) (fl_free_list q1) gs"
        using gs by (intro chain_cong) (auto simp: q3_def fl_ok_def)
      then have "fl_ok q3 gs (insert n ?A)" using gs by (simp add: fl_ok_def q3_def)
      moreover have "insert n ?A = insert ?h (set xs \<union> insert n L)" by auto
      ultimately show ?thesis by metis
    qed
    ultimately show ?thesis
      unfolding list_at_def q3 using I A(2) by auto
  qed
  moreover have "n \<notin> L" "n \<notin> set xs" using A(2) by auto
  ultimately have S: "list_at q' (insort_list q3 n xs) L" "\<And>a. entry (fl_nodes q' a) = entry (fl_nodes q3 a)"
    using list_schedule_node_correct [of q3 xs n L] q3(6) res by auto
  have "insort_list q3 n xs = filter (\<lambda>a. lvalue q a \<le> t) xs @ n # filter (\<lambda>a. \<not> lvalue q a \<le> t) xs"
    unfolding insort_list_def q3(6) using same by (intro arg_cong2 [of _ _ _ _ "(@)"] arg_cong2 [of _ _ _ _ "(#)"] refl filter_cong) auto
  moreover have "entry (fl_nodes q3 n) = (type, act, t, i, k)"
    using res by (simp add: q3_def nd_def entry_def node_set_dll_def)
  moreover have "lid q a \<noteq> k" if "a \<in> set xs \<union> L" for a
    using bspec [OF I(6) that] res(2) by auto
  ultimately show ?thesis using S same res A(2) by (intro exI [of _ n]) auto
qed

lemma find_from_seg:
  "seg (nxt q) (prv q) p xs (tl_head q) \<Longrightarrow> tl_head q \<notin> set xs \<Longrightarrow> length xs < fuel \<Longrightarrow>
   find_from q k fuel (nxt q p) = (case find (\<lambda>a. lid q a = k) xs of None \<Rightarrow> NULL | Some a \<Rightarrow> a)"
proof (induction xs arbitrary: p fuel)
  case Nil
  then show ?case by (cases fuel) auto
next
  case (Cons x xs)
  then show ?case by (cases fuel) auto
qed

lemma find_node_at:
  assumes "list_at q xs L"
  shows "find_node q k = NULL \<longleftrightarrow> (\<forall>a \<in> set xs. lid q a \<noteq> k)"
    and "a \<in> set xs \<Longrightarrow> lid q a = k \<Longrightarrow> find_node q k = a"
proof -
  have R: "seg (nxt q) (prv q) (tl_head q) xs (tl_head q)" "tl_head q \<notin> set xs"
    using assms by (auto simp: list_at_def ring_def)
  have f: "find_node q k = (case find (\<lambda>a. lid q a = k) xs of None \<Rightarrow> NULL | Some a \<Rightarrow> a)"
  proof (cases xs)
    case Nil
    then show ?thesis using list_at_first [OF assms] by (simp add: find_node_def)
  next
    case (Cons x ys)
    then have "nxt q (tl_head q) = x" "list_get_first q = x" "x \<noteq> NULL"
      using list_at_first [OF assms] R(1) by auto
    then show ?thesis
      using find_from_seg [OF R list_at_length [OF assms], of k] Cons by (simp add: find_node_def)
  qed
  have nz: "NULL \<notin> set xs" using assms by (auto simp: list_at_def fl_ok_def)
  show "find_node q k = NULL \<longleftrightarrow> (\<forall>a \<in> set xs. lid q a \<noteq> k)"
  proof (cases "find (\<lambda>a. lid q a = k) xs")
    case None
    have "\<forall>a \<in> set xs. lid q a \<noteq> k" using None unfolding find_None_iff by auto
    with None show ?thesis by (simp add: f)
  next
    case (Some b)
    then have "b \<in> set xs" "lid q b = k" by (auto simp: find_Some_iff)
    then show ?thesis using Some nz by (auto simp: f)
  qed
  show "find_node q k = a" if a: "a \<in> set xs" "lid q a = k"
  proof -
    obtain b where b: "find (\<lambda>a. lid q a = k) xs = Some b"
      using a by (cases "find (\<lambda>a. lid q a = k) xs") (auto simp: find_None_iff)
    then have "b \<in> set xs" "lid q b = k" by (auto simp: find_Some_iff)
    moreover have "inj_on (lid q) (set xs)" using assms by (auto simp: list_at_def intro: inj_on_subset)
    ultimately show ?thesis using a b unfolding f by (auto dest: inj_onD)
  qed
qed

lemma list_cancel_i_correct:
  assumes "list_at q (ys @ n # zs) L"
  shows "list_at (list_cancel_i q n) (ys @ zs) L"
    and "entry (fl_nodes (list_cancel_i q n) a) = entry (fl_nodes q a)"
    and "fl_brk (list_cancel_i q n) = fl_brk q" "tl_head (list_cancel_i q n) = tl_head q"
proof -
  note U = list_unlink_correct [OF assms]
  note F = list_free_node_correct [OF U(1), of n]
  have "insert n L - {n} = L" using assms by (auto simp: list_at_def)
  then show "list_at (list_cancel_i q n) (ys @ zs) L"
    "entry (fl_nodes (list_cancel_i q n) a) = entry (fl_nodes q a)"
    "fl_brk (list_cancel_i q n) = fl_brk q" "tl_head (list_cancel_i q n) = tl_head q"
    using U F by (simp_all add: list_cancel_i_def)
qed

lemma cancel_type_loop_at:
  "list_at q (ys @ zs) L \<Longrightarrow> length zs < fuel \<Longrightarrow>
   list_cancel_type_loop fuel q type (hd (zs @ [tl_head q])) k = (q', k') \<Longrightarrow>
   list_at q' (ys @ filter (\<lambda>a. nd_type (fl_nodes q a) \<noteq> type) zs) L \<and>
   k' = k + length (filter (\<lambda>a. nd_type (fl_nodes q a) = type) zs) \<and>
   (\<forall>a. entry (fl_nodes q' a) = entry (fl_nodes q a))"
proof (induction zs arbitrary: q ys fuel k)
  case Nil
  then show ?case by (cases fuel) auto
next
  case (Cons z zs)
  obtain f where f: "fuel = Suc f" using Cons.prems by (cases fuel) auto
  have R: "ring (nxt q) (prv q) (tl_head q) (ys @ z # zs)" using Cons.prems(1) by (simp add: list_at_def)
  have z: "z \<noteq> tl_head q" "nxt q z = hd (zs @ [tl_head q])"
    using R ring_neighbours(2) [OF R] by (auto simp: ring_def)
  show ?case
  proof (cases "nd_type (fl_nodes q z) = type")
    case True
    let ?r = "list_cancel_i q z"
    note C = list_cancel_i_correct [OF Cons.prems(1)]
    have "list_cancel_type_loop f ?r type (hd (zs @ [tl_head ?r])) (k + 1) = (q', k')"
      using Cons.prems(3) f z True C(4) by simp
    from Cons.IH [OF C(1) _ this] Cons.prems(2) f
    have "list_at q' (ys @ filter (\<lambda>a. nd_type (fl_nodes ?r a) \<noteq> type) zs) L"
      "k' = k + 1 + length (filter (\<lambda>a. nd_type (fl_nodes ?r a) = type) zs)"
      "\<forall>a. entry (fl_nodes q' a) = entry (fl_nodes ?r a)" by auto
    then show ?thesis using entry_cong(1) [OF C(2)] C(2) True by simp
  next
    case False
    then have "list_cancel_type_loop f q type (hd (zs @ [tl_head q])) k = (q', k')"
      using Cons.prems(3) f z by simp
    from Cons.IH [of q "ys @ [z]", OF _ _ this] Cons.prems(1,2) f False show ?thesis by simp
  qed
qed

section \<open>The contract of a timer queue\<close>

definition list_ops :: "('t timer_list, 't) timer_queue_ops" where
  "list_ops = \<lparr>op_is_empty = list_is_empty, op_earliest_time = list_earliest_time,
     op_remove_first = list_remove_first, op_reschedule = list_reschedule,
     op_free_node = list_free_node, op_node = fl_nodes,
     op_set_node = (\<lambda>q a nd. q\<lparr>fl_nodes := (fl_nodes q)(a := nd)\<rparr>),
     op_schedule_i = list_schedule_i\<rparr>"

lemma list_ops_simps [simp]:
  "op_is_empty list_ops = list_is_empty" "op_earliest_time list_ops = list_earliest_time"
  "op_remove_first list_ops = list_remove_first" "op_reschedule list_ops = list_reschedule"
  "op_free_node list_ops = list_free_node" "op_node list_ops = fl_nodes"
  "op_set_node list_ops q a nd = q\<lparr>fl_nodes := (fl_nodes q)(a := nd)\<rparr>"
  "op_schedule_i list_ops = list_schedule_i"
  by (simp_all add: list_ops_def)

lemma list_earliest_at:
  assumes "list_at q (x # xs) L"
  shows "list_earliest_time q = lvalue q x" "\<forall>a \<in> set (x # xs). lvalue q x \<le> lvalue q a"
  using assms list_at_first [OF assms] by (auto simp: list_earliest_time_def list_at_def)

lemma list_invE:
  assumes "list_inv q L"
  obtains xs where "list_at q xs L" "list_queued q = set xs" "list_nodes q = xs"
  using assms by (auto simp: list_inv_def list_queued_def)

lemma list_invI: "list_at q xs L \<Longrightarrow> list_inv q L \<and> list_queued q = set xs \<and> list_nodes q = xs"
  using list_at_nodes [of q xs L] by (auto simp: list_inv_def list_queued_def)

interpretation tl: timer_queue list_ops list_inv list_queued "\<lambda>_. True"
proof (unfold_locales, goal_cases)
  case (1 q L)
  then show ?case by (simp add: list_queued_def)
next
  case (2 q L)
  then show ?case by (auto elim!: list_invE simp: list_at_def)
next
  case (3 q L)
  then show ?case by (auto elim!: list_invE simp: list_at_empty)
next
  case (4 q L)
  then obtain x xs where x: "list_at q (x # xs) L" "list_queued q = set (x # xs)"
    by (metis list.exhaust list.set(1) list_invE)
  show ?case
    unfolding x(2) using list_earliest_at [OF x(1)] by (intro Min_eqI [symmetric]) auto
next
  case (5 q L q' n)
  then obtain x xs where x: "list_at q (x # xs) L" "list_queued q = set (x # xs)"
    by (metis list.exhaust list.set(1) list_invE)
  have n: "n = x" "q' = list_unlink q x"
    using 5(3) list_at_first [OF x(1)] by (auto simp: list_remove_first_def)
  have "list_at q ([] @ x # xs) L" using x(1) by simp
  note U = list_unlink_correct [OF this]
  have "distinct (x # xs)" using x(1) by (auto simp: list_at_def ring_def)
  then show ?case
    using list_invI [OF U(1)] U(2) x n list_earliest_at [OF x(1)] by auto
next
  case (6 q L n nd)
  from 6(1) obtain xs where x: "list_at q xs L" "list_queued q = set xs" by (rule list_invE)
  from list_invI [OF list_node_update [OF x(1) 6(2)]] 6(4) x(2) show ?case by simp
next
  case (7 q L n)
  from 7(1) obtain xs where x: "list_at q xs L" "list_queued q = set xs" by (rule list_invE)
  have L: "insert n (L - {n}) = L" using 7(2) by auto
  then have "list_at q xs (insert n (L - {n}))" using x(1) by simp
  note S = list_schedule_node_correct [OF this]
  have "set (insort_list q n xs) = insert n (set xs)" by (auto simp: insort_list_def)
  then show ?case using list_invI [OF S(1)] S(2) x by (simp add: list_reschedule_def)
next
  case (8 q L n)
  from 8(1) obtain xs where x: "list_at q xs L" "list_queued q = set xs" by (rule list_invE)
  note F = list_free_node_correct [OF x(1) 8(2)]
  then show ?case using list_invI [OF F(1)] x by simp
qed

section \<open>Construction\<close>

lemma fl_init_ok: "\<exists>fs. fl_ok (fl_init mode prealloc lwm hwm inc memory) fs {} \<and> length fs = prealloc"
proof -
  let ?q = "\<lparr>fl_mode = mode, fl_free_list = NULL, fl_lwm = lwm, fl_hwm = hwm,
       fl_inc = inc, fl_size = 0, fl_nodes = memory, fl_brk = 1\<rparr>"
  have "fl_ok ?q [] {}" by (simp add: fl_ok_def)
  from fl_alloc_correct [OF this, of prealloc] obtain ns where
    "fl_ok (fl_alloc prealloc ?q) (ns @ []) {}" "length ns = prealloc" by blast
  then show ?thesis by (intro exI [of _ ns]) (simp add: fl_init_def)
qed

lemma timer_list_init_at:
  assumes "fl_ok fl fs {}" "fl_mode fl \<noteq> ACE_PURE_FREE_LIST" "0 < fl_inc fl"
  shows "list_at (timer_list_init fl) [] {}"
proof -
  let ?h = "fl_brk fl" and ?q = "timer_list_init fl"
  have F: "tl_head ?q = ?h" "tl_id_counter ?q = 0" "fl_mode ?q = fl_mode fl" "fl_inc ?q = fl_inc fl"
      "fl_brk ?q = ?h + 1" "fl_free_list ?q = fl_free_list fl" "fl_size ?q = fl_size fl"
    by (simp_all add: timer_list_init_def Let_def set_next_def set_prev_def)
  have N: "nxt ?q ?h = ?h" "prv ?q ?h = ?h" "a \<noteq> ?h \<Longrightarrow> fl_nodes ?q a = fl_nodes fl a" for a
    by (simp_all add: timer_list_init_def Let_def set_next_def set_prev_def)
  have "chain (nxt ?q) (fl_free_list fl) fs \<longleftrightarrow> chain (nxt fl) (fl_free_list fl) fs"
    using assms(1) N(3) by (intro chain_cong) (auto simp: fl_ok_def)
  then have "fl_ok ?q fs {?h}"
    using assms(1) unfolding fl_ok_def F by (auto intro: less_SucI)
  moreover have "ring (nxt ?q) (prv ?q) ?h []" using N by (simp add: ring_def)
  ultimately show ?thesis using assms(2,3) F by (auto simp: list_at_def)
qed

text \<open>A list with two timers at 4 s and one at 1 s, from a pool with two preallocated nodes.\<close>

definition list0 :: "nat timer_list" where
  "list0 = timer_list_init (fl_init ACE_FREE_LIST_WITH_POOL 2 0 3 1
     (\<lambda>_. \<lparr>nd_type = 0, nd_act = 0, nd_timer_value = zero_time, nd_interval = zero_time,
           nd_prev = 0, nd_next = 0, nd_timer_id = 0\<rparr>))"

definition list3 :: "nat timer_list" where
  "list3 = fst (list_schedule_i (fst (list_schedule_i (fst (list_schedule_i list0 7 70
     (ACE_Time_Value 4 0) (ACE_Time_Value 3 0))) 8 80 (ACE_Time_Value 1 0) zero_time)) 7 90
     (ACE_Time_Value 4 0) zero_time)"

lemma list3_inv: "list_inv list0 {}" "list_inv list3 {}"
proof -
  have "list_at list0 [] {}"
    unfolding list0_def using fl_init_ok timer_list_init_at
    by (metis (no_types, lifting) ACE_FREE_LIST_WITH_POOL_def ACE_PURE_FREE_LIST_def fl_alloc_frame(1,4)
        fl_init_def free_list.select_convs(1,5) numeral_eq_one_iff semiring_norm(85) zero_less_one)
  then show 0: "list_inv list0 {}" using list_invI by blast
  have step: "list_inv (fst (list_schedule_i q ty act t i)) {}" if inv: "list_inv q {}"
    for q :: "nat timer_list" and ty act t i
  proof -
    obtain xs where "list_at q xs {}" using inv list_inv_iff by blast
    then show ?thesis using list_schedule_i_at [of q xs "{}" ty act t i] list_invI by (metis prod.collapse)
  qed
  show "list_inv list3 {}" unfolding list3_def by (intro step 0)
qed

lemma list3_shape:
  "list_nodes list3 = [1, 2, 4]" "lvalue list3 1 = ACE_Time_Value 1 0"
  "lvalue list3 2 = ACE_Time_Value 4 0" "lvalue list3 4 = ACE_Time_Value 4 0"
  "lid list3 1 = 1" "lid list3 2 = 0" "lid list3 4 = 2" "tl_head list3 = 3" "tl_id_counter list3 = 3"
  "nd_type (fl_nodes list3 1) = 8" "nd_type (fl_nodes list3 2) = 7" "nd_type (fl_nodes list3 4) = 7"
  "nd_interval (fl_nodes list3 2) = ACE_Time_Value 3 0" "nd_interval (fl_nodes list3 1) = zero_time"
  "nd_interval (fl_nodes list3 4) = zero_time" "nd_act (fl_nodes list3 2) = 70"
  by code_simp+

section \<open>Properties\<close>



text \<open>\<open>expire\<close> on a timer list, with callbacks that do not operate on the queue: the loop ends;
  each timer that is due is dispatched exactly once, in the order of the times, and no other
  timer is. Afterwards nothing is due: one-shot timers are gone and periodic ones have moved
  past the current time.\<close>

theorem list_expire_correct:
  assumes "list_inv q L" "inert f cur_time g" "tv_normal cur_time"
    and "\<forall>a \<in> list_queued q. tv_normal (lvalue q a) \<and> tv_normal (nd_interval (fl_nodes q a)) \<and>
      tv_total (nd_interval (fl_nodes q a)) < 2 ^ 64 \<and>
      tv_total cur_time - tv_total (lvalue q a) < 2 ^ 64"
  shows "\<exists>q' ns. expire list_ops f cur_time (q, u) =
      Some ((q', fold (\<lambda>n. g (get_dispatch_info (fl_nodes q n))) ns u), length ns) \<and>
    distinct ns \<and> set ns = {a \<in> list_queued q. lvalue q a \<le> cur_time} \<and> sorted (map (lvalue q) ns) \<and>
    list_inv q' L \<and>
    list_queued q' = list_queued q - {a \<in> set ns. nd_interval (fl_nodes q a) \<le> zero_time} \<and>
    (\<forall>a \<in> list_queued q'. cur_time < lvalue q' a)"
proof -
  have s: "tl.sane q cur_time" using assms(3,4) by (simp add: tl.sane_def tl.val_def)
  obtain q' ns where E: "expire list_ops f cur_time (q, u) =
      Some ((q', fold (\<lambda>n. g (get_dispatch_info (fl_nodes q n))) ns u), card (tl.due q cur_time))"
    "distinct ns" "set ns = tl.due q cur_time" "sorted (map (tl.val q) ns)" "list_inv q' L"
    "tl.expired_to q cur_time q'"
    using tl.expire_correct [OF assms(2,1) s, of u] by auto
  have due: "tl.due q cur_time = {a \<in> list_queued q. lvalue q a \<le> cur_time}"
    "tl.due q' cur_time = {a \<in> list_queued q'. lvalue q' a \<le> cur_time}"
    by (simp_all add: tl.due_def tl.val_def)
  have "tl.val q = lvalue q" by (simp add: fun_eq_iff tl.val_def)
  then have "sorted (map (lvalue q) ns)" using E(4) by simp
  moreover have "card (tl.due q cur_time) = length ns" using E(2,3) distinct_card by metis
  moreover have "\<forall>a \<in> list_queued q'. cur_time < lvalue q' a"
    using E(6) due(2) unfolding tl.expired_to_def by force
  moreover have "list_queued q' = list_queued q - {a \<in> set ns. nd_interval (fl_nodes q a) \<le> zero_time}"
    using E(6) unfolding E(3) tl.expired_to_def list_ops_simps not_less by blast
  ultimately show ?thesis using E(1,2,3,5) due(1) by auto
qed

theorem list_expire_correct_witness:
  "\<exists>q' u. expire list_ops \<lparr>fn_preinvoke = \<lambda>i c s. (s, 0), fn_timeout = \<lambda>i c (q, u). (q, Suc u),
     fn_postinvoke = \<lambda>i c a s. s\<rparr> (ACE_Time_Value 2 0) (list3, 0) = Some ((q', u), 1) \<and>
     list_queued q' = {2, 4}"
proof -
  let ?f = "\<lparr>fn_preinvoke = \<lambda>i c s. (s, 0), fn_timeout = \<lambda>i c (q, u). (q, Suc u),
     fn_postinvoke = \<lambda>i c a s. s\<rparr> :: (nat timer_list \<times> nat, nat) timeout_functor"
  let ?c = "ACE_Time_Value 2 0"
  have q: "list_queued list3 = {1, 2, 4}" using list3_shape(1) by (simp add: list_queued_def)
  have g: "inert ?f ?c (\<lambda>i. Suc)" by (simp add: inert_def upcall_effect_def)
  have n: "tv_normal ?c" by (simp add: tv_normal_def)
  have ok: "\<forall>a \<in> list_queued list3. tv_normal (lvalue list3 a) \<and> tv_normal (nd_interval (fl_nodes list3 a)) \<and>
      tv_total (nd_interval (fl_nodes list3 a)) < 2 ^ 64 \<and> tv_total ?c - tv_total (lvalue list3 a) < 2 ^ 64"
    unfolding q using list3_shape by (simp add: tv_normal_def tv_total_def zero_time_def)
  obtain q' ns where E: "expire list_ops ?f ?c (list3, 0) =
      Some ((q', fold (\<lambda>n. Suc) ns 0), length ns)" "distinct ns"
    "set ns = {a \<in> list_queued list3. lvalue list3 a \<le> ?c}"
    "list_queued q' = list_queued list3 - {a \<in> set ns. nd_interval (fl_nodes list3 a) \<le> zero_time}"
    using list_expire_correct [OF list3_inv(2) g n ok, of 0] by blast
  have "ACE_Time_Value 1 0 \<le> ?c" "\<not> ACE_Time_Value 4 0 \<le> ?c" by code_simp+
  then have ns: "set ns = {1}" unfolding E(3) q using list3_shape by auto
  then have "length ns = 1" using E(2) distinct_card [of ns] by simp
  moreover have "list_queued q' = {2, 4}" unfolding E(4) ns q using list3_shape by auto
  ultimately show ?thesis using E(1) by auto
qed

text \<open>Cancelling in a timer list, by id: the timer with the id is unlinked, the rest stays in
  order, the hooks are called once and the result is 1; with no such timer nothing changes and
  the result is 0. By type: exactly the timers of the type are removed and their number is
  returned.\<close>

theorem list_cancel_correct:
  assumes "list_inv q L"
  shows "((\<forall>n \<in> list_queued q. lid q n \<noteq> timer_id) \<and>
      list_cancel f (q, u) timer_id skip_close = ((q, u), None, 0) \<or>
    (\<exists>n q'. n \<in> list_queued q \<and> lid q n = timer_id \<and>
       list_cancel f (q, u) timer_id skip_close =
         ((q', let (u1, cookie) = fn_cancel_type f (nd_type (fl_nodes q n)) skip_close 0 u
               in fn_cancel_timer f (nd_type (fl_nodes q n)) skip_close cookie u1),
          Some (nd_act (fl_nodes q n)), 1) \<and>
       list_inv q' L \<and> list_nodes q' = remove1 n (list_nodes q) \<and>
       (\<forall>a. entry (fl_nodes q' a) = entry (fl_nodes q a)))) \<and>
    (\<exists>q' u'. list_cancel_type f (q, u) type skip_close =
         ((q', u'), card {a \<in> list_queued q. nd_type (fl_nodes q a) = type}) \<and> list_inv q' L \<and>
       list_nodes q' = filter (\<lambda>a. nd_type (fl_nodes q a) \<noteq> type) (list_nodes q) \<and>
       (\<forall>a. entry (fl_nodes q' a) = entry (fl_nodes q a)))"
proof -
  obtain xs where x: "list_at q xs L" "list_queued q = set xs" "list_nodes q = xs"
    using assms by (rule list_invE)
  have d: "distinct xs" "NULL \<notin> set xs" using x(1) by (auto simp: list_at_def ring_def fl_ok_def)
  have one: "(\<forall>n \<in> set xs. lid q n \<noteq> timer_id) \<and>
      list_cancel f (q, u) timer_id skip_close = ((q, u), None, 0) \<or>
    (\<exists>n q'. n \<in> set xs \<and> lid q n = timer_id \<and>
       list_cancel f (q, u) timer_id skip_close =
         ((q', let (u1, cookie) = fn_cancel_type f (nd_type (fl_nodes q n)) skip_close 0 u
               in fn_cancel_timer f (nd_type (fl_nodes q n)) skip_close cookie u1),
          Some (nd_act (fl_nodes q n)), 1) \<and>
       list_inv q' L \<and> list_nodes q' = remove1 n xs \<and>
       (\<forall>a. entry (fl_nodes q' a) = entry (fl_nodes q a)))"
  proof (cases "\<exists>n \<in> set xs. lid q n = timer_id")
    case True
    then obtain n where n: "n \<in> set xs" "lid q n = timer_id" by blast
    then obtain ys zs where s: "xs = ys @ n # zs" by (meson split_list)
    then have r: "remove1 n xs = ys @ zs" using d by (simp add: remove1_append)
    have f: "find_node q timer_id = n" using find_node_at(2) [OF x(1) n] .
    have "n \<noteq> NULL" using n(1) d(2) by metis
    have at: "list_at q (ys @ n # zs) L" using x(1) s by simp
    note C = list_cancel_i_correct [OF at]
    have "list_cancel f (q, u) timer_id skip_close =
         ((list_cancel_i q n, let (u1, cookie) = fn_cancel_type f (nd_type (fl_nodes q n)) skip_close 0 u
               in fn_cancel_timer f (nd_type (fl_nodes q n)) skip_close cookie u1),
          Some (nd_act (fl_nodes q n)), 1)"
      using f \<open>n \<noteq> NULL\<close> by (simp add: list_cancel_def Let_def case_prod_unfold)
    then show ?thesis
      using n r list_invI [OF C(1)] C(2)
      by (intro disjI2 exI [of _ n] exI [of _ "list_cancel_i q n"]) simp
  next
    case False
    then have "find_node q timer_id = NULL" using find_node_at(1) [OF x(1)] by blast
    then show ?thesis using False by (simp add: list_cancel_def)
  qed
  obtain q1 k where loop: "(if \<not> list_is_empty q
      then list_cancel_type_loop (fl_brk q) q type (list_get_first q) 0 else (q, 0)) = (q1, k)" by fastforce
  have two: "list_at q1 (filter (\<lambda>a. nd_type (fl_nodes q a) \<noteq> type) xs) L \<and>
      k = length (filter (\<lambda>a. nd_type (fl_nodes q a) = type) xs) \<and>
      (\<forall>a. entry (fl_nodes q1 a) = entry (fl_nodes q a))"
  proof (cases "xs = []")
    case True
    then show ?thesis using loop x(1) list_at_empty [OF x(1)] by simp
  next
    case False
    then have "list_cancel_type_loop (fl_brk q) q type (hd (xs @ [tl_head q])) 0 = (q1, k)"
      using loop list_at_empty [OF x(1)] list_at_first [OF x(1)] by simp
    from cancel_type_loop_at [of q "[]" xs L, OF _ list_at_length [OF x(1)] this] x(1)
    show ?thesis by simp
  qed
  have "card {a \<in> set xs. nd_type (fl_nodes q a) = type} = k"
    using two d(1) distinct_card [of "filter (\<lambda>a. nd_type (fl_nodes q a) = type) xs"] by simp
  moreover have "\<exists>u'. list_cancel_type f (q, u) type skip_close = ((q1, u'), k)"
    using loop by (auto simp: list_cancel_type_def Let_def case_prod_unfold split: if_splits)
  ultimately show ?thesis
    using one two list_invI [of q1 _ L] unfolding x(2,3) by blast
qed

theorem list_cancel_correct_witness:
  "\<exists>q' u'. list_cancel_type \<lparr>fn_registration = \<lambda>t a u. u, fn_cancel_type = \<lambda>t d c u. (u, c),
     fn_cancel_timer = \<lambda>t d c u. Suc u, fn_deletion = \<lambda>t a u. u\<rparr> (list3, 0) 7 0 = ((q', u'), 2) \<and>
     list_nodes q' = [1]"
proof -
  let ?f = "\<lparr>fn_registration = \<lambda>t a u. u, fn_cancel_type = \<lambda>t d c u. (u, c),
     fn_cancel_timer = \<lambda>t d c u. Suc u, fn_deletion = \<lambda>t a u. u\<rparr> :: (nat, nat) upcall_functor"
  obtain q' u' where "list_cancel_type ?f (list3, 0) 7 0 =
       ((q', u'), card {a \<in> list_queued list3. nd_type (fl_nodes list3 a) = 7})"
    "list_nodes q' = filter (\<lambda>a. nd_type (fl_nodes list3 a) \<noteq> 7) (list_nodes list3)"
    using list_cancel_correct [OF list3_inv(2), of 0 ?f 0 0 7] by blast
  moreover have "{a \<in> list_queued list3. nd_type (fl_nodes list3 a) = 7} = {2, 4}"
    using list3_shape by (auto simp: list_queued_def)
  ultimately show ?thesis using list3_shape by auto
qed

text \<open>The free list of nodes: resizing it to \<open>newsize\<close> leaves exactly that many nodes on it, all
  distinct and none of them in use; removing takes a node that is not in use, also when the list
  was at its low water mark and had to allocate.\<close>

theorem free_list_correct:
  assumes "fl_ok q fs A" "fl_mode q \<noteq> ACE_PURE_FREE_LIST"
  shows "(\<exists>gs. fl_ok (fl_resize q newsize) gs A \<and> fl_size (fl_resize q newsize) = newsize) \<and>
    (0 < fl_inc q \<longrightarrow> (\<exists>q' n gs. fl_remove q = (q', n) \<and> n \<noteq> NULL \<and> n \<notin> A \<and>
       fl_ok q' gs (insert n A) \<and> (\<forall>a \<in> A. fl_nodes q' a = fl_nodes q a)))"
proof -
  obtain q' n where r: "fl_remove q = (q', n)" by fastforce
  have "\<exists>gs. fl_ok (fl_resize q newsize) gs A \<and> fl_size (fl_resize q newsize) = newsize"
    using fl_resize_correct [OF assms, of newsize] by (auto simp: fl_ok_def)
  then show ?thesis using fl_remove_correct [OF assms _ r] r by blast
qed

theorem free_list_correct_witness:
  "fl_size (fl_resize (fl_init ACE_FREE_LIST_WITH_POOL 5 0 3 1 (fl_nodes list0)) 2) = 2"
proof -
  let ?q = "fl_init ACE_FREE_LIST_WITH_POOL 5 0 3 1 (fl_nodes list0)"
  obtain fs where "fl_ok ?q fs {}" using fl_init_ok by blast
  moreover have "fl_mode ?q \<noteq> ACE_PURE_FREE_LIST"
    by (simp add: fl_init_def ACE_PURE_FREE_LIST_def ACE_FREE_LIST_WITH_POOL_def)
  ultimately show ?thesis using free_list_correct [of ?q fs "{}" 2] by blast
qed

end
