(* ===== verification/ACE_Timer_Wheel.thy ===== *)
theory ACE_Timer_Wheel
  imports ACE_Timer_List
begin

text \<open>
  \<^verbatim>\<open>ACE_Timer_Wheel_T\<close> (\<^verbatim>\<open>ace/Timer_Wheel_T.cpp\<close>): a timer queue that hashes every timer by its time
  into one of the spokes of a wheel. A spoke is a circular doubly linked list sorted by time with a
  dummy root node; the root's timer id counts the ids handed out for the spoke.

  The nodes are in the store of the free list, as for the timer list, and the loops along the links
  carry the same fuel \<open>fl_brk\<close>. The result \<open>None\<close> is a step through a null pointer, or, for the count of
  bits of a negative number, a loop that does not end. A \<open>long\<close> has 64 bits; a timer id that is shifted
  past them wraps. \<open>timer_count_\<close> is a natural number, since fewer than \<open>2 ^ 32\<close> nodes fit in memory.
\<close>

unbundle bit_operations_syntax

section \<open>State\<close>

record 't timer_wheel = "'t free_list" +
  tw_spokes :: "addr list"
  tw_spoke_count :: nat
  tw_spoke_bits :: nat
  tw_res_bits :: nat
  tw_earliest_spoke :: nat
  tw_wheel_time :: ace_time_value
  tw_timer_count :: nat

definition tv_msec :: "ace_time_value \<Rightarrow> int" where
  "tv_msec tv = (tv_sec tv * 1000 + cdiv (tv_usec tv) 1000) mod 2 ^ 64"

definition to_long :: "int \<Rightarrow> int" where
  "to_long x = signed_take_bit 63 x"

section \<open>Construction\<close>

partial_function (option) count_bits :: "int \<Rightarrow> nat \<Rightarrow> nat option" where
  "count_bits tmp i =
     (let tmp' = drop_bit 1 tmp; i' = i + 1
      in if tmp' \<noteq> 0 then count_bits tmp' i' else Some i')"

declare count_bits.simps [code]

definition power2bits :: "int \<Rightarrow> nat \<Rightarrow> nat \<Rightarrow> nat option" where
  "power2bits n min_bits max_bits =
     (if n > push_bit max_bits 1 - 1 then Some max_bits
      else case count_bits n 0 of None \<Rightarrow> None
      | Some i \<Rightarrow>
          if i \<le> min_bits then Some min_bits
          else let a = push_bit i 1 - n; b = push_bit (i - 1) 1 - n; b = (if b < 0 then - b else b)
               in Some (if b < a then i - 1 else i))"

definition root_set :: "'t \<Rightarrow> addr \<Rightarrow> 't timer_node \<Rightarrow> 't timer_node" where
  "root_set type0 root nd = node_set_dll type0 NULL zero_time zero_time root root 0 nd"

primrec alloc_roots :: "'t \<Rightarrow> nat \<Rightarrow> 't timer_wheel \<Rightarrow> 't timer_wheel option" where
  "alloc_roots type0 0 q = Some q"
| "alloc_roots type0 (Suc k) q =
     (let (q1, root) = fl_remove q
      in if root = NULL then None
         else alloc_roots type0 k
                (q1\<lparr>fl_nodes := (fl_nodes q1)(root := root_set type0 root (fl_nodes q1 root)),
                    tw_spokes := tw_spokes q1 @ [root]\<rparr>))"

definition wheel_open_i :: "'t \<Rightarrow> 't timer_wheel \<Rightarrow> nat \<Rightarrow> int \<Rightarrow> int \<Rightarrow> 't timer_wheel option" where
  "wheel_open_i type0 q prealloc spokes res =
     (case power2bits spokes 3 12 of None \<Rightarrow> None
      | Some spoke_bits \<Rightarrow>
        case power2bits res 1 20 of None \<Rightarrow> None
        | Some res_bits \<Rightarrow>
            let spoke_count = 2 ^ spoke_bits;
                q1 = q\<lparr>tw_spoke_bits := spoke_bits, tw_res_bits := res_bits, tw_spoke_count := spoke_count\<rparr>;
                q2 = fl_resize q1 (prealloc + spoke_count)
            in alloc_roots type0 spoke_count (q2\<lparr>tw_wheel_time := tv_msec_long (push_bit res_bits 1), tw_spokes := []\<rparr>))"

text \<open>The base class has built the free list; \<open>type0\<close> is the value 0 of the node type.\<close>

definition timer_wheel_init :: "'t \<Rightarrow> 't free_list \<Rightarrow> nat \<Rightarrow> int \<Rightarrow> int \<Rightarrow> 't timer_wheel option" where
  "timer_wheel_init type0 fl prealloc spoke_count resolution =
     wheel_open_i type0
       \<lparr>fl_mode = fl_mode fl, fl_free_list = fl_free_list fl, fl_lwm = fl_lwm fl, fl_hwm = fl_hwm fl,
        fl_inc = fl_inc fl, fl_size = fl_size fl, fl_nodes = fl_nodes fl, fl_brk = fl_brk fl,
        tw_spokes = [], tw_spoke_count = 0, tw_spoke_bits = 0, tw_res_bits = 0, tw_earliest_spoke = 0,
        tw_wheel_time = zero_time, tw_timer_count = 0\<rparr>
       prealloc spoke_count resolution"

section \<open>Looking up\<close>

abbreviation root_of :: "'t timer_wheel \<Rightarrow> nat \<Rightarrow> addr" where
  "root_of q i \<equiv> tw_spokes q ! i"

primrec spoke_find :: "'t timer_wheel \<Rightarrow> addr \<Rightarrow> int \<Rightarrow> nat \<Rightarrow> addr \<Rightarrow> addr" where
  "spoke_find q root timer_id 0 n = NULL"
| "spoke_find q root timer_id (Suc fuel) n =
     (if n \<noteq> root then if lid q n = timer_id then n else spoke_find q root timer_id fuel (nxt q n) else NULL)"

definition find_spoke_node :: "'t timer_wheel \<Rightarrow> nat \<Rightarrow> int \<Rightarrow> addr" where
  "find_spoke_node q spoke timer_id =
     (let root = root_of q spoke in spoke_find q root timer_id (fl_brk q) (nxt q root))"

primrec find_rest :: "'t timer_wheel \<Rightarrow> int \<Rightarrow> nat \<Rightarrow> nat list \<Rightarrow> addr" where
  "find_rest q timer_id start [] = NULL"
| "find_rest q timer_id start (i # is) =
     (if i \<noteq> start
      then let n = find_spoke_node q i timer_id
           in if n \<noteq> NULL then n else find_rest q timer_id start is
      else find_rest q timer_id start is)"

definition wheel_find_node :: "'t timer_wheel \<Rightarrow> int \<Rightarrow> addr" where
  "wheel_find_node q timer_id =
     (if timer_id = -1 then NULL
      else let start = nat (timer_id AND (int (tw_spoke_count q) - 1));
               n = find_spoke_node q start timer_id
           in if n \<noteq> NULL then n else find_rest q timer_id start [0..<tw_spoke_count q])"

definition wheel_is_empty :: "'t timer_wheel \<Rightarrow> bool" where
  "wheel_is_empty q \<longleftrightarrow> tw_timer_count q = 0"

definition get_first_i :: "'t timer_wheel \<Rightarrow> addr" where
  "get_first_i q =
     (let root = root_of q (tw_earliest_spoke q); first = nxt q root
      in if first \<noteq> root then first else NULL)"

definition wheel_get_first :: "'t timer_wheel \<Rightarrow> addr" where
  "wheel_get_first q = get_first_i q"

definition wheel_earliest_time :: "'t timer_wheel \<Rightarrow> ace_time_value" where
  "wheel_earliest_time q = (let n = get_first_i q in if n \<noteq> NULL then lvalue q n else zero_time)"

definition calculate_spoke :: "'t timer_wheel \<Rightarrow> ace_time_value \<Rightarrow> nat" where
  "calculate_spoke q t = nat (drop_bit (tw_res_bits q) (tv_msec t) AND (int (tw_spoke_count q) - 1))"

section \<open>Timer ids\<close>

definition make_id :: "'t timer_wheel \<Rightarrow> int \<Rightarrow> nat \<Rightarrow> int" where
  "make_id q cnt spoke = to_long (push_bit (tw_spoke_bits q) cnt OR int spoke)"

text \<open>
  The search for an unused id. When one is found the code goes on along the links from the null
  pointer that \<open>find_spoke_node\<close> has returned.
\<close>

function id_search :: "'t timer_wheel \<Rightarrow> nat \<Rightarrow> int \<Rightarrow> int \<Rightarrow> ('t timer_wheel \<times> int) option" where
  "id_search q spoke max_cnt cnt =
     (if cnt < max_cnt - 1
      then if find_spoke_node q spoke (make_id q cnt spoke) = NULL then None
           else id_search q spoke max_cnt (cnt + 1)
      else Some (q, -1))"
  by pat_completeness auto
termination
  by (relation "measure (\<lambda>(q, spoke, max_cnt, cnt). nat (max_cnt - cnt))") auto

declare id_search.simps [simp del]

definition set_root :: "'t timer_wheel \<Rightarrow> addr \<Rightarrow> int \<Rightarrow> 't timer_wheel" where
  "set_root q root cnt = q\<lparr>fl_nodes := (fl_nodes q)(root := (fl_nodes q root)\<lparr>nd_timer_id := cnt\<rparr>)\<rparr>"

definition generate_timer_id :: "'t timer_wheel \<Rightarrow> nat \<Rightarrow> ('t timer_wheel \<times> int) option" where
  "generate_timer_id q0 spoke =
     (let cnt_bits = 64 - tw_spoke_bits q0;
          max_cnt = push_bit cnt_bits 1 - 1;
          max_cnt = (if spoke = tw_spoke_count q0 then max_cnt - 1 else max_cnt);
          root = root_of q0 spoke;
          q = (if root = nxt q0 root
               then q0\<lparr>fl_nodes := (fl_nodes q0)(root := (fl_nodes q0 root)\<lparr>nd_act := 0\<rparr>)\<rparr> else q0);
          next_cnt = int (nd_act (fl_nodes q root));
          cnt = lid q root
      in if cnt \<ge> max_cnt \<and> root = nxt q root then Some (set_root q root 1, int spoke)
         else if cnt \<ge> max_cnt then id_search q spoke max_cnt 0
         else if next_cnt = 0 \<or> cnt < next_cnt then Some (set_root q root (cnt + 1), make_id q cnt spoke)
         else id_search q spoke max_cnt cnt)"

section \<open>Scheduling\<close>

primrec wheel_search_back :: "'t timer_wheel \<Rightarrow> addr \<Rightarrow> ace_time_value \<Rightarrow> nat \<Rightarrow> addr \<Rightarrow> addr" where
  "wheel_search_back q root expire_at 0 p = p"
| "wheel_search_back q root expire_at (Suc fuel) p =
     (if p \<noteq> root \<and> lvalue q p > expire_at then wheel_search_back q root expire_at fuel (prv q p) else p)"

definition wheel_schedule_node :: "'t timer_wheel \<Rightarrow> addr \<Rightarrow> nat \<Rightarrow> ace_time_value \<Rightarrow> 't timer_wheel" where
  "wheel_schedule_node q0 n spoke expire_at =
     (let q1 = (if wheel_is_empty q0 \<or> expire_at < wheel_earliest_time q0
                then q0\<lparr>tw_earliest_spoke := spoke\<rparr> else q0);
          root = root_of q1 spoke;
          last_node = prv q1 root;
          q = q1\<lparr>tw_timer_count := tw_timer_count q1 + 1\<rparr>
      in if last_node = root
         then set_next (set_prev (set_next (set_prev q n root) n root) root n) root n
         else let p = wheel_search_back q root expire_at (fl_brk q) (prv q root);
                  q2 = set_prev q n p; q3 = set_next q2 n (nxt q2 p);
                  q4 = set_prev q3 (nxt q3 p) n
              in set_next q4 p n)"

definition wheel_alloc_node :: "'t timer_wheel \<Rightarrow> 't timer_wheel \<times> addr" where
  "wheel_alloc_node q = fl_remove q"

definition wheel_free_node :: "'t timer_wheel \<Rightarrow> addr \<Rightarrow> 't timer_wheel" where
  "wheel_free_node q n = fl_add q n"

definition wheel_schedule_i ::
  "'t timer_wheel \<Rightarrow> 't \<Rightarrow> addr \<Rightarrow> ace_time_value \<Rightarrow> ace_time_value \<Rightarrow> ('t timer_wheel \<times> int) option" where
  "wheel_schedule_i q type act future_time interval =
     (let (q1, n) = wheel_alloc_node q
      in if n \<noteq> NULL
         then let spoke = calculate_spoke q1 future_time
              in case generate_timer_id q1 spoke of None \<Rightarrow> None
                 | Some (q2, k) \<Rightarrow>
                     if k \<noteq> -1
                     then let q3 = q2\<lparr>fl_nodes := (fl_nodes q2)
                            (n := node_set_dll type act future_time interval NULL NULL k (fl_nodes q2 n))\<rparr>
                          in Some (wheel_schedule_node q3 n spoke future_time, k)
                     else Some (q2, k)
         else Some (q1, -1))"

definition wheel_reschedule :: "'t timer_wheel \<Rightarrow> addr \<Rightarrow> 't timer_wheel" where
  "wheel_reschedule q n =
     (let expire_at = lvalue q n; spoke = calculate_spoke q expire_at
      in wheel_schedule_node q n spoke expire_at)"

definition wheel_reset_interval :: "'t timer_wheel \<Rightarrow> int \<Rightarrow> ace_time_value \<Rightarrow> 't timer_wheel \<times> int" where
  "wheel_reset_interval q timer_id interval =
     (let n = wheel_find_node q timer_id
      in if n \<noteq> NULL
         then (q\<lparr>fl_nodes := (fl_nodes q)(n := (fl_nodes q n)\<lparr>nd_interval := interval\<rparr>)\<rparr>, 0)
         else (q, -1))"

section \<open>Unlinking and cancelling\<close>

definition wheel_unlink :: "'t timer_wheel \<Rightarrow> addr \<Rightarrow> 't timer_wheel" where
  "wheel_unlink q0 n =
     (let q = q0\<lparr>tw_timer_count := tw_timer_count q0 - 1\<rparr>;
          q1 = set_next q (prv q n) (nxt q n);
          q2 = set_prev q1 (nxt q1 n) (prv q1 n);
          q3 = set_prev q2 n NULL
      in set_next q3 n NULL)"

definition wheel_cancel_i :: "'t timer_wheel \<Rightarrow> addr \<Rightarrow> 't timer_wheel" where
  "wheel_cancel_i q n = wheel_free_node (wheel_unlink q n) n"

primrec recalc_loop ::
  "nat \<Rightarrow> 't timer_wheel \<Rightarrow> ace_time_value \<Rightarrow> nat \<Rightarrow> ace_time_value \<Rightarrow> nat \<Rightarrow> 't timer_wheel" where
  "recalc_loop 0 q last_time spoke et es = q\<lparr>tw_earliest_spoke := es\<rparr>"
| "recalc_loop (Suc k) q last_time spoke et es =
     (let root = root_of q spoke; n = nxt q root;
          spoke' = (if spoke + 1 \<ge> tw_spoke_count q then 0 else spoke + 1)
      in if n \<noteq> root
         then let t = lvalue q n
              in if t < last_time + tw_wheel_time q then q\<lparr>tw_earliest_spoke := spoke\<rparr>
                 else if et = zero_time \<or> t < et then recalc_loop k q last_time spoke' t spoke
                 else recalc_loop k q last_time spoke' et es
         else recalc_loop k q last_time spoke' et es)"

definition recalc_earliest :: "'t timer_wheel \<Rightarrow> ace_time_value \<Rightarrow> 't timer_wheel" where
  "recalc_earliest q last_time =
     (if wheel_is_empty q then q
      else recalc_loop (tw_spoke_count q) q last_time (tw_earliest_spoke q) zero_time 0)"

definition wheel_cancel ::
  "('u, 't) upcall_functor \<Rightarrow> 't timer_wheel \<times> 'u \<Rightarrow> int \<Rightarrow> int \<Rightarrow>
   ('t timer_wheel \<times> 'u) \<times> addr option \<times> int" where
  "wheel_cancel f s timer_id skip_close =
     (let (q, u) = s; n = wheel_find_node q timer_id
      in if n \<noteq> NULL
         then let last_time = lvalue q n; recalc = (get_first_i q = n);
                  type = nd_type (fl_nodes q n); act = nd_act (fl_nodes q n);
                  (u1, cookie) = fn_cancel_type f type skip_close 0 u;
                  u2 = fn_cancel_timer f type skip_close cookie u1;
                  q1 = wheel_cancel_i q n
              in ((if recalc then recalc_earliest q1 last_time else q1, u2), Some act, 1)
         else (s, None, 0))"

primrec cancel_type_spoke ::
  "nat \<Rightarrow> 't timer_wheel \<Rightarrow> 't \<Rightarrow> addr \<Rightarrow> addr \<Rightarrow> addr \<Rightarrow> nat \<Rightarrow> bool \<Rightarrow> 't timer_wheel \<times> nat \<times> bool" where
  "cancel_type_spoke 0 q type root first n num_canceled recalc = (q, num_canceled, recalc)"
| "cancel_type_spoke (Suc fuel) q type root first n num_canceled recalc =
     (if n \<noteq> root
      then if nd_type (fl_nodes q n) = type
           then cancel_type_spoke fuel (wheel_cancel_i q n) type root first (nxt q n) (num_canceled + 1)
                  (recalc \<or> n = first)
           else cancel_type_spoke fuel q type root first (nxt q n) num_canceled recalc
      else (q, num_canceled, recalc))"

primrec cancel_type_wheel ::
  "'t timer_wheel \<Rightarrow> 't \<Rightarrow> addr \<Rightarrow> nat list \<Rightarrow> nat \<Rightarrow> bool \<Rightarrow> 't timer_wheel \<times> nat \<times> bool" where
  "cancel_type_wheel q type first [] num_canceled recalc = (q, num_canceled, recalc)"
| "cancel_type_wheel q type first (i # is) num_canceled recalc =
     (let root = root_of q i;
          (q1, k, r) = cancel_type_spoke (fl_brk q) q type root first (nxt q root) num_canceled recalc
      in cancel_type_wheel q1 type first is k r)"

definition wheel_cancel_type ::
  "('u, 't) upcall_functor \<Rightarrow> 't timer_wheel \<times> 'u \<Rightarrow> 't \<Rightarrow> int \<Rightarrow> ('t timer_wheel \<times> 'u) \<times> nat" where
  "wheel_cancel_type f s type skip_close =
     (let (q, u) = s;
          (q1, num_canceled) =
            (if \<not> wheel_is_empty q
             then let first = wheel_get_first q; last_time = lvalue q first;
                      (q1, k, recalc) = cancel_type_wheel q type first [0..<tw_spoke_count q] 0 False
                  in (if recalc then recalc_earliest q1 last_time else q1, k)
             else (q, 0));
          (u1, cookie) = fn_cancel_type f type skip_close 0 u;
          u2 = ((\<lambda>v. fn_cancel_timer f type skip_close cookie v) ^^ num_canceled) u1
      in ((q1, u2), num_canceled))"

section \<open>Expiring\<close>

definition remove_first_expired :: "'t timer_wheel \<Rightarrow> ace_time_value \<Rightarrow> 't timer_wheel \<times> addr" where
  "remove_first_expired q now =
     (let n = wheel_get_first q
      in if n \<noteq> NULL \<and> lvalue q n \<le> now
         then let q1 = wheel_unlink q n in (recalc_earliest q1 (lvalue q1 n), n)
         else (q, NULL))"

definition wheel_remove_first :: "'t timer_wheel \<Rightarrow> 't timer_wheel \<times> addr" where
  "wheel_remove_first q = remove_first_expired q max_time"

partial_function (option) wheel_expire_loop ::
  "('t timer_wheel \<times> 'u, 't) timeout_functor \<Rightarrow> ace_time_value \<Rightarrow> 't timer_wheel \<times> 'u \<Rightarrow> addr \<Rightarrow> nat \<Rightarrow>
   (('t timer_wheel \<times> 'u) \<times> nat) option" where
  "wheel_expire_loop f cur_time s n expcount =
     (if n = NULL then Some (s, expcount)
      else let q = fst s;
               info = get_dispatch_info (fl_nodes q n);
               q1 = (if nd_interval (fl_nodes q n) > zero_time
                     then wheel_reschedule (q\<lparr>fl_nodes := (fl_nodes q)
                            (n := recompute_next_abs_interval_time (fl_nodes q n) cur_time)\<rparr>) n
                     else wheel_free_node q n);
               (s1, upcall_act) = fn_preinvoke f info cur_time (q1, snd s);
               s2 = fn_timeout f info cur_time s1;
               s3 = fn_postinvoke f info cur_time upcall_act s2;
               (q4, n') = remove_first_expired (fst s3) cur_time
           in wheel_expire_loop f cur_time (q4, snd s3) n' (expcount + 1))"

declare wheel_expire_loop.simps [code]

definition wheel_expire ::
  "('t timer_wheel \<times> 'u, 't) timeout_functor \<Rightarrow> ace_time_value \<Rightarrow> 't timer_wheel \<times> 'u \<Rightarrow>
   (('t timer_wheel \<times> 'u) \<times> nat) option" where
  "wheel_expire f cur_time s =
     (let (q, n) = remove_first_expired (fst s) cur_time
      in wheel_expire_loop f cur_time (q, snd s) n 0)"

section \<open>Closing and iterating\<close>

text \<open>A step along the links of a freed node may meet the end of the free list.\<close>

primrec close_spoke ::
  "nat \<Rightarrow> ('u, 't) upcall_functor \<Rightarrow> 't timer_wheel \<times> 'u \<Rightarrow> addr \<Rightarrow> addr \<Rightarrow> ('t timer_wheel \<times> 'u) option" where
  "close_spoke 0 f s root n = Some s"
| "close_spoke (Suc fuel) f s root n =
     (if n = root then Some s
      else if n = NULL then None
      else let (q, u) = s; nx = nxt q n;
               u1 = fn_deletion f (nd_type (fl_nodes q n)) (nd_act (fl_nodes q n)) u
           in close_spoke fuel f (wheel_free_node q n, u1) root nx)"

primrec close_spokes ::
  "('u, 't) upcall_functor \<Rightarrow> 't timer_wheel \<times> 'u \<Rightarrow> nat list \<Rightarrow> ('t timer_wheel \<times> 'u) option" where
  "close_spokes f s [] = Some s"
| "close_spokes f s (i # is) =
     (let root = root_of (fst s) i
      in case close_spoke (fl_brk (fst s)) f s root (nxt (fst s) root) of None \<Rightarrow> None
         | Some s' \<Rightarrow> close_spokes f s' is)"

definition wheel_close ::
  "('u, 't) upcall_functor \<Rightarrow> 't timer_wheel \<times> 'u \<Rightarrow> ('t timer_wheel \<times> 'u) option" where
  "wheel_close f s = close_spokes f s [0..<tw_spoke_count (fst s)]"

definition wheel_fini ::
  "('u, 't) upcall_functor \<Rightarrow> 't timer_wheel \<times> 'u \<Rightarrow> ('t timer_wheel \<times> 'u) option" where
  "wheel_fini f s =
     (case wheel_close f s of None \<Rightarrow> None
      | Some (q, u) \<Rightarrow> Some (fold (\<lambda>root q. wheel_free_node q root) (tw_spokes q) q, u))"

text \<open>The iterator: the spoke and the current node, null at the end.\<close>

primrec goto_next_in :: "'t timer_wheel \<Rightarrow> nat list \<Rightarrow> nat \<times> addr" where
  "goto_next_in q [] = (tw_spoke_count q, NULL)"
| "goto_next_in q (i # is) =
     (let root = root_of q i; n = nxt q root in if n \<noteq> root then (i, n) else goto_next_in q is)"

definition goto_next :: "'t timer_wheel \<Rightarrow> nat \<Rightarrow> nat \<times> addr" where
  "goto_next q start_spoke = goto_next_in q [start_spoke..<tw_spoke_count q]"

definition wheel_iter_first :: "'t timer_wheel \<Rightarrow> nat \<times> addr" where
  "wheel_iter_first q = goto_next q 0"

definition wheel_iter_isdone :: "nat \<times> addr \<Rightarrow> bool" where
  "wheel_iter_isdone it \<longleftrightarrow> snd it = NULL"

definition wheel_iter_next :: "'t timer_wheel \<Rightarrow> nat \<times> addr \<Rightarrow> nat \<times> addr" where
  "wheel_iter_next q it =
     (if wheel_iter_isdone it then it
      else let n = nxt q (snd it); root = root_of q (fst it)
           in if n = root then goto_next q (fst it + 1) else (fst it, n))"

definition wheel_iter_item :: "nat \<times> addr \<Rightarrow> addr" where
  "wheel_iter_item it = snd it"

end
