(* ===== verification/ACE_Timer_Wheel_Inv.thy ===== *)
theory ACE_Timer_Wheel_Inv
  imports ACE_Timer_Wheel
begin

text \<open>
  The invariant of the timer wheel and that linking, unlinking and finding the earliest spoke keep it.
\<close>

section \<open>From a time to its spoke\<close>

text \<open>The times a wheel holds: normal, not before the epoch, and in range of \<open>msec\<close>.\<close>

definition wheel_time_ok :: "ace_time_value \<Rightarrow> bool" where
  "wheel_time_ok t \<longleftrightarrow> tv_normal t \<and> 0 \<le> tv_total t \<and> tv_total t div 1000 < 2 ^ 63"

definition slot :: "'t timer_wheel \<Rightarrow> ace_time_value \<Rightarrow> int" where
  "slot q t = tv_total t div 1000 div 2 ^ tw_res_bits q"

lemma tv_msec_total:
  assumes "wheel_time_ok t"
  shows "tv_msec t = tv_total t div 1000"
proof -
  have n: "0 \<le> tv_sec t" "0 \<le> tv_usec t" "tv_usec t < 1000000"
    using assms unfolding wheel_time_ok_def tv_normal_def tv_total_def by (cases "tv_sec t \<ge> 0"; linarith)+
  have "tv_total t = (tv_sec t * 1000) * 1000 + tv_usec t" by (simp add: tv_total_def)
  then have d: "tv_total t div 1000 = tv_sec t * 1000 + tv_usec t div 1000"
    by (metis add.commute div_mult_self1 zero_neq_numeral)
  have "0 \<le> tv_total t div 1000" "tv_total t div 1000 < 2 ^ 64"
    using assms by (auto simp: wheel_time_ok_def)
  then show ?thesis using n d by (simp add: tv_msec_def cdiv_nonneg)
qed

lemma slot_mono: "wheel_time_ok t \<Longrightarrow> wheel_time_ok t' \<Longrightarrow> t \<le> t' \<Longrightarrow> slot q t \<le> slot q t'"
  unfolding slot_def by (intro zdiv_mono1) (auto simp: wheel_time_ok_def tv_le_total)

text \<open>The shape of a wheel that \<open>open_i\<close> builds.\<close>

definition wheel_shape :: "'t timer_wheel \<Rightarrow> bool" where
  "wheel_shape q \<longleftrightarrow>
     3 \<le> tw_spoke_bits q \<and> tw_spoke_bits q \<le> 12 \<and> 1 \<le> tw_res_bits q \<and> tw_res_bits q \<le> 20 \<and>
     tw_spoke_count q = 2 ^ tw_spoke_bits q \<and> length (tw_spokes q) = tw_spoke_count q \<and>
     distinct (tw_spokes q) \<and> tv_normal (tw_wheel_time q) \<and>
     tv_total (tw_wheel_time q) = 2 ^ tw_res_bits q * 1000 \<and> tw_earliest_spoke q < tw_spoke_count q \<and>
     fl_mode q \<noteq> ACE_PURE_FREE_LIST \<and> 0 < fl_inc q"

lemma calculate_spoke_slot:
  assumes "wheel_shape q" "wheel_time_ok t"
  shows "int (calculate_spoke q t) = slot q t mod int (tw_spoke_count q)"
proof -
  have "int (tw_spoke_count q) - 1 = mask (tw_spoke_bits q)"
    using assms(1) by (simp add: wheel_shape_def mask_eq_exp_minus_1)
  then have "drop_bit (tw_res_bits q) (tv_msec t) AND (int (tw_spoke_count q) - 1) =
      slot q t mod int (tw_spoke_count q)"
    using assms by (simp add: take_bit_eq_mask [symmetric] take_bit_eq_mod drop_bit_eq_div
        tv_msec_total slot_def wheel_shape_def)
  moreover have "0 \<le> slot q t mod int (tw_spoke_count q)" using assms(1) by (simp add: wheel_shape_def)
  ultimately show ?thesis by (simp add: calculate_spoke_def)
qed

lemma calculate_spoke_less: "wheel_shape q \<Longrightarrow> wheel_time_ok t \<Longrightarrow> calculate_spoke q t < tw_spoke_count q"
proof -
  assume a: "wheel_shape q" "wheel_time_ok t"
  then have "0 < int (tw_spoke_count q)" by (simp add: wheel_shape_def)
  then have "slot q t mod int (tw_spoke_count q) < int (tw_spoke_count q)" by simp
  then show ?thesis using calculate_spoke_slot [OF a] by linarith
qed

text \<open>A time less than one resolution after another is in the same slot or the next.\<close>

lemma slot_window:
  assumes "wheel_shape q" "wheel_time_ok t" "wheel_time_ok l" "l \<le> t" "t < l + tw_wheel_time q"
  shows "slot q t = slot q l \<or> slot q t = slot q l + 1"
proof -
  have n: "tv_normal l" "tv_normal (tw_wheel_time q)" "tv_normal t"
    using assms by (auto simp: wheel_shape_def wheel_time_ok_def)
  have "tv_total t < tv_total l + 2 ^ tw_res_bits q * 1000"
    using assms(1,5) n tv_less_total [of t "l + tw_wheel_time q"] by (simp add: tv_plus wheel_shape_def)
  then have "tv_total t div 1000 \<le> (tv_total l + 2 ^ tw_res_bits q * 1000) div 1000"
    by (intro zdiv_mono1) auto
  also have "\<dots> = tv_total l div 1000 + 2 ^ tw_res_bits q" by simp
  finally have "slot q t \<le> (tv_total l div 1000 + 2 ^ tw_res_bits q) div 2 ^ tw_res_bits q"
    unfolding slot_def by (intro zdiv_mono1) auto
  also have "\<dots> = slot q l + 1" unfolding slot_def by (rule div_add_self2) simp
  finally show ?thesis using slot_mono [OF assms(3,2,4), of q] by linarith
qed

section \<open>The invariant\<close>

text \<open>\<open>X i\<close> are the nodes on spoke \<open>i\<close>; \<open>L\<close> are the nodes taken out and not yet given back.\<close>

definition on_wheel :: "'t timer_wheel \<Rightarrow> (nat \<Rightarrow> addr list) \<Rightarrow> addr set" where
  "on_wheel q X = (\<Union>i<tw_spoke_count q. set (X i))"

definition spoke_ok :: "'t timer_wheel \<Rightarrow> nat \<Rightarrow> addr list \<Rightarrow> bool" where
  "spoke_ok q i xs \<longleftrightarrow>
     ring (nxt q) (prv q) (root_of q i) xs \<and> sorted (map (lvalue q) xs) \<and>
     (\<forall>a \<in> set xs. wheel_time_ok (lvalue q a) \<and> calculate_spoke q (lvalue q a) = i)"

text \<open>
  The ids in use come from the counters of the roots, which have not run over; no id of a spoke
  is in use above its counter.
\<close>

definition max_cnt :: "'t timer_wheel \<Rightarrow> int" where
  "max_cnt q = 2 ^ (64 - tw_spoke_bits q) - 1"

definition ids_ok :: "'t timer_wheel \<Rightarrow> addr set \<Rightarrow> bool" where
  "ids_ok q A \<longleftrightarrow>
     inj_on (lid q) A \<and>
     (\<forall>a \<in> A. \<exists>c s. s < tw_spoke_count q \<and> 0 \<le> c \<and> c < lid q (root_of q s) \<and> lid q a = make_id q c s) \<and>
     (\<forall>s < tw_spoke_count q. 0 \<le> lid q (root_of q s) \<and> lid q (root_of q s) \<le> max_cnt q \<and>
        nd_act (fl_nodes q (root_of q s)) = 0)"

definition wheel_pre :: "'t timer_wheel \<Rightarrow> (nat \<Rightarrow> addr list) \<Rightarrow> addr set \<Rightarrow> bool" where
  "wheel_pre q X L \<longleftrightarrow>
     wheel_shape q \<and> (\<forall>i < tw_spoke_count q. spoke_ok q i (X i)) \<and>
     tw_timer_count q = (\<Sum>i<tw_spoke_count q. length (X i)) \<and>
     on_wheel q X \<inter> L = {} \<and> set (tw_spokes q) \<inter> (on_wheel q X \<union> L) = {} \<and>
     ids_ok q (on_wheel q X \<union> L) \<and>
     (\<exists>fs. fl_ok q fs (set (tw_spokes q) \<union> (on_wheel q X \<union> L)))"

definition earliest_ok :: "'t timer_wheel \<Rightarrow> (nat \<Rightarrow> addr list) \<Rightarrow> bool" where
  "earliest_ok q X \<longleftrightarrow> on_wheel q X = {} \<or>
     X (tw_earliest_spoke q) \<noteq> [] \<and>
     (\<forall>a \<in> on_wheel q X. lvalue q (hd (X (tw_earliest_spoke q))) \<le> lvalue q a)"

definition wheel_at :: "'t timer_wheel \<Rightarrow> (nat \<Rightarrow> addr list) \<Rightarrow> addr set \<Rightarrow> bool" where
  "wheel_at q X L \<longleftrightarrow> wheel_pre q X L \<and> earliest_ok q X"

text \<open>The settings that no operation changes.\<close>

definition wheel_same :: "'t timer_wheel \<Rightarrow> 't timer_wheel \<Rightarrow> bool" where
  "wheel_same r q \<longleftrightarrow>
     tw_spokes r = tw_spokes q \<and> tw_spoke_count r = tw_spoke_count q \<and> tw_spoke_bits r = tw_spoke_bits q \<and>
     tw_res_bits r = tw_res_bits q \<and> tw_wheel_time r = tw_wheel_time q \<and> fl_mode r = fl_mode q \<and>
     fl_inc r = fl_inc q"

lemma wheel_same_cong:
  assumes "wheel_same r q"
  shows "calculate_spoke r t = calculate_spoke q t" "on_wheel r X = on_wheel q X" "max_cnt r = max_cnt q"
    and "make_id r c s = make_id q c s" "tw_spokes r = tw_spokes q" "tw_spoke_count r = tw_spoke_count q"
    and "tw_earliest_spoke r < tw_spoke_count q \<Longrightarrow> wheel_shape q \<Longrightarrow> wheel_shape r"
  using assms by (auto simp: wheel_same_def calculate_spoke_def on_wheel_def max_cnt_def make_id_def wheel_shape_def)

text \<open>Different spokes have different nodes, since a node's time determines its spoke.\<close>

lemma spokes_disjoint:
  assumes "wheel_pre q X L" "i < tw_spoke_count q" "j < tw_spoke_count q" "i \<noteq> j"
  shows "set (X i) \<inter> set (X j) = {}"
proof -
  have "\<forall>a \<in> set (X i). calculate_spoke q (lvalue q a) = i" "\<forall>a \<in> set (X j). calculate_spoke q (lvalue q a) = j"
    using assms(1-3) by (simp_all add: wheel_pre_def spoke_ok_def)
  then show ?thesis using assms(4) by auto
qed

lemma roots_apart:
  assumes "wheel_pre q X L" "i < tw_spoke_count q"
  shows "root_of q i \<notin> on_wheel q X \<union> L" "root_of q i \<in> set (tw_spokes q)"
    and "j < tw_spoke_count q \<Longrightarrow> root_of q i = root_of q j \<longleftrightarrow> i = j"
proof -
  have l: "i < length (tw_spokes q)" "length (tw_spokes q) = tw_spoke_count q" "distinct (tw_spokes q)"
    using assms by (auto simp: wheel_pre_def wheel_shape_def)
  then show r: "root_of q i \<in> set (tw_spokes q)" by simp
  then show "root_of q i \<notin> on_wheel q X \<union> L" using assms(1) by (auto simp: wheel_pre_def)
  show "j < tw_spoke_count q \<Longrightarrow> root_of q i = root_of q j \<longleftrightarrow> i = j" using l by (simp add: nth_eq_iff_index_eq)
qed

lemma in_wheel: "i < tw_spoke_count q \<Longrightarrow> a \<in> set (X i) \<Longrightarrow> a \<in> on_wheel q X"
  by (auto simp: on_wheel_def)

lemma rims_apart:
  assumes "wheel_pre q X L" "i < tw_spoke_count q" "j < tw_spoke_count q" "j \<noteq> i"
  shows "set (root_of q j # X j) \<inter> set (root_of q i # X i) = {}"
proof -
  have "root_of q j \<noteq> root_of q i" using roots_apart(3) [OF assms(1,3,2)] assms(4) by simp
  moreover have "root_of q i \<notin> set (X j)" "root_of q j \<notin> set (X i)"
    using roots_apart(1) [OF assms(1)] assms(2,3) in_wheel [of _ q] by blast+
  ultimately show ?thesis using spokes_disjoint [OF assms(1,2,3)] assms(4) by auto
qed

lemma ids_ok_cong:
  assumes "ids_ok q A" "wheel_same r q" "\<And>a. a \<in> A \<Longrightarrow> lid r a = lid q a"
    and "\<And>s. s < tw_spoke_count q \<Longrightarrow> lid r (root_of q s) = lid q (root_of q s)"
    and "\<And>s. s < tw_spoke_count q \<Longrightarrow> nd_act (fl_nodes r (root_of q s)) = nd_act (fl_nodes q (root_of q s))"
  shows "ids_ok r A"
proof -
  note S = wheel_same_cong [OF assms(2)]
  have "inj_on (lid r) A \<longleftrightarrow> inj_on (lid q) A" using assms(3) by (rule inj_on_cong)
  moreover have "\<exists>c s. s < tw_spoke_count q \<and> 0 \<le> c \<and> c < lid r (root_of q s) \<and> lid r a = make_id q c s"
    if "a \<in> A" for a
    using assms(1,3,4) that unfolding ids_ok_def by metis
  ultimately show ?thesis using assms(1,4,5) by (simp add: ids_ok_def S)
qed

text \<open>Relinking nodes in use: the entries stay, nodes move between the spokes and \<open>L\<close>.\<close>

lemma wheel_pre_relink:
  assumes "wheel_pre q X L" "wheel_same r q" "on_wheel q Y \<union> M = on_wheel q X \<union> L" "on_wheel q Y \<inter> M = {}"
    and "\<And>i. i < tw_spoke_count q \<Longrightarrow> spoke_ok r i (Y i)"
    and "tw_timer_count r = (\<Sum>i<tw_spoke_count q. length (Y i))" "tw_earliest_spoke r < tw_spoke_count q"
    and "\<And>a. entry (fl_nodes r a) = entry (fl_nodes q a)"
    and "\<And>a. a \<notin> set (tw_spokes q) \<union> (on_wheel q X \<union> L) \<Longrightarrow> nxt r a = nxt q a"
    and "fl_free_list r = fl_free_list q" "fl_size r = fl_size q" "fl_brk r = fl_brk q"
  shows "wheel_pre r Y M"
proof -
  note S = wheel_same_cong [OF assms(2)] and E = entry_cong [OF assms(8)]
  let ?A = "set (tw_spokes q) \<union> (on_wheel q X \<union> L)"
  obtain fs where fs: "fl_ok q fs ?A" using assms(1) by (auto simp: wheel_pre_def)
  have "chain (nxt r) (fl_free_list q) fs \<longleftrightarrow> chain (nxt q) (fl_free_list q) fs"
  proof (rule chain_cong)
    fix x assume "x \<in> set fs"
    then have "x \<notin> ?A" using fs by (auto simp: fl_ok_def)
    then show "nxt r x = nxt q x" by (rule assms(9))
  qed
  then have "fl_ok r fs (set (tw_spokes q) \<union> (on_wheel q Y \<union> M))"
    unfolding assms(3) using fs assms(10-12) by (simp add: fl_ok_def)
  moreover have "ids_ok r (on_wheel q Y \<union> M)"
    unfolding assms(3) using assms(1) by (intro ids_ok_cong [OF _ assms(2)]) (auto simp: wheel_pre_def E)
  moreover have "wheel_shape r" using assms(1,7) S(7) by (simp add: wheel_pre_def)
  moreover have "set (tw_spokes q) \<inter> (on_wheel q Y \<union> M) = {}" using assms(1,3) by (simp add: wheel_pre_def)
  ultimately show ?thesis
    using assms(4-6) unfolding wheel_pre_def S(2) S(5) S(6) by blast
qed

lemma spoke_ok_frame:
  assumes "spoke_ok q i xs" "wheel_same r q"
    and "\<And>a. a \<in> set (root_of q i # xs) \<Longrightarrow> nxt r a = nxt q a \<and> prv r a = prv q a"
    and "\<And>a. a \<in> set xs \<Longrightarrow> lvalue r a = lvalue q a"
  shows "spoke_ok r i xs"
proof -
  note S = wheel_same_cong [OF assms(2)]
  have "ring (nxt r) (prv r) (root_of q i) xs \<longleftrightarrow> ring (nxt q) (prv q) (root_of q i) xs"
    using assms(3) by (intro ring_cong) auto
  moreover have "map (lvalue r) xs = map (lvalue q) xs" using assms(4) by (intro map_cong) auto
  then have "sorted (map (lvalue r) xs) \<longleftrightarrow> sorted (map (lvalue q) xs)" by (simp only:)
  moreover have "\<forall>a \<in> set xs. wheel_time_ok (lvalue r a) \<and> calculate_spoke q (lvalue r a) = i"
    using assms(1,4) by (simp add: spoke_ok_def)
  ultimately show ?thesis using assms(1) unfolding spoke_ok_def S(1) S(5) by blast
qed

lemma on_wheel_upd:
  assumes "i < tw_spoke_count q"
  shows "on_wheel q (X(i := xs)) = (\<Union>j \<in> {..<tw_spoke_count q} - {i}. set (X j)) \<union> set xs"
    and "on_wheel q X = (\<Union>j \<in> {..<tw_spoke_count q} - {i}. set (X j)) \<union> set (X i)"
  using assms by (auto simp: on_wheel_def split: if_splits)

lemma count_upd:
  assumes "i < tw_spoke_count q"
  shows "(\<Sum>j<tw_spoke_count q. length ((X(i := xs)) j)) + length (X i) =
    (\<Sum>j<tw_spoke_count q. length (X j)) + length xs"
proof -
  have i: "i \<in> {..<tw_spoke_count q}" using assms by simp
  have "(\<Sum>j \<in> {..<tw_spoke_count q} - {i}. length ((X(i := xs)) j)) = (\<Sum>j \<in> {..<tw_spoke_count q} - {i}. length (X j))"
    by (intro sum.cong) auto
  then show ?thesis using sum.remove [OF _ i, of "\<lambda>j. length ((X(i := xs)) j)"] sum.remove [OF _ i, of "\<lambda>j. length (X j)"]
    by simp
qed

text \<open>Relinking one spoke and the nodes taken out.\<close>

lemma wheel_pre_respoke:
  assumes "wheel_pre q X L" "i < tw_spoke_count q" "wheel_same r q"
    and "set ys \<union> M = set (X i) \<union> L" "set ys \<inter> M = {}" "spoke_ok r i ys"
    and "tw_timer_count r + length (X i) = tw_timer_count q + length ys" "tw_earliest_spoke r < tw_spoke_count q"
    and "\<And>a. entry (fl_nodes r a) = entry (fl_nodes q a)"
    and "\<And>a. a \<notin> insert (root_of q i) (set (X i) \<union> L) \<Longrightarrow> nxt r a = nxt q a \<and> prv r a = prv q a"
    and "fl_free_list r = fl_free_list q" "fl_size r = fl_size q" "fl_brk r = fl_brk q"
  shows "wheel_pre r (X(i := ys)) M"
proof (rule wheel_pre_relink [OF assms(1,3)])
  let ?R = "\<Union>j \<in> {..<tw_spoke_count q} - {i}. set (X j)"
  have W: "on_wheel q X = ?R \<union> set (X i)" by (rule on_wheel_upd(2) [OF assms(2)])
  have "?R \<inter> L = {}" using assms(1) unfolding wheel_pre_def W by auto
  moreover have "?R \<inter> set (X i) = {}" using spokes_disjoint [OF assms(1,2)] by auto
  ultimately have "?R \<inter> M = {}" using assms(4) by blast
  then show "on_wheel q (X(i := ys)) \<union> M = on_wheel q X \<union> L" "on_wheel q (X(i := ys)) \<inter> M = {}"
    unfolding on_wheel_upd(1) [OF assms(2)] W using assms(4,5) by blast+
  show "tw_timer_count r = (\<Sum>j<tw_spoke_count q. length ((X(i := ys)) j))"
    using count_upd [OF assms(2), of X ys] assms(1,7) by (simp add: wheel_pre_def)
  show "nxt r a = nxt q a" if "a \<notin> set (tw_spokes q) \<union> (on_wheel q X \<union> L)" for a
    using that assms(10) [of a] roots_apart(2) [OF assms(1,2)] unfolding W by auto
  show "spoke_ok r j ((X(i := ys)) j)" if j: "j < tw_spoke_count q" for j
  proof (cases "j = i")
    case False
    have "a \<notin> insert (root_of q i) (set (X i) \<union> L)" if "a \<in> set (root_of q j # X j)" for a
    proof -
      have "a \<notin> L" using that roots_apart(1) [OF assms(1) j] in_wheel [OF j, of a X] assms(1)
        by (auto simp: wheel_pre_def)
      then show ?thesis using that rims_apart [OF assms(1,2) j False] by auto
    qed
    then show ?thesis
      using False j assms(1,10) entry_cong(3) [OF assms(9)]
      by (intro spoke_ok_frame [OF _ assms(3)]) (auto simp: wheel_pre_def)
  qed (use assms(6) in simp)
qed (use assms in auto)

lemma spoke_at: "wheel_pre q X L \<Longrightarrow> i < tw_spoke_count q \<Longrightarrow> spoke_ok q i (X i)"
  by (simp add: wheel_pre_def)

lemma spoke_ok_perm:
  assumes "spoke_ok q i xs" "set ys \<subseteq> insert n (set xs)" "n \<notin> set xs \<longrightarrow> wheel_time_ok (lvalue q n) \<and> calculate_spoke q (lvalue q n) = i"
    and "wheel_same r q" "\<And>a. entry (fl_nodes r a) = entry (fl_nodes q a)"
    and "ring (nxt r) (prv r) (root_of q i) ys" "sorted (map (lvalue q) ys)"
  shows "spoke_ok r i ys"
proof -
  have "map (lvalue r) ys = map (lvalue q) ys" using entry_cong(3) [OF assms(5)] by simp
  then have "sorted (map (lvalue r) ys)" using assms(7) by (simp only:)
  moreover have "wheel_time_ok (lvalue q a) \<and> calculate_spoke q (lvalue q a) = i" if "a \<in> set ys" for a
    using that assms(1-3) by (cases "a \<in> set xs") (auto simp: spoke_ok_def)
  ultimately show ?thesis
    using assms(6) entry_cong(3) [OF assms(5)] wheel_same_cong(1,5) [OF assms(4)] by (simp add: spoke_ok_def)
qed

section \<open>Unlinking\<close>

lemma wheel_unlink_correct:
  assumes "wheel_pre q X L" "i < tw_spoke_count q" "X i = ys @ n # zs"
  defines "r \<equiv> wheel_unlink q n"
  shows "wheel_pre r (X(i := ys @ zs)) (insert n L)" "entry (fl_nodes r a) = entry (fl_nodes q a)"
    and "wheel_same r q" "tw_earliest_spoke r = tw_earliest_spoke q" "fl_brk r = fl_brk q"
proof -
  let ?h = "root_of q i"
  have sp: "spoke_ok q i (ys @ n # zs)" using spoke_at [OF assms(1,2)] by (simp only: assms(3))
  then have R: "ring (nxt q) (prv q) ?h (ys @ n # zs)" by (simp add: spoke_ok_def)
  define p s where "p = last (?h # ys)" and "s = hd (zs @ [?h])"
  have d: "distinct (?h # ys @ n # zs)" using R by (simp add: ring_def)
  have ps: "prv q n = p" "nxt q n = s" using ring_neighbours [OF R] by (simp_all add: p_def s_def)
  have pin: "p \<in> insert ?h (set ys)" "s \<in> insert ?h (set zs)"
    using last_in_set_Cons [of ?h ys] hd_in_set_snoc [of zs ?h] by (simp_all add: p_def s_def)
  then have ne: "p \<noteq> n" "s \<noteq> n" using d by auto
  let ?q = "q\<lparr>tw_timer_count := tw_timer_count q - 1\<rparr>"
  have r: "r = set_next (set_prev (set_prev (set_next ?q p s) s p) n NULL) n NULL"
    using ps ne by (simp add: r_def wheel_unlink_def Let_def)
  have links: "nxt r = (nxt q)(p := s, n := NULL)" "prv r = (prv q)(s := p, n := NULL)"
    unfolding r set_link_simps by simp_all
  show E: "entry (fl_nodes r a) = entry (fl_nodes q a)" for a by (simp add: r)
  show same: "wheel_same r q" and e: "tw_earliest_spoke r = tw_earliest_spoke q" and b: "fl_brk r = fl_brk q"
    by (simp_all add: r wheel_same_def set_next_def set_prev_def)
  have F: "fl_free_list r = fl_free_list q" "fl_size r = fl_size q" "tw_timer_count r = tw_timer_count q - 1"
    by (simp_all add: r set_next_def set_prev_def)
  have "0 < length (X i)" "length (X i) \<le> tw_timer_count q"
    using assms(1,2,3) member_le_sum [of i "{..<tw_spoke_count q}" "\<lambda>j. length (X j)"] by (auto simp: wheel_pre_def)
  then have cnt: "tw_timer_count r + length (X i) = tw_timer_count q + length (ys @ zs)"
    unfolding F(3) assms(3) by simp
  have L: "set (X i) \<inter> L = {}" using assms(1,2) in_wheel [OF assms(2), of _ X] by (auto simp: wheel_pre_def)
  have "ring ((nxt q)(p := s)) ((prv q)(s := p)) ?h (ys @ zs)"
    by (rule ring_remove [OF R p_def s_def])
  moreover have "ring (nxt r) (prv r) ?h (ys @ zs) \<longleftrightarrow> ring ((nxt q)(p := s)) ((prv q)(s := p)) ?h (ys @ zs)"
    unfolding links using d by (intro ring_cong) auto
  ultimately have ring: "ring (nxt r) (prv r) ?h (ys @ zs)" by simp
  have "sorted (map (lvalue q) (ys @ zs))" using sp by (auto simp: spoke_ok_def sorted_append)
  then have spr: "spoke_ok r i (ys @ zs)" by (intro spoke_ok_perm [OF sp _ _ same E ring]) auto
  show "wheel_pre r (X(i := ys @ zs)) (insert n L)"
  proof (rule wheel_pre_respoke [OF assms(1,2) same _ _ spr cnt])
    show "set (ys @ zs) \<union> insert n L = set (X i) \<union> L" "set (ys @ zs) \<inter> insert n L = {}"
      using assms(3) d L by auto
    show "tw_earliest_spoke r < tw_spoke_count q" using assms(1) e by (simp add: wheel_pre_def wheel_shape_def)
    show "nxt r a = nxt q a \<and> prv r a = prv q a" if "a \<notin> insert ?h (set (X i) \<union> L)" for a
      using that pin assms(3) by (auto simp: fun_cong [OF links(1)] fun_cong [OF links(2)])
  qed (use E F b in auto)
qed

section \<open>The first node and linking in\<close>

lemma wheel_nodes_in_store:
  assumes "wheel_pre q X L"
  shows "on_wheel q X \<union> L \<subseteq> {0<..<fl_brk q}" "finite (on_wheel q X \<union> L)"
  using assms fl_ok_finite by (auto simp: wheel_pre_def fl_ok_def)

lemma spoke_length:
  assumes "wheel_pre q X L" "i < tw_spoke_count q"
  shows "length (X i) < fl_brk q"
proof -
  have "set (X i) \<subseteq> {0<..<fl_brk q}" using wheel_nodes_in_store(1) [OF assms(1)] in_wheel [OF assms(2)] by blast
  moreover have "distinct (X i)" using spoke_at [OF assms] by (simp add: spoke_ok_def ring_def)
  moreover have "root_of q i \<in> {0<..<fl_brk q}" using assms roots_apart(2) [OF assms] by (auto simp: wheel_pre_def fl_ok_def)
  ultimately show ?thesis using card_mono [of "{0<..<fl_brk q}" "set (X i)"] distinct_card [of "X i"] by auto
qed

lemma wheel_empty_iff:
  assumes "wheel_pre q X L"
  shows "wheel_is_empty q \<longleftrightarrow> on_wheel q X = {}"
  using assms by (auto simp: wheel_is_empty_def wheel_pre_def on_wheel_def)

lemma get_first_at:
  assumes "wheel_pre q X L"
  defines "e \<equiv> tw_earliest_spoke q"
  shows "get_first_i q = (if X e = [] then NULL else hd (X e))" "X e \<noteq> [] \<Longrightarrow> hd (X e) \<noteq> NULL"
    and "X e \<noteq> [] \<Longrightarrow> wheel_earliest_time q = lvalue q (hd (X e))"
proof -
  have e: "e < tw_spoke_count q" using assms by (simp add: wheel_pre_def wheel_shape_def)
  have R: "ring (nxt q) (prv q) (root_of q e) (X e)" using spoke_at [OF assms(1) e] by (simp add: spoke_ok_def)
  show nz: "X e \<noteq> [] \<Longrightarrow> hd (X e) \<noteq> NULL"
    using wheel_nodes_in_store(1) [OF assms(1)] in_wheel [OF e, of "hd (X e)" X] hd_in_set [of "X e"] by auto
  show f: "get_first_i q = (if X e = [] then NULL else hd (X e))"
    using ring_first [OF R] R by (cases "X e") (auto simp: get_first_i_def Let_def e_def [symmetric] ring_def)
  show "X e \<noteq> [] \<Longrightarrow> wheel_earliest_time q = lvalue q (hd (X e))"
    using nz by (simp add: wheel_earliest_time_def f Let_def)
qed

lemma wheel_search_back_seg:
  "seg (nxt q) (prv q) h (ys @ zs) e \<Longrightarrow> h \<notin> set (ys @ zs) \<Longrightarrow>
   length zs < fuel \<Longrightarrow> \<forall>a \<in> set zs. lvalue q a > t \<Longrightarrow> ys = [] \<or> \<not> lvalue q (last ys) > t \<Longrightarrow>
   wheel_search_back q h t fuel (prv q e) = last (h # ys)"
proof (induction zs arbitrary: fuel e rule: rev_induct)
  case Nil
  obtain f where "fuel = Suc f" using Nil by (cases fuel) auto
  then show ?case using Nil seg_last [OF Nil(1)] by (cases ys rule: rev_cases) auto
next
  case (snoc z zs)
  obtain f where f: "fuel = Suc f" using snoc.prems by (cases fuel) auto
  have "seg (nxt q) (prv q) h ((ys @ zs) @ z # []) e" using snoc.prems(1) by simp
  then have s: "seg (nxt q) (prv q) h (ys @ zs) z" "prv q e = z"
    by (simp_all only: seg_append seg.simps)
  have "wheel_search_back q h t f (prv q z) = last (h # ys)"
    using snoc.IH [OF s(1)] snoc.prems f by auto
  moreover have "z \<noteq> h" "lvalue q z > t" using snoc.prems by auto
  ultimately show ?case using s(2) f by simp
qed

text \<open>A spoke with a node linked in by its time, behind those that are not later.\<close>

definition insort_spoke :: "'t timer_wheel \<Rightarrow> addr \<Rightarrow> addr list \<Rightarrow> addr list" where
  "insort_spoke q n xs =
     filter (\<lambda>a. lvalue q a \<le> lvalue q n) xs @ n # filter (\<lambda>a. \<not> lvalue q a \<le> lvalue q n) xs"

lemma set_insort_spoke [simp]: "set (insort_spoke q n xs) = insert n (set xs)"
  by (auto simp: insort_spoke_def)

lemma wheel_search_back_cong:
  "fl_nodes r = fl_nodes q \<Longrightarrow> wheel_search_back r h t fuel p = wheel_search_back q h t fuel p"
  by (induction fuel arbitrary: p) auto

lemma set_link_wheel [simp]:
  "set_next (q\<lparr>tw_earliest_spoke := e, tw_timer_count := c\<rparr>) a b = (set_next q a b)\<lparr>tw_earliest_spoke := e, tw_timer_count := c\<rparr>"
  "set_prev (q\<lparr>tw_earliest_spoke := e, tw_timer_count := c\<rparr>) a b = (set_prev q a b)\<lparr>tw_earliest_spoke := e, tw_timer_count := c\<rparr>"
  by (simp_all add: set_next_def set_prev_def)

lemma wheel_schedule_node_links:
  assumes "ring (nxt q) (prv q) (root_of q i) (ys @ zs)" "n \<notin> set (root_of q i # ys @ zs)"
    and "\<forall>a \<in> set ys. lvalue q a \<le> t" "\<forall>a \<in> set zs. \<not> lvalue q a \<le> t" "length zs < fl_brk q"
  defines "p \<equiv> last (root_of q i # ys)" and "s \<equiv> hd (zs @ [root_of q i])"
    and "e \<equiv> (if wheel_is_empty q \<or> t < wheel_earliest_time q then i else tw_earliest_spoke q)"
  shows "wheel_schedule_node q n i t =
    (set_next (set_prev (set_next (set_prev q n p) n s) s n) p n)\<lparr>tw_earliest_spoke := e, tw_timer_count := tw_timer_count q + 1\<rparr>"
proof -
  let ?h = "root_of q i"
  have np: "nxt q p = s" unfolding p_def s_def by (rule ring_next_after [OF assms(1)])
  have pin: "p \<in> insert ?h (set ys)" using last_in_set_Cons [of ?h ys] by (simp add: p_def)
  then have ne: "p \<noteq> n" using assms(2) by auto
  have h: "prv q ?h = last (?h # ys @ zs)" by (rule ring_last [OF assms(1)])
  have q1: "(if wheel_is_empty q \<or> t < wheel_earliest_time q then q\<lparr>tw_earliest_spoke := i\<rparr> else q) =
      q\<lparr>tw_earliest_spoke := e\<rparr>" by (simp add: e_def)
  show ?thesis
  proof (cases "ys @ zs = []")
    case True
    then have "p = ?h" "s = ?h" "prv q ?h = ?h" using h by (simp_all add: p_def s_def)
    then show ?thesis by (simp add: wheel_schedule_node_def q1 Let_def)
  next
    case False
    have "seg (nxt q) (prv q) ?h (ys @ zs) ?h" "?h \<notin> set (ys @ zs)" using assms(1) by (auto simp: ring_def)
    moreover have "ys = [] \<or> \<not> t < lvalue q (last ys)" using assms(3) by (cases ys rule: rev_cases) auto
    ultimately have "wheel_search_back q ?h t (fl_brk q) (prv q ?h) = p"
      unfolding p_def using assms(4,5) by (intro wheel_search_back_seg) auto
    moreover have "prv q ?h \<noteq> ?h"
      using h False \<open>?h \<notin> set (ys @ zs)\<close> last_in_set [OF False] by (auto split: if_splits)
    ultimately show ?thesis using np ne
      by (simp add: wheel_schedule_node_def q1 Let_def wheel_search_back_cong [of "q\<lparr>tw_earliest_spoke := e, tw_timer_count := _\<rparr>" q])
  qed
qed

lemma hd_insort_spoke:
  assumes "sorted (map (lvalue q) xs)"
  shows "hd (insort_spoke q n xs) = (if xs = [] \<or> lvalue q n < lvalue q (hd xs) then n else hd xs)"
proof (cases xs)
  case (Cons x ys)
  show ?thesis
  proof (cases "lvalue q n < lvalue q x")
    case True
    then have "\<forall>a \<in> set xs. \<not> lvalue q a \<le> lvalue q n" using assms Cons by fastforce
    then have "filter (\<lambda>a. lvalue q a \<le> lvalue q n) xs = []" by (simp add: filter_empty_conv)
    then show ?thesis using True Cons by (simp add: insort_spoke_def)
  next
    case False
    then have "lvalue q x \<le> lvalue q n" by simp
    then show ?thesis using False Cons by (simp add: insort_spoke_def)
  qed
qed (simp add: insort_spoke_def)

lemma earliest_least:
  "earliest_ok q X \<Longrightarrow> a \<in> on_wheel q X \<Longrightarrow> lvalue q (hd (X (tw_earliest_spoke q))) \<le> lvalue q a \<and> X (tw_earliest_spoke q) \<noteq> []"
  by (auto simp: earliest_ok_def)

text \<open>The spoke that holds the first node after linking in node \<open>n\<close>.\<close>

lemma earliest_insort:
  fixes n :: addr
  assumes pre: "wheel_pre q X M" and eo: "earliest_ok q X" and i: "i < tw_spoke_count q"
  defines "e \<equiv> (if wheel_is_empty q \<or> lvalue q n < wheel_earliest_time q then i else tw_earliest_spoke q)"
    and "Y \<equiv> X(i := insort_spoke q n (X i))"
  shows "Y e \<noteq> [] \<and> (\<forall>a \<in> insert n (on_wheel q X). lvalue q (hd (Y e)) \<le> lvalue q a)"
proof (cases "on_wheel q X = {}")
  case True
  then have "X i = []" "e = i" using in_wheel [OF i, of "hd (X i)" X] wheel_empty_iff [OF pre]
    by (auto simp: e_def) (metis list.set_sel(1))
  then show ?thesis using True by (simp add: insort_spoke_def Y_def)
next
  case False
  note G = get_first_at(3) [OF pre]
  have srt: "sorted (map (lvalue q) (X i))" using spoke_at [OF pre i] by (simp add: spoke_ok_def)
  have ne: "X (tw_earliest_spoke q) \<noteq> []"
    and least: "\<And>a. a \<in> on_wheel q X \<Longrightarrow> lvalue q (hd (X (tw_earliest_spoke q))) \<le> lvalue q a"
    using eo False by (auto simp: earliest_ok_def)
  have Yi: "insort_spoke q n xs \<noteq> []" for xs by (simp add: insort_spoke_def)
  show ?thesis
  proof (cases "lvalue q n < wheel_earliest_time q")
    case True
    then have "e = i" and t: "lvalue q n < lvalue q (hd (X (tw_earliest_spoke q)))" using G ne by (simp_all add: e_def)
    have "hd (insort_spoke q n (X i)) = n"
      using hd_insort_spoke [OF srt, of n] less_le_trans [OF t least] in_wheel [OF i, of "hd (X i)" X] by auto
    then show ?thesis using \<open>e = i\<close> less_le_trans [OF t least] Yi by (auto intro: less_imp_le simp: Y_def)
  next
    case False
    then have e: "e = tw_earliest_spoke q" using wheel_empty_iff [OF pre] \<open>on_wheel q X \<noteq> {}\<close> by (simp add: e_def)
    have t: "lvalue q (hd (X e)) \<le> lvalue q n" using False G ne e by simp
    then have "hd (Y e) = hd (X e)" using hd_insort_spoke [OF srt, of n] ne e by (auto simp: Y_def)
    then show ?thesis using t least ne e Yi by (auto simp: Y_def)
  qed
qed

lemma wheel_schedule_node_correct:
  assumes "wheel_at q X (insert n L)" "n \<notin> L" "wheel_time_ok (lvalue q n)"
  defines "i \<equiv> calculate_spoke q (lvalue q n)"
  defines "r \<equiv> wheel_schedule_node q n i (lvalue q n)"
  shows "wheel_at r (X(i := insort_spoke q n (X i))) L" "i < tw_spoke_count q"
    and "entry (fl_nodes r a) = entry (fl_nodes q a)" "wheel_same r q" "fl_brk r = fl_brk q"
proof -
  let ?h = "root_of q i" and ?t = "lvalue q n" and ?Y = "X(i := insort_spoke q n (X i))"
  have pre: "wheel_pre q X (insert n L)" and eo: "earliest_ok q X" using assms(1) by (auto simp: wheel_at_def)
  show i: "i < tw_spoke_count q" unfolding i_def using pre assms(3) by (intro calculate_spoke_less) (auto simp: wheel_pre_def)
  have sp: "spoke_ok q i (X i)" by (rule spoke_at [OF pre i])
  define ys zs where "ys = filter (\<lambda>a. lvalue q a \<le> ?t) (X i)" and "zs = filter (\<lambda>a. \<not> lvalue q a \<le> ?t) (X i)"
  have srt: "sorted (map (lvalue q) (X i))" using sp by (simp add: spoke_ok_def)
  have xs: "X i = ys @ zs" unfolding ys_def zs_def by (rule sorted_split [OF srt])
  have Y: "insort_spoke q n (X i) = ys @ n # zs" by (simp add: insort_spoke_def ys_def zs_def)
  have R: "ring (nxt q) (prv q) ?h (ys @ zs)" using sp xs by (simp add: spoke_ok_def)
  have nw: "n \<notin> on_wheel q X" "?h \<noteq> n" using pre roots_apart(1) [OF pre i] by (auto simp: wheel_pre_def)
  then have n: "n \<notin> set (?h # ys @ zs)" using in_wheel [OF i, of n X] xs by auto
  define p s where "p = last (?h # ys)" and "s = hd (zs @ [?h])"
  have pin: "p \<in> insert ?h (set ys)" "s \<in> insert ?h (set zs)"
    using last_in_set_Cons [of ?h ys] hd_in_set_snoc [of zs ?h] by (simp_all add: p_def s_def)
  define e where "e = (if wheel_is_empty q \<or> ?t < wheel_earliest_time q then i else tw_earliest_spoke q)"
  have len: "length zs < fl_brk q" using spoke_length [OF pre i] xs by simp
  have r: "r = (set_next (set_prev (set_next (set_prev q n p) n s) s n) p n)\<lparr>tw_earliest_spoke := e, tw_timer_count := tw_timer_count q + 1\<rparr>"
    unfolding r_def p_def s_def e_def using n len
    by (intro wheel_schedule_node_links [OF R]) (auto simp: ys_def zs_def)
  have links: "nxt r = (nxt q)(n := s, p := n)" "prv r = (prv q)(n := p, s := n)"
    unfolding r by (auto simp: set_next_def set_prev_def fun_eq_iff)
  show E: "entry (fl_nodes r a) = entry (fl_nodes q a)" for a by (simp add: r)
  show same: "wheel_same r q" and b: "fl_brk r = fl_brk q"
    by (simp_all add: r wheel_same_def set_next_def set_prev_def)
  have F: "fl_free_list r = fl_free_list q" "fl_size r = fl_size q" "tw_timer_count r = tw_timer_count q + 1"
      "tw_earliest_spoke r = e"
    by (simp_all add: r)
  have ring: "ring (nxt r) (prv r) ?h (ys @ n # zs)"
    unfolding links by (rule ring_insert [OF R n p_def s_def])
  have "sorted (map (lvalue q) (ys @ n # zs))"
    using srt unfolding xs by (auto simp: sorted_append ys_def zs_def)
  then have spr: "spoke_ok r i (ys @ n # zs)"
    using assms(3) xs by (intro spoke_ok_perm [OF sp _ _ same E ring, of n]) (auto simp: i_def)
  have "wheel_pre r (X(i := ys @ n # zs)) L"
  proof (rule wheel_pre_respoke [OF pre i same _ _ spr])
    show "set (ys @ n # zs) \<union> L = set (X i) \<union> insert n L" using xs by auto
    show "set (ys @ n # zs) \<inter> L = {}" using pre in_wheel [OF i, of _ X] xs assms(2) by (auto simp: wheel_pre_def)
    show "tw_earliest_spoke r < tw_spoke_count q" using pre i by (simp add: F(4) e_def wheel_pre_def wheel_shape_def)
    show "nxt r a = nxt q a \<and> prv r a = prv q a" if "a \<notin> insert ?h (set (X i) \<union> insert n L)" for a
      using that pin xs by (auto simp: fun_cong [OF links(1)] fun_cong [OF links(2)])
  qed (use E F b xs in auto)
  moreover have "earliest_ok r ?Y"
  proof -
    have "on_wheel r ?Y = insert n (on_wheel q X)"
      unfolding wheel_same_cong(2) [OF same] on_wheel_upd [OF i, of X] by auto
    then show ?thesis
      using earliest_insort [OF pre eo i, of n] entry_cong(3) [OF E] by (simp add: earliest_ok_def F(4) e_def)
  qed
  ultimately show "wheel_at r ?Y L" by (simp add: wheel_at_def Y)
qed

section \<open>Finding the earliest spoke\<close>

text \<open>The spokes in the order of the search, from the spoke of the time \<open>l\<close> on.\<close>

definition spoke_from :: "'t timer_wheel \<Rightarrow> ace_time_value \<Rightarrow> nat \<Rightarrow> nat" where
  "spoke_from q l m = (calculate_spoke q l + m) mod tw_spoke_count q"

lemma spoke_from_Suc:
  assumes "wheel_shape q"
  shows "spoke_from q l (Suc m) =
    (if spoke_from q l m + 1 \<ge> tw_spoke_count q then 0 else spoke_from q l m + 1)"
proof -
  have "spoke_from q l m < tw_spoke_count q" using assms by (simp add: spoke_from_def wheel_shape_def)
  then show ?thesis by (auto simp: spoke_from_def mod_Suc)
qed

lemma spoke_from_onto:
  assumes "wheel_shape q" "i < tw_spoke_count q" "wheel_time_ok l"
  shows "\<exists>m < tw_spoke_count q. spoke_from q l m = i"
proof -
  let ?C = "tw_spoke_count q" and ?s = "calculate_spoke q l"
  let ?m = "(i + ?C - ?s) mod ?C"
  have s: "?s < ?C" by (rule calculate_spoke_less [OF assms(1,3)])
  have "spoke_from q l ?m = (?s + (i + ?C - ?s)) mod ?C" by (simp add: spoke_from_def mod_add_right_eq)
  also have "\<dots> = i" using s assms(2) by simp
  finally show ?thesis using assms(2) by (intro exI [of _ ?m]) auto
qed

lemma slot_offset:
  assumes "wheel_shape q" "wheel_time_ok t" "wheel_time_ok l" "l \<le> t" "t < l + tw_wheel_time q"
    and "calculate_spoke q t = spoke_from q l m" "m < tw_spoke_count q"
  shows "slot q t = slot q l + int m"
proof -
  let ?C = "int (tw_spoke_count q)"
  have C: "2 ^ 3 \<le> tw_spoke_count q" using assms(1) unfolding wheel_shape_def by (metis one_le_numeral power_increasing)
  obtain d where d: "slot q t = slot q l + d" "0 \<le> d" "d \<le> 1"
    using slot_window [OF assms(1-5)] by fastforce
  have "(slot q l + d) mod ?C = (slot q l + int m) mod ?C"
    using calculate_spoke_slot [OF assms(1,2)] calculate_spoke_slot [OF assms(1,3)] assms(6) d(1)
    by (simp add: spoke_from_def of_nat_mod mod_add_left_eq)
  then have "(slot q l + d - (slot q l + int m)) mod ?C = 0" by (simp only: mod_eq_dvd_iff) simp
  then have "?C dvd d - int m" by (simp add: mod_0_imp_dvd)
  moreover have "\<bar>d - int m\<bar> < ?C" using d(2,3) assms(7) C by auto
  ultimately have "d = int m" using dvd_imp_le_int [of "d - int m" ?C] by force
  then show ?thesis using d(1) by simp
qed

lemma head_ok:
  assumes "wheel_pre q X L" "i < tw_spoke_count q" "X i \<noteq> []"
  shows "wheel_time_ok (lvalue q (hd (X i)))" "calculate_spoke q (lvalue q (hd (X i))) = i"
    and "hd (X i) \<in> on_wheel q X" "\<forall>a \<in> set (X i). lvalue q (hd (X i)) \<le> lvalue q a"
proof -
  have h: "hd (X i) \<in> set (X i)" using assms(3) by simp
  show "wheel_time_ok (lvalue q (hd (X i)))" "calculate_spoke q (lvalue q (hd (X i))) = i"
    using spoke_at [OF assms(1,2)] h by (auto simp: spoke_ok_def)
  show "hd (X i) \<in> on_wheel q X" using assms(2) h by (rule in_wheel)
  have "sorted (map (lvalue q) (X i))" using spoke_at [OF assms(1,2)] by (simp add: spoke_ok_def)
  then show "\<forall>a \<in> set (X i). lvalue q (hd (X i)) \<le> lvalue q a" using assms(3) by (cases "X i") auto
qed

text \<open>
  The search may stop at the first head that is less than one resolution after the last time:
  an earlier head would be in an earlier slot, hence in a spoke searched before.
\<close>

lemma accepted_least:
  assumes "wheel_pre q X L" "wheel_time_ok l" "\<forall>a \<in> on_wheel q X. l \<le> lvalue q a"
    and "j < tw_spoke_count q" "X (spoke_from q l j) \<noteq> []"
    and "lvalue q (hd (X (spoke_from q l j))) < l + tw_wheel_time q"
    and "\<forall>m<j. X (spoke_from q l m) \<noteq> [] \<longrightarrow> l + tw_wheel_time q \<le> lvalue q (hd (X (spoke_from q l m)))"
    and "i < tw_spoke_count q" "X i \<noteq> []"
  shows "lvalue q (hd (X (spoke_from q l j))) \<le> lvalue q (hd (X i))"
proof -
  let ?t = "lvalue q (hd (X (spoke_from q l j)))" and ?u = "lvalue q (hd (X i))"
  have sh: "wheel_shape q" using assms(1) by (simp add: wheel_pre_def)
  obtain m where m: "m < tw_spoke_count q" "spoke_from q l m = i"
    using spoke_from_onto [OF sh assms(8,2)] by blast
  have sj: "spoke_from q l j < tw_spoke_count q" using assms(4) by (simp add: spoke_from_def)
  note T = head_ok [OF assms(1) sj assms(5)] and U = head_ok [OF assms(1,8,9)]
  show ?thesis
  proof (rule ccontr)
    assume "\<not> ?t \<le> ?u"
    then have lt: "?u < ?t" by simp
    then have w: "?u < l + tw_wheel_time q" using assms(6) by (rule less_trans)
    have "\<not> m < j" using assms(7,9) m(2) w by (metis leD)
    moreover have "m \<noteq> j" using m(2) lt by auto
    ultimately have "j < m" by simp
    moreover have "slot q ?t = slot q l + int j"
      using T assms(3,6,4) by (intro slot_offset [OF sh T(1) assms(2)]) auto
    moreover have "slot q ?u = slot q l + int m"
      using U assms(3) w m by (intro slot_offset [OF sh U(1) assms(2)]) auto
    ultimately show False using slot_mono [OF U(1) T(1) less_imp_le [OF lt], of q] by simp
  qed
qed

lemma wheel_step_positive:
  assumes "wheel_shape q" "wheel_time_ok l" "l + tw_wheel_time q \<le> t"
  shows "t \<noteq> zero_time"
proof
  assume z: "t = zero_time"
  have n: "tv_normal l" "tv_normal (tw_wheel_time q)" "0 \<le> tv_total l" "0 < tv_total (tw_wheel_time q)"
    using assms by (auto simp: wheel_shape_def wheel_time_ok_def)
  have "tv_normal zero_time" by (simp add: zero_time_def tv_normal_def)
  then have "tv_total l + tv_total (tw_wheel_time q) \<le> tv_total zero_time"
    using tv_le_total [of "l + tw_wheel_time q" zero_time] assms(3) z n by (simp add: tv_plus)
  then show False using n by (simp add: zero_time_def tv_total_def)
qed

text \<open>What the search knows after \<open>j\<close> spokes: the least head among them, or that they are empty.\<close>

definition searched :: "'t timer_wheel \<Rightarrow> (nat \<Rightarrow> addr list) \<Rightarrow> ace_time_value \<Rightarrow> nat \<Rightarrow> ace_time_value \<Rightarrow> nat \<Rightarrow> bool" where
  "searched q X l j et es \<longleftrightarrow>
     (\<forall>m<j. X (spoke_from q l m) \<noteq> [] \<longrightarrow> l + tw_wheel_time q \<le> lvalue q (hd (X (spoke_from q l m)))) \<and>
     (if et = zero_time then \<forall>m<j. X (spoke_from q l m) = []
      else es < tw_spoke_count q \<and> X es \<noteq> [] \<and> et = lvalue q (hd (X es)) \<and>
        (\<forall>m<j. X (spoke_from q l m) \<noteq> [] \<longrightarrow> et \<le> lvalue q (hd (X (spoke_from q l m)))))"

lemma recalc_loop_correct:
  assumes "wheel_pre q X L" "wheel_time_ok l" "\<forall>a \<in> on_wheel q X. l \<le> lvalue q a" "on_wheel q X \<noteq> {}"
  shows "searched q X l j et es \<Longrightarrow> j + k = tw_spoke_count q \<Longrightarrow>
    \<exists>e < tw_spoke_count q. recalc_loop k q l (spoke_from q l j) et es = q\<lparr>tw_earliest_spoke := e\<rparr> \<and> X e \<noteq> [] \<and>
      (\<forall>i < tw_spoke_count q. X i \<noteq> [] \<longrightarrow> lvalue q (hd (X e)) \<le> lvalue q (hd (X i)))"
proof (induction k arbitrary: j et es)
  case 0
  have sh: "wheel_shape q" using assms(1) by (simp add: wheel_pre_def)
  have all: "\<exists>m<j. spoke_from q l m = i" if "i < tw_spoke_count q" for i
    using spoke_from_onto [OF sh that assms(2)] 0(2) by auto
  obtain i where "i < tw_spoke_count q" "X i \<noteq> []" using assms(4) by (auto simp: on_wheel_def)
  then have "et \<noteq> zero_time" using 0(1) all by (force simp: searched_def)
  then show ?case using 0(1) all by (intro exI [of _ es]) (force simp: searched_def)
next
  case (Suc k)
  let ?s = "spoke_from q l j" and ?W = "l + tw_wheel_time q"
  have sh: "wheel_shape q" using assms(1) by (simp add: wheel_pre_def)
  have s: "?s < tw_spoke_count q" "j < tw_spoke_count q" using Suc(3) by (simp_all add: spoke_from_def)
  have R: "ring (nxt q) (prv q) (root_of q ?s) (X ?s)" using spoke_at [OF assms(1) s(1)] by (simp add: spoke_ok_def)
  have n: "nxt q (root_of q ?s) = (if X ?s = [] then root_of q ?s else hd (X ?s))"
    "X ?s \<noteq> [] \<Longrightarrow> hd (X ?s) \<noteq> root_of q ?s"
    using ring_first [OF R] R by (cases "X ?s"; auto simp: ring_def)+
  note step = spoke_from_Suc [OF sh, of l j]
  show ?case
  proof (cases "X ?s = []")
    case True
    then have "searched q X l (Suc j) et es" using Suc(2) by (auto simp: searched_def less_Suc_eq)
    from Suc.IH [OF this] Suc(3) True show ?thesis by (simp add: n step Let_def)
  next
    case ne: False
    let ?t = "lvalue q (hd (X ?s))"
    show ?thesis
    proof (cases "?t < ?W")
      case True
      have "\<forall>m<j. X (spoke_from q l m) \<noteq> [] \<longrightarrow> ?W \<le> lvalue q (hd (X (spoke_from q l m)))"
        using Suc(2) by (simp add: searched_def)
      from accepted_least [OF assms(1-3) s(2) ne True this] True ne s(1) n
      show ?thesis by (intro exI [of _ ?s]) (simp add: Let_def)
    next
      case False
      then have t: "?W \<le> ?t" by simp
      note nz = wheel_step_positive [OF sh assms(2) t]
      define et' es' where "et' = (if et = zero_time \<or> ?t < et then ?t else et)"
        and "es' = (if et = zero_time \<or> ?t < et then ?s else es)"
      have "searched q X l (Suc j) et' es'"
        using Suc(2) t nz ne s(1)
        by (auto simp: searched_def et'_def es'_def less_Suc_eq split: if_splits intro: less_imp_le less_le_trans)
      moreover have "recalc_loop (Suc k) q l ?s et es = recalc_loop k q l (spoke_from q l (Suc j)) et' es'"
        using False ne n by (simp add: step Let_def et'_def es'_def)
      ultimately show ?thesis using Suc.IH [of "Suc j" et' es'] Suc(3) by simp
    qed
  qed
qed

lemma recalc_earliest_correct:
  assumes "wheel_pre q X L" "wheel_time_ok l" "\<forall>a \<in> on_wheel q X. l \<le> lvalue q a"
    and "calculate_spoke q l = tw_earliest_spoke q"
  shows "wheel_at (recalc_earliest q l) X L" "fl_nodes (recalc_earliest q l) = fl_nodes q"
    and "wheel_same (recalc_earliest q l) q" "fl_brk (recalc_earliest q l) = fl_brk q"
proof -
  let ?r = "recalc_earliest q l"
  have "\<exists>e < tw_spoke_count q. ?r = q\<lparr>tw_earliest_spoke := e\<rparr> \<and> earliest_ok ?r X"
  proof (cases "on_wheel q X = {}")
    case True
    then show ?thesis using wheel_empty_iff [OF assms(1)] assms(1)
      by (intro exI [of _ "tw_earliest_spoke q"]) (simp add: recalc_earliest_def earliest_ok_def wheel_pre_def wheel_shape_def)
  next
    case False
    have s0: "spoke_from q l 0 = tw_earliest_spoke q"
      using assms(1,4) by (simp add: spoke_from_def wheel_pre_def wheel_shape_def)
    have "searched q X l 0 zero_time 0" by (simp add: searched_def)
    from recalc_loop_correct [OF assms(1-3) False this, of "tw_spoke_count q"]
    obtain e where e: "e < tw_spoke_count q" "?r = q\<lparr>tw_earliest_spoke := e\<rparr>" "X e \<noteq> []"
      "\<And>i. i < tw_spoke_count q \<Longrightarrow> X i \<noteq> [] \<Longrightarrow> lvalue q (hd (X e)) \<le> lvalue q (hd (X i))"
      using False wheel_empty_iff [OF assms(1)] unfolding s0 by (auto simp: recalc_earliest_def)
    have "lvalue q (hd (X e)) \<le> lvalue q a" if a: "a \<in> on_wheel q X" for a
    proof -
      obtain i where i: "i < tw_spoke_count q" "a \<in> set (X i)" using a by (auto simp: on_wheel_def)
      then have ne: "X i \<noteq> []" by auto
      show ?thesis using e(4) [OF i(1) ne] head_ok(4) [OF assms(1) i(1) ne] i(2) by fastforce
    qed
    then have "earliest_ok (q\<lparr>tw_earliest_spoke := e\<rparr>) X" using e(3) by (simp add: earliest_ok_def on_wheel_def)
    then show ?thesis using e(1,2) by (intro exI [of _ e]) simp
  qed
  then obtain e where e: "e < tw_spoke_count q" "?r = q\<lparr>tw_earliest_spoke := e\<rparr>" "earliest_ok ?r X" by blast
  show "fl_nodes ?r = fl_nodes q" "fl_brk ?r = fl_brk q" and same: "wheel_same ?r q" using e(2) by (simp_all add: wheel_same_def)
  have "wheel_pre (q\<lparr>tw_earliest_spoke := e\<rparr>) X L"
    using assms(1) e(1)
    by (intro wheel_pre_relink [OF assms(1)]) (auto simp: wheel_same_def wheel_pre_def spoke_ok_def calculate_spoke_def)
  then show "wheel_at ?r X L" using e by (simp add: wheel_at_def)
qed

end
