(* ===== verification/ACE_Timer_Wheel_Correct.thy ===== *)
theory ACE_Timer_Wheel_Correct
  imports ACE_Timer_Wheel_Inv
begin

text \<open>
  The timer wheel satisfies the contract of a timer queue, its own loop of \<open>expire\<close> is the loop of the
  base class, and scheduling gives new ids and keeps the invariant.
\<close>

section \<open>Freeing and changing nodes that are taken out\<close>

lemma wheel_more:
  assumes "free_list.more r = free_list.more q" "fl_mode r = fl_mode q" "fl_inc r = fl_inc q"
  shows "wheel_same r q" "tw_earliest_spoke r = tw_earliest_spoke q" "tw_timer_count r = tw_timer_count q"
  using assms by (cases r; cases q; simp add: wheel_same_def)+

lemma ids_ok_mono: "ids_ok q A \<Longrightarrow> B \<subseteq> A \<Longrightarrow> ids_ok q B"
  unfolding ids_ok_def by (meson inj_on_subset subsetD)

lemma wheel_pre_frame:
  assumes "wheel_pre q X L" "M \<subseteq> L" "wheel_same r q"
    and "tw_earliest_spoke r = tw_earliest_spoke q" "tw_timer_count r = tw_timer_count q"
    and "\<And>a. a \<in> set (tw_spokes q) \<union> on_wheel q X \<Longrightarrow> fl_nodes r a = fl_nodes q a"
    and "\<And>a. a \<in> M \<Longrightarrow> lid r a = lid q a"
    and "\<exists>gs. fl_ok r gs (set (tw_spokes q) \<union> (on_wheel q X \<union> M))"
  shows "wheel_pre r X M"
proof -
  note S = wheel_same_cong [OF assms(3)] and pre = assms(1)
  have sp: "spoke_ok r i (X i)" if "i < tw_spoke_count q" for i
    using assms(6) roots_apart(2) [OF pre that] in_wheel [OF that, of _ X]
    by (intro spoke_ok_frame [OF spoke_at [OF pre that] assms(3)]) auto
  have "ids_ok q (on_wheel q X \<union> M)" using pre assms(2) by (auto simp: wheel_pre_def intro: ids_ok_mono)
  then have ids: "ids_ok r (on_wheel q X \<union> M)"
    using assms(6,7) roots_apart(2) [OF pre] by (intro ids_ok_cong [OF _ assms(3)]) auto
  have e: "tw_earliest_spoke q < tw_spoke_count q" "wheel_shape r"
    using pre S(7) assms(4) by (auto simp: wheel_pre_def wheel_shape_def)
  show ?thesis
    unfolding wheel_pre_def S(2,5,6) using pre sp ids e assms(2,5,8) by (auto simp: wheel_pre_def)
qed

lemma earliest_in_range: "wheel_pre q X L \<Longrightarrow> tw_earliest_spoke q < tw_spoke_count q"
  by (simp add: wheel_pre_def wheel_shape_def)

lemma earliest_ok_frame:
  assumes "wheel_pre q X L" "earliest_ok q X" "wheel_same r q" "tw_earliest_spoke r = tw_earliest_spoke q"
    and "\<And>a. a \<in> on_wheel q X \<Longrightarrow> lvalue r a = lvalue q a"
  shows "earliest_ok r X"
proof -
  have "X (tw_earliest_spoke q) \<noteq> [] \<Longrightarrow> hd (X (tw_earliest_spoke q)) \<in> on_wheel q X"
    using head_ok(3) [OF assms(1) earliest_in_range [OF assms(1)]] .
  then show ?thesis
    using assms(2,5) unfolding earliest_ok_def wheel_same_cong(2) [OF assms(3)] assms(4) by auto
qed

lemma wheel_free_node_pre:
  assumes "wheel_pre q X L" "n \<in> L"
  defines "r \<equiv> wheel_free_node q n"
  shows "wheel_pre r X (L - {n})" "entry (fl_nodes r a) = entry (fl_nodes q a)" "wheel_same r q"
    and "fl_brk r = fl_brk q" "a \<noteq> n \<Longrightarrow> fl_nodes r a = fl_nodes q a"
    and "tw_earliest_spoke r = tw_earliest_spoke q"
proof -
  have more: "free_list.more r = free_list.more q" and m: "fl_mode r = fl_mode q" "fl_inc r = fl_inc q"
    by (simp_all add: r_def wheel_free_node_def)
  note M = wheel_more [OF more m]
  show same: "wheel_same r q" and e: "tw_earliest_spoke r = tw_earliest_spoke q" by (fact M)+
  show "entry (fl_nodes r a) = entry (fl_nodes q a)" "fl_brk r = fl_brk q" by (simp_all add: r_def wheel_free_node_def)
  show N: "a \<noteq> n \<Longrightarrow> fl_nodes r a = fl_nodes q a" for a by (simp add: r_def wheel_free_node_def)
  let ?A = "set (tw_spokes q) \<union> (on_wheel q X \<union> L)"
  have L: "on_wheel q X \<inter> L = {}" "set (tw_spokes q) \<inter> L = {}" using assms(1) by (auto simp: wheel_pre_def)
  obtain fs where "fl_ok q fs ?A" using assms(1) by (auto simp: wheel_pre_def)
  then have "\<exists>gs. fl_ok r gs (?A - {n})"
    unfolding r_def wheel_free_node_def using assms(2) by (intro fl_add_correct) auto
  moreover have "?A - {n} = set (tw_spokes q) \<union> (on_wheel q X \<union> (L - {n}))" using L assms(2) by auto
  ultimately show "wheel_pre r X (L - {n})"
    using N L assms(2) by (intro wheel_pre_frame [OF assms(1) _ same e M(3)]) auto
qed

lemma wheel_node_update:
  assumes "wheel_at q X L" "n \<in> L" "nd_timer_id nd = lid q n"
  shows "wheel_at (q\<lparr>fl_nodes := (fl_nodes q)(n := nd)\<rparr>) X L"
proof -
  let ?r = "q\<lparr>fl_nodes := (fl_nodes q)(n := nd)\<rparr>" and ?A = "set (tw_spokes q) \<union> (on_wheel q X \<union> L)"
  have pre: "wheel_pre q X L" and eo: "earliest_ok q X" using assms(1) by (auto simp: wheel_at_def)
  obtain fs where fs: "fl_ok q fs ?A" using pre by (auto simp: wheel_pre_def)
  have "chain (nxt ?r) (fl_free_list q) fs \<longleftrightarrow> chain (nxt q) (fl_free_list q) fs"
    using fs assms(2) by (intro chain_cong) (auto simp: fl_ok_def)
  then have gs: "\<exists>gs. fl_ok ?r gs ?A" using fs by (intro exI [of _ fs]) (simp add: fl_ok_def)
  have same: "wheel_same ?r q" by (simp add: wheel_same_def)
  have "on_wheel q X \<inter> L = {}" "set (tw_spokes q) \<inter> L = {}" using pre by (auto simp: wheel_pre_def)
  then have N: "fl_nodes ?r a = fl_nodes q a" if "a \<in> set (tw_spokes q) \<union> on_wheel q X" for a
    using that assms(2) by auto
  have "wheel_pre ?r X L"
    using assms(3) by (intro wheel_pre_frame [OF pre order_refl same _ _ N _ gs]) auto
  moreover have "earliest_ok ?r X" using N by (intro earliest_ok_frame [OF pre eo same]) auto
  ultimately show ?thesis by (simp add: wheel_at_def)
qed

lemma wheel_free_node_correct:
  assumes "wheel_at q X L" "n \<in> L"
  shows "wheel_at (wheel_free_node q n) X (L - {n})"
proof -
  have pre: "wheel_pre q X L" and eo: "earliest_ok q X" using assms(1) by (auto simp: wheel_at_def)
  note F = wheel_free_node_pre [OF pre assms(2)]
  have "earliest_ok (wheel_free_node q n) X"
    using entry_cong(3) [OF F(2)] by (intro earliest_ok_frame [OF pre eo F(3,6)]) auto
  then show ?thesis using F(1) by (simp add: wheel_at_def)
qed

section \<open>Removing the first node\<close>

lemma unlink_first_correct:
  assumes "wheel_at q X L" "on_wheel q X \<noteq> {}"
  defines "e \<equiv> tw_earliest_spoke q"
  defines "n \<equiv> hd (X e)"
  defines "r \<equiv> recalc_earliest (wheel_unlink q n) (lvalue q n)"
  shows "wheel_at r (X(e := tl (X e))) (insert n L)" "entry (fl_nodes r a) = entry (fl_nodes q a)"
    and "wheel_same r q" "on_wheel r (X(e := tl (X e))) = on_wheel q X - {n}" "n \<in> on_wheel q X"
    and "\<forall>a \<in> on_wheel q X. lvalue q n \<le> lvalue q a" "fl_brk r = fl_brk q"
proof -
  let ?Y = "X(e := tl (X e))" and ?u = "wheel_unlink q n"
  have pre: "wheel_pre q X L" and eo: "earliest_ok q X" using assms(1) by (auto simp: wheel_at_def)
  have e: "e < tw_spoke_count q" unfolding e_def by (rule earliest_in_range [OF pre])
  have ne: "X e \<noteq> []" and least: "\<forall>a \<in> on_wheel q X. lvalue q n \<le> lvalue q a"
    using eo assms(2) by (auto simp: earliest_ok_def e_def n_def)
  have X: "X e = [] @ n # tl (X e)" using ne by (simp add: n_def)
  note U = wheel_unlink_correct [OF pre e X] and H = head_ok [OF pre e ne, folded n_def]
  have U1: "wheel_pre ?u ?Y (insert n L)" using U(1) by simp
  have dis: "distinct (X e)" using spoke_at [OF pre e] by (simp add: spoke_ok_def ring_def)
  have nt: "set (X e) = insert n (set (tl (X e)))" "n \<notin> set (tl (X e))"
    using ne dis by (cases "X e"; simp add: n_def)+
  have other: "n \<notin> set (X j)" if "j \<in> {..<tw_spoke_count q} - {e}" for j
    using spokes_disjoint [OF pre, of j e] that e nt(1) by auto
  have w: "on_wheel q ?Y = on_wheel q X - {n}"
    unfolding on_wheel_upd [OF e, of X] nt(1) using nt(2) other by auto
  note C = wheel_same_cong [OF U(3)]
  have "\<forall>a \<in> on_wheel ?u ?Y. lvalue q n \<le> lvalue ?u a" "calculate_spoke ?u (lvalue q n) = tw_earliest_spoke ?u"
    using least H(2) entry_cong(3) [OF U(2)] U(4) unfolding C w by (simp_all add: e_def [symmetric])
  note R = recalc_earliest_correct [OF U1 H(1) this, folded r_def]
  show same: "wheel_same r q" using R(3) U(3) by (simp add: wheel_same_def)
  show "wheel_at r ?Y (insert n L)" "entry (fl_nodes r a) = entry (fl_nodes q a)" "n \<in> on_wheel q X"
    "\<forall>a \<in> on_wheel q X. lvalue q n \<le> lvalue q a" "fl_brk r = fl_brk q"
    using R U(2,5) H(3) least by auto
  show "on_wheel r ?Y = on_wheel q X - {n}" using w wheel_same_cong(2) [OF same] by simp
qed

lemma remove_first_expired_at:
  assumes "wheel_at q X L"
  defines "n \<equiv> hd (X (tw_earliest_spoke q))"
  shows "remove_first_expired q now =
    (if on_wheel q X \<noteq> {} \<and> lvalue q n \<le> now then (recalc_earliest (wheel_unlink q n) (lvalue q n), n) else (q, NULL))"
    and "on_wheel q X \<noteq> {} \<Longrightarrow> n \<noteq> NULL"
    and "on_wheel q X \<noteq> {} \<Longrightarrow> wheel_earliest_time q = lvalue q n"
proof -
  have pre: "wheel_pre q X L" and eo: "earliest_ok q X" using assms(1) by (auto simp: wheel_at_def)
  note e = earliest_in_range [OF pre] and G = get_first_at [OF pre]
  have ne: "X (tw_earliest_spoke q) \<noteq> [] \<longleftrightarrow> on_wheel q X \<noteq> {}"
    using eo head_ok(3) [OF pre e] by (auto simp: earliest_ok_def)
  then show nz: "on_wheel q X \<noteq> {} \<Longrightarrow> n \<noteq> NULL" "on_wheel q X \<noteq> {} \<Longrightarrow> wheel_earliest_time q = lvalue q n"
    using G(2,3) by (auto simp: n_def)
  have "lvalue (wheel_unlink q n) n = lvalue q n" if "on_wheel q X \<noteq> {}"
  proof -
    have "X (tw_earliest_spoke q) = [] @ n # tl (X (tw_earliest_spoke q))" using that ne by (simp add: n_def)
    from entry_cong(3) [OF wheel_unlink_correct(2) [OF pre e this]] show ?thesis .
  qed
  then show "remove_first_expired q now =
    (if on_wheel q X \<noteq> {} \<and> lvalue q n \<le> now then (recalc_earliest (wheel_unlink q n) (lvalue q n), n) else (q, NULL))"
    using G(1) ne nz by (auto simp: remove_first_expired_def wheel_get_first_def Let_def n_def)
qed

section \<open>The contract of a timer queue\<close>

text \<open>The nodes on a spoke in the order of the links.\<close>

primrec walk_spoke :: "'t timer_wheel \<Rightarrow> addr \<Rightarrow> nat \<Rightarrow> addr \<Rightarrow> addr list" where
  "walk_spoke q root 0 n = []"
| "walk_spoke q root (Suc fuel) n = (if n \<noteq> root then n # walk_spoke q root fuel (nxt q n) else [])"

definition wheel_nodes :: "'t timer_wheel \<Rightarrow> nat \<Rightarrow> addr list" where
  "wheel_nodes q i = walk_spoke q (root_of q i) (fl_brk q) (nxt q (root_of q i))"

definition wheel_queued :: "'t timer_wheel \<Rightarrow> addr set" where
  "wheel_queued q = on_wheel q (wheel_nodes q)"

definition wheel_inv :: "'t timer_wheel \<Rightarrow> addr set \<Rightarrow> bool" where
  "wheel_inv q L \<longleftrightarrow> wheel_at q (wheel_nodes q) L \<and> (\<forall>a \<in> L. wheel_time_ok (lvalue q a))"

lemma walk_spoke_seg:
  "seg (nxt q) (prv q) p xs h \<Longrightarrow> h \<notin> set xs \<Longrightarrow> length xs < fuel \<Longrightarrow>
   walk_spoke q h fuel (nxt q p) = xs"
proof (induction xs arbitrary: p fuel)
  case Nil
  then show ?case by (cases fuel) auto
next
  case (Cons x xs)
  then show ?case by (cases fuel) auto
qed

lemma wheel_nodes_at:
  assumes "wheel_pre q X L" "i < tw_spoke_count q"
  shows "wheel_nodes q i = X i"
  using walk_spoke_seg [of q "root_of q i" "X i" "root_of q i" "fl_brk q"] spoke_length [OF assms] spoke_at [OF assms]
  by (auto simp: wheel_nodes_def spoke_ok_def ring_def)

lemma on_wheel_nodes: "wheel_pre q X L \<Longrightarrow> on_wheel q (wheel_nodes q) = on_wheel q X"
  using wheel_nodes_at [of q X L] by (simp add: on_wheel_def)

lemma wheel_at_nodes:
  assumes "wheel_at q X L"
  shows "wheel_at q (wheel_nodes q) L" "wheel_queued q = on_wheel q X"
proof -
  have pre: "wheel_pre q X L" and e: "earliest_ok q X" using assms by (auto simp: wheel_at_def)
  note W = on_wheel_nodes [OF pre] and N = wheel_nodes_at [OF pre]
  have "(\<Sum>i<tw_spoke_count q. length (wheel_nodes q i)) = (\<Sum>i<tw_spoke_count q. length (X i))"
    using N by (intro sum.cong) auto
  then have "wheel_pre q (wheel_nodes q) L" using pre N unfolding wheel_pre_def W by simp
  moreover have "earliest_ok q (wheel_nodes q)" using e unfolding earliest_ok_def W N [OF earliest_in_range [OF pre]] .
  ultimately show "wheel_at q (wheel_nodes q) L" by (simp add: wheel_at_def)
  show "wheel_queued q = on_wheel q X" by (simp add: wheel_queued_def W)
qed

lemma wheel_invI:
  "wheel_at q X L \<Longrightarrow> (\<And>a. a \<in> L \<Longrightarrow> wheel_time_ok (lvalue q a)) \<Longrightarrow> wheel_inv q L \<and> wheel_queued q = on_wheel q X"
  using wheel_at_nodes [of q X L] by (simp add: wheel_inv_def)

lemma wheel_invD:
  assumes "wheel_inv q L"
  shows "wheel_at q (wheel_nodes q) L" "wheel_pre q (wheel_nodes q) L" "wheel_queued q = on_wheel q (wheel_nodes q)"
    and "a \<in> L \<Longrightarrow> wheel_time_ok (lvalue q a)" "a \<in> wheel_queued q \<Longrightarrow> wheel_time_ok (lvalue q a)"
proof -
  show at: "wheel_at q (wheel_nodes q) L" "wheel_pre q (wheel_nodes q) L" "a \<in> L \<Longrightarrow> wheel_time_ok (lvalue q a)"
    using assms by (auto simp: wheel_inv_def wheel_at_def)
  show "wheel_queued q = on_wheel q (wheel_nodes q)" by (simp add: wheel_queued_def)
  show "wheel_time_ok (lvalue q a)" if "a \<in> wheel_queued q"
    using that spoke_at [OF at(2)] by (auto simp: wheel_queued_def on_wheel_def spoke_ok_def)
qed

definition wheel_ops :: "('t timer_wheel, 't) timer_queue_ops" where
  "wheel_ops = \<lparr>op_is_empty = wheel_is_empty, op_earliest_time = wheel_earliest_time,
     op_remove_first = wheel_remove_first, op_reschedule = wheel_reschedule,
     op_free_node = wheel_free_node, op_node = fl_nodes,
     op_set_node = (\<lambda>q a nd. q\<lparr>fl_nodes := (fl_nodes q)(a := nd)\<rparr>),
     op_schedule_i = (\<lambda>q type act t i. the (wheel_schedule_i q type act t i))\<rparr>"

lemma wheel_ops_simps [simp]:
  "op_is_empty wheel_ops = wheel_is_empty" "op_earliest_time wheel_ops = wheel_earliest_time"
  "op_remove_first wheel_ops = wheel_remove_first" "op_reschedule wheel_ops = wheel_reschedule"
  "op_free_node wheel_ops = wheel_free_node" "op_node wheel_ops = fl_nodes"
  "op_set_node wheel_ops q a nd = q\<lparr>fl_nodes := (fl_nodes q)(a := nd)\<rparr>"
  by (simp_all add: wheel_ops_def)

lemma wheel_time_le_max: "wheel_time_ok t \<Longrightarrow> t \<le> max_time"
proof -
  assume t: "wheel_time_ok t"
  have m: "tv_normal max_time" by (simp add: max_time_def tv_normal_def ACE_ONE_SECOND_IN_USECS_def TIME_T_MAX_def)
  have "tv_total t < 2 ^ 63 * 1000" using t by (auto simp: wheel_time_ok_def)
  then have "tv_total t \<le> tv_total max_time" by (simp add: max_time_def tv_total_def ACE_ONE_SECOND_IN_USECS_def TIME_T_MAX_def)
  then show ?thesis using t m by (simp add: wheel_time_ok_def tv_le_total)
qed

lemma wheel_earliest_inv:
  assumes "wheel_inv q L" "wheel_queued q \<noteq> {}"
  shows "wheel_earliest_time q = Min (lvalue q ` wheel_queued q)"
proof -
  note W = wheel_invD [OF assms(1)]
  have ne: "on_wheel q (wheel_nodes q) \<noteq> {}" using assms(2) W(3) by simp
  note U = unlink_first_correct(5,6) [OF W(1) ne] and F = remove_first_expired_at(3) [OF W(1) ne]
  show ?thesis
    using U wheel_nodes_in_store(2) [OF W(2)] unfolding F W(3) by (intro Min_eqI [symmetric]) auto
qed

lemma wheel_remove_first_inv:
  assumes "wheel_inv q L" "wheel_queued q \<noteq> {}" "wheel_earliest_time q \<le> now" "remove_first_expired q now = (q', n)"
  shows "n \<in> wheel_queued q" "lvalue q n = wheel_earliest_time q" "wheel_queued q' = wheel_queued q - {n}"
    and "wheel_inv q' (insert n L)" "entry (fl_nodes q' a) = entry (fl_nodes q a)" "wheel_same q' q" "n \<noteq> NULL"
proof -
  note W = wheel_invD [OF assms(1)]
  have ne: "on_wheel q (wheel_nodes q) \<noteq> {}" using assms(2) W(3) by simp
  note F = remove_first_expired_at [OF W(1)] and U = unlink_first_correct [OF W(1) ne]
  have r: "n = hd (wheel_nodes q (tw_earliest_spoke q))" "q' = recalc_earliest (wheel_unlink q n) (lvalue q n)"
    using assms(3,4) ne F(1) [of now] F(3) by auto
  note U = U [folded r(1), folded r(2)]
  have "wheel_time_ok (lvalue q' a)" if "a \<in> insert n L" for a
    using that U(5) W(3-5) entry_cong(3) [OF U(2)] by auto
  from wheel_invI [OF U(1) this] show "wheel_inv q' (insert n L)" "wheel_queued q' = wheel_queued q - {n}"
    using U(4) W(3) by auto
  show "n \<in> wheel_queued q" "lvalue q n = wheel_earliest_time q" "entry (fl_nodes q' a) = entry (fl_nodes q a)"
    "wheel_same q' q" "n \<noteq> NULL"
    using U(2,3,5) W(3) F(2,3) [OF ne] r(1) by auto
qed

interpretation tw: timer_queue wheel_ops wheel_inv wheel_queued wheel_time_ok
proof (unfold_locales, goal_cases)
  case (1 q L)
  note W = wheel_invD [OF 1]
  then show ?case using wheel_nodes_in_store(2) [OF W(2)] by simp
next
  case (2 q L)
  note W = wheel_invD [OF 2]
  then show ?case by (auto simp: wheel_pre_def)
next
  case (3 q L)
  note W = wheel_invD [OF 3]
  then show ?case using wheel_empty_iff [OF W(2)] by simp
next
  case (4 q L)
  then show ?case using wheel_earliest_inv [OF 4] by simp
next
  case (5 q L q' n)
  have "wheel_earliest_time q \<in> lvalue q ` wheel_queued q"
    using wheel_earliest_inv [OF 5(1,2)] wheel_nodes_in_store(2) [OF wheel_invD(2) [OF 5(1)]] wheel_invD(3) [OF 5(1)] 5(2)
    by (metis Min_in finite_Un finite_imageI image_is_empty)
  then have "wheel_earliest_time q \<le> max_time" using wheel_invD(5) [OF 5(1)] wheel_time_le_max by auto
  note R = wheel_remove_first_inv [OF 5(1,2) this, of q' n]
  then show ?case using 5(3) by (simp add: wheel_remove_first_def)
next
  case (6 q L n nd)
  note W = wheel_invD [OF 6(1)]
  have "wheel_at (q\<lparr>fl_nodes := (fl_nodes q)(n := nd)\<rparr>) (wheel_nodes q) L"
    using 6(4) by (intro wheel_node_update [OF W(1) 6(2)]) simp
  from wheel_invI [OF this] W(3,4) 6(3) show ?case by (auto simp: on_wheel_def)
next
  case (7 q L n)
  note W = wheel_invD [OF 7(1)]
  have "insert n (L - {n}) = L" "n \<notin> L - {n}" using 7(2) by auto
  then have "wheel_at q (wheel_nodes q) (insert n (L - {n}))" "n \<notin> L - {n}" using W(1) by simp_all
  note S = wheel_schedule_node_correct [OF this W(4) [OF 7(2)]]
  have "wheel_time_ok (lvalue (wheel_schedule_node q n (calculate_spoke q (lvalue q n)) (lvalue q n)) a)"
    if "a \<in> L - {n}" for a
    using that W(4) entry_cong(3) [OF S(3)] by simp
  from wheel_invI [OF S(1) this] S(2,3,4) W(3) show ?case
    using on_wheel_upd [OF S(2), of "wheel_nodes q"] wheel_same_cong(2) [OF S(4)]
    by (auto simp: wheel_reschedule_def Let_def)
next
  case (8 q L n)
  note W = wheel_invD [OF 8(1)]
  note F = wheel_free_node_correct [OF W(1) 8(2)] wheel_free_node_pre(2,3) [OF W(2) 8(2)]
  have "wheel_time_ok (lvalue (wheel_free_node q n) a)" if "a \<in> L - {n}" for a
    using that W(4) entry_cong(3) [OF F(2)] by simp
  from wheel_invI [OF F(1) this] F(2) W(3) wheel_same_cong(2) [OF F(3)] show ?case by simp
qed

section \<open>The wheel's own loop of \<open>expire\<close> is the loop of the base class\<close>

lemma remove_first_expired_due:
  assumes "wheel_inv q L"
  shows "tw.due q c = {} \<Longrightarrow> remove_first_expired q c = (q, NULL)"
    and "tw.due q c \<noteq> {} \<Longrightarrow> remove_first_expired q c = wheel_remove_first q \<and>
      \<not> wheel_is_empty q \<and> wheel_earliest_time q \<le> c"
proof -
  note W = wheel_invD [OF assms]
  note F = remove_first_expired_at [OF W(1)]
  let ?n = "hd (wheel_nodes q (tw_earliest_spoke q))"
  have le: "wheel_queued q \<noteq> {} \<Longrightarrow> ?n \<in> wheel_queued q \<and> (\<forall>a \<in> wheel_queued q. lvalue q ?n \<le> lvalue q a)"
    using unlink_first_correct(5,6) [OF W(1)] W(3) by simp
  have d: "a \<in> tw.due q c \<longleftrightarrow> a \<in> wheel_queued q \<and> lvalue q a \<le> c" for a by (simp add: tw.due_def tw.val_def)
  show "remove_first_expired q c = (q, NULL)" if "tw.due q c = {}"
    using F(1) [of c] le d that unfolding W(3) by auto
  show "remove_first_expired q c = wheel_remove_first q \<and> \<not> wheel_is_empty q \<and> wheel_earliest_time q \<le> c"
    if some: "tw.due q c \<noteq> {}"
  proof -
    obtain a where "a \<in> tw.due q c" using some by blast
    then have a: "a \<in> wheel_queued q" "lvalue q a \<le> c" by (simp_all add: d)
    then have ne: "wheel_queued q \<noteq> {}" by auto
    moreover have "lvalue q ?n \<le> lvalue q a" using le [OF ne] a(1) by simp
    then have "lvalue q ?n \<le> c" using a(2) by (rule order_trans)
    moreover have "lvalue q ?n \<le> max_time" using le [OF ne] W(5) wheel_time_le_max by simp
    ultimately show ?thesis
      using F(1) [of c] F(1) [of max_time] F(3) wheel_empty_iff [OF W(2)] unfolding wheel_remove_first_def W(3) by simp
  qed
qed

lemma wheel_expire_loop_eq:
  assumes "inert f c g"
  shows "wheel_inv q L \<Longrightarrow> tw.sane q c \<Longrightarrow> remove_first_expired q c = (q1, n) \<Longrightarrow>
    wheel_expire_loop f c (q1, u) n k = expire_loop wheel_ops f c (q, u) k"
proof (induction "card (tw.due q c)" arbitrary: q q1 n u k)
  case 0
  have "finite (tw.due q c)" using tw.finite_queued [OF 0(2)] by (simp add: tw.due_def)
  with 0(1) have none: "tw.due q c = {}" by simp
  obtain q2 r where d: "dispatch_info_i wheel_ops q c = (q2, r)" by fastforce
  have "r = None"
    using d tw.dispatch_some [OF 0(2) _ 0(3), of q2] none by (cases r) (auto simp: tw.dispatched_def)
  with d tw.dispatch_none(1) [OF 0(2)] have d': "dispatch_info_i wheel_ops q c = (q, None)" by auto
  have "q1 = q" "n = NULL" using remove_first_expired_due(1) [OF 0(2) none] 0(4) by auto
  moreover have "expire_loop wheel_ops f c (q, u) k = Some ((q, u), k)"
    by (subst tw.expire_loop_unfold [OF assms]) (simp add: d')
  moreover have "wheel_expire_loop f c (q, u) NULL k = Some ((q, u), k)"
    by (subst wheel_expire_loop.simps) simp
  ultimately show ?case by simp
next
  case (Suc m)
  have ne: "tw.due q c \<noteq> {}" using Suc(2) by auto
  note R = remove_first_expired_due(2) [OF Suc(3) ne]
  have rf: "wheel_remove_first q = (q1, n)" using R Suc(5) by simp
  define info q2 where "info = get_dispatch_info (fl_nodes q1 n)"
    and "q2 = (if nd_interval (fl_nodes q1 n) > zero_time
        then wheel_reschedule (q1\<lparr>fl_nodes := (fl_nodes q1)
               (n := recompute_next_abs_interval_time (fl_nodes q1 n) c)\<rparr>) n
        else wheel_free_node q1 n)"
  have d: "dispatch_info_i wheel_ops q c = (q2, Some info)"
    using R rf by (simp add: dispatch_info_i_def Let_def info_def q2_def)
  from tw.dispatch_some [OF Suc(3) d Suc(4)] obtain b where b: "tw.dispatched q c q2 b" "wheel_inv q2 L" by auto
  note D = tw.dispatched_due [OF b(1) Suc(4)]
  have "finite (tw.due q c)" "b \<in> tw.due q c"
    using tw.finite_queued [OF Suc(3)] b(1) by (auto simp: tw.due_def tw.dispatched_def)
  then have card: "m = card (tw.due q2 c)" using Suc(2) D(1) by simp
  have nz: "n \<noteq> NULL"
    using R Suc(5) wheel_remove_first_inv(7) [OF Suc(3) _ _ Suc(5)] ne by (auto simp: tw.due_def)
  obtain q4 n' where n': "remove_first_expired q2 c = (q4, n')" by fastforce
  have "(let (s1, upcall_act) = fn_preinvoke f info c (q2, u); s2 = fn_timeout f info c s1;
           s3 = fn_postinvoke f info c upcall_act s2; (q4, n') = remove_first_expired (fst s3) c
         in wheel_expire_loop f c (q4, snd s3) n' (k + 1)) = wheel_expire_loop f c (q4, g info u) n' (k + 1)"
    using assms n' by (auto simp: inert_def upcall_effect_def Let_def split: prod.splits)
  then have "wheel_expire_loop f c (q1, u) n k = wheel_expire_loop f c (q4, g info u) n' (k + 1)"
    using nz by (subst wheel_expire_loop.simps) (simp add: Let_def info_def q2_def)
  also have "\<dots> = expire_loop wheel_ops f c (q2, g info u) (k + 1)"
    by (rule Suc(1) [OF card b(2) D(2) n'])
  also have "\<dots> = expire_loop wheel_ops f c (q, u) k"
    using tw.expire_loop_unfold [OF assms, of q u k] by (simp add: d)
  finally show ?case .
qed

lemma wheel_expire_eq:
  assumes "inert f c g" "wheel_inv q L" "tw.sane q c"
  shows "wheel_expire f c (q, u) = expire wheel_ops f c (q, u)"
proof -
  obtain q1 n where r: "remove_first_expired q c = (q1, n)" by fastforce
  note E = wheel_expire_loop_eq [OF assms r, of u 0]
  show ?thesis
  proof (cases "wheel_is_empty q")
    case True
    then have "tw.due q c = {}" using tw.is_empty [OF assms(2)] by (auto simp: tw.due_def)
    with remove_first_expired_due(1) [OF assms(2) this] True show ?thesis
      by (simp add: wheel_expire_def expire_def) (subst wheel_expire_loop.simps, simp)
  qed (use E r in \<open>simp add: wheel_expire_def expire_def\<close>)
qed

lemma recompute_in_range:
  assumes "wheel_time_ok (nd_timer_value nd)" "tv_normal (nd_interval nd)" "tv_normal c"
    and "nd_timer_value nd \<le> c" "nd_interval nd > zero_time"
    and "tv_total (nd_interval nd) < 2 ^ 64" "tv_total c - tv_total (nd_timer_value nd) < 2 ^ 64"
    and "(tv_total c + tv_total (nd_interval nd)) div 1000 < 2 ^ 63"
  shows "wheel_time_ok (nd_timer_value (recompute_next_abs_interval_time nd c))"
proof -
  let ?t = "nd_timer_value (recompute_next_abs_interval_time nd c)" and ?i = "tv_total (nd_interval nd)"
  have n: "tv_normal (nd_timer_value nd)" "0 \<le> tv_total (nd_timer_value nd)" using assms(1) by (auto simp: wheel_time_ok_def)
  have i: "0 < ?i" using assms(2,5) by (simp add: tv_less_total)
  have le: "tv_total (nd_timer_value nd) \<le> tv_total c" using assms(3,4) n by (simp add: tv_le_total)
  have t: "tv_total ?t = tv_total c + (?i - (tv_total c - tv_total (nd_timer_value nd)) mod ?i)"
    using recompute_total [OF n(1) assms(3,4) i assms(6,7)] i le by (simp add: skip_intervals_closed)
  have "0 \<le> (tv_total c - tv_total (nd_timer_value nd)) mod ?i" "(tv_total c - tv_total (nd_timer_value nd)) mod ?i < ?i"
    using i by simp_all
  then have b: "tv_total ?t \<le> tv_total c + ?i" "0 \<le> tv_total ?t" using t n le by linarith+
  have "tv_total ?t div 1000 \<le> (tv_total c + ?i) div 1000" using b by (intro zdiv_mono1) auto
  then show ?thesis
    using b(2) assms(8) recompute_later(2) [OF n(1) assms(2-7)] by (simp add: wheel_time_ok_def)
qed

section \<open>Timer ids\<close>

lemma push_or_add:
  assumes "0 \<le> (s :: int)" "s < 2 ^ b"
  shows "push_bit b c OR s = c * 2 ^ b + s"
proof -
  have "s = take_bit b s" using assms by (simp add: take_bit_int_eq_self)
  moreover have "push_bit b c AND take_bit b s = 0" by (rule bit_eqI) (auto simp: bit_simps)
  ultimately have "push_bit b c AND s = 0" by metis
  then show ?thesis by (simp add: disjunctive_add_eq_or [symmetric] push_bit_eq_mult)
qed

text \<open>The id before it is cut to a \<open>long\<close>: the counter above the spoke.\<close>

definition wide_id :: "'t timer_wheel \<Rightarrow> int \<Rightarrow> nat \<Rightarrow> int" where
  "wide_id q c s = c * 2 ^ tw_spoke_bits q + int s"

lemma wide_id_bounds:
  assumes "wheel_shape q" "0 \<le> c" "c < max_cnt q" "s < tw_spoke_count q"
  shows "0 \<le> wide_id q c s" "wide_id q c s < 2 ^ 64 - 1" "make_id q c s = signed_take_bit 63 (wide_id q c s)"
proof -
  let ?b = "tw_spoke_bits q"
  have s: "int s < 2 ^ ?b" using assms(1,4) by (simp add: wheel_shape_def)
  show "0 \<le> wide_id q c s" using assms(2) by (simp add: wide_id_def)
  have p: "(2 :: int) ^ (64 - ?b) * 2 ^ ?b = 2 ^ 64" using assms(1) by (simp add: power_add [symmetric] wheel_shape_def)
  have "(c + 1) * 2 ^ ?b \<le> max_cnt q * 2 ^ ?b" using assms(3) by (intro mult_right_mono) auto
  also have "\<dots> = 2 ^ 64 - 2 ^ ?b" unfolding max_cnt_def left_diff_distrib p by simp
  finally have "c * 2 ^ ?b + 2 ^ ?b \<le> 2 ^ 64 - 2 ^ ?b" by (simp only: distrib_right mult_1)
  moreover have "(1 :: int) \<le> 2 ^ ?b" by simp
  ultimately show "wide_id q c s < 2 ^ 64 - 1" using s unfolding wide_id_def by linarith
  show "make_id q c s = signed_take_bit 63 (wide_id q c s)"
    using s by (simp add: make_id_def to_long_def push_or_add wide_id_def)
qed

lemma signed_inj:
  assumes "signed_take_bit 63 x = signed_take_bit 63 y" "0 \<le> x" "x < 2 ^ 64" "0 \<le> y" "y < (2 :: int) ^ 64"
  shows "x = y"
  using assms by (simp add: signed_take_bit_eq_iff_take_bit_eq take_bit_int_eq_self)

lemma make_id_inj:
  assumes "wheel_shape q" "0 \<le> c" "c < max_cnt q" "s < tw_spoke_count q"
    and "0 \<le> c'" "c' < max_cnt q" "s' < tw_spoke_count q" "make_id q c s = make_id q c' s'"
  shows "c = c' \<and> s = s'"
proof -
  note A = wide_id_bounds [OF assms(1-4)] and B = wide_id_bounds [OF assms(1,5-7)]
  have w: "wide_id q c s = wide_id q c' s'"
    by (rule signed_inj) (use assms(8) A B less_trans [of _ "2 ^ 64 - 1" "2 ^ 64 :: int"] in simp_all)
  have "int s < 2 ^ tw_spoke_bits q" "int s' < 2 ^ tw_spoke_bits q"
    using assms(1,4,7) by (simp_all add: wheel_shape_def)
  then have "wide_id q c s div 2 ^ tw_spoke_bits q = c" "wide_id q c' s' div 2 ^ tw_spoke_bits q = c'"
    by (simp_all add: wide_id_def)
  then have "c = c'" using w by metis
  then show ?thesis using w by (simp add: wide_id_def)
qed

lemma make_id_valid:
  assumes "wheel_shape q" "0 \<le> c" "c < max_cnt q" "s < tw_spoke_count q"
  shows "make_id q c s \<noteq> -1"
proof
  assume "make_id q c s = -1"
  moreover have "signed_take_bit 63 (2 ^ 64 - 1 :: int) = -1" by code_simp
  ultimately have "signed_take_bit 63 (wide_id q c s) = signed_take_bit 63 (2 ^ 64 - 1)"
    using wide_id_bounds(3) [OF assms] by (simp only:)
  moreover have "wide_id q c s < 2 ^ 64" by (rule less_trans [OF wide_id_bounds(2) [OF assms]]) simp
  ultimately have "wide_id q c s = 2 ^ 64 - 1"
    using wide_id_bounds(1) [OF assms] by (intro signed_inj [of _ "2 ^ 64 - 1"]) simp_all
  then show False using wide_id_bounds(2) [OF assms] by (simp only: less_irrefl)
qed

text \<open>While the counter has not run over, an id is the counter and the spoke, and the counter moves on.\<close>

lemma generate_timer_id_fresh:
  assumes "spoke < tw_spoke_count q" "nd_act (fl_nodes q (root_of q spoke)) = 0"
    and "lid q (root_of q spoke) < max_cnt q"
  shows "generate_timer_id q spoke =
    Some (set_root q (root_of q spoke) (lid q (root_of q spoke) + 1), make_id q (lid q (root_of q spoke)) spoke)"
proof -
  let ?r = "root_of q spoke"
  have "(fl_nodes q ?r)\<lparr>nd_act := 0\<rparr> = fl_nodes q ?r" using assms(2) by (cases "fl_nodes q ?r") simp
  then have same: "q\<lparr>fl_nodes := (fl_nodes q)(?r := (fl_nodes q ?r)\<lparr>nd_act := 0\<rparr>)\<rparr> = q"
    by (simp add: fun_upd_triv)
  have m: "push_bit (64 - tw_spoke_bits q) 1 - 1 = max_cnt q" by (simp add: max_cnt_def push_bit_eq_mult)
  show ?thesis
    using assms unfolding generate_timer_id_def Let_def same m by auto
qed

section \<open>Scheduling\<close>

lemma ids_ok_insert:
  assumes "ids_ok q A" "wheel_shape q" "i < tw_spoke_count q" "lid q (root_of q i) < max_cnt q" "wheel_same r q"
    and "n \<notin> A" "lid r n = make_id q (lid q (root_of q i)) i"
    and "\<And>a. a \<in> A \<Longrightarrow> lid r a = lid q a"
    and "\<And>s. s < tw_spoke_count q \<Longrightarrow> lid r (root_of q s) = lid q (root_of q s) + (if s = i then 1 else 0)"
    and "\<And>s. s < tw_spoke_count q \<Longrightarrow> nd_act (fl_nodes r (root_of q s)) = nd_act (fl_nodes q (root_of q s))"
  shows "ids_ok r (insert n A)" "\<forall>a \<in> A. lid q a \<noteq> lid r n"
proof -
  note S = wheel_same_cong [OF assms(5)]
  let ?c = "lid q (root_of q i)"
  have old: "\<exists>c s. s < tw_spoke_count q \<and> 0 \<le> c \<and> c < lid q (root_of q s) \<and> lid q a = make_id q c s" if "a \<in> A" for a
    using assms(1) that by (simp add: ids_ok_def)
  have roots: "0 \<le> lid q (root_of q s)" "lid q (root_of q s) \<le> max_cnt q" "nd_act (fl_nodes q (root_of q s)) = 0"
    if "s < tw_spoke_count q" for s
    using assms(1) that by (auto simp: ids_ok_def)
  show new: "\<forall>a \<in> A. lid q a \<noteq> lid r n"
  proof
    fix a assume "a \<in> A"
    then obtain c s where cs: "s < tw_spoke_count q" "0 \<le> c" "c < lid q (root_of q s)" "lid q a = make_id q c s"
      using old by blast
    have "\<not> (c = ?c \<and> s = i)" using cs(3) by auto
    then show "lid q a \<noteq> lid r n"
      unfolding assms(7) cs(4) using make_id_inj [OF assms(2) cs(2) _ cs(1) roots(1) [OF assms(3)] assms(4,3)]
        cs(3) roots(2) [OF cs(1)] by auto
  qed
  have "inj_on (lid r) A \<longleftrightarrow> inj_on (lid q) A" using assms(8) by (rule inj_on_cong)
  then have "inj_on (lid r) (insert n A)" using new assms(1,6,8) by (auto simp: ids_ok_def)
  moreover have "\<exists>c s. s < tw_spoke_count q \<and> 0 \<le> c \<and> c < lid r (root_of q s) \<and> lid r a = make_id q c s"
    if "a \<in> insert n A" for a
  proof (cases "a = n")
    case True
    then show ?thesis using assms(3,7,9) roots(1) by (intro exI [of _ ?c] exI [of _ i]) auto
  next
    case False
    then have a: "a \<in> A" using that by simp
    obtain c s where cs: "s < tw_spoke_count q" "0 \<le> c" "c < lid q (root_of q s)" "lid q a = make_id q c s"
      using old [OF a] by blast
    then show ?thesis using assms(8) [OF a] assms(9) by (intro exI [of _ c] exI [of _ s]) auto
  qed
  moreover have "0 \<le> lid r (root_of q s) \<and> lid r (root_of q s) \<le> max_cnt q \<and> nd_act (fl_nodes r (root_of q s)) = 0"
    if "s < tw_spoke_count q" for s
    using roots [OF that] assms(4,9,10) that by auto
  ultimately show "ids_ok r (insert n A)" unfolding ids_ok_def S by blast
qed

text \<open>A node from the free list that gets the next id of a spoke joins the nodes taken out.\<close>

lemma new_node_at:
  assumes "wheel_at q X L" "i < tw_spoke_count q" "lid q (root_of q i) < max_cnt q" "fl_remove q = (q1, n)"
    and "nd_timer_id nd = make_id q (lid q (root_of q i)) i"
  defines "q2 \<equiv> set_root q1 (root_of q i) (lid q (root_of q i) + 1)"
  defines "r \<equiv> q2\<lparr>fl_nodes := (fl_nodes q2)(n := nd)\<rparr>"
  shows "wheel_at r X (insert n L)" "wheel_same r q" "n \<notin> on_wheel q X \<union> L"
    and "\<forall>a \<in> on_wheel q X \<union> L. fl_nodes r a = fl_nodes q a \<and> lid q a \<noteq> make_id q (lid q (root_of q i)) i"
proof -
  have pre: "wheel_pre q X L" and eo: "earliest_ok q X" using assms(1) by (auto simp: wheel_at_def)
  have sh: "wheel_shape q" and ids: "ids_ok q (on_wheel q X \<union> L)" using pre by (auto simp: wheel_pre_def)
  have m: "fl_mode q \<noteq> ACE_PURE_FREE_LIST" "0 < fl_inc q" using sh by (auto simp: wheel_shape_def)
  let ?A = "set (tw_spokes q) \<union> (on_wheel q X \<union> L)" and ?h = "root_of q i"
  note h = roots_apart [OF pre assms(2)]
  obtain fs where fs: "fl_ok q fs ?A" using pre by (auto simp: wheel_pre_def)
  note A = fl_remove_correct [OF fs m assms(4)]
  note M = wheel_more [OF A(7,5,6)]
  have n: "n \<notin> ?A" by (rule A(2))
  then show "n \<notin> on_wheel q X \<union> L" by simp
  have N: "fl_nodes r a = (if a = ?h then (fl_nodes q a)\<lparr>nd_timer_id := lid q a + 1\<rparr> else fl_nodes q a)" if "a \<in> ?A" for a
    using that n A(4) [of ?h] h(2) A(4) [OF that] by (auto simp: r_def q2_def set_root_def)
  show same: "wheel_same r q" using M by (simp add: r_def q2_def set_root_def wheel_same_def)
  have t: "tw_earliest_spoke r = tw_earliest_spoke q" "tw_timer_count r = tw_timer_count q" "lid r n = make_id q (lid q ?h) i"
    using M assms(5) by (simp_all add: r_def q2_def set_root_def)
  note C = wheel_same_cong [OF same]
  have E: "fl_nodes r a = fl_nodes q a" if "a \<in> on_wheel q X \<union> L" for a using N [of a] that h(1) by auto
  have "lid r (root_of q s) = lid q (root_of q s) + (if s = i then 1 else 0)"
    "nd_act (fl_nodes r (root_of q s)) = nd_act (fl_nodes q (root_of q s))" if "s < tw_spoke_count q" for s
    using N [of "root_of q s"] roots_apart(2) [OF pre that] h(3) [OF that] by auto
  then have I: "ids_ok r (insert n (on_wheel q X \<union> L))" "\<forall>a \<in> on_wheel q X \<union> L. lid q a \<noteq> lid r n"
    using ids_ok_insert [OF ids sh assms(2,3) same, of n] n t(3) E by auto
  then show "\<forall>a \<in> on_wheel q X \<union> L. fl_nodes r a = fl_nodes q a \<and> lid q a \<noteq> make_id q (lid q ?h) i"
    using E t(3) by simp
  have "spoke_ok r j (X j)" if "j < tw_spoke_count q" for j
    using N in_wheel [OF that, of _ X] roots_apart(2) [OF pre that]
    by (intro spoke_ok_frame [OF spoke_at [OF pre that] same]) auto
  moreover have "\<exists>gs. fl_ok r gs (set (tw_spokes q) \<union> (on_wheel q X \<union> insert n L))"
  proof -
    obtain gs where gs: "fl_ok q1 gs (insert n ?A)" using A(3) by blast
    have "chain (nxt r) (fl_free_list q1) gs \<longleftrightarrow> chain (nxt q1) (fl_free_list q1) gs"
      using gs h(2) by (intro chain_cong) (auto simp: r_def q2_def set_root_def fl_ok_def)
    then have "fl_ok r gs (insert n ?A)" using gs by (simp add: fl_ok_def r_def q2_def set_root_def)
    moreover have "insert n ?A = set (tw_spokes q) \<union> (on_wheel q X \<union> insert n L)" by auto
    ultimately show ?thesis by metis
  qed
  moreover have "wheel_shape r" using C(7) sh t(1) by (simp add: wheel_shape_def)
  moreover have "on_wheel q X \<inter> insert n L = {}" "set (tw_spokes q) \<inter> (on_wheel q X \<union> insert n L) = {}"
    "on_wheel q X \<union> insert n L = insert n (on_wheel q X \<union> L)"
    using pre n by (auto simp: wheel_pre_def)
  ultimately have "wheel_pre r X (insert n L)" using I(1) pre t(2) unfolding wheel_pre_def C(2,5,6) by simp
  moreover have "earliest_ok r X" using E by (intro earliest_ok_frame [OF pre eo same t(1)]) auto
  ultimately show "wheel_at r X (insert n L)" by (simp add: wheel_at_def)
qed

lemma wheel_schedule_i_at:
  assumes "wheel_at q X L" "wheel_time_ok t"
  defines "i \<equiv> calculate_spoke q t"
  assumes "lid q (root_of q i) < max_cnt q"
  defines "k \<equiv> make_id q (lid q (root_of q i)) i"
  shows "\<exists>n q'. wheel_schedule_i q type act t interval = Some (q', k) \<and> n \<notin> on_wheel q X \<union> L \<and>
    wheel_at q' (X(i := filter (\<lambda>a. lvalue q a \<le> t) (X i) @ n # filter (\<lambda>a. \<not> lvalue q a \<le> t) (X i))) L \<and>
    entry (fl_nodes q' n) = (type, act, t, interval, k) \<and> wheel_same q' q \<and> i < tw_spoke_count q \<and>
    (\<forall>a \<in> on_wheel q X \<union> L. entry (fl_nodes q' a) = entry (fl_nodes q a) \<and> lid q a \<noteq> k)"
proof -
  have pre: "wheel_pre q X L" using assms(1) by (simp add: wheel_at_def)
  have sh: "wheel_shape q" and ids: "ids_ok q (on_wheel q X \<union> L)" using pre by (auto simp: wheel_pre_def)
  have i: "i < tw_spoke_count q" unfolding i_def by (rule calculate_spoke_less [OF sh assms(2)])
  let ?h = "root_of q i"
  have h: "?h \<in> set (tw_spokes q)" "0 \<le> lid q ?h" "nd_act (fl_nodes q ?h) = 0"
    using roots_apart(2) [OF pre i] ids i by (auto simp: ids_ok_def)
  obtain q1 n where al: "fl_remove q = (q1, n)" by fastforce
  obtain fs where fs: "fl_ok q fs (set (tw_spokes q) \<union> (on_wheel q X \<union> L))" "fl_mode q \<noteq> ACE_PURE_FREE_LIST" "0 < fl_inc q"
    using pre by (auto simp: wheel_pre_def wheel_shape_def)
  note A = fl_remove_correct [OF fs al]
  note C = wheel_same_cong [OF wheel_more(1) [OF A(7,5,6)]]
  define q2 where "q2 = set_root q1 ?h (lid q ?h + 1)"
  define nd where "nd = node_set_dll type act t interval NULL NULL k (fl_nodes q2 n)"
  define q3 where "q3 = q2\<lparr>fl_nodes := (fl_nodes q2)(n := nd)\<rparr>"
  have "nd_timer_id nd = make_id q (lid q ?h) i" by (simp add: nd_def node_set_dll_def k_def)
  note N = new_node_at [OF assms(1) i assms(4) al this, folded q2_def, folded q3_def]
  have "generate_timer_id q1 i = Some (q2, k)"
    using generate_timer_id_fresh [of i q1] i h assms(4) A(4) [of ?h] by (simp add: C q2_def k_def)
  moreover have "k \<noteq> -1" unfolding k_def by (rule make_id_valid [OF sh h(2) assms(4) i])
  ultimately have res: "wheel_schedule_i q type act t interval = Some (wheel_schedule_node q3 n i t, k)"
    using A(1) al C(1) by (simp add: wheel_schedule_i_def wheel_alloc_node_def Let_def i_def q3_def nd_def)
  have n3: "lvalue q3 n = t" "entry (fl_nodes q3 n) = (type, act, t, interval, k)"
    by (simp_all add: q3_def nd_def node_set_dll_def entry_def)
  have S: "wheel_at (wheel_schedule_node q3 n i t) (X(i := insort_spoke q3 n (X i))) L"
      "\<And>a. entry (fl_nodes (wheel_schedule_node q3 n i t) a) = entry (fl_nodes q3 a)"
      "wheel_same (wheel_schedule_node q3 n i t) q3"
    using wheel_schedule_node_correct [OF N(1)] N(3) n3(1) assms(2) wheel_same_cong(1) [OF N(2)] by (auto simp: i_def)
  have "insort_spoke q3 n (X i) = filter (\<lambda>a. lvalue q a \<le> t) (X i) @ n # filter (\<lambda>a. \<not> lvalue q a \<le> t) (X i)"
    unfolding insort_spoke_def n3(1) using N(4) in_wheel [OF i, of _ X]
    by (intro arg_cong2 [of _ _ _ _ "(@)"] arg_cong2 [of _ _ _ _ "(#)"] refl filter_cong) auto
  moreover have "wheel_same (wheel_schedule_node q3 n i t) q" using S(3) N(2) by (simp add: wheel_same_def)
  ultimately show ?thesis
    using res S N(3,4) n3(2) i by (intro exI [of _ n] exI [of _ "wheel_schedule_node q3 n i t"]) (auto simp: k_def)
qed

end
