(* ===== verification/ACE_Timer_Wheel_Cancel.thy ===== *)
theory ACE_Timer_Wheel_Cancel
  imports ACE_Timer_Wheel_Correct
begin

text \<open>
  Finding a timer of the wheel by its id, and cancelling by id and by type.
\<close>

section \<open>Finding a node by its id\<close>

lemma spoke_find_seg:
  "seg (nxt q) (prv q) p xs h \<Longrightarrow> h \<notin> set xs \<Longrightarrow> length xs < fuel \<Longrightarrow>
   spoke_find q h k fuel (nxt q p) = (case find (\<lambda>a. lid q a = k) xs of None \<Rightarrow> NULL | Some a \<Rightarrow> a)"
proof (induction xs arbitrary: p fuel)
  case Nil
  then show ?case by (cases fuel) auto
next
  case (Cons x xs)
  then show ?case by (cases fuel) auto
qed

lemma find_spoke_node_at:
  fixes k :: int
  assumes "wheel_pre q X L" "i < tw_spoke_count q"
  defines "r \<equiv> find_spoke_node q i k"
  shows "r = NULL \<and> (\<forall>a \<in> set (X i). lid q a \<noteq> k) \<or> r \<noteq> NULL \<and> r \<in> set (X i) \<and> lid q r = k"
proof -
  have R: "ring (nxt q) (prv q) (root_of q i) (X i)" using spoke_at [OF assms(1,2)] by (simp add: spoke_ok_def)
  have r: "r = (case find (\<lambda>a. lid q a = k) (X i) of None \<Rightarrow> NULL | Some a \<Rightarrow> a)"
    using R spoke_length [OF assms(1,2)] spoke_find_seg [of q "root_of q i" "X i" "root_of q i" "fl_brk q" k]
    by (auto simp: r_def find_spoke_node_def ring_def)
  have nz: "NULL \<notin> set (X i)"
    using wheel_nodes_in_store(1) [OF assms(1)] in_wheel [OF assms(2), of NULL X] by auto
  show ?thesis
  proof (cases "find (\<lambda>a. lid q a = k) (X i)")
    case None
    then have "\<forall>a \<in> set (X i). lid q a \<noteq> k" unfolding find_None_iff by auto
    then show ?thesis using None r by simp
  next
    case (Some a)
    then have "a \<in> set (X i)" "lid q a = k" by (auto simp: find_Some_iff)
    then show ?thesis using Some r nz by auto
  qed
qed

lemma find_rest_at:
  fixes k :: int and start :: nat
  assumes "wheel_pre q X L" "\<forall>i \<in> set is. i < tw_spoke_count q"
  defines "r \<equiv> find_rest q k start is"
  shows "r = NULL \<and> (\<forall>i \<in> set is - {start}. \<forall>a \<in> set (X i). lid q a \<noteq> k) \<or>
    r \<noteq> NULL \<and> r \<in> on_wheel q X \<and> lid q r = k"
  using assms(2) unfolding r_def
proof (induction "is")
  case (Cons i "is")
  have i: "i < tw_spoke_count q" using Cons.prems by simp
  show ?case
    using Cons find_spoke_node_at [OF assms(1) i, of k] in_wheel [OF i, of _ X] by (auto simp: Let_def)
qed simp

lemma wheel_find_node_at:
  assumes "wheel_pre q X L"
  shows "wheel_find_node q k = NULL \<longleftrightarrow> (\<forall>a \<in> on_wheel q X. lid q a \<noteq> k)"
    and "a \<in> on_wheel q X \<Longrightarrow> lid q a = k \<Longrightarrow> wheel_find_node q k = a"
proof -
  have sh: "wheel_shape q" and ids: "ids_ok q (on_wheel q X \<union> L)" using assms by (auto simp: wheel_pre_def)
  let ?start = "nat (k AND (int (tw_spoke_count q) - 1))"
  have "int (tw_spoke_count q) - 1 = mask (tw_spoke_bits q)"
    using sh by (simp add: wheel_shape_def mask_eq_exp_minus_1)
  then have "k AND (int (tw_spoke_count q) - 1) = k mod 2 ^ tw_spoke_bits q"
    by (simp add: take_bit_eq_mask [symmetric] take_bit_eq_mod)
  then have st: "?start < tw_spoke_count q" using sh by (simp add: wheel_shape_def nat_less_iff)
  have valid: "lid q a \<noteq> -1" if a: "a \<in> on_wheel q X" for a
  proof -
    obtain c s where "s < tw_spoke_count q" "0 \<le> c" "c < lid q (root_of q s)" "lid q a = make_id q c s"
      "lid q (root_of q s) \<le> max_cnt q"
      using ids a unfolding ids_ok_def by blast
    then show ?thesis using make_id_valid [OF sh, of c s] by simp
  qed
  have on: "\<exists>i < tw_spoke_count q. a \<in> set (X i)" if "a \<in> on_wheel q X" for a using that by (auto simp: on_wheel_def)
  have find: "wheel_find_node q k = NULL \<and> (\<forall>a \<in> on_wheel q X. lid q a \<noteq> k) \<or>
      wheel_find_node q k \<noteq> NULL \<and> wheel_find_node q k \<in> on_wheel q X \<and> lid q (wheel_find_node q k) = k"
  proof (cases "k = -1")
    case True
    then show ?thesis using valid by (auto simp: wheel_find_node_def)
  next
    case k: False
    note S = find_spoke_node_at [OF assms st, of k]
      and T = find_rest_at [OF assms, of "[0..<tw_spoke_count q]" k ?start]
    show ?thesis
    proof (cases "find_spoke_node q ?start k = NULL")
      case True
      then have w: "wheel_find_node q k = find_rest q k ?start [0..<tw_spoke_count q]"
        using k by (simp add: wheel_find_node_def Let_def)
      have "\<forall>a \<in> on_wheel q X. lid q a \<noteq> k" if "\<forall>i \<in> set [0..<tw_spoke_count q] - {?start}. \<forall>a \<in> set (X i). lid q a \<noteq> k"
        using that S True on by (metis DiffI atLeastLessThan_iff le0 set_upt singletonD)
      then show ?thesis using T unfolding w by auto
    next
      case False
      then have "wheel_find_node q k = find_spoke_node q ?start k" using k by (simp add: wheel_find_node_def Let_def)
      then show ?thesis using S False in_wheel [OF st, of _ X] by auto
    qed
  qed
  then show "wheel_find_node q k = NULL \<longleftrightarrow> (\<forall>a \<in> on_wheel q X. lid q a \<noteq> k)" by auto
  have "inj_on (lid q) (on_wheel q X)" using ids inj_on_subset by (auto simp: ids_ok_def)
  then show "a \<in> on_wheel q X \<Longrightarrow> lid q a = k \<Longrightarrow> wheel_find_node q k = a"
    using find by (auto dest: inj_onD)
qed

section \<open>Cancelling\<close>

lemma wheel_cancel_i_correct:
  assumes "wheel_pre q X L" "i < tw_spoke_count q" "X i = ys @ n # zs"
  defines "r \<equiv> wheel_cancel_i q n"
  shows "wheel_pre r (X(i := ys @ zs)) L" "entry (fl_nodes r a) = entry (fl_nodes q a)"
    and "wheel_same r q" "tw_earliest_spoke r = tw_earliest_spoke q" "fl_brk r = fl_brk q"
proof -
  note U = wheel_unlink_correct [OF assms(1-3)]
  have "n \<in> insert n L" by simp
  note F = wheel_free_node_pre [OF U(1) this]
  have "n \<notin> L" using assms(1,3) in_wheel [OF assms(2), of n X] by (auto simp: wheel_pre_def)
  then have "insert n L - {n} = L" by simp
  then show "wheel_pre r (X(i := ys @ zs)) L" "entry (fl_nodes r a) = entry (fl_nodes q a)"
    "wheel_same r q" "tw_earliest_spoke r = tw_earliest_spoke q" "fl_brk r = fl_brk q"
    using U F by (simp_all add: r_def wheel_cancel_i_def wheel_same_def)
qed

lemma wheel_pre_cong:
  assumes "wheel_pre q X L" "\<And>i. i < tw_spoke_count q \<Longrightarrow> Y i = X i"
  shows "wheel_pre q Y L"
proof -
  have "on_wheel q Y = on_wheel q X" using assms(2) by (auto simp: on_wheel_def)
  moreover have "(\<Sum>i<tw_spoke_count q. length (Y i)) = (\<Sum>i<tw_spoke_count q. length (X i))"
    using assms(2) by (intro sum.cong) auto
  ultimately show ?thesis using assms by (simp add: wheel_pre_def)
qed

lemma recalc_frame:
  "wheel_same (recalc_earliest q l) q" "fl_nodes (recalc_earliest q l) = fl_nodes q"
proof -
  have "\<exists>e. recalc_loop k q l spoke et es = q\<lparr>tw_earliest_spoke := e\<rparr>" for k spoke et es
    by (induction k arbitrary: spoke et es) (auto simp: Let_def)
  then have "\<exists>e. recalc_earliest q l = q\<lparr>tw_earliest_spoke := e\<rparr>"
    unfolding recalc_earliest_def by (metis timer_wheel.surjective timer_wheel.update_convs(5))
  then show "wheel_same (recalc_earliest q l) q" "fl_nodes (recalc_earliest q l) = fl_nodes q"
    by (auto simp: wheel_same_def)
qed

text \<open>After some nodes are removed, the first node has to be found again only if it is one of them.\<close>

lemma wheel_removed:
  assumes "wheel_at q X L" "on_wheel q X \<noteq> {}" "wheel_pre r (\<lambda>i. filter P (X i)) L" "wheel_same r q"
    and "tw_earliest_spoke r = tw_earliest_spoke q" "\<And>a. entry (fl_nodes r a) = entry (fl_nodes q a)"
  defines "first \<equiv> hd (X (tw_earliest_spoke q))"
  shows "wheel_at (if P first then r else recalc_earliest r (lvalue q first)) (\<lambda>i. filter P (X i)) L"
    and "on_wheel r (\<lambda>i. filter P (X i)) = {a \<in> on_wheel q X. P a}"
proof -
  let ?Y = "\<lambda>i. filter P (X i)" and ?e = "tw_earliest_spoke q"
  have pre: "wheel_pre q X L" and eo: "earliest_ok q X" using assms(1) by (auto simp: wheel_at_def)
  show w: "on_wheel r ?Y = {a \<in> on_wheel q X. P a}"
    unfolding wheel_same_cong(2) [OF assms(4)] by (auto simp: on_wheel_def)
  have ne: "X ?e \<noteq> []" and least: "\<forall>a \<in> on_wheel q X. lvalue q first \<le> lvalue q a"
    using eo assms(2) by (auto simp: earliest_ok_def first_def)
  note V = entry_cong(3) [OF assms(6)] and H = head_ok [OF pre earliest_in_range [OF pre] ne, folded first_def]
  show "wheel_at (if P first then r else recalc_earliest r (lvalue q first)) ?Y L"
  proof (cases "P first")
    case True
    then have "?Y ?e \<noteq> []" "hd (?Y ?e) = first" using ne by (cases "X ?e"; simp add: first_def)+
    then have "earliest_ok r ?Y" using least unfolding earliest_ok_def w assms(5) V by auto
    then show ?thesis using True assms(3) by (simp add: wheel_at_def)
  next
    case False
    have "\<forall>a \<in> on_wheel r ?Y. lvalue q first \<le> lvalue r a" using least unfolding w V by auto
    moreover have "calculate_spoke r (lvalue q first) = tw_earliest_spoke r"
      using H(2) wheel_same_cong(1) [OF assms(4)] assms(5) by simp
    ultimately show ?thesis using recalc_earliest_correct(1) [OF assms(3) H(1)] False by simp
  qed
qed

lemma wheel_cancel_at:
  assumes "wheel_at q X L" "n \<in> on_wheel q X" "lid q n = timer_id"
  shows "\<exists>q'. wheel_cancel f (q, u) timer_id skip_close =
      ((q', let (u1, cookie) = fn_cancel_type f (nd_type (fl_nodes q n)) skip_close 0 u
            in fn_cancel_timer f (nd_type (fl_nodes q n)) skip_close cookie u1),
       Some (nd_act (fl_nodes q n)), 1) \<and>
    wheel_at q' (\<lambda>i. filter (\<lambda>a. a \<noteq> n) (X i)) L \<and> on_wheel q' (\<lambda>i. filter (\<lambda>a. a \<noteq> n) (X i)) = on_wheel q X - {n} \<and>
    wheel_same q' q \<and> (\<forall>a. entry (fl_nodes q' a) = entry (fl_nodes q a))"
proof -
  have pre: "wheel_pre q X L" and eo: "earliest_ok q X" using assms(1) by (auto simp: wheel_at_def)
  obtain i where i: "i < tw_spoke_count q" "n \<in> set (X i)" using assms(2) by (auto simp: on_wheel_def)
  then obtain ys zs where X: "X i = ys @ n # zs" by (meson split_list)
  let ?Y = "\<lambda>i. filter (\<lambda>a. a \<noteq> n) (X i)" and ?r = "wheel_cancel_i q n" and ?first = "hd (X (tw_earliest_spoke q))"
  note C = wheel_cancel_i_correct [OF pre i(1) X]
  have d: "distinct (ys @ n # zs)" using spoke_at [OF pre i(1)] X by (simp add: spoke_ok_def ring_def)
  have "?Y j = (X(i := ys @ zs)) j" if "j < tw_spoke_count ?r" for j
  proof (cases "j = i")
    case True
    have "filter (\<lambda>a. a \<noteq> n) ys = ys" "filter (\<lambda>a. a \<noteq> n) zs = zs" using d by (auto simp: filter_id_conv)
    then show ?thesis using True X by simp
  next
    case False
    then have "n \<notin> set (X j)"
      using spokes_disjoint [OF pre i(1), of j] that i(2) wheel_same_cong(6) [OF C(3)] by auto
    then show ?thesis using False by (auto simp: filter_id_conv)
  qed
  then have p: "wheel_pre ?r ?Y L" by (rule wheel_pre_cong [OF C(1)])
  have ne: "on_wheel q X \<noteq> {}" "X (tw_earliest_spoke q) \<noteq> []" using assms(2) eo by (auto simp: earliest_ok_def)
  note R = wheel_removed [OF assms(1) ne(1) p C(3,4,2)]
  let ?q = "if ?first \<noteq> n then ?r else recalc_earliest ?r (lvalue q ?first)"
  have f: "wheel_find_node q timer_id = n" "n \<noteq> NULL" "get_first_i q = n \<longleftrightarrow> ?first = n"
    using wheel_find_node_at(2) [OF pre assms(2,3)] wheel_nodes_in_store(1) [OF pre] assms(2)
      get_first_at(1) [OF pre] ne(2) by auto
  have run: "wheel_cancel f (q, u) timer_id skip_close =
      ((?q, let (u1, cookie) = fn_cancel_type f (nd_type (fl_nodes q n)) skip_close 0 u
            in fn_cancel_timer f (nd_type (fl_nodes q n)) skip_close cookie u1), Some (nd_act (fl_nodes q n)), 1)"
    using f by (auto simp: wheel_cancel_def Let_def case_prod_unfold)
  have rs: "wheel_same ?q ?r \<and> fl_nodes ?q = fl_nodes ?r" using recalc_frame [of ?r] by (simp add: wheel_same_def)
  then have same: "wheel_same ?q q" using C(3) by (simp add: wheel_same_def)
  have "on_wheel ?q ?Y = on_wheel q X - {n}"
    using R(2) wheel_same_cong(2) [OF same] wheel_same_cong(2) [OF C(3)] by auto
  then show ?thesis using run R(1) same rs C(2) by (intro exI [of _ ?q]) simp
qed

text \<open>What cancelling by type keeps besides the spokes.\<close>

definition kept :: "'t timer_wheel \<Rightarrow> 't timer_wheel \<Rightarrow> bool" where
  "kept r q \<longleftrightarrow> wheel_same r q \<and> tw_earliest_spoke r = tw_earliest_spoke q \<and> fl_brk r = fl_brk q \<and>
     (\<forall>a. entry (fl_nodes r a) = entry (fl_nodes q a))"

lemma kept_cong:
  assumes "kept r q"
  shows "nd_type (fl_nodes r a) = nd_type (fl_nodes q a)" "root_of r i = root_of q i" "fl_brk r = fl_brk q"
    and "tw_spoke_count r = tw_spoke_count q" "kept r' r \<Longrightarrow> kept r' q"
  using assms entry_cong(1) [of "fl_nodes r a" "fl_nodes q a"] by (auto simp: kept_def wheel_same_def)

lemma kept_refl: "kept q q"
  by (simp add: kept_def wheel_same_def)

lemma cancel_type_spoke_at:
  "wheel_pre q (X(i := ys @ zs)) L \<Longrightarrow> i < tw_spoke_count q \<Longrightarrow> length zs < fuel \<Longrightarrow>
   cancel_type_spoke fuel q type (root_of q i) first (hd (zs @ [root_of q i])) k rc = (q', k', rc') \<Longrightarrow>
   wheel_pre q' (X(i := ys @ filter (\<lambda>a. nd_type (fl_nodes q a) \<noteq> type) zs)) L \<and>
   k' = k + length (filter (\<lambda>a. nd_type (fl_nodes q a) = type) zs) \<and>
   (rc' \<longleftrightarrow> rc \<or> first \<in> set zs \<and> nd_type (fl_nodes q first) = type) \<and> kept q' q"
proof (induction zs arbitrary: q ys fuel k rc)
  case Nil
  then show ?case by (cases fuel) (auto simp: kept_refl)
next
  case (Cons z zs)
  obtain f where f: "fuel = Suc f" using Cons.prems by (cases fuel) auto
  let ?X = "X(i := ys @ z # zs)"
  have R: "ring (nxt q) (prv q) (root_of q i) (ys @ z # zs)"
    using spoke_at [OF Cons.prems(1,2)] by (simp add: spoke_ok_def)
  have z: "z \<noteq> root_of q i" "nxt q z = hd (zs @ [root_of q i])"
    using R ring_neighbours(2) [OF R] by (auto simp: ring_def)
  show ?case
  proof (cases "nd_type (fl_nodes q z) = type")
    case True
    let ?r = "wheel_cancel_i q z"
    have "?X i = ys @ z # zs" by simp
    note C = wheel_cancel_i_correct [OF Cons.prems(1,2) this]
    have kr: "kept ?r q" using C by (simp add: kept_def)
    note K = kept_cong [OF kr]
    have p: "wheel_pre ?r (X(i := ys @ zs)) L" using C(1) unfolding fun_upd_upd .
    have "cancel_type_spoke f ?r type (root_of ?r i) first (hd (zs @ [root_of ?r i])) (k + 1) (rc \<or> z = first) = (q', k', rc')"
      using Cons.prems(4) f z True K(2) by simp
    note IH = Cons.IH [OF p _ _ this]
    have "wheel_pre q' (X(i := ys @ filter (\<lambda>a. nd_type (fl_nodes q a) \<noteq> type) zs)) L \<and>
       k' = k + 1 + length (filter (\<lambda>a. nd_type (fl_nodes q a) = type) zs) \<and>
       (rc' \<longleftrightarrow> (rc \<or> z = first) \<or> first \<in> set zs \<and> nd_type (fl_nodes q first) = type) \<and> kept q' ?r"
      using IH Cons.prems(2,3) f unfolding K(1,4) by (simp del: fun_upd_apply)
    then show ?thesis using True K(5) by (auto simp del: fun_upd_apply)
  next
    case False
    have "wheel_pre q (X(i := (ys @ [z]) @ zs)) L" using Cons.prems(1) by (simp del: fun_upd_apply)
    moreover have "cancel_type_spoke f q type (root_of q i) first (hd (zs @ [root_of q i])) k rc = (q', k', rc')"
      using Cons.prems(4) f z False by simp
    ultimately have "wheel_pre q' (X(i := (ys @ [z]) @ filter (\<lambda>a. nd_type (fl_nodes q a) \<noteq> type) zs)) L \<and>
       k' = k + length (filter (\<lambda>a. nd_type (fl_nodes q a) = type) zs) \<and>
       (rc' \<longleftrightarrow> rc \<or> first \<in> set zs \<and> nd_type (fl_nodes q first) = type) \<and> kept q' q"
      using Cons.prems(2,3) f by (intro Cons.IH) (auto simp del: fun_upd_apply)
    then show ?thesis using False by (auto simp del: fun_upd_apply)
  qed
qed

lemma cancel_type_wheel_at:
  "wheel_pre q X L \<Longrightarrow> \<forall>i \<in> set is. i < tw_spoke_count q \<Longrightarrow> distinct is \<Longrightarrow>
   cancel_type_wheel q type first is k rc = (q', k', rc') \<Longrightarrow>
   wheel_pre q' (\<lambda>j. if j \<in> set is then filter (\<lambda>a. nd_type (fl_nodes q a) \<noteq> type) (X j) else X j) L \<and>
   k' = k + (\<Sum>j \<in> set is. length (filter (\<lambda>a. nd_type (fl_nodes q a) = type) (X j))) \<and>
   (rc' \<longleftrightarrow> rc \<or> (\<exists>j \<in> set is. first \<in> set (X j)) \<and> nd_type (fl_nodes q first) = type) \<and> kept q' q"
proof (induction "is" arbitrary: q X k rc)
  case Nil
  then show ?case by (simp add: kept_refl)
next
  case (Cons i "is")
  let ?P = "\<lambda>a. nd_type (fl_nodes q a) \<noteq> type" and ?h = "root_of q i"
  have i: "i < tw_spoke_count q" "i \<notin> set is" using Cons.prems by auto
  obtain q1 k1 r1 where s: "cancel_type_spoke (fl_brk q) q type ?h first (nxt q ?h) k rc = (q1, k1, r1)"
    by (metis prod_cases3)
  have "ring (nxt q) (prv q) ?h (X i)" using spoke_at [OF Cons.prems(1) i(1)] by (simp add: spoke_ok_def)
  then have "nxt q ?h = hd (X i @ [?h])" by (rule ring_first)
  with s have s': "cancel_type_spoke (fl_brk q) q type ?h first (hd (X i @ [?h])) k rc = (q1, k1, r1)" by simp
  have "wheel_pre q (X(i := [] @ X i)) L" using Cons.prems(1) by simp
  note S = cancel_type_spoke_at [OF this i(1) spoke_length [OF Cons.prems(1) i(1)] s']
  let ?X = "X(i := filter ?P (X i))"
  have p: "wheel_pre q1 ?X L" and kq: "kept q1 q" using S by simp_all
  note K = kept_cong [OF kq]
  have "cancel_type_wheel q1 type first is k1 r1 = (q', k', rc')" using Cons.prems(4) s by (simp add: Let_def)
  note IH = Cons.IH [OF p _ _ this]
  have nb: "filter Q (?X j) = filter Q (X j)" "set (?X j) = set (X j)" if "j \<in> set is" for j Q
    using that i(2) by auto
  have rest: "wheel_pre q' (\<lambda>j. if j \<in> set is then filter ?P (?X j) else ?X j) L \<and>
     k' = k1 + (\<Sum>j \<in> set is. length (filter (\<lambda>a. nd_type (fl_nodes q a) = type) (?X j))) \<and>
     (rc' \<longleftrightarrow> r1 \<or> (\<exists>j \<in> set is. first \<in> set (?X j)) \<and> nd_type (fl_nodes q first) = type) \<and> kept q' q1"
    using IH Cons.prems(2,3) unfolding K(1,4) by simp
  have "(\<lambda>j. if j \<in> set is then filter ?P (?X j) else ?X j) = (\<lambda>j. if j \<in> set (i # is) then filter ?P (X j) else X j)"
    using i(2) by (auto simp: fun_eq_iff)
  moreover have "(\<Sum>j \<in> set is. length (filter (\<lambda>a. nd_type (fl_nodes q a) = type) (?X j))) =
      (\<Sum>j \<in> set is. length (filter (\<lambda>a. nd_type (fl_nodes q a) = type) (X j)))"
    using nb by (intro sum.cong) auto
  ultimately show ?case using rest S i(2) nb(2) K(5) by auto
qed

end
