(* ===== verification/ACE_Timer_Wheel_Props.thy ===== *)
theory ACE_Timer_Wheel_Props
  imports ACE_Timer_Wheel_Cancel
begin

text \<open>
  The construction of a timer wheel, cancelling by type on the whole wheel, the end of the ids, closing
  once and twice; then the properties of the wheel.
\<close>

section \<open>The nearest power of two\<close>

lemma count_bits_pos:
  "0 < n \<Longrightarrow> \<exists>i. count_bits n k = Some (k + i) \<and> 0 < i \<and> 2 ^ (i - 1) \<le> n \<and> n < 2 ^ i"
proof (induction "nat n" arbitrary: n k rule: less_induct)
  case less
  show ?case
  proof (cases "n div 2 = 0")
    case True
    then have "n = 1" using less(2) by linarith
    then show ?thesis
      by (subst count_bits.simps) (intro exI [of _ 1], simp add: drop_bit_eq_div)
  next
    case False
    then have "0 < n div 2" "nat (n div 2) < nat n" using less(2) by auto
    from less(1) [OF this(2,1), of "k + 1"] obtain i where i: "count_bits (n div 2) (k + 1) = Some (k + 1 + i)"
      "0 < i" "2 ^ (i - 1) \<le> n div 2" "n div 2 < 2 ^ i" by blast
    have "count_bits n k = Some (k + Suc i)"
      using False i(1) by (subst count_bits.simps) (simp add: drop_bit_eq_div)
    moreover have "2 ^ i \<le> n" "n < 2 ^ Suc i"
      using i(2-4) by (cases i; simp)+
    ultimately show ?thesis by (intro exI [of _ "Suc i"]) simp
  qed
qed

lemma count_bits_zero: "count_bits 0 k = Some (k + 1)"
  by (subst count_bits.simps) simp


lemma nearest_of_two:
  "(a :: int) \<le> n \<Longrightarrow> n < b \<Longrightarrow> j \<le> a \<or> b \<le> j \<Longrightarrow> \<bar>(if n - a < b - n then a else b) - n\<bar> \<le> \<bar>j - n\<bar>"
  by (auto simp: abs_if)

lemma power2bits_result:
  assumes "0 \<le> n" "1 \<le> lo" "lo \<le> hi"
  shows "\<exists>r. power2bits n lo hi = Some r \<and> lo \<le> r \<and> r \<le> hi \<and>
    (\<forall>j. lo \<le> j \<and> j \<le> hi \<longrightarrow> \<bar>2 ^ r - n\<bar> \<le> \<bar>2 ^ j - n\<bar>)"
proof (cases "n > 2 ^ hi - 1")
  case True
  have "\<bar>2 ^ hi - n\<bar> \<le> \<bar>2 ^ j - n\<bar>" if "j \<le> hi" for j
    using True power_increasing [OF that, of "2 :: int"] by linarith
  then show ?thesis using True assms(3) by (intro exI [of _ hi]) (simp add: power2bits_def push_bit_eq_mult)
next
  case False
  obtain i where i: "count_bits n 0 = Some i" "0 < i" "n < 2 ^ i" "n = 0 \<and> i = 1 \<or> 2 ^ (i - 1) \<le> n"
    using count_bits_zero [of 0] count_bits_pos [of n 0] assms(1) by (cases "n = 0") fastforce+
  have ih: "i \<le> hi"
  proof (rule ccontr)
    assume "\<not> i \<le> hi"
    then have "(2 :: int) ^ hi \<le> 2 ^ (i - 1)" by (intro power_increasing) auto
    then show False using i(4) False \<open>\<not> i \<le> hi\<close> assms(2,3) by linarith
  qed
  show ?thesis
  proof (cases "i \<le> lo")
    case True
    have "\<bar>2 ^ lo - n\<bar> \<le> \<bar>2 ^ j - n\<bar>" if "lo \<le> j" for j
      using power_increasing [OF that, of "2 :: int"] power_increasing [OF True, of "2 :: int"] i(3) by linarith
    then show ?thesis using True False i(1) assms(3) by (intro exI [of _ lo]) (simp add: power2bits_def push_bit_eq_mult)
  next
    case gt: False
    define r where "r = (if n - 2 ^ (i - 1) < 2 ^ i - n then i - 1 else i)"
    have b: "2 ^ (i - 1) \<le> n" using i(4) gt assms(2) by auto
    have "power2bits n lo hi = Some r"
      using False gt i(1) b by (auto simp: power2bits_def push_bit_eq_mult r_def Let_def)
    moreover have "\<bar>2 ^ r - n\<bar> \<le> \<bar>2 ^ j - n\<bar>" for j
    proof -
      have "j \<le> i - 1 \<or> i \<le> j" by linarith
      then have "(2 :: int) ^ j \<le> 2 ^ (i - 1) \<or> (2 :: int) ^ i \<le> 2 ^ j" by auto
      then have "\<bar>(if n - 2 ^ (i - 1) < 2 ^ i - n then 2 ^ (i - 1) else 2 ^ i) - n\<bar> \<le> \<bar>2 ^ j - n\<bar>"
        by (rule nearest_of_two [OF b i(3)])
      then show ?thesis unfolding r_def by (cases "n - 2 ^ (i - 1) < 2 ^ i - n") (simp_all only: if_True if_False)
    qed
    ultimately show ?thesis using gt ih by (intro exI [of _ r]) (auto simp: r_def)
  qed
qed

section \<open>Construction\<close>

lemma msec_long_correct:
  assumes "0 \<le> ms"
  shows "tv_normal (tv_msec_long ms)" "tv_total (tv_msec_long ms) = ms * 1000"
proof -
  have "ms - ms div 1000 * 1000 = ms mod 1000" by (simp add: minus_div_mult_eq_mod)
  then have m: "tv_msec_long ms = ACE_Time_Value (ms div 1000) (ms mod 1000 * 1000)"
    using assms by (simp add: tv_msec_long_def Let_def cdiv_nonneg)
  have "0 \<le> ms mod 1000" "ms mod 1000 < 1000" "0 \<le> ms div 1000" using assms by simp_all
  then show "tv_normal (tv_msec_long ms)" unfolding m tv_normal_def by auto
  have "tv_total (tv_msec_long ms) = ms div 1000 * 1000000 + ms mod 1000 * 1000" by (simp add: m tv_total_def)
  then show "tv_total (tv_msec_long ms) = ms * 1000" using div_mult_mod_eq [of ms 1000] by linarith
qed

definition roots_ok :: "'t timer_wheel \<Rightarrow> bool" where
  "roots_ok q \<longleftrightarrow> (\<exists>fs. fl_ok q fs (set (tw_spokes q))) \<and> distinct (tw_spokes q) \<and>
     fl_mode q \<noteq> ACE_PURE_FREE_LIST \<and> 0 < fl_inc q \<and>
     (\<forall>a \<in> set (tw_spokes q). nxt q a = a \<and> prv q a = a \<and> lid q a = 0 \<and> nd_act (fl_nodes q a) = 0)"

definition built_like :: "'t timer_wheel \<Rightarrow> 't timer_wheel \<Rightarrow> bool" where
  "built_like r q \<longleftrightarrow> tw_spoke_count r = tw_spoke_count q \<and> tw_spoke_bits r = tw_spoke_bits q \<and>
     tw_res_bits r = tw_res_bits q \<and> tw_wheel_time r = tw_wheel_time q \<and>
     tw_earliest_spoke r = tw_earliest_spoke q \<and> tw_timer_count r = tw_timer_count q"

lemma alloc_roots_ok:
  "roots_ok q \<Longrightarrow> \<exists>r. alloc_roots type0 k q = Some r \<and> roots_ok r \<and>
     length (tw_spokes r) = length (tw_spokes q) + k \<and> built_like r q"
proof (induction k arbitrary: q)
  case 0
  then show ?case by (simp add: built_like_def)
next
  case (Suc k)
  let ?A = "set (tw_spokes q)"
  obtain fs where fs: "fl_ok q fs ?A" "fl_mode q \<noteq> ACE_PURE_FREE_LIST" "0 < fl_inc q"
    using Suc.prems by (auto simp: roots_ok_def)
  obtain q1 n where al: "fl_remove q = (q1, n)" by fastforce
  note A = fl_remove_correct [OF fs al]
  define q2 where "q2 = q1\<lparr>fl_nodes := (fl_nodes q1)(n := root_set type0 n (fl_nodes q1 n)),
     tw_spokes := tw_spokes q1 @ [n]\<rparr>"
  have m: "tw_spokes q1 = tw_spokes q" "built_like q1 q"
    using A(7) by (cases q1; cases q; simp add: built_like_def)+
  obtain gs where gs: "fl_ok q1 gs (insert n ?A)" using A(3) by blast
  have "chain (nxt q2) (fl_free_list q1) gs \<longleftrightarrow> chain (nxt q1) (fl_free_list q1) gs"
    using gs by (intro chain_cong) (auto simp: q2_def fl_ok_def)
  then have "fl_ok q2 gs (set (tw_spokes q2))" using gs m by (simp add: fl_ok_def q2_def)
  moreover have "nxt q2 a = a \<and> prv q2 a = a \<and> lid q2 a = 0 \<and> nd_act (fl_nodes q2 a) = 0"
    if "a \<in> set (tw_spokes q2)" for a
  proof (cases "a = n")
    case True
    then show ?thesis by (simp add: q2_def root_set_def node_set_dll_def)
  next
    case False
    then have a: "a \<in> ?A" using that m by (simp add: q2_def)
    then have "fl_nodes q2 a = fl_nodes q a" using A(4) [OF a] False by (simp add: q2_def)
    then show ?thesis using Suc.prems a by (simp add: roots_ok_def)
  qed
  ultimately have "roots_ok q2"
    using Suc.prems A(2,5,6) m fs(2,3) unfolding roots_ok_def by (auto simp: q2_def)
  from Suc.IH [OF this] show ?case
    using al A(1) m by (auto simp: q2_def [symmetric] built_like_def) (auto simp: q2_def)
qed

lemma fl_dealloc_frame: "fl_mode (fl_dealloc n q) = fl_mode q \<and> fl_inc (fl_dealloc n q) = fl_inc q \<and>
    free_list.more (fl_dealloc n q) = free_list.more q"
proof (induction n arbitrary: q)
  case 0
  then show ?case by (simp add: fl_dealloc.simps)
next
  case (Suc n)
  then show ?case by (subst (1 2 3) fl_dealloc.simps) simp
qed

lemma fl_resize_frame:
  "fl_mode (fl_resize q n) = fl_mode q" "fl_inc (fl_resize q n) = fl_inc q" "free_list.more (fl_resize q n) = free_list.more q"
  using fl_dealloc_frame [of _ q] by (simp_all add: fl_resize_def)

lemma roots_wheel_at:
  assumes "roots_ok q" "wheel_shape q" "tw_timer_count q = 0"
  shows "wheel_at q (\<lambda>_. []) {}"
proof -
  have l: "length (tw_spokes q) = tw_spoke_count q" using assms(2) by (simp add: wheel_shape_def)
  then have r: "root_of q i \<in> set (tw_spokes q)" if "i < tw_spoke_count q" for i using that by simp
  have "spoke_ok q i []" if "i < tw_spoke_count q" for i
    using r [OF that] assms(1) by (simp add: spoke_ok_def ring_def roots_ok_def)
  moreover have "ids_ok q {}" using r assms(1) by (simp add: ids_ok_def roots_ok_def max_cnt_def)
  ultimately show ?thesis
    using assms by (auto simp: wheel_at_def wheel_pre_def on_wheel_def earliest_ok_def roots_ok_def)
qed

lemma timer_wheel_init_at:
  assumes "fl_ok fl fs {}" "fl_mode fl \<noteq> ACE_PURE_FREE_LIST" "0 < fl_inc fl" "0 \<le> spokes" "0 \<le> res"
  shows "\<exists>q. timer_wheel_init type0 fl prealloc spokes res = Some q \<and> wheel_at q (\<lambda>_. []) {} \<and>
    power2bits spokes 3 12 = Some (tw_spoke_bits q) \<and> power2bits res 1 20 = Some (tw_res_bits q) \<and>
    (\<forall>i < tw_spoke_count q. lid q (root_of q i) = 0)"
proof -
  obtain sb where sb: "power2bits spokes 3 12 = Some sb" "3 \<le> sb" "sb \<le> 12"
    using power2bits_result [OF assms(4), of 3 12] by auto
  obtain rb where rb: "power2bits res 1 20 = Some rb" "1 \<le> rb" "rb \<le> 20"
    using power2bits_result [OF assms(5), of 1 20] by auto
  let ?q0 = "\<lparr>fl_mode = fl_mode fl, fl_free_list = fl_free_list fl, fl_lwm = fl_lwm fl, fl_hwm = fl_hwm fl,
        fl_inc = fl_inc fl, fl_size = fl_size fl, fl_nodes = fl_nodes fl, fl_brk = fl_brk fl,
        tw_spokes = [], tw_spoke_count = 2 ^ sb, tw_spoke_bits = sb, tw_res_bits = rb, tw_earliest_spoke = 0,
        tw_wheel_time = zero_time, tw_timer_count = 0\<rparr>"
  define q1 where "q1 = (fl_resize ?q0 (prealloc + 2 ^ sb))\<lparr>tw_wheel_time := tv_msec_long (push_bit rb 1), tw_spokes := []\<rparr>"
  have "fl_ok ?q0 fs {}" using assms(1) by (simp add: fl_ok_def)
  then obtain gs where "fl_ok (fl_resize ?q0 (prealloc + 2 ^ sb)) gs {}"
    using fl_resize_correct [of ?q0 fs "{}" "prealloc + 2 ^ sb"] assms(2) by auto
  then have "fl_ok q1 gs {}" by (simp add: q1_def fl_ok_def)
  then have "roots_ok q1" using assms(2,3) by (auto simp: roots_ok_def q1_def fl_resize_frame)
  from alloc_roots_ok [OF this, of type0 "2 ^ sb"] obtain r where
    r: "alloc_roots type0 (2 ^ sb) q1 = Some r" "roots_ok r" "length (tw_spokes r) = 2 ^ sb" "built_like r q1"
    by (auto simp: q1_def)
  have m: "built_like q1 (?q0\<lparr>tw_wheel_time := tv_msec_long (push_bit rb 1)\<rparr>)"
    using fl_resize_frame(3) [of ?q0 "prealloc + 2 ^ sb"]
    by (cases "fl_resize ?q0 (prealloc + 2 ^ sb)") (simp add: q1_def built_like_def)
  have T: "tw_spoke_count r = 2 ^ sb" "tw_spoke_bits r = sb" "tw_res_bits r = rb" "tw_earliest_spoke r = 0"
      "tw_timer_count r = 0" "tw_wheel_time r = tv_msec_long (2 ^ rb)"
    using r(4) m by (simp_all add: built_like_def push_bit_eq_mult)
  have "wheel_shape r"
    using T sb(2,3) rb(2,3) r(2,3) msec_long_correct [of "2 ^ rb"] by (simp add: wheel_shape_def roots_ok_def)
  then have "wheel_at r (\<lambda>_. []) {}" using r(2) T(5) by (intro roots_wheel_at)
  moreover have "timer_wheel_init type0 fl prealloc spokes res = Some r"
    using sb(1) rb(1) r(1) by (simp add: timer_wheel_init_def wheel_open_i_def Let_def q1_def)
  moreover have "\<forall>i < tw_spoke_count r. lid r (root_of r i) = 0" using r(2,3) T(1) by (simp add: roots_ok_def)
  ultimately show ?thesis using T sb(1) rb(1) by (intro exI [of _ r]) simp
qed

section \<open>Cancelling by type\<close>

lemma card_on_wheel_filter:
  assumes "wheel_pre q X L"
  shows "card {a \<in> on_wheel q X. P a} = (\<Sum>i<tw_spoke_count q. length (filter P (X i)))"
proof -
  have "{a \<in> on_wheel q X. P a} = (\<Union>i<tw_spoke_count q. set (filter P (X i)))" by (auto simp: on_wheel_def)
  also have "card \<dots> = (\<Sum>i<tw_spoke_count q. card (set (filter P (X i))))"
    using spokes_disjoint [OF assms] by (intro card_UN_disjoint) auto
  also have "\<dots> = (\<Sum>i<tw_spoke_count q. length (filter P (X i)))"
    using spoke_at [OF assms] by (intro sum.cong refl distinct_card) (auto simp: spoke_ok_def ring_def)
  finally show ?thesis .
qed

lemma wheel_cancel_type_inv:
  assumes "wheel_inv q L"
  shows "\<exists>q' u'. wheel_cancel_type f (q, u) type skip_close =
         ((q', u'), card {a \<in> wheel_queued q. nd_type (fl_nodes q a) = type}) \<and> wheel_inv q' L \<and>
       wheel_queued q' = {a \<in> wheel_queued q. nd_type (fl_nodes q a) \<noteq> type} \<and>
       (\<forall>a. entry (fl_nodes q' a) = entry (fl_nodes q a))"
proof -
  note W = wheel_invD [OF assms]
  let ?X = "wheel_nodes q" and ?P = "\<lambda>a. nd_type (fl_nodes q a) \<noteq> type" and ?C = "tw_spoke_count q"
  show ?thesis
  proof (cases "wheel_is_empty q")
    case True
    then have "wheel_queued q = {}" using wheel_empty_iff [OF W(2)] W(3) by simp
    then show ?thesis using True assms by (auto simp: wheel_cancel_type_def Let_def case_prod_unfold)
  next
    case False
    then have ne: "on_wheel q ?X \<noteq> {}" using wheel_empty_iff [OF W(2)] by simp
    let ?first = "hd (?X (tw_earliest_spoke q))"
    have first: "wheel_get_first q = ?first" "?first \<in> on_wheel q ?X"
      using W(1) ne get_first_at(1) [OF W(2)] head_ok(3) [OF W(2) earliest_in_range [OF W(2)]]
      by (auto simp: wheel_get_first_def wheel_at_def earliest_ok_def)
    obtain q1 k rc where c: "cancel_type_wheel q type ?first [0..<?C] 0 False = (q1, k, rc)" by (metis prod_cases3)
    from cancel_type_wheel_at [OF W(2) _ _ c]
    have p: "wheel_pre q1 (\<lambda>j. if j \<in> {0..<?C} then filter ?P (?X j) else ?X j) L" and kq: "kept q1 q"
      and k: "k = (\<Sum>j = 0..<?C. length (filter (\<lambda>a. nd_type (fl_nodes q a) = type) (?X j)))"
      and rc: "rc \<longleftrightarrow> (\<exists>j \<in> {0..<?C}. ?first \<in> set (?X j)) \<and> nd_type (fl_nodes q ?first) = type" by auto
    have rc': "rc \<longleftrightarrow> \<not> ?P ?first" using rc first(2) by (auto simp: on_wheel_def)
    have p': "wheel_pre q1 (\<lambda>j. filter ?P (?X j)) L"
      by (rule wheel_pre_cong [OF p]) (use kept_cong(4) [OF kq] in auto)
    have k': "k = card {a \<in> wheel_queued q. nd_type (fl_nodes q a) = type}"
      using card_on_wheel_filter [OF W(2), of "\<lambda>a. nd_type (fl_nodes q a) = type"] k W(3) by (simp add: lessThan_atLeast0)
    let ?q = "if ?P ?first then q1 else recalc_earliest q1 (lvalue q ?first)"
    have kq': "wheel_same q1 q" "tw_earliest_spoke q1 = tw_earliest_spoke q" "\<And>a. entry (fl_nodes q1 a) = entry (fl_nodes q a)"
      using kq by (simp_all add: kept_def)
    note R = wheel_removed [OF W(1) ne p' kq']
    have fr: "wheel_same ?q q1" "fl_nodes ?q = fl_nodes q1" using recalc_frame [of q1] by (simp_all add: wheel_same_def)
    have E: "\<forall>a. entry (fl_nodes ?q a) = entry (fl_nodes q a)" using fr(2) kq'(3) by simp
    have "wheel_time_ok (lvalue ?q a)" if "a \<in> L" for a
      using that W(4) entry_cong(3) [of "fl_nodes ?q a" "fl_nodes q a"] E by simp
    from wheel_invI [OF R(1) this] have I: "wheel_inv ?q L" "wheel_queued ?q = on_wheel q1 (\<lambda>j. filter ?P (?X j))"
      using wheel_same_cong(2) [OF fr(1)] by auto
    have "\<exists>u'. wheel_cancel_type f (q, u) type skip_close = ((?q, u'), k)"
      using False first(1) c rc' by (simp add: wheel_cancel_type_def Let_def case_prod_unfold)
    then obtain u' where "wheel_cancel_type f (q, u) type skip_close = ((?q, u'), k)" by blast
    then show ?thesis unfolding k' W(3) using I E unfolding R(2) by (intro exI [of _ ?q] exI [of _ u'] conjI)
  qed
qed

section \<open>Running out of ids\<close>

lemma id_search_crash:
  "cnt \<le> c \<Longrightarrow> c < mx - 1 \<Longrightarrow> find_spoke_node q spoke (make_id q c spoke) = NULL \<Longrightarrow> id_search q spoke mx cnt = None"
proof (induction q spoke mx cnt rule: id_search.induct)
  case (1 q spoke mx cnt)
  show ?case
  proof (cases "find_spoke_node q spoke (make_id q cnt spoke) = NULL")
    case True
    then show ?thesis using 1(2,3) by (simp add: id_search.simps [of q spoke mx cnt])
  next
    case False
    then have "cnt \<noteq> c" using 1(4) by auto
    then show ?thesis using 1 False by (simp add: id_search.simps [of q spoke mx cnt])
  qed
qed

lemma unused_id:
  assumes "wheel_pre q X L" "i < tw_spoke_count q" "int (card (on_wheel q X)) < max_cnt q - 1"
  shows "\<exists>c. 0 \<le> c \<and> c < max_cnt q - 1 \<and> find_spoke_node q i (make_id q c i) = NULL"
proof (rule ccontr)
  assume none: "\<not> ?thesis"
  let ?I = "{0..<max_cnt q - 1}" and ?f = "\<lambda>c. find_spoke_node q i (make_id q c i)"
  have sh: "wheel_shape q" using assms(1) by (simp add: wheel_pre_def)
  have f: "?f c \<in> set (X i)" "lid q (?f c) = make_id q c i" if "c \<in> ?I" for c
    using find_spoke_node_at [OF assms(1,2), of "make_id q c i"] none that by auto
  have "inj_on ?f ?I"
  proof (rule inj_onI)
    fix c d assume cd: "c \<in> ?I" "d \<in> ?I" "?f c = ?f d"
    then have "make_id q c i = make_id q d i" using f(2) by metis
    then show "c = d" using make_id_inj [OF sh _ _ assms(2) _ _ assms(2), of c d] cd by auto
  qed
  moreover have "?f ` ?I \<subseteq> on_wheel q X" using f(1) in_wheel [OF assms(2), of _ X] by auto
  ultimately have "card ?I \<le> card (on_wheel q X)"
    using wheel_nodes_in_store(2) [OF assms(1)] by (intro card_inj_on_le) auto
  then show False using assms(3) by simp
qed

lemma alloc_node_pre:
  assumes "wheel_pre q X L" "fl_remove q = (q1, n)"
  shows "wheel_pre q1 X L" "wheel_same q1 q" "n \<noteq> NULL" "\<And>a. a \<in> set (tw_spokes q) \<union> on_wheel q X \<Longrightarrow> fl_nodes q1 a = fl_nodes q a"
proof -
  let ?A = "set (tw_spokes q) \<union> (on_wheel q X \<union> L)"
  obtain fs where fs: "fl_ok q fs ?A" "fl_mode q \<noteq> ACE_PURE_FREE_LIST" "0 < fl_inc q"
    using assms(1) by (auto simp: wheel_pre_def wheel_shape_def)
  note A = fl_remove_correct [OF fs assms(2)] and M = wheel_more [OF A(7,5,6)]
  obtain gs where "fl_ok q1 gs (insert n ?A)" using A(3) by blast
  then have gs: "\<exists>gs. fl_ok q1 gs ?A" by (intro exI [of _ gs]) (auto simp: fl_ok_def)
  show "wheel_pre q1 X L" using A(4) by (intro wheel_pre_frame [OF assms(1) order_refl M _ _ gs]) auto
  show "wheel_same q1 q" "n \<noteq> NULL" "\<And>a. a \<in> set (tw_spokes q) \<union> on_wheel q X \<Longrightarrow> fl_nodes q1 a = fl_nodes q a"
    using M(1) A(1,4) by auto
qed

text \<open>Moving the counter of a spoke up to its end keeps the invariant.\<close>

lemma set_root_inv:
  assumes "wheel_inv q L" "i < tw_spoke_count q"
  defines "r \<equiv> set_root q (root_of q i) (max_cnt q)"
  shows "wheel_inv r L" "wheel_queued r = wheel_queued q" "wheel_same r q" "wheel_nodes r i = wheel_nodes q i"
proof -
  note W = wheel_invD [OF assms(1)]
  let ?X = "wheel_nodes q" and ?h = "root_of q i"
  show same: "wheel_same r q" by (simp add: r_def set_root_def wheel_same_def)
  have N: "a \<noteq> ?h \<Longrightarrow> fl_nodes r a = fl_nodes q a" "nxt r a = nxt q a" "prv r a = prv q a" "lvalue r a = lvalue q a"
    "nd_act (fl_nodes r a) = nd_act (fl_nodes q a)" "lid r a = (if a = ?h then max_cnt q else lid q a)" for a
    by (simp_all add: r_def set_root_def)
  have t: "tw_earliest_spoke r = tw_earliest_spoke q" "tw_timer_count r = tw_timer_count q" "fl_free_list r = fl_free_list q"
    "fl_size r = fl_size q" "fl_brk r = fl_brk q" by (simp_all add: r_def set_root_def)
  note C = wheel_same_cong [OF same] and h = roots_apart(1) [OF W(2) assms(2)]
  have ids: "ids_ok q (on_wheel q ?X \<union> L)" using W(2) by (simp add: wheel_pre_def)
  have le: "lid q (root_of q s) \<le> lid r (root_of q s)" "0 \<le> lid r (root_of q s)" "lid r (root_of q s) \<le> max_cnt q"
    "nd_act (fl_nodes r (root_of q s)) = 0" if "s < tw_spoke_count q" for s
    using ids that unfolding ids_ok_def N(5,6) by (auto intro: order_trans)
  have "inj_on (lid r) (on_wheel q ?X \<union> L) \<longleftrightarrow> inj_on (lid q) (on_wheel q ?X \<union> L)"
    using h N(6) by (intro inj_on_cong) auto
  moreover have "\<exists>c s. s < tw_spoke_count q \<and> 0 \<le> c \<and> c < lid r (root_of q s) \<and> lid r a = make_id q c s"
    if a: "a \<in> on_wheel q ?X \<union> L" for a
  proof -
    obtain c s where "s < tw_spoke_count q" "0 \<le> c" "c < lid q (root_of q s)" "lid q a = make_id q c s"
      using ids a unfolding ids_ok_def by blast
    moreover have "lid r a = lid q a" using a h N(6) [of a] by auto
    ultimately show ?thesis using less_le_trans [OF _ le(1) [of s]] by metis
  qed
  ultimately have "ids_ok r (on_wheel q ?X \<union> L)" using ids le(2-4) unfolding ids_ok_def C by simp
  moreover have "spoke_ok r j (?X j)" if "j < tw_spoke_count q" for j
    using N by (intro spoke_ok_frame [OF spoke_at [OF W(2) that] same]) auto
  moreover have "\<exists>fs. fl_ok r fs (set (tw_spokes q) \<union> (on_wheel q ?X \<union> L))"
    using W(2) N(2) t unfolding wheel_pre_def fl_ok_def by simp
  moreover have "wheel_shape r" using C(7) W(2) t(1) by (simp add: wheel_pre_def wheel_shape_def)
  ultimately have "wheel_pre r ?X L" using W(2) t(2) unfolding wheel_pre_def C(2,5,6) by simp
  moreover have "earliest_ok r ?X"
    using W(1) N(4) by (intro earliest_ok_frame [OF W(2) _ same t(1)]) (simp_all add: wheel_at_def)
  ultimately have at: "wheel_at r ?X L" by (simp add: wheel_at_def)
  from wheel_invI [OF at] W(3,4) N(4) C(2) show "wheel_inv r L" "wheel_queued r = wheel_queued q" by auto
  show "wheel_nodes r i = ?X i" using wheel_nodes_at [of r ?X L i] at assms(2) C(6) by (simp add: wheel_at_def)
qed

section \<open>Closing\<close>

abbreviation deletion_of :: "('u, 't) upcall_functor \<Rightarrow> 't timer_wheel \<Rightarrow> addr \<Rightarrow> 'u \<Rightarrow> 'u" where
  "deletion_of f q a \<equiv> fn_deletion f (nd_type (fl_nodes q a)) (nd_act (fl_nodes q a))"

lemma close_spoke_seg:
  "seg (nxt q0) (prv q0) p xs h \<Longrightarrow> h \<notin> set xs \<Longrightarrow> NULL \<notin> set xs \<Longrightarrow> distinct xs \<Longrightarrow> length xs < fuel \<Longrightarrow>
   \<forall>a \<in> set xs. fl_nodes q a = fl_nodes q0 a \<Longrightarrow>
   \<exists>q'. close_spoke fuel f (q, u) h (hd (xs @ [h])) = Some (q', fold (deletion_of f q0) xs u) \<and>
     (\<forall>a. a \<notin> set xs \<longrightarrow> fl_nodes q' a = fl_nodes q a) \<and> wheel_same q' q \<and> fl_brk q' = fl_brk q \<and>
     (if xs = [] then q' = q else fl_size q < fl_hwm q \<longrightarrow> nxt q' (hd xs) = fl_free_list q)"
proof (induction xs arbitrary: p q u fuel)
  case Nil
  then show ?case by (cases fuel) (auto simp: wheel_same_def)
next
  case (Cons x xs)
  obtain g where g: "fuel = Suc g" using Cons.prems by (cases fuel) auto
  let ?r = "wheel_free_node q x"
  have N: "fl_nodes ?r a = fl_nodes q a" if "a \<noteq> x" for a using that by (simp add: wheel_free_node_def)
  have r: "wheel_same ?r q" "fl_brk ?r = fl_brk q"
    using wheel_more(1) [of ?r q] by (simp_all add: wheel_free_node_def)
  have rx: "fl_size q < fl_hwm q \<longrightarrow> nxt ?r x = fl_free_list q" by (simp add: wheel_free_node_def fl_add_def)
  have x: "fl_nodes q x = fl_nodes q0 x" "x \<noteq> h" "x \<noteq> NULL" "x \<notin> set xs" using Cons.prems by auto
  have "nxt q x = hd (xs @ [h])" using Cons.prems(1) seg_first [of "nxt q0" "prv q0" x xs h] x(1) by simp
  then have "close_spoke fuel f (q, u) h (hd ((x # xs) @ [h])) = close_spoke g f (?r, deletion_of f q0 x u) h (hd (xs @ [h]))"
    using g x by (simp add: Let_def)
  moreover have same: "\<forall>a \<in> set xs. fl_nodes ?r a = fl_nodes q0 a"
  proof
    fix a assume a: "a \<in> set xs"
    then have "a \<noteq> x" using x(4) by auto
    then show "fl_nodes ?r a = fl_nodes q0 a" using N [of a] Cons.prems(6) a by simp
  qed
  obtain q' where "close_spoke g f (?r, deletion_of f q0 x u) h (hd (xs @ [h])) =
      Some (q', fold (deletion_of f q0) xs (deletion_of f q0 x u))"
    "\<forall>a. a \<notin> set xs \<longrightarrow> fl_nodes q' a = fl_nodes ?r a" "wheel_same q' ?r" "fl_brk q' = fl_brk ?r"
    using Cons.IH [of x g ?r "deletion_of f q0 x u"] Cons.prems(1-5) same g by auto
  ultimately show ?case using N r rx x(4) by (auto simp: wheel_same_def)
qed

lemma close_spokes_at:
  assumes "wheel_pre q0 X L"
  shows "\<forall>i \<in> set is. i < tw_spoke_count q0 \<Longrightarrow> distinct is \<Longrightarrow> wheel_same q q0 \<Longrightarrow> fl_brk q = fl_brk q0 \<Longrightarrow>
    \<forall>i \<in> set is. \<forall>a \<in> set (root_of q0 i # X i). fl_nodes q a = fl_nodes q0 a \<Longrightarrow>
    \<exists>q'. close_spokes f (q, u) is = Some (q', fold (deletion_of f q0) (concat (map X is)) u) \<and>
      (\<forall>a. (\<forall>i \<in> set is. a \<notin> set (X i)) \<longrightarrow> fl_nodes q' a = fl_nodes q a) \<and> wheel_same q' q \<and> fl_brk q' = fl_brk q \<and>
      (concat (map X is) \<noteq> [] \<and> fl_size q < fl_hwm q \<longrightarrow> nxt q' (hd (concat (map X is))) = fl_free_list q)"
proof (induction "is" arbitrary: q u)
  case Nil
  then show ?case by (simp add: wheel_same_def)
next
  case (Cons i "is")
  let ?h = "root_of q0 i"
  have i: "i < tw_spoke_count q0" using Cons.prems by simp
  have R: "ring (nxt q0) (prv q0) ?h (X i)" using spoke_at [OF assms i] by (simp add: spoke_ok_def)
  have nz: "NULL \<notin> set (X i)" using wheel_nodes_in_store(1) [OF assms] in_wheel [OF i, of NULL X] by auto
  have h: "nxt q ?h = hd (X i @ [?h])" using ring_first [OF R] Cons.prems(5) by simp
  obtain q1 where q1: "close_spoke (fl_brk q0) f (q, u) ?h (hd (X i @ [?h])) = Some (q1, fold (deletion_of f q0) (X i) u)"
    "\<forall>a. a \<notin> set (X i) \<longrightarrow> fl_nodes q1 a = fl_nodes q a" "wheel_same q1 q" "fl_brk q1 = fl_brk q"
    "if X i = [] then q1 = q else fl_size q < fl_hwm q \<longrightarrow> nxt q1 (hd (X i)) = fl_free_list q"
    using close_spoke_seg [of q0 ?h "X i" ?h "fl_brk q0" q f u] R nz spoke_length [OF assms i] Cons.prems(5)
    by (auto simp: ring_def)
  have apart: "a \<notin> set (X i)" if j: "j \<in> set is" "a \<in> set (root_of q0 j # X j)" for j a
  proof -
    have "j < tw_spoke_count q0" "j \<noteq> i" using j(1) Cons.prems(1,2) by auto
    then show ?thesis using rims_apart [OF assms i] j(2) by auto
  qed
  have "\<forall>j \<in> set is. \<forall>a \<in> set (root_of q0 j # X j). fl_nodes q1 a = fl_nodes q0 a"
    using apart q1(2) Cons.prems(5) by (metis list.set_intros(2))
  moreover have "wheel_same q1 q0" using q1(3) Cons.prems(3) by (simp add: wheel_same_def)
  ultimately obtain q' where q': "close_spokes f (q1, fold (deletion_of f q0) (X i) u) is =
      Some (q', fold (deletion_of f q0) (concat (map X is)) (fold (deletion_of f q0) (X i) u))"
    "\<forall>a. (\<forall>i \<in> set is. a \<notin> set (X i)) \<longrightarrow> fl_nodes q' a = fl_nodes q1 a" "wheel_same q' q1" "fl_brk q' = fl_brk q1"
    "concat (map X is) \<noteq> [] \<and> fl_size q1 < fl_hwm q1 \<longrightarrow> nxt q' (hd (concat (map X is))) = fl_free_list q1"
    using Cons.IH [of q1 "fold (deletion_of f q0) (X i) u"] Cons.prems(1,2,4) q1(4) by auto
  have "close_spokes f (q, u) (i # is) = Some (q', fold (deletion_of f q0) (concat (map X (i # is))) u)"
    using q1(1) q'(1) h Cons.prems(3,4) by (simp add: Let_def wheel_same_def)
  moreover have "\<forall>a. (\<forall>j \<in> set (i # is). a \<notin> set (X j)) \<longrightarrow> fl_nodes q' a = fl_nodes q a" using q1(2) q'(2) by simp
  moreover have "nxt q' (hd (concat (map X (i # is)))) = fl_free_list q"
    if hw: "concat (map X (i # is)) \<noteq> []" "fl_size q < fl_hwm q"
  proof (cases "X i = []")
    case True
    then show ?thesis using q1(5) q'(5) hw by simp
  next
    case False
    then have "hd (X i) \<in> set (X i)" by simp
    then have "\<forall>j \<in> set is. hd (X i) \<notin> set (X j)" using apart by (metis list.set_intros(2))
    then show ?thesis using q'(2) q1(5) False hw by simp
  qed
  ultimately show ?case using q'(3,4) q1(3,4) by (auto simp: wheel_same_def)
qed

text \<open>Closing a second time: the root of a spoke still links to its first node, which is now on the free list.\<close>

lemma close_spoke_chain:
  "chain (nxt q) n ns \<Longrightarrow> h \<notin> set ns \<Longrightarrow> distinct ns \<Longrightarrow> length ns < fuel \<Longrightarrow> h \<noteq> NULL \<Longrightarrow>
   close_spoke fuel f (q, u) h n = None"
proof (induction ns arbitrary: q u n fuel)
  case Nil
  then show ?case by (cases fuel) auto
next
  case (Cons x xs)
  obtain g where g: "fuel = Suc g" using Cons.prems by (cases fuel) auto
  let ?r = "wheel_free_node q x"
  have "chain (nxt ?r) (nxt q x) xs \<longleftrightarrow> chain (nxt q) (nxt q x) xs"
  proof (rule chain_cong)
    fix a assume "a \<in> set xs"
    then have "a \<noteq> x" using Cons.prems(3) by auto
    then show "nxt ?r a = nxt q a" by (simp add: wheel_free_node_def)
  qed
  then have "close_spoke g f (?r, v) h (nxt q x) = None" for v using Cons.prems g by (intro Cons.IH) auto
  then show ?case using Cons.prems g by (auto simp: Let_def)
qed

lemma close_spokes_append:
  "close_spokes f s (is @ js) = Option.bind (close_spokes f s is) (\<lambda>s'. close_spokes f s' js)"
  by (induction "is" arbitrary: s) (auto simp: Let_def split: option.split)

lemma close_spokes_empty:
  "\<forall>i \<in> set is. nxt q (root_of q i) = root_of q i \<Longrightarrow> close_spokes f (q, u) is = Some (q, u)"
proof (induction "is")
  case (Cons i "is")
  have "close_spoke n f (q, u) (root_of q i) (root_of q i) = Some (q, u)" for n by (cases n) auto
  then show ?case using Cons by (simp add: Let_def)
qed simp

lemma first_nonempty:
  "concat (map X is) \<noteq> [] \<Longrightarrow> \<exists>js i ks. is = js @ i # ks \<and> (\<forall>j \<in> set js. X j = []) \<and> X i \<noteq> [] \<and>
     hd (concat (map X is)) = hd (X i)"
proof (induction "is")
  case (Cons i "is")
  show ?case
  proof (cases "X i = []")
    case True
    then obtain js k ks where "is = js @ k # ks" "\<forall>j \<in> set js. X j = []" "X k \<noteq> []" "hd (concat (map X is)) = hd (X k)"
      using Cons by auto
    then show ?thesis using True by (intro exI [of _ "i # js"] exI [of _ k] exI [of _ ks]) simp
  qed (intro exI [of _ "[]"] exI [of _ i] exI [of _ "is"], simp)
qed simp

lemma close_twice:
  assumes "wheel_pre q X L" "wheel_same r q" "fl_brk r = fl_brk q" "on_wheel q X \<noteq> {}"
    and "\<And>a. a \<notin> on_wheel q X \<Longrightarrow> fl_nodes r a = fl_nodes q a"
    and "nxt r (hd (concat (map X [0..<tw_spoke_count q]))) = fl_free_list q"
  shows "wheel_close f (r, v) = None"
proof -
  let ?C = "tw_spoke_count q"
  have "concat (map X [0..<?C]) \<noteq> []" using assms(4) by (auto simp: on_wheel_def)
  from first_nonempty [OF this] obtain js i ks where s: "[0..<?C] = js @ i # ks" "\<forall>j \<in> set js. X j = []" "X i \<noteq> []"
    "hd (concat (map X [0..<?C])) = hd (X i)" by blast
  have in_C: "j < ?C" if "j \<in> set (js @ i # ks)" for j using that unfolding s(1) [symmetric] by simp
  then have i: "i < ?C" by simp
  let ?h = "root_of q i" and ?x = "hd (X i)"
  have roots: "root_of r j = root_of q j" "fl_nodes r (root_of q j) = fl_nodes q (root_of q j)" if "j < ?C" for j
    using assms(2) assms(5) [of "root_of q j"] roots_apart(1) [OF assms(1) that] by (auto simp: wheel_same_def)
  have R: "nxt q (root_of q j) = hd (X j @ [root_of q j])" if "j < ?C" for j
    using ring_first spoke_at [OF assms(1) that] by (auto simp: spoke_ok_def)
  have "\<forall>j \<in> set js. nxt r (root_of r j) = root_of r j" using s(2) roots R in_C by simp
  then have pre: "close_spokes f (r, v) js = Some (r, v)" by (rule close_spokes_empty)
  obtain fs where fs: "fl_ok q fs (set (tw_spokes q) \<union> (on_wheel q X \<union> L))" using assms(1) by (auto simp: wheel_pre_def)
  have x: "?x \<in> on_wheel q X" "?h \<in> set (tw_spokes q)" "?h \<noteq> ?x"
    using in_wheel [OF i, of ?x X] s(3) roots_apart(1,2) [OF assms(1) i] by auto
  have free: "fl_nodes r a = fl_nodes q a" if "a \<in> set fs" for a using that fs by (intro assms(5)) (auto simp: fl_ok_def)
  have "chain (nxt r) (fl_free_list q) fs \<longleftrightarrow> chain (nxt q) (fl_free_list q) fs" using free by (intro chain_cong) auto
  then have "chain (nxt r) ?x (?x # fs)" using fs assms(6) x(1) s(4) by (auto simp: fl_ok_def)
  moreover have d: "distinct (?x # fs)" "?h \<notin> set (?x # fs)" "?h \<noteq> NULL" using fs x by (auto simp: fl_ok_def)
  moreover have "length (?x # fs) < fl_brk q"
  proof -
    have sub: "set (?h # ?x # fs) \<subseteq> {0<..<fl_brk q}" using fs x by (auto simp: fl_ok_def)
    have "distinct (?h # ?x # fs)" using d by simp
    then have "length (?h # ?x # fs) \<le> card {0<..<fl_brk q}" using card_mono [OF _ sub] by (metis distinct_card finite_greaterThanLessThan)
    then show ?thesis by simp
  qed
  ultimately have none: "close_spoke (fl_brk r) f (r, v) ?h (nxt r ?h) = None"
    using close_spoke_chain [of r ?x "?x # fs" ?h "fl_brk q" f v] roots(2) [OF i] R [OF i] s(3) assms(3) by simp
  have "tw_spoke_count r = ?C" using assms(2) by (simp add: wheel_same_def)
  then show ?thesis using pre none roots(1) [OF i] by (simp add: wheel_close_def s(1) close_spokes_append Let_def)
qed

section \<open>A wheel with one timer\<close>

definition wheel_pool :: "nat free_list" where
  "wheel_pool = fl_init ACE_FREE_LIST_WITH_POOL 2 0 20 1
     (\<lambda>_. \<lparr>nd_type = 0, nd_act = 0, nd_timer_value = zero_time, nd_interval = zero_time,
           nd_prev = 0, nd_next = 0, nd_timer_id = 0\<rparr>)"

definition wheel0 :: "nat timer_wheel" where
  "wheel0 = the (timer_wheel_init 0 wheel_pool 2 8 10)"

definition wheel1 :: "nat timer_wheel" where
  "wheel1 = fst (the (wheel_schedule_i wheel0 7 70 (ACE_Time_Value 4 0) zero_time))"

lemma wheel_pool_ok:
  "\<exists>fs. fl_ok wheel_pool fs {}" "fl_mode wheel_pool \<noteq> ACE_PURE_FREE_LIST" "0 < fl_inc wheel_pool"
  using fl_init_ok unfolding wheel_pool_def
  by (blast, simp_all add: fl_init_def ACE_FREE_LIST_WITH_POOL_def ACE_PURE_FREE_LIST_def)

lemma wheel0_facts:
  "timer_wheel_init 0 wheel_pool 2 8 10 = Some wheel0" "wheel_at wheel0 (\<lambda>_. []) {}"
  "i < tw_spoke_count wheel0 \<Longrightarrow> lid wheel0 (root_of wheel0 i) = 0" "0 < max_cnt wheel0"
proof -
  obtain fs where "fl_ok wheel_pool fs {}" using wheel_pool_ok(1) by blast
  from timer_wheel_init_at [OF this wheel_pool_ok(2,3), of 8 10 0 2] obtain q where
    q: "timer_wheel_init 0 wheel_pool 2 8 10 = Some q" "wheel_at q (\<lambda>_. []) {}" "\<forall>i < tw_spoke_count q. lid q (root_of q i) = 0"
    by auto
  show "timer_wheel_init 0 wheel_pool 2 8 10 = Some wheel0" using q(1) by (simp add: wheel0_def)
  show "wheel_at wheel0 (\<lambda>_. []) {}" "i < tw_spoke_count wheel0 \<Longrightarrow> lid wheel0 (root_of wheel0 i) = 0"
    using q by (simp_all add: wheel0_def)
  have "tw_spoke_bits wheel0 \<le> 12" using q by (simp add: wheel0_def wheel_at_def wheel_pre_def wheel_shape_def)
  then have "(2 :: int) ^ 1 \<le> 2 ^ (64 - tw_spoke_bits wheel0)" by (intro power_increasing) auto
  then show "0 < max_cnt wheel0" by (simp add: max_cnt_def)
qed

lemma four_seconds_ok: "wheel_time_ok (ACE_Time_Value 4 0)"
  by (simp add: wheel_time_ok_def tv_normal_def tv_total_def)

lemma wheel0_ready:
  "wheel_inv wheel0 {}" "wheel_queued wheel0 = {}"
  "lid wheel0 (root_of wheel0 (calculate_spoke wheel0 (ACE_Time_Value 4 0))) < max_cnt wheel0"
proof -
  show "wheel_inv wheel0 {}" "wheel_queued wheel0 = {}" using wheel_invI [OF wheel0_facts(2)] by (simp_all add: on_wheel_def)
  have "calculate_spoke wheel0 (ACE_Time_Value 4 0) < tw_spoke_count wheel0"
    using wheel0_facts(2) four_seconds_ok by (intro calculate_spoke_less) (simp_all add: wheel_at_def wheel_pre_def)
  then show "lid wheel0 (root_of wheel0 (calculate_spoke wheel0 (ACE_Time_Value 4 0))) < max_cnt wheel0"
    using wheel0_facts(3,4) by simp
qed

lemma wheel1_facts:
  "\<exists>n i. i < tw_spoke_count wheel1 \<and> i = calculate_spoke wheel1 (ACE_Time_Value 4 0) \<and>
     wheel_inv wheel1 {} \<and> wheel_queued wheel1 = {n} \<and> wheel_nodes wheel1 i = [n] \<and>
     nd_type (fl_nodes wheel1 n) = 7 \<and> nd_act (fl_nodes wheel1 n) = 70 \<and> nd_interval (fl_nodes wheel1 n) = zero_time \<and>
     lvalue wheel1 n = ACE_Time_Value 4 0 \<and> max_cnt wheel1 = max_cnt wheel0"
proof -
  let ?i = "calculate_spoke wheel0 (ACE_Time_Value 4 0)"
  obtain n q' k where S: "wheel_schedule_i wheel0 7 70 (ACE_Time_Value 4 0) zero_time = Some (q', k)"
    "wheel_at q' ((\<lambda>_. [])(?i := [n])) {}" "entry (fl_nodes q' n) = (7, 70, ACE_Time_Value 4 0, zero_time, k)"
    "wheel_same q' wheel0" "?i < tw_spoke_count wheel0"
    using wheel_schedule_i_at [OF wheel0_facts(2) four_seconds_ok wheel0_ready(3), of 7 70 zero_time] by auto
  note C = wheel_same_cong [OF S(4)]
  have w: "wheel1 = q'" by (simp add: wheel1_def S(1))
  have "on_wheel q' ((\<lambda>_. [])(?i := [n])) = {n}" using S(5) by (auto simp: on_wheel_def C(6))
  moreover have "wheel_nodes q' ?i = [n]" using wheel_nodes_at [of q' "(\<lambda>_. [])(?i := [n])" "{}" ?i] S(2,5) C(6) by (simp add: wheel_at_def)
  ultimately show ?thesis
    using wheel_invI [OF S(2)] S(3,5) C by (intro exI [of _ n] exI [of _ ?i]) (simp add: w entry_def)
qed

section \<open>Properties\<close>

text \<open>C23: \<open>expire\<close> on a timer wheel, with callbacks that do not operate on the queue and times in the range of
  \<open>msec\<close>: the wheel's own loop gives what the loop of the base class gives; it ends; each timer that is due is
  dispatched exactly once, in the order of the times although the timers are spread over the spokes, and no
  other timer is. Afterwards nothing is due: one-shot timers are gone and periodic ones have moved past the
  current time.\<close>

theorem wheel_expire_correct:
  assumes "wheel_inv q L" "inert f cur_time g" "tv_normal cur_time"
    and "\<forall>a \<in> wheel_queued q. tv_normal (nd_interval (fl_nodes q a)) \<and>
      tv_total (nd_interval (fl_nodes q a)) < 2 ^ 64 \<and> tv_total cur_time - tv_total (lvalue q a) < 2 ^ 64 \<and>
      (tv_total cur_time + tv_total (nd_interval (fl_nodes q a))) div 1000 < 2 ^ 63"
  shows "wheel_expire f cur_time (q, u) = expire wheel_ops f cur_time (q, u) \<and>
   (\<exists>q' ns. wheel_expire f cur_time (q, u) =
      Some ((q', fold (\<lambda>n. g (get_dispatch_info (fl_nodes q n))) ns u), length ns) \<and>
    distinct ns \<and> set ns = {a \<in> wheel_queued q. lvalue q a \<le> cur_time} \<and> sorted (map (lvalue q) ns) \<and>
    wheel_inv q' L \<and>
    wheel_queued q' = wheel_queued q - {a \<in> set ns. nd_interval (fl_nodes q a) \<le> zero_time} \<and>
    (\<forall>a \<in> wheel_queued q'. cur_time < lvalue q' a))"
proof -
  have ok: "wheel_time_ok (nd_timer_value (recompute_next_abs_interval_time (fl_nodes q a) cur_time))"
    if "a \<in> wheel_queued q" "lvalue q a \<le> cur_time" "nd_interval (fl_nodes q a) > zero_time" for a
    using that assms(3,4) wheel_invD(5) [OF assms(1)] by (intro recompute_in_range) auto
  have s: "tw.sane q cur_time"
    using assms(3,4) ok wheel_invD(5) [OF assms(1)]
    by (auto simp: tw.sane_def tw.val_def tw.due_def wheel_time_ok_def)
  note eq = wheel_expire_eq [OF assms(2,1) s, of u]
  obtain q' ns where E: "expire wheel_ops f cur_time (q, u) =
      Some ((q', fold (\<lambda>n. g (get_dispatch_info (fl_nodes q n))) ns u), card (tw.due q cur_time))"
    "distinct ns" "set ns = tw.due q cur_time" "sorted (map (tw.val q) ns)" "wheel_inv q' L"
    "tw.expired_to q cur_time q'"
    using tw.expire_correct [OF assms(2,1) s, of u] by auto
  have due: "tw.due q cur_time = {a \<in> wheel_queued q. lvalue q a \<le> cur_time}"
    "tw.due q' cur_time = {a \<in> wheel_queued q'. lvalue q' a \<le> cur_time}"
    by (simp_all add: tw.due_def tw.val_def)
  have "tw.val q = lvalue q" by (simp add: fun_eq_iff tw.val_def)
  then have "sorted (map (lvalue q) ns)" using E(4) by simp
  moreover have "card (tw.due q cur_time) = length ns" using E(2,3) distinct_card by metis
  moreover have "\<forall>a \<in> wheel_queued q'. cur_time < lvalue q' a"
    using E(6) due(2) unfolding tw.expired_to_def by force
  moreover have "wheel_queued q' = wheel_queued q - {a \<in> set ns. nd_interval (fl_nodes q a) \<le> zero_time}"
    using E(6) unfolding E(3) tw.expired_to_def wheel_ops_simps not_less by blast
  ultimately show ?thesis using E(1,2,3,5) due(1) eq by auto
qed

theorem wheel_expire_correct_witness:
  "\<exists>q'. wheel_expire \<lparr>fn_preinvoke = \<lambda>i c s. (s, 0), fn_timeout = \<lambda>i c (q, u). (q, Suc u),
     fn_postinvoke = \<lambda>i c a s. s\<rparr> (ACE_Time_Value 5 0) (wheel1, 0) = Some ((q', 1), 1) \<and> wheel_queued q' = {}"
proof -
  let ?f = "\<lparr>fn_preinvoke = \<lambda>i c s. (s, 0), fn_timeout = \<lambda>i c (q, u). (q, Suc u),
     fn_postinvoke = \<lambda>i c a s. s\<rparr> :: (nat timer_wheel \<times> nat, nat) timeout_functor"
  let ?c = "ACE_Time_Value 5 0"
  obtain n where w: "wheel_inv wheel1 {}" "wheel_queued wheel1 = {n}" "nd_interval (fl_nodes wheel1 n) = zero_time"
    "lvalue wheel1 n = ACE_Time_Value 4 0" using wheel1_facts by blast
  have g: "inert ?f ?c (\<lambda>i. Suc)" by (simp add: inert_def upcall_effect_def)
  have n: "tv_normal ?c" by (simp add: tv_normal_def)
  have ok: "\<forall>a \<in> wheel_queued wheel1. tv_normal (nd_interval (fl_nodes wheel1 a)) \<and>
      tv_total (nd_interval (fl_nodes wheel1 a)) < 2 ^ 64 \<and> tv_total ?c - tv_total (lvalue wheel1 a) < 2 ^ 64 \<and>
      (tv_total ?c + tv_total (nd_interval (fl_nodes wheel1 a))) div 1000 < 2 ^ 63"
    using w by (simp add: tv_normal_def tv_total_def zero_time_def)
  have "ACE_Time_Value 4 0 \<le> ?c" by code_simp
  then have d: "{a \<in> wheel_queued wheel1. lvalue wheel1 a \<le> ?c} = {n}" using w(2,4) by auto
  obtain q' ns where E: "wheel_expire ?f ?c (wheel1, 0) = Some ((q', fold (\<lambda>n. Suc) ns 0), length ns)" "distinct ns"
    "set ns = {n}" "wheel_queued q' = wheel_queued wheel1 - {a \<in> set ns. nd_interval (fl_nodes wheel1 a) \<le> zero_time}"
    using wheel_expire_correct [OF w(1) g n ok, of 0] unfolding d by blast
  have "length ns = 1" using E(2,3) distinct_card [of ns] by simp
  then obtain m where m: "ns = [m]" by (cases ns) auto
  moreover have "wheel_queued q' = {}" unfolding E(4,3) using w(2,3) by auto
  ultimately show ?thesis using E(1) by auto
qed

text \<open>C24: scheduling on a timer wheel while the counter of the spoke has not run over: the new timer goes into the
  spoke of its time, behind every timer of the spoke that is not later and in front of every later one; the other
  spokes and the entries of the other timers do not change; the id is valid and not in use.\<close>

theorem wheel_schedule_i_correct:
  assumes "wheel_inv q L" "wheel_time_ok future_time"
    and "lid q (root_of q (calculate_spoke q future_time)) < max_cnt q"
  shows "\<exists>q' k n. wheel_schedule_i q type act future_time interval = Some (q', k) \<and> k \<noteq> -1 \<and> wheel_inv q' L \<and>
    n \<notin> wheel_queued q \<union> L \<and> wheel_queued q' = insert n (wheel_queued q) \<and>
    (\<forall>j < tw_spoke_count q. wheel_nodes q' j =
       (if j = calculate_spoke q future_time
        then filter (\<lambda>a. lvalue q a \<le> future_time) (wheel_nodes q j) @ n #
             filter (\<lambda>a. lvalue q a > future_time) (wheel_nodes q j)
        else wheel_nodes q j)) \<and>
    entry (fl_nodes q' n) = (type, act, future_time, interval, k) \<and>
    (\<forall>a \<in> wheel_queued q \<union> L. entry (fl_nodes q' a) = entry (fl_nodes q a) \<and> lid q a \<noteq> k)"
proof -
  let ?i = "calculate_spoke q future_time" and ?X = "wheel_nodes q"
  let ?k = "make_id q (lid q (root_of q ?i)) ?i"
  note W = wheel_invD [OF assms(1)]
  obtain n q' where S: "wheel_schedule_i q type act future_time interval = Some (q', ?k)" "n \<notin> on_wheel q ?X \<union> L"
    "wheel_at q' (?X(?i := filter (\<lambda>a. lvalue q a \<le> future_time) (?X ?i) @ n # filter (\<lambda>a. \<not> lvalue q a \<le> future_time) (?X ?i))) L"
    "entry (fl_nodes q' n) = (type, act, future_time, interval, ?k)" "wheel_same q' q" "?i < tw_spoke_count q"
    "\<forall>a \<in> on_wheel q ?X \<union> L. entry (fl_nodes q' a) = entry (fl_nodes q a) \<and> lid q a \<noteq> ?k"
    using wheel_schedule_i_at [OF W(1) assms(2,3), of type act interval] by blast
  let ?Y = "?X(?i := filter (\<lambda>a. lvalue q a \<le> future_time) (?X ?i) @ n # filter (\<lambda>a. \<not> lvalue q a \<le> future_time) (?X ?i))"
  note C = wheel_same_cong [OF S(5)]
  have "wheel_time_ok (lvalue q' a)" if "a \<in> L" for a
    using that W(4) S(7) entry_cong(3) [of "fl_nodes q' a" "fl_nodes q a"] by auto
  note I = wheel_invI [OF S(3) this]
  have "on_wheel q' ?Y = insert n (on_wheel q ?X)" unfolding C(2) on_wheel_upd [OF S(6), of ?X] by auto
  moreover have "wheel_nodes q' j = ?Y j" if "j < tw_spoke_count q" for j
    using wheel_nodes_at [of q' ?Y L j] S(3) that C(6) by (simp add: wheel_at_def)
  moreover have "?k \<noteq> -1"
  proof (rule make_id_valid)
    show "0 \<le> lid q (root_of q ?i)" using W(2) S(6) unfolding wheel_pre_def ids_ok_def by blast
  qed (use W(2) S(6) assms(3) in \<open>auto simp: wheel_pre_def\<close>)
  ultimately show ?thesis
    using S(1,2,4,7) I W(3) by (intro exI [of _ q'] exI [of _ ?k] exI [of _ n]) (simp add: not_le)
qed

theorem wheel_schedule_i_correct_witness:
  "\<exists>q' k n. wheel_schedule_i wheel0 7 70 (ACE_Time_Value 4 0) zero_time = Some (q', k) \<and> wheel_queued q' = {n}"
  using wheel_schedule_i_correct [OF wheel0_ready(1) four_seconds_ok wheel0_ready(3), of 7 70 zero_time] wheel0_ready(2)
  by auto

text \<open>C25: cancelling on a timer wheel, by id: the timer with the id is removed from its spoke and from no other,
  wherever it has moved, the hooks are called once and the result is 1; with no such timer nothing changes and the
  result is 0. By type: exactly the timers of the type are removed from all spokes and their number is returned. In
  both cases the order in the spokes and the earliest time are right afterwards.\<close>

theorem wheel_cancel_correct:
  assumes "wheel_inv q L"
  shows "((\<forall>n \<in> wheel_queued q. lid q n \<noteq> timer_id) \<and>
      wheel_cancel f (q, u) timer_id skip_close = ((q, u), None, 0) \<or>
    (\<exists>n q'. n \<in> wheel_queued q \<and> lid q n = timer_id \<and>
       wheel_cancel f (q, u) timer_id skip_close =
         ((q', let (u1, cookie) = fn_cancel_type f (nd_type (fl_nodes q n)) skip_close 0 u
               in fn_cancel_timer f (nd_type (fl_nodes q n)) skip_close cookie u1),
          Some (nd_act (fl_nodes q n)), 1) \<and>
       wheel_inv q' L \<and> wheel_queued q' = wheel_queued q - {n} \<and>
       (\<forall>a. entry (fl_nodes q' a) = entry (fl_nodes q a)))) \<and>
    (\<exists>q' u'. wheel_cancel_type f (q, u) type skip_close =
         ((q', u'), card {a \<in> wheel_queued q. nd_type (fl_nodes q a) = type}) \<and> wheel_inv q' L \<and>
       wheel_queued q' = {a \<in> wheel_queued q. nd_type (fl_nodes q a) \<noteq> type} \<and>
       (\<forall>a. entry (fl_nodes q' a) = entry (fl_nodes q a)))"
proof -
  note W = wheel_invD [OF assms]
  have "(\<forall>n \<in> wheel_queued q. lid q n \<noteq> timer_id) \<and>
      wheel_cancel f (q, u) timer_id skip_close = ((q, u), None, 0) \<or>
    (\<exists>n q'. n \<in> wheel_queued q \<and> lid q n = timer_id \<and>
       wheel_cancel f (q, u) timer_id skip_close =
         ((q', let (u1, cookie) = fn_cancel_type f (nd_type (fl_nodes q n)) skip_close 0 u
               in fn_cancel_timer f (nd_type (fl_nodes q n)) skip_close cookie u1),
          Some (nd_act (fl_nodes q n)), 1) \<and>
       wheel_inv q' L \<and> wheel_queued q' = wheel_queued q - {n} \<and>
       (\<forall>a. entry (fl_nodes q' a) = entry (fl_nodes q a)))"
  proof (cases "\<exists>n \<in> wheel_queued q. lid q n = timer_id")
    case True
    then obtain n where n: "n \<in> wheel_queued q" "lid q n = timer_id" by blast
    have "n \<in> on_wheel q (wheel_nodes q)" using n(1) W(3) by simp
    from wheel_cancel_at [OF W(1) this n(2), of f u skip_close] obtain q' where
      q': "wheel_cancel f (q, u) timer_id skip_close =
         ((q', let (u1, cookie) = fn_cancel_type f (nd_type (fl_nodes q n)) skip_close 0 u
               in fn_cancel_timer f (nd_type (fl_nodes q n)) skip_close cookie u1),
          Some (nd_act (fl_nodes q n)), 1)"
      "wheel_at q' (\<lambda>i. filter (\<lambda>a. a \<noteq> n) (wheel_nodes q i)) L"
      "on_wheel q' (\<lambda>i. filter (\<lambda>a. a \<noteq> n) (wheel_nodes q i)) = on_wheel q (wheel_nodes q) - {n}"
      "\<forall>a. entry (fl_nodes q' a) = entry (fl_nodes q a)" by blast
    have "wheel_time_ok (lvalue q' a)" if "a \<in> L" for a
      using that W(4) q'(4) entry_cong(3) [of "fl_nodes q' a" "fl_nodes q a"] by simp
    from wheel_invI [OF q'(2) this] q' n W(3) show ?thesis by (intro disjI2 exI [of _ n] exI [of _ q']) simp
  next
    case False
    then have "wheel_find_node q timer_id = NULL" using wheel_find_node_at(1) [OF W(2)] W(3) by auto
    then show ?thesis using False by (simp add: wheel_cancel_def)
  qed
  moreover have "\<exists>q' u'. wheel_cancel_type f (q, u) type skip_close =
         ((q', u'), card {a \<in> wheel_queued q. nd_type (fl_nodes q a) = type}) \<and> wheel_inv q' L \<and>
       wheel_queued q' = {a \<in> wheel_queued q. nd_type (fl_nodes q a) \<noteq> type} \<and>
       (\<forall>a. entry (fl_nodes q' a) = entry (fl_nodes q a))"
    using wheel_cancel_type_inv [OF assms, of f u type skip_close] by blast
  ultimately show ?thesis by blast
qed

theorem wheel_cancel_correct_witness:
  "\<exists>q' u'. wheel_cancel_type \<lparr>fn_registration = \<lambda>t a u. u, fn_cancel_type = \<lambda>t d c u. (u, c),
     fn_cancel_timer = \<lambda>t d c u. Suc u, fn_deletion = \<lambda>t a u. u\<rparr> (wheel1, 0 :: nat) 7 0 = ((q', u'), 1) \<and>
     wheel_queued q' = {}"
proof -
  obtain n where w: "wheel_inv wheel1 {}" "wheel_queued wheel1 = {n}" "nd_type (fl_nodes wheel1 n) = 7"
    using wheel1_facts by blast
  have "{a \<in> wheel_queued wheel1. nd_type (fl_nodes wheel1 a) = 7} = {n}"
    "{a \<in> wheel_queued wheel1. nd_type (fl_nodes wheel1 a) \<noteq> 7} = {}" using w by auto
  then show ?thesis
    using wheel_cancel_correct [OF w(1), of 0 "\<lparr>fn_registration = \<lambda>t a u. u, fn_cancel_type = \<lambda>t d c u. (u, c),
       fn_cancel_timer = \<lambda>t d c u. Suc u, fn_deletion = \<lambda>t a u. u\<rparr>" "0 :: nat" 0 7] by auto
qed



text \<open>C27: when the counter of a spoke has run over and the spoke still holds a timer, scheduling into it steps through
  a null pointer: the search finds an id that is not in use, which there always is with fewer timers than ids, and
  goes on along the links from the null pointer that the lookup of that id has returned.\<close>

theorem wheel_id_overflow:
  assumes "wheel_inv q L" "wheel_time_ok future_time"
    and "lid q (root_of q (calculate_spoke q future_time)) = max_cnt q"
    and "wheel_nodes q (calculate_spoke q future_time) \<noteq> []"
    and "int (card (wheel_queued q)) < max_cnt q - 1"
  shows "wheel_schedule_i q type act future_time interval = None"
proof -
  let ?i = "calculate_spoke q future_time" and ?X = "wheel_nodes q"
  note W = wheel_invD [OF assms(1)]
  obtain q1 n where al: "fl_remove q = (q1, n)" by fastforce
  note A = alloc_node_pre [OF W(2) al] and C = wheel_same_cong [OF alloc_node_pre(2) [OF W(2) al]]
  have i: "?i < tw_spoke_count q" using W(2) assms(2) by (intro calculate_spoke_less) (auto simp: wheel_pre_def)
  let ?h = "root_of q1 ?i"
  have h: "?h = root_of q ?i" "fl_nodes q1 ?h = fl_nodes q ?h"
    using C(5) A(4) roots_apart(2) [OF W(2) i] by simp_all
  have "ring (nxt q1) (prv q1) ?h (?X ?i)" using spoke_at [OF A(1), of ?i] i C(6) by (simp add: spoke_ok_def)
  then have ne: "nxt q1 ?h \<noteq> ?h" using ring_empty_iff assms(4) by blast
  have act: "nd_act (fl_nodes q1 ?h) = 0" using W(2) i h unfolding wheel_pre_def ids_ok_def by simp
  have "int (card (on_wheel q1 ?X)) < max_cnt q1 - 1" using assms(5) W(3) C(2,3) by simp
  from unused_id [OF A(1) _ this, of ?i] obtain c where
    c: "0 \<le> c" "c < max_cnt q1 - 1" "find_spoke_node q1 ?i (make_id q1 c ?i) = NULL" using i C(6) by auto
  have m: "push_bit (64 - tw_spoke_bits q1) 1 - 1 = max_cnt q1" by (simp add: max_cnt_def push_bit_eq_mult)
  have "lid q1 ?h = max_cnt q1" using h assms(3) C(3) by simp
  then have "generate_timer_id q1 ?i = id_search q1 ?i (max_cnt q1) 0"
    using ne act i C(6) unfolding generate_timer_id_def Let_def m by auto
  also have "\<dots> = None" by (rule id_search_crash [OF c])
  finally show ?thesis using al A(3) C(1) by (simp add: wheel_schedule_i_def wheel_alloc_node_def Let_def)
qed

theorem wheel_id_overflow_witness:
  "\<exists>(q :: nat timer_wheel) n. wheel_inv q {} \<and> wheel_queued q = {n} \<and> wheel_schedule_i q 9 0 (ACE_Time_Value 4 0) zero_time = None"
proof -
  obtain n i where w: "i < tw_spoke_count wheel1" "i = calculate_spoke wheel1 (ACE_Time_Value 4 0)" "wheel_inv wheel1 {}"
    "wheel_queued wheel1 = {n}" "wheel_nodes wheel1 i = [n]" using wheel1_facts by blast
  let ?q = "set_root wheel1 (root_of wheel1 i) (max_cnt wheel1)"
  note S = set_root_inv [OF w(3,1)] and C = wheel_same_cong [OF set_root_inv(3) [OF w(3,1)]]
  have "tw_spoke_bits wheel1 \<le> 12" using wheel_invD(2) [OF w(3)] by (simp add: wheel_pre_def wheel_shape_def)
  then have "(2 :: int) ^ 3 \<le> 2 ^ (64 - tw_spoke_bits wheel1)" by (intro power_increasing) auto
  then have m: "2 < max_cnt wheel1 - 1" by (simp add: max_cnt_def)
  have "wheel_schedule_i ?q 9 0 (ACE_Time_Value 4 0) zero_time = None"
    using m S(2,4) w(4,5) C(1,3,5)
    by (intro wheel_id_overflow [OF S(1) four_seconds_ok]) (simp_all add: w(2) [symmetric] set_root_def)
  then show ?thesis using S(1,2) w(4) by (intro exI [of _ ?q] exI [of _ n]) simp
qed

text \<open>C28: \<open>close\<close> on a timer wheel ends and calls the deletion hook once for each timer, spoke by spoke. It leaves the
  freed nodes linked to the roots of the spokes: closing again, as the destructor does, follows the links of the free
  list to its end and steps through a null pointer, whenever a timer was queued and the free list took its node back.\<close>

theorem wheel_close_correct:
  assumes "wheel_inv q L"
  shows "\<exists>q' ns. wheel_close f (q, u) =
      Some (q', fold (\<lambda>a. fn_deletion f (nd_type (fl_nodes q a)) (nd_act (fl_nodes q a))) ns u) \<and>
    ns = concat (map (wheel_nodes q) [0..<tw_spoke_count q]) \<and> distinct ns \<and> set ns = wheel_queued q \<and>
    (wheel_queued q \<noteq> {} \<and> fl_size q < fl_hwm q \<longrightarrow> wheel_fini f' (q', u') = None)"
proof -
  note W = wheel_invD [OF assms]
  let ?X = "wheel_nodes q" and ?C = "tw_spoke_count q"
  obtain q' where q': "wheel_close f (q, u) = Some (q', fold (deletion_of f q) (concat (map ?X [0..<?C])) u)"
    "\<forall>a. (\<forall>i \<in> set [0..<?C]. a \<notin> set (?X i)) \<longrightarrow> fl_nodes q' a = fl_nodes q a" "wheel_same q' q" "fl_brk q' = fl_brk q"
    "concat (map ?X [0..<?C]) \<noteq> [] \<and> fl_size q < fl_hwm q \<longrightarrow> nxt q' (hd (concat (map ?X [0..<?C]))) = fl_free_list q"
    using close_spokes_at [OF W(2), of "[0..<?C]" q f u] by (auto simp: wheel_close_def wheel_same_def)
  have st: "set (concat (map ?X [0..<?C])) = wheel_queued q" by (auto simp: W(3) on_wheel_def)
  have "distinct (?X i)" if "i < ?C" for i using spoke_at [OF W(2) that] by (simp add: spoke_ok_def ring_def)
  then have "distinct (concat (map ?X [0..<?C]))"
    using spokes_disjoint [OF W(2)] by (intro distinct_concat_map) auto
  moreover have "wheel_fini f' (q', u') = None" if "wheel_queued q \<noteq> {}" "fl_size q < fl_hwm q"
  proof -
    have "concat (map ?X [0..<?C]) \<noteq> []" using st that(1) by force
    then have "nxt q' (hd (concat (map ?X [0..<?C]))) = fl_free_list q" using q'(5) that(2) by blast
    then have "wheel_close f' (q', u') = None"
      using q'(2) that(1) W(3) by (intro close_twice [OF W(2) q'(3,4)]) (auto simp: on_wheel_def)
    then show ?thesis by (simp add: wheel_fini_def)
  qed
  ultimately show ?thesis using q'(1) st by (intro exI [of _ q'] exI [of _ "concat (map ?X [0..<?C])"]) simp
qed

theorem wheel_close_correct_witness:
  "\<exists>q'. wheel_close \<lparr>fn_registration = \<lambda>t a u. u, fn_cancel_type = \<lambda>t d c u. (u, c),
     fn_cancel_timer = \<lambda>t d c u. u, fn_deletion = \<lambda>t a u. u + t\<rparr> (wheel1, 0) = Some (q', 7)"
proof -
  let ?f = "\<lparr>fn_registration = \<lambda>t a u. u, fn_cancel_type = \<lambda>t d c u. (u, c),
     fn_cancel_timer = \<lambda>t d c u. u, fn_deletion = \<lambda>t a u. u + t\<rparr> :: (nat, nat) upcall_functor"
  obtain n where w: "wheel_inv wheel1 {}" "wheel_queued wheel1 = {n}" "nd_type (fl_nodes wheel1 n) = 7"
    using wheel1_facts by blast
  obtain q' ns where c: "wheel_close ?f (wheel1, 0) = Some (q', fold (\<lambda>a u. u + nd_type (fl_nodes wheel1 a)) ns 0)"
    "distinct ns" "set ns = {n}"
    using wheel_close_correct [OF w(1), of ?f 0 ?f 0] w(2) by auto
  have "length ns = 1" using c(2,3) distinct_card [of ns] by simp
  then obtain m where "ns = [m]" by (cases ns) auto
  then show ?thesis using c(1,3) w(3) by auto
qed

end
