(* ===== verification/ACE_Message_Queue.thy ===== *)
theory ACE_Message_Queue
  imports ACE_Time_Value ACE_Links
begin

text \<open>
  \<^verbatim>\<open>ACE_Message_Queue\<close> (\<^verbatim>\<open>ace/Message_Queue_T.cpp\<close>): a queue of message blocks, linked in both
  directions through the blocks and bounded by the number of bytes queued.

  Blocks live in a store. The continuation chain of a block is read only by
  \<open>total_size_and_length\<close>, so the store keeps it as the list of the sizes and lengths of its
  blocks. \<open>size_t\<close> and \<open>u_long\<close> are 64-bit words, so the byte counts wrap as they do in the code.

  A loop over \<open>next\<close> or \<open>prev\<close> links does not end on a cycle; it is a partial function, and
  \<open>None\<close> is the call that does not return. A wait on a condition variable gives the lock away: what
  the other threads do meanwhile is a script, the list of the outcomes of the successive waits
  with the queue found after each; a call that has used up its script is blocked.
\<close>

section \<open>State\<close>

type_synonym size_t = "64 word"

record message_block =
  mb_next :: addr
  mb_prev :: addr
  mb_blocks :: "(size_t \<times> size_t) list"
  mb_priority :: "64 word"
  mb_deadline :: ace_time_value

datatype queue_state = ACTIVATED | DEACTIVATED | PULSED

text \<open>A condition variable: whether signalling it fails, and the calls made on it.\<close>

record condition =
  cond_fails :: bool
  cond_signals :: nat
  cond_broadcasts :: nat

record message_queue =
  mq_high_water_mark :: size_t
  mq_low_water_mark :: size_t
  mq_state :: queue_state
  mq_cur_bytes :: size_t
  mq_cur_length :: size_t
  mq_cur_count :: size_t
  mq_head :: addr
  mq_tail :: addr
  mq_notification_strategy :: addr
  mq_notified :: nat
  mq_not_empty_cond :: condition
  mq_not_full_cond :: condition
  mq_blocks :: "addr \<Rightarrow> message_block"
  mq_released :: "addr list"

datatype errno = ETIME | EWOULDBLOCK | ESHUTDOWN | EINTR

datatype 'q wait_result = Wait_Failed errno 'q | Wait_Woken 'q

definition INT_MAX :: int where
  "INT_MAX = 2 ^ 31 - 1"

text \<open>\<open>ACE_Utils::truncate_cast<int>\<close> of a count.\<close>

definition truncate_int :: "size_t \<Rightarrow> int" where
  "truncate_int n = (if uint n > INT_MAX then INT_MAX else uint n)"

lemma truncate_int_nonneg: "truncate_int n \<noteq> -1"
proof -
  have "0 \<le> truncate_int n" by (simp add: truncate_int_def INT_MAX_def)
  then show ?thesis by presburger
qed

abbreviation mnext :: "message_queue \<Rightarrow> addr \<Rightarrow> addr" where
  "mnext q \<equiv> (\<lambda>a. mb_next (mq_blocks q a))"

abbreviation mprev :: "message_queue \<Rightarrow> addr \<Rightarrow> addr" where
  "mprev q \<equiv> (\<lambda>a. mb_prev (mq_blocks q a))"

definition set_mnext :: "message_queue \<Rightarrow> addr \<Rightarrow> addr \<Rightarrow> message_queue" where
  "set_mnext q a b = q\<lparr>mq_blocks := (mq_blocks q)(a := (mq_blocks q a)\<lparr>mb_next := b\<rparr>)\<rparr>"

definition set_mprev :: "message_queue \<Rightarrow> addr \<Rightarrow> addr \<Rightarrow> message_queue" where
  "set_mprev q a b = q\<lparr>mq_blocks := (mq_blocks q)(a := (mq_blocks q a)\<lparr>mb_prev := b\<rparr>)\<rparr>"

definition total_size_and_length :: "message_block \<Rightarrow> size_t \<times> size_t \<Rightarrow> size_t \<times> size_t" where
  "total_size_and_length b acc =
     fold (\<lambda>(s, l) (mb_size, mb_length). (mb_size + s, mb_length + l)) (mb_blocks b) acc"

definition count_block :: "message_queue \<Rightarrow> addr \<Rightarrow> message_queue" where
  "count_block q a =
     (let (b, l) = total_size_and_length (mq_blocks q a) (mq_cur_bytes q, mq_cur_length q)
      in q\<lparr>mq_cur_count := mq_cur_count q + 1, mq_cur_bytes := b, mq_cur_length := l\<rparr>)"

definition uncount_block :: "message_queue \<Rightarrow> addr \<Rightarrow> message_queue" where
  "uncount_block q a =
     (let (mb_bytes, mb_length) = total_size_and_length (mq_blocks q a) (0, 0)
      in q\<lparr>mq_cur_bytes := mq_cur_bytes q - mb_bytes, mq_cur_length := mq_cur_length q - mb_length,
           mq_cur_count := mq_cur_count q - 1\<rparr>)"

section \<open>Opening, activating and flushing\<close>

definition mq_open :: "message_queue \<Rightarrow> size_t \<Rightarrow> size_t \<Rightarrow> addr \<Rightarrow> message_queue \<times> int" where
  "mq_open q hwm lwm ns =
     (q\<lparr>mq_high_water_mark := hwm, mq_low_water_mark := lwm, mq_state := ACTIVATED,
        mq_cur_bytes := 0, mq_cur_length := 0, mq_cur_count := 0, mq_tail := NULL, mq_head := NULL,
        mq_notification_strategy := ns\<rparr>, 0)"

definition is_empty_i :: "message_queue \<Rightarrow> bool" where
  "is_empty_i q \<longleftrightarrow> mq_tail q = NULL"

definition is_full_i :: "message_queue \<Rightarrow> bool" where
  "is_full_i q \<longleftrightarrow> mq_cur_bytes q \<ge> mq_high_water_mark q"

definition deactivate_i :: "message_queue \<Rightarrow> bool \<Rightarrow> message_queue \<times> queue_state" where
  "deactivate_i q pulse =
     (let previous_state = mq_state q
      in (if previous_state \<noteq> DEACTIVATED
          then q\<lparr>mq_not_empty_cond := (mq_not_empty_cond q)
                   \<lparr>cond_broadcasts := cond_broadcasts (mq_not_empty_cond q) + 1\<rparr>,
                 mq_not_full_cond := (mq_not_full_cond q)
                   \<lparr>cond_broadcasts := cond_broadcasts (mq_not_full_cond q) + 1\<rparr>,
                 mq_state := (if pulse then PULSED else DEACTIVATED)\<rparr>
          else q, previous_state))"

definition activate_i :: "message_queue \<Rightarrow> message_queue \<times> queue_state" where
  "activate_i q = (q\<lparr>mq_state := ACTIVATED\<rparr>, mq_state q)"

definition mq_deactivate :: "message_queue \<Rightarrow> message_queue \<times> queue_state" where
  "mq_deactivate q = deactivate_i q False"

definition mq_pulse :: "message_queue \<Rightarrow> message_queue \<times> queue_state" where
  "mq_pulse q = deactivate_i q True"

partial_function (option) flush_loop :: "message_queue \<Rightarrow> nat \<Rightarrow> (message_queue \<times> nat) option" where
  "flush_loop q number_flushed =
     (if mq_head q \<noteq> NULL
      then let q1 = uncount_block q (mq_head q); temp = mq_head q
           in flush_loop (q1\<lparr>mq_head := mnext q (mq_head q), mq_released := mq_released q1 @ [temp]\<rparr>)
                (number_flushed + 1)
      else Some (q, number_flushed))"

declare flush_loop.simps [code]

definition flush_i :: "message_queue \<Rightarrow> (message_queue \<times> nat) option" where
  "flush_i q = flush_loop (q\<lparr>mq_tail := NULL\<rparr>) 0"

definition mq_close :: "message_queue \<Rightarrow> (message_queue \<times> nat) option" where
  "mq_close q = flush_i (fst (deactivate_i q False))"

definition signal_enqueue_waiters :: "message_queue \<Rightarrow> message_queue \<times> int" where
  "signal_enqueue_waiters q =
     (q\<lparr>mq_not_full_cond := (mq_not_full_cond q)\<lparr>cond_signals := cond_signals (mq_not_full_cond q) + 1\<rparr>\<rparr>,
      if cond_fails (mq_not_full_cond q) then -1 else 0)"

definition signal_dequeue_waiters :: "message_queue \<Rightarrow> message_queue \<times> int" where
  "signal_dequeue_waiters q =
     (q\<lparr>mq_not_empty_cond := (mq_not_empty_cond q)\<lparr>cond_signals := cond_signals (mq_not_empty_cond q) + 1\<rparr>\<rparr>,
      if cond_fails (mq_not_empty_cond q) then -1 else 0)"

definition signalled_enqueue :: "message_queue \<Rightarrow> message_queue \<times> int" where
  "signalled_enqueue q =
     (let (q1, r) = signal_dequeue_waiters q
      in (q1, if r = -1 then -1 else truncate_int (mq_cur_count q1)))"

section \<open>Enqueueing\<close>

text \<open>The walk over a chain of new blocks that sets the back links and counts them.\<close>

partial_function (option) seq_walk :: "message_queue \<Rightarrow> addr \<Rightarrow> (message_queue \<times> addr) option" where
  "seq_walk q seq_tail =
     (if mnext q seq_tail \<noteq> NULL
      then let nx = mnext q seq_tail; q1 = set_mprev q nx seq_tail
           in seq_walk (count_block q1 nx) nx
      else Some (q, seq_tail))"

declare seq_walk.simps [code]

definition enqueue_tail_i :: "message_queue \<Rightarrow> addr \<Rightarrow> (message_queue \<times> int) option" where
  "enqueue_tail_i q new_item =
     (if new_item = NULL then Some (q, -1)
      else case seq_walk (count_block q new_item) new_item of None \<Rightarrow> None
      | Some (q1, seq_tail) \<Rightarrow>
          let q2 = (if mq_tail q1 = NULL
                    then set_mprev (q1\<lparr>mq_head := new_item, mq_tail := seq_tail\<rparr>) new_item NULL
                    else (set_mprev (set_mnext q1 (mq_tail q1) new_item) new_item (mq_tail q1))
                           \<lparr>mq_tail := seq_tail\<rparr>)
          in Some (signalled_enqueue q2))"

definition enqueue_head_i :: "message_queue \<Rightarrow> addr \<Rightarrow> (message_queue \<times> int) option" where
  "enqueue_head_i q new_item =
     (if new_item = NULL then Some (q, -1)
      else case seq_walk (count_block q new_item) new_item of None \<Rightarrow> None
      | Some (q1, seq_tail) \<Rightarrow>
          let q2 = set_mnext (set_mprev q1 new_item NULL) seq_tail (mq_head q1);
              q3 = (if mq_head q2 \<noteq> NULL then set_mprev q2 (mq_head q2) seq_tail
                    else q2\<lparr>mq_tail := seq_tail\<rparr>)
          in Some (signalled_enqueue (q3\<lparr>mq_head := new_item\<rparr>)))"

text \<open>The loop that follows links until a block satisfies the test or the links end.\<close>

partial_function (option) find_link :: "(addr \<Rightarrow> addr) \<Rightarrow> (addr \<Rightarrow> bool) \<Rightarrow> addr \<Rightarrow> addr option" where
  "find_link f P temp =
     (if temp = NULL then Some NULL else if P temp then Some temp else find_link f P (f temp))"

declare find_link.simps [code]

definition insert_behind :: "message_queue \<Rightarrow> addr \<Rightarrow> addr \<Rightarrow> message_queue" where
  "insert_behind q temp new_item =
     (let q1 = set_mprev q new_item temp; q2 = set_mnext q1 new_item (mnext q1 temp);
          q3 = set_mprev q2 (mnext q2 temp) new_item
      in set_mnext q3 temp new_item)"

definition enqueue_i :: "message_queue \<Rightarrow> addr \<Rightarrow> (message_queue \<times> int) option" where
  "enqueue_i q new_item =
     (if new_item = NULL then Some (q, -1)
      else let q0 = set_mnext q new_item NULL in
        if mq_head q0 = NULL then enqueue_head_i q0 new_item
        else case find_link (mprev q0)
               (\<lambda>t. mb_priority (mq_blocks q0 t) \<ge> mb_priority (mq_blocks q0 new_item)) (mq_tail q0) of
          None \<Rightarrow> None
        | Some temp \<Rightarrow>
            if temp = NULL then enqueue_head_i q0 new_item
            else if mnext q0 temp = NULL then enqueue_tail_i q0 new_item
            else Some (signalled_enqueue (count_block (insert_behind q0 temp new_item) new_item)))"

text \<open>\<open>timed\<close> is whether \<^verbatim>\<open>ACE_HAS_TIMED_MESSAGE_BLOCKS\<close> is defined.\<close>

definition enqueue_deadline_i :: "bool \<Rightarrow> message_queue \<Rightarrow> addr \<Rightarrow> (message_queue \<times> int) option" where
  "enqueue_deadline_i timed q new_item =
     (if \<not> timed then enqueue_tail_i q new_item
      else if new_item = NULL then Some (q, -1)
      else let q0 = set_mnext q new_item NULL in
        if mq_head q0 = NULL then enqueue_head_i q0 new_item
        else case find_link (mnext q0)
               (\<lambda>t. mb_deadline (mq_blocks q0 new_item) < mb_deadline (mq_blocks q0 t)) (mq_head q0) of
          None \<Rightarrow> None
        | Some temp \<Rightarrow>
            if temp = NULL \<or> mnext q0 temp = NULL then enqueue_tail_i q0 new_item
            else Some (let q1 = count_block (insert_behind q0 temp new_item) new_item;
                           (q2, r) = signal_dequeue_waiters q1
                       in (q2, if r = -1 then -1 else sint (ucast (mq_cur_count q2) :: 32 word))))"

section \<open>Dequeueing\<close>

text \<open>The end of every dequeue operation: the counts, the links of the block, the signal.\<close>

definition finish_dequeue :: "message_queue \<Rightarrow> addr \<Rightarrow> message_queue" where
  "finish_dequeue q dequeued =
     (let q1 = uncount_block q dequeued;
          q2 = (if mq_cur_count q1 = 0 \<and> mq_head q1 = mq_tail q1
                then q1\<lparr>mq_head := NULL, mq_tail := NULL\<rparr> else q1)
      in set_mnext (set_mprev q2 dequeued NULL) dequeued NULL)"

definition signalled_dequeue :: "message_queue \<Rightarrow> message_queue \<times> int" where
  "signalled_dequeue q =
     (if mq_cur_bytes q \<le> mq_low_water_mark q
      then let (q1, r) = signal_enqueue_waiters q
           in (q1, if r = -1 then -1 else truncate_int (mq_cur_count q1))
      else (q, truncate_int (mq_cur_count q)))"

text \<open>The results of the dequeue operations: the queue, the block handed out, the return value.\<close>

definition dequeue_head_i :: "message_queue \<Rightarrow> message_queue \<times> addr option \<times> int" where
  "dequeue_head_i q =
     (if mq_head q = NULL then (q, None, -1)
      else let first_item = mq_head q;
               q1 = q\<lparr>mq_head := mnext q (mq_head q)\<rparr>;
               q2 = (if mq_head q1 = NULL then q1\<lparr>mq_tail := NULL\<rparr> else set_mprev q1 (mq_head q1) NULL);
               (q3, r) = signalled_dequeue (finish_dequeue q2 first_item)
           in (q3, Some first_item, r))"

definition dequeue_tail_i :: "message_queue \<Rightarrow> message_queue \<times> addr option \<times> int" where
  "dequeue_tail_i q =
     (if mq_head q = NULL then (q, None, -1)
      else let dequeued = mq_tail q;
               q2 = (if mprev q (mq_tail q) = NULL then q\<lparr>mq_head := NULL, mq_tail := NULL\<rparr>
                     else let q1 = set_mnext q (mprev q (mq_tail q)) NULL
                          in q1\<lparr>mq_tail := mprev q1 (mq_tail q1)\<rparr>);
               (q3, r) = signalled_dequeue (finish_dequeue q2 dequeued)
           in (q3, Some dequeued, r))"

definition unlink_block :: "message_queue \<Rightarrow> addr \<Rightarrow> message_queue" where
  "unlink_block q chosen =
     (let q1 = (if mprev q chosen = NULL then q\<lparr>mq_head := mnext q chosen\<rparr>
                else set_mnext q (mprev q chosen) (mnext q chosen))
      in if mnext q1 chosen = NULL then q1\<lparr>mq_tail := mprev q1 chosen\<rparr>
         else set_mprev q1 (mnext q1 chosen) (mprev q1 chosen))"

partial_function (option) choose_prio :: "message_queue \<Rightarrow> addr \<Rightarrow> 64 word \<Rightarrow> addr \<Rightarrow> addr option" where
  "choose_prio q temp priority chosen =
     (if temp = NULL then Some chosen
      else if mb_priority (mq_blocks q temp) \<le> priority
      then choose_prio q (mprev q temp) (mb_priority (mq_blocks q temp)) temp
      else choose_prio q (mprev q temp) priority chosen)"

declare choose_prio.simps [code]

definition dequeue_prio_i :: "message_queue \<Rightarrow> (message_queue \<times> addr option \<times> int) option" where
  "dequeue_prio_i q =
     (if mq_head q = NULL then Some (q, None, -1)
      else case choose_prio q (mq_tail q) (- 1) NULL of None \<Rightarrow> None
      | Some c \<Rightarrow>
          let chosen = (if c = NULL then mq_head q else c);
              (q2, r) = signalled_dequeue (finish_dequeue (unlink_block q chosen) chosen)
          in Some (q2, Some chosen, r))"

partial_function (option) choose_deadline ::
  "message_queue \<Rightarrow> addr \<Rightarrow> ace_time_value \<Rightarrow> addr \<Rightarrow> addr option" where
  "choose_deadline q temp deadline chosen =
     (if temp = NULL then Some chosen
      else if mb_deadline (mq_blocks q temp) < deadline
      then choose_deadline q (mnext q temp) (mb_deadline (mq_blocks q temp)) temp
      else choose_deadline q (mnext q temp) deadline chosen)"

declare choose_deadline.simps [code]

definition dequeue_deadline_i :: "bool \<Rightarrow> message_queue \<Rightarrow> (message_queue \<times> addr option \<times> int) option" where
  "dequeue_deadline_i timed q =
     (if \<not> timed then Some (dequeue_head_i q)
      else if mq_head q = NULL then Some (q, None, -1)
      else case choose_deadline q (mq_head q) max_time NULL of None \<Rightarrow> None
      | Some c \<Rightarrow>
          let chosen = (if c = NULL then mq_head q else c);
              q1 = finish_dequeue (unlink_block q chosen) chosen
          in Some (if mq_cur_bytes q1 \<le> mq_low_water_mark q1
                   then let (q2, r) = signal_enqueue_waiters q1
                        in (q2, Some chosen, if r = -1 then -1 else sint (ucast (mq_cur_count q2) :: 32 word))
                   else (q1, Some chosen, sint (ucast (mq_cur_count q1) :: 32 word))))"

section \<open>Waiting and the public operations\<close>

text \<open>The result of a call: the queue, the rest of the script, the value returned and \<open>errno\<close>.\<close>

fun wait_not_full_cond ::
  "message_queue wait_result list \<Rightarrow> message_queue \<Rightarrow>
   (message_queue \<times> message_queue wait_result list \<times> int \<times> errno option) option" where
  "wait_not_full_cond ws q =
     (if is_full_i q
      then case ws of [] \<Rightarrow> None
        | Wait_Failed e q' # ws' \<Rightarrow> Some (q', ws', -1, Some (if e = ETIME then EWOULDBLOCK else e))
        | Wait_Woken q' # ws' \<Rightarrow>
            if mq_state q' \<noteq> ACTIVATED then Some (q', ws', -1, Some ESHUTDOWN)
            else wait_not_full_cond ws' q'
      else Some (q, ws, 0, None))"

fun wait_not_empty_cond ::
  "message_queue wait_result list \<Rightarrow> message_queue \<Rightarrow>
   (message_queue \<times> message_queue wait_result list \<times> int \<times> errno option) option" where
  "wait_not_empty_cond ws q =
     (if is_empty_i q
      then case ws of [] \<Rightarrow> None
        | Wait_Failed e q' # ws' \<Rightarrow> Some (q', ws', -1, Some (if e = ETIME then EWOULDBLOCK else e))
        | Wait_Woken q' # ws' \<Rightarrow>
            if mq_state q' \<noteq> ACTIVATED then Some (q', ws', -1, Some ESHUTDOWN)
            else wait_not_empty_cond ws' q'
      else Some (q, ws, 0, None))"

declare wait_not_full_cond.simps [simp del] wait_not_empty_cond.simps [simp del]

text \<open>
  The enqueue operations share one body around the operation that links the block in: refuse if
  deactivated, wait for room, link, and tell the notification strategy once the lock is released.
\<close>

definition enqueue_with ::
  "(message_queue \<Rightarrow> addr \<Rightarrow> (message_queue \<times> int) option) \<Rightarrow> message_queue wait_result list \<Rightarrow>
   message_queue \<Rightarrow> addr \<Rightarrow> (message_queue \<times> int \<times> errno option) option" where
  "enqueue_with op ws q new_item =
     (if mq_state q = DEACTIVATED then Some (q, -1, Some ESHUTDOWN)
      else case wait_not_full_cond ws q of None \<Rightarrow> None
      | Some (q1, _, r, e) \<Rightarrow>
          if r = -1 then Some (q1, -1, e)
          else case op q1 new_item of None \<Rightarrow> None
            | Some (q2, queue_count) \<Rightarrow>
                if queue_count = -1 then Some (q2, -1, None)
                else Some (if mq_notification_strategy q2 \<noteq> NULL
                           then q2\<lparr>mq_notified := mq_notified q2 + 1\<rparr> else q2, queue_count, None))"

definition enqueue_head ::
  "message_queue wait_result list \<Rightarrow> message_queue \<Rightarrow> addr \<Rightarrow> (message_queue \<times> int \<times> errno option) option" where
  "enqueue_head ws q new_item = enqueue_with enqueue_head_i ws q new_item"

definition enqueue_tail ::
  "message_queue wait_result list \<Rightarrow> message_queue \<Rightarrow> addr \<Rightarrow> (message_queue \<times> int \<times> errno option) option" where
  "enqueue_tail ws q new_item = enqueue_with enqueue_tail_i ws q new_item"

definition enqueue_prio ::
  "message_queue wait_result list \<Rightarrow> message_queue \<Rightarrow> addr \<Rightarrow> (message_queue \<times> int \<times> errno option) option" where
  "enqueue_prio ws q new_item = enqueue_with enqueue_i ws q new_item"

definition enqueue_deadline ::
  "bool \<Rightarrow> message_queue wait_result list \<Rightarrow> message_queue \<Rightarrow> addr \<Rightarrow>
   (message_queue \<times> int \<times> errno option) option" where
  "enqueue_deadline timed ws q new_item = enqueue_with (enqueue_deadline_i timed) ws q new_item"

definition mq_enqueue ::
  "message_queue wait_result list \<Rightarrow> message_queue \<Rightarrow> addr \<Rightarrow> (message_queue \<times> int \<times> errno option) option" where
  "mq_enqueue ws q new_item = enqueue_prio ws q new_item"

definition dequeue_with ::
  "(message_queue \<Rightarrow> (message_queue \<times> addr option \<times> int) option) \<Rightarrow> message_queue wait_result list \<Rightarrow>
   message_queue \<Rightarrow> (message_queue \<times> addr option \<times> int \<times> errno option) option" where
  "dequeue_with op ws q =
     (if mq_state q = DEACTIVATED then Some (q, None, -1, Some ESHUTDOWN)
      else case wait_not_empty_cond ws q of None \<Rightarrow> None
      | Some (q1, _, r, e) \<Rightarrow>
          if r = -1 then Some (q1, None, -1, e)
          else case op q1 of None \<Rightarrow> None | Some (q2, item, r2) \<Rightarrow> Some (q2, item, r2, None))"

definition dequeue_head ::
  "message_queue wait_result list \<Rightarrow> message_queue \<Rightarrow> (message_queue \<times> addr option \<times> int \<times> errno option) option" where
  "dequeue_head ws q = dequeue_with (\<lambda>p. Some (dequeue_head_i p)) ws q"

definition dequeue_prio ::
  "message_queue wait_result list \<Rightarrow> message_queue \<Rightarrow> (message_queue \<times> addr option \<times> int \<times> errno option) option" where
  "dequeue_prio ws q = dequeue_with dequeue_prio_i ws q"

definition dequeue_tail ::
  "message_queue wait_result list \<Rightarrow> message_queue \<Rightarrow> (message_queue \<times> addr option \<times> int \<times> errno option) option" where
  "dequeue_tail ws q = dequeue_with (\<lambda>p. Some (dequeue_tail_i p)) ws q"

definition dequeue_deadline ::
  "bool \<Rightarrow> message_queue wait_result list \<Rightarrow> message_queue \<Rightarrow>
   (message_queue \<times> addr option \<times> int \<times> errno option) option" where
  "dequeue_deadline timed ws q = dequeue_with (dequeue_deadline_i timed) ws q"

definition peek_dequeue_head ::
  "message_queue wait_result list \<Rightarrow> message_queue \<Rightarrow> (message_queue \<times> addr option \<times> int \<times> errno option) option" where
  "peek_dequeue_head ws q =
     dequeue_with (\<lambda>p. Some (p, Some (mq_head p), truncate_int (mq_cur_count p))) ws q"

definition mq_notify :: "message_queue \<Rightarrow> message_queue" where
  "mq_notify q =
     (if mq_notification_strategy q = NULL then q else q\<lparr>mq_notified := mq_notified q + 1\<rparr>)"

text \<open>The iterators hold the current block; the reverse one starts at the tail.\<close>

definition mq_iter_init :: "message_queue \<Rightarrow> addr" where
  "mq_iter_init q = mq_head q"

definition mq_iter_next :: "addr \<Rightarrow> addr option \<times> int" where
  "mq_iter_next cur = (if cur \<noteq> NULL then (Some cur, 1) else (None, 0))"

definition mq_iter_advance :: "message_queue \<Rightarrow> addr \<Rightarrow> addr \<times> bool" where
  "mq_iter_advance q cur =
     (let c = (if cur \<noteq> NULL then mnext q cur else cur) in (c, c \<noteq> NULL))"

definition mq_riter_init :: "message_queue \<Rightarrow> addr" where
  "mq_riter_init q = mq_tail q"

definition mq_riter_advance :: "message_queue \<Rightarrow> addr \<Rightarrow> addr \<times> bool" where
  "mq_riter_advance q cur =
     (let c = (if cur \<noteq> NULL then mprev q cur else cur) in (c, c \<noteq> NULL))"

section \<open>Construction and settings\<close>

text \<open>The constructor opens the queue; the condition variables and the blocks are those of \<open>q\<close>.\<close>

definition mq_init :: "message_queue \<Rightarrow> size_t \<Rightarrow> size_t \<Rightarrow> addr \<Rightarrow> message_queue" where
  "mq_init q hwm lwm ns = fst (mq_open q hwm lwm ns)"

definition mq_fini :: "message_queue \<Rightarrow> message_queue option" where
  "mq_fini q = (if mq_head q \<noteq> NULL
     then (case mq_close q of None \<Rightarrow> None | Some (q', _) \<Rightarrow> Some q') else Some q)"

definition mq_flush :: "message_queue \<Rightarrow> (message_queue \<times> nat) option" where
  "mq_flush q = flush_i q"

definition mq_activate :: "message_queue \<Rightarrow> message_queue \<times> queue_state" where
  "mq_activate q = activate_i q"

definition mq_deactivated :: "message_queue \<Rightarrow> bool" where
  "mq_deactivated q \<longleftrightarrow> mq_state q = DEACTIVATED"

definition mq_is_empty :: "message_queue \<Rightarrow> bool" where
  "mq_is_empty q \<longleftrightarrow> is_empty_i q"

definition mq_is_full :: "message_queue \<Rightarrow> bool" where
  "mq_is_full q \<longleftrightarrow> is_full_i q"

definition set_high_water_mark :: "message_queue \<Rightarrow> size_t \<Rightarrow> message_queue" where
  "set_high_water_mark q hwm = q\<lparr>mq_high_water_mark := hwm\<rparr>"

definition set_low_water_mark :: "message_queue \<Rightarrow> size_t \<Rightarrow> message_queue" where
  "set_low_water_mark q lwm = q\<lparr>mq_low_water_mark := lwm\<rparr>"

definition set_message_bytes :: "message_queue \<Rightarrow> size_t \<Rightarrow> message_queue" where
  "set_message_bytes q new_value = q\<lparr>mq_cur_bytes := new_value\<rparr>"

definition set_message_length :: "message_queue \<Rightarrow> size_t \<Rightarrow> message_queue" where
  "set_message_length q new_value = q\<lparr>mq_cur_length := new_value\<rparr>"

definition set_notification_strategy :: "message_queue \<Rightarrow> addr \<Rightarrow> message_queue" where
  "set_notification_strategy q s = q\<lparr>mq_notification_strategy := s\<rparr>"

definition mq_dequeue ::
  "message_queue wait_result list \<Rightarrow> message_queue \<Rightarrow> (message_queue \<times> addr option \<times> int \<times> errno option) option" where
  "mq_dequeue ws q = dequeue_head ws q"

definition mq_iter_done :: "addr \<Rightarrow> bool" where
  "mq_iter_done cur \<longleftrightarrow> cur = NULL"

section \<open>The invariant\<close>

text \<open>
  The blocks \<open>xs\<close> are linked from \<open>head_\<close> to \<open>tail_\<close>: with the null pointer as a sentinel whose
  links are \<open>head_\<close> and \<open>tail_\<close>, they form a ring. The counts are those of \<open>xs\<close>, modulo the
  width of \<open>size_t\<close>.
\<close>

abbreviation lnext :: "message_queue \<Rightarrow> addr \<Rightarrow> addr" where
  "lnext q \<equiv> (mnext q)(NULL := mq_head q)"

abbreviation lprev :: "message_queue \<Rightarrow> addr \<Rightarrow> addr" where
  "lprev q \<equiv> (mprev q)(NULL := mq_tail q)"

definition block_bytes :: "message_block \<Rightarrow> size_t" where
  "block_bytes b = sum_list (map fst (mb_blocks b))"

definition block_length :: "message_block \<Rightarrow> size_t" where
  "block_length b = sum_list (map snd (mb_blocks b))"

definition mq_at :: "message_queue \<Rightarrow> addr list \<Rightarrow> bool" where
  "mq_at q xs \<longleftrightarrow>
     ring (lnext q) (lprev q) NULL xs \<and>
     mq_cur_bytes q = (\<Sum>a\<leftarrow>xs. block_bytes (mq_blocks q a)) \<and>
     mq_cur_length q = (\<Sum>a\<leftarrow>xs. block_length (mq_blocks q a)) \<and>
     mq_cur_count q = of_nat (length xs)"

lemma total_size_and_length_sum:
  "total_size_and_length b (s, l) = (s + block_bytes b, l + block_length b)"
proof -
  have "fold (\<lambda>(s, l) (mb_size, mb_length). (mb_size + s, mb_length + l)) xs (s, l) =
      (s + sum_list (map fst xs), l + sum_list (map snd xs))" for xs :: "(size_t \<times> size_t) list" and s l
    by (induction xs arbitrary: s l) (auto simp: add.assoc)
  then show ?thesis by (simp add: total_size_and_length_def block_bytes_def block_length_def)
qed

lemma find_link_chain:
  "chain f p xs \<Longrightarrow> find_link f P p = Some (case find P xs of None \<Rightarrow> NULL | Some a \<Rightarrow> a)"
proof (induction xs arbitrary: p)
  case Nil
  then show ?case by (simp add: find_link.simps)
next
  case (Cons x xs)
  then show ?case by (simp add: find_link.simps [of f P x])
qed

text \<open>Forwards and backwards along the links of a ring around the null pointer.\<close>

lemma seg_chain: "seg n p a xs NULL \<Longrightarrow> NULL \<notin> set xs \<Longrightarrow> chain n (n a) xs"
  by (induction xs arbitrary: a) auto

lemma seg_chain_back:
  "seg n p NULL xs b \<Longrightarrow> NULL \<notin> set xs \<Longrightarrow> chain p (p b) (rev xs)"
proof (induction xs arbitrary: b rule: rev_induct)
  case (snoc x xs)
  have "seg n p NULL (xs @ x # []) b" using snoc.prems(1) by simp
  then have "seg n p NULL xs x" "p b = x" by (simp_all only: seg_append seg.simps)
  then show ?case using snoc by auto
qed simp

lemma mq_at_chains:
  assumes "mq_at q xs"
  shows "chain (mnext q) (mq_head q) xs" "chain (mprev q) (mq_tail q) (rev xs)"
    and "distinct xs" "NULL \<notin> set xs" "mq_head q = hd (xs @ [NULL])" "mq_tail q = last (NULL # xs)"
proof -
  have R: "ring (lnext q) (lprev q) NULL xs" using assms by (simp add: mq_at_def)
  show "distinct xs" and nz: "NULL \<notin> set xs" using R by (auto simp: ring_def)
  have s: "seg (lnext q) (lprev q) NULL xs NULL" using R by (simp add: ring_def)
  have "chain (lnext q) (mq_head q) xs" using seg_chain [OF s nz] by simp
  moreover have "chain (lnext q) (mq_head q) xs \<longleftrightarrow> chain (mnext q) (mq_head q) xs"
    using nz by (intro chain_cong) auto
  ultimately show "chain (mnext q) (mq_head q) xs" by simp
  have "chain (lprev q) (mq_tail q) (rev xs)" using seg_chain_back [OF s nz] by simp
  moreover have "chain (lprev q) (mq_tail q) (rev xs) \<longleftrightarrow> chain (mprev q) (mq_tail q) (rev xs)"
    using nz by (intro chain_cong) auto
  ultimately show "chain (mprev q) (mq_tail q) (rev xs)" by simp
  show "mq_head q = hd (xs @ [NULL])" "mq_tail q = last (NULL # xs)"
    using ring_first [OF R] ring_last [OF R] by simp_all
qed

section \<open>Links\<close>

text \<open>A segment without its closing link.\<close>

primrec linked :: "(addr \<Rightarrow> addr) \<Rightarrow> (addr \<Rightarrow> addr) \<Rightarrow> addr \<Rightarrow> addr list \<Rightarrow> bool" where
  "linked n p a [] \<longleftrightarrow> True"
| "linked n p a (x # xs) \<longleftrightarrow> n a = x \<and> p x = a \<and> linked n p x xs"

lemma seg_linked: "seg n p a xs z \<longleftrightarrow> linked n p a xs \<and> n (last (a # xs)) = z \<and> p z = last (a # xs)"
  by (induction xs arbitrary: a) auto

lemma seg_prepend: "linked n p a ys \<Longrightarrow> seg n p (last (a # ys)) xs z \<Longrightarrow> seg n p a (ys @ xs) z"
  by (induction ys arbitrary: a) auto

lemma linked_append:
  "linked n p a (xs @ y # ys) \<longleftrightarrow>
   linked n p a xs \<and> n (last (a # xs)) = y \<and> p y = last (a # xs) \<and> linked n p y ys"
  by (induction xs arbitrary: a) auto

lemma linked_cong:
  "(\<And>x. x \<in> set (butlast (a # xs)) \<Longrightarrow> n x = n' x) \<Longrightarrow> (\<And>x. x \<in> set xs \<Longrightarrow> p x = p' x) \<Longrightarrow>
   linked n p a xs \<longleftrightarrow> linked n' p' a xs"
proof (induction xs arbitrary: a)
  case (Cons x xs)
  have "linked n p x xs \<longleftrightarrow> linked n' p' x xs" by (rule Cons.IH) (use Cons.prems in auto)
  then show ?case using Cons.prems by simp
qed simp

lemma set_mlink [simp]:
  "mb_next (mq_blocks (set_mnext q a b) c) = (if c = a then b else mb_next (mq_blocks q c))"
  "mb_prev (mq_blocks (set_mnext q a b) c) = mb_prev (mq_blocks q c)"
  "mb_next (mq_blocks (set_mprev q a b) c) = mb_next (mq_blocks q c)"
  "mb_prev (mq_blocks (set_mprev q a b) c) = (if c = a then b else mb_prev (mq_blocks q c))"
  "mq_head (set_mnext q a b) = mq_head q" "mq_head (set_mprev q a b) = mq_head q"
  "mq_tail (set_mnext q a b) = mq_tail q" "mq_tail (set_mprev q a b) = mq_tail q"
  "mq_cur_bytes (set_mnext q a b) = mq_cur_bytes q" "mq_cur_bytes (set_mprev q a b) = mq_cur_bytes q"
  "mq_cur_length (set_mnext q a b) = mq_cur_length q" "mq_cur_length (set_mprev q a b) = mq_cur_length q"
  "mq_cur_count (set_mnext q a b) = mq_cur_count q" "mq_cur_count (set_mprev q a b) = mq_cur_count q"
  by (simp_all add: set_mnext_def set_mprev_def)

text \<open>What the queue does not write: the content of the blocks, and its own settings.\<close>

definition payload :: "message_queue \<Rightarrow> addr \<Rightarrow> (size_t \<times> size_t) list \<times> 64 word \<times> ace_time_value" where
  "payload q a = (mb_blocks (mq_blocks q a), mb_priority (mq_blocks q a), mb_deadline (mq_blocks q a))"

definition settings :: "message_queue \<Rightarrow> size_t \<times> size_t \<times> queue_state \<times> addr \<times> nat \<times> addr list" where
  "settings q = (mq_high_water_mark q, mq_low_water_mark q, mq_state q, mq_notification_strategy q,
     mq_notified q, mq_released q)"

lemma set_mlink_frame [simp]:
  "payload (set_mnext q a b) = payload q" "payload (set_mprev q a b) = payload q"
  "settings (set_mnext q a b) = settings q" "settings (set_mprev q a b) = settings q"
  "mq_not_empty_cond (set_mnext q a b) = mq_not_empty_cond q"
  "mq_not_empty_cond (set_mprev q a b) = mq_not_empty_cond q"
  "mq_not_full_cond (set_mnext q a b) = mq_not_full_cond q"
  "mq_not_full_cond (set_mprev q a b) = mq_not_full_cond q"
  by (auto simp: payload_def settings_def set_mnext_def set_mprev_def fun_eq_iff)

lemma payload_fields:
  assumes "payload q' = payload q"
  shows "block_bytes (mq_blocks q' a) = block_bytes (mq_blocks q a)"
    "block_length (mq_blocks q' a) = block_length (mq_blocks q a)"
    "mb_priority (mq_blocks q' a) = mb_priority (mq_blocks q a)"
    "mb_deadline (mq_blocks q' a) = mb_deadline (mq_blocks q a)"
  using fun_cong [OF assms, of a] by (simp_all add: payload_def block_bytes_def block_length_def)

lemma count_block_simps [simp]:
  "mq_blocks (count_block q a) = mq_blocks q" "mq_head (count_block q a) = mq_head q"
  "mq_tail (count_block q a) = mq_tail q" "settings (count_block q a) = settings q"
  "payload (count_block q a) = payload q" "mq_not_empty_cond (count_block q a) = mq_not_empty_cond q"
  "mq_cur_bytes (count_block q a) = mq_cur_bytes q + block_bytes (mq_blocks q a)"
  "mq_cur_length (count_block q a) = mq_cur_length q + block_length (mq_blocks q a)"
  "mq_cur_count (count_block q a) = mq_cur_count q + 1"
  by (simp_all add: count_block_def total_size_and_length_sum settings_def payload_def fun_eq_iff)

lemma uncount_block_simps [simp]:
  "mq_blocks (uncount_block q a) = mq_blocks q" "mq_head (uncount_block q a) = mq_head q"
  "mq_tail (uncount_block q a) = mq_tail q" "settings (uncount_block q a) = settings q"
  "payload (uncount_block q a) = payload q" "mq_not_full_cond (uncount_block q a) = mq_not_full_cond q"
  "mq_cur_bytes (uncount_block q a) = mq_cur_bytes q - block_bytes (mq_blocks q a)"
  "mq_cur_length (uncount_block q a) = mq_cur_length q - block_length (mq_blocks q a)"
  "mq_cur_count (uncount_block q a) = mq_cur_count q - 1"
  by (simp_all add: uncount_block_def total_size_and_length_sum settings_def payload_def fun_eq_iff)

lemma seq_walk_correct:
  assumes "chain (mnext q) (mnext q n) ys" "distinct (n # ys)"
  shows "\<exists>q'. seq_walk q n = Some (q', last (n # ys)) \<and> linked (mnext q') (mprev q') n ys \<and>
    (\<forall>a. mnext q' a = mnext q a) \<and> (\<forall>a. a \<notin> set ys \<longrightarrow> mprev q' a = mprev q a) \<and>
    payload q' = payload q \<and> settings q' = settings q \<and> mq_head q' = mq_head q \<and> mq_tail q' = mq_tail q \<and>
    mq_not_empty_cond q' = mq_not_empty_cond q \<and>
    mq_cur_bytes q' = mq_cur_bytes q + (\<Sum>a\<leftarrow>ys. block_bytes (mq_blocks q a)) \<and>
    mq_cur_length q' = mq_cur_length q + (\<Sum>a\<leftarrow>ys. block_length (mq_blocks q a)) \<and>
    mq_cur_count q' = mq_cur_count q + of_nat (length ys)"
  using assms
proof (induction ys arbitrary: q n)
  case Nil
  then show ?case by (simp add: seq_walk.simps)
next
  case (Cons y ys)
  let ?r = "count_block (set_mprev q y n) y"
  have y: "mnext q n = y" "y \<noteq> NULL" "chain (mnext q) (mnext q y) ys" using Cons.prems(1) by auto
  have "chain (mnext ?r) (mnext ?r y) ys" using y(3) by simp
  from Cons.IH [OF this] Cons.prems(2) obtain q' where IH:
    "seq_walk ?r y = Some (q', last (y # ys))" "linked (mnext q') (mprev q') y ys"
    "\<forall>a. mnext q' a = mnext ?r a" "\<forall>a. a \<notin> set ys \<longrightarrow> mprev q' a = mprev ?r a"
    "payload q' = payload ?r" "settings q' = settings ?r" "mq_head q' = mq_head ?r" "mq_tail q' = mq_tail ?r"
    "mq_not_empty_cond q' = mq_not_empty_cond ?r"
    "mq_cur_bytes q' = mq_cur_bytes ?r + (\<Sum>a\<leftarrow>ys. block_bytes (mq_blocks ?r a))"
    "mq_cur_length q' = mq_cur_length ?r + (\<Sum>a\<leftarrow>ys. block_length (mq_blocks ?r a))"
    "mq_cur_count q' = mq_cur_count ?r + of_nat (length ys)"
    by auto
  have "seq_walk q n = seq_walk ?r y" using y(1,2) by (simp add: seq_walk.simps [of q n] Let_def)
  moreover have "linked (mnext q') (mprev q') n (y # ys)"
    using IH(2-4) y Cons.prems(2) by auto
  moreover have "payload (set_mprev q y n) = payload q" by simp
  note P = payload_fields [OF this]
  ultimately show ?case using IH y Cons.prems(2) by (intro exI [of _ q']) (auto simp: P algebra_simps)
qed

section \<open>Enqueueing\<close>

lemma mq_at_cong:
  assumes "mq_blocks q' = mq_blocks q" "mq_head q' = mq_head q" "mq_tail q' = mq_tail q"
    and "mq_cur_bytes q' = mq_cur_bytes q" "mq_cur_length q' = mq_cur_length q"
    and "mq_cur_count q' = mq_cur_count q"
  shows "mq_at q' xs \<longleftrightarrow> mq_at q xs"
  by (simp add: mq_at_def assms)

lemma signalled_enqueue_correct:
  assumes "signalled_enqueue q = (q', r)"
  shows "mq_at q' xs \<longleftrightarrow> mq_at q xs" "payload q' = payload q" "settings q' = settings q"
    and "r = (if cond_fails (mq_not_empty_cond q) then -1 else truncate_int (mq_cur_count q))"
    and "cond_signals (mq_not_empty_cond q') = cond_signals (mq_not_empty_cond q) + 1"
proof -
  have q': "q' = q\<lparr>mq_not_empty_cond := (mq_not_empty_cond q)
      \<lparr>cond_signals := cond_signals (mq_not_empty_cond q) + 1\<rparr>\<rparr>"
    using assms by (auto simp: signalled_enqueue_def signal_dequeue_waiters_def)
  show "mq_at q' xs \<longleftrightarrow> mq_at q xs" by (rule mq_at_cong) (simp_all add: q')
  show "payload q' = payload q" "settings q' = settings q"
    "cond_signals (mq_not_empty_cond q') = cond_signals (mq_not_empty_cond q) + 1"
    by (simp_all add: q' payload_def settings_def fun_eq_iff)
  show "r = (if cond_fails (mq_not_empty_cond q) then -1 else truncate_int (mq_cur_count q))"
    using assms by (auto simp: signalled_enqueue_def signal_dequeue_waiters_def)
qed

text \<open>A chain of blocks that may be enqueued: linked by \<open>next\<close>, distinct, and not in the queue.\<close>

definition fresh_chain :: "message_queue \<Rightarrow> addr \<Rightarrow> addr list \<Rightarrow> addr list \<Rightarrow> bool" where
  "fresh_chain q n ys xs \<longleftrightarrow>
     chain (mnext q) n (n # ys) \<and> distinct (n # ys) \<and> set (n # ys) \<inter> set xs = {}"

text \<open>The common result: the blocks \<open>zs\<close> are queued, their content unchanged, a waiter signalled.\<close>

definition enqueued :: "message_queue \<Rightarrow> message_queue \<Rightarrow> addr list \<Rightarrow> int \<Rightarrow> bool" where
  "enqueued q q' zs r \<longleftrightarrow>
     mq_at q' zs \<and> payload q' = payload q \<and> settings q' = settings q \<and>
     cond_signals (mq_not_empty_cond q') = cond_signals (mq_not_empty_cond q) + 1 \<and>
     r = (if cond_fails (mq_not_empty_cond q) then -1 else truncate_int (of_nat (length zs)))"

lemma enqueuedI:
  assumes "signalled_enqueue p = (q', r)" "mq_at p zs" "payload p = payload q" "settings p = settings q"
    and "mq_not_empty_cond p = mq_not_empty_cond q"
  shows "enqueued q q' zs r"
  unfolding enqueued_def using assms signalled_enqueue_correct [OF assms(1)] by (simp add: mq_at_def)

lemma mq_atI:
  assumes "ring (lnext p) (lprev p) NULL zs" "payload p = payload q"
    and "mq_cur_bytes p = (\<Sum>a\<leftarrow>zs. block_bytes (mq_blocks q a))"
    and "mq_cur_length p = (\<Sum>a\<leftarrow>zs. block_length (mq_blocks q a))"
    and "mq_cur_count p = of_nat (length zs)"
  shows "mq_at p zs"
  using assms payload_fields [OF assms(2)] by (simp add: mq_at_def)

lemma last_nonnull [simp]: "NULL \<notin> set xs \<Longrightarrow> xs \<noteq> [] \<Longrightarrow> 0 < last xs"
  by (metis gr0I last_in_set)

lemma hd_nonnull [simp]: "NULL \<notin> set xs \<Longrightarrow> xs \<noteq> [] \<Longrightarrow> 0 < hd xs"
  by (metis gr0I hd_in_set)

lemma chain_last: "chain f p (zs @ [z]) \<Longrightarrow> f z = NULL"
  by (induction zs arbitrary: p) auto

lemma fresh_chain_facts:
  assumes "fresh_chain q n ys xs"
  shows "chain (mnext q) (mnext q n) ys" "distinct (n # ys)" "n \<noteq> NULL" "NULL \<notin> set (n # ys)"
    and "set (n # ys) \<inter> set xs = {}" "mnext q (last (n # ys)) = NULL" "last (n # ys) \<in> set (n # ys)"
proof -
  have c: "chain (mnext q) n (n # ys)" using assms by (simp add: fresh_chain_def)
  then show "chain (mnext q) (mnext q n) ys" "n \<noteq> NULL" by auto
  show "NULL \<notin> set (n # ys)" using chain_nonnull [OF c] .
  show "distinct (n # ys)" "set (n # ys) \<inter> set xs = {}" using assms by (auto simp: fresh_chain_def)
  show "mnext q (last (n # ys)) = NULL"
    using c chain_last by (metis append_butlast_last_id list.distinct(1))
  show "last (n # ys) \<in> set (n # ys)" by (rule last_in_set) simp
qed

text \<open>The queue with the new blocks counted and linked among themselves.\<close>

definition walked :: "message_queue \<Rightarrow> message_queue \<Rightarrow> addr list \<Rightarrow> addr \<Rightarrow> addr list \<Rightarrow> bool" where
  "walked q w xs n ys \<longleftrightarrow>
     seq_walk (count_block q n) n = Some (w, last (n # ys)) \<and> linked (mnext w) (mprev w) n ys \<and>
     (\<forall>a. mnext w a = mnext q a) \<and> (\<forall>a. a \<notin> set ys \<longrightarrow> mprev w a = mprev q a) \<and>
     payload w = payload q \<and> settings w = settings q \<and> mq_head w = mq_head q \<and> mq_tail w = mq_tail q \<and>
     mq_not_empty_cond w = mq_not_empty_cond q \<and>
     mq_cur_bytes w = (\<Sum>a\<leftarrow>xs @ n # ys. block_bytes (mq_blocks q a)) \<and>
     mq_cur_length w = (\<Sum>a\<leftarrow>xs @ n # ys. block_length (mq_blocks q a)) \<and>
     mq_cur_count w = of_nat (length (xs @ n # ys))"

lemma fresh_walk:
  assumes "mq_at q xs" "fresh_chain q n ys xs"
  shows "\<exists>w. walked q w xs n ys"
proof -
  note C = fresh_chain_facts [OF assms(2)]
  have "chain (mnext (count_block q n)) (mnext (count_block q n) n) ys" using C(1) by simp
  from seq_walk_correct [OF this C(2)] assms(1) show ?thesis
    unfolding walked_def mq_at_def by (auto simp: algebra_simps)
qed

lemma walked_enqueued:
  assumes "walked q w xs n ys" "ring (lnext p) (lprev p) NULL zs" "mset zs = mset (xs @ n # ys)"
    and "payload p = payload w" "settings p = settings w" "mq_not_empty_cond p = mq_not_empty_cond w"
    and "mq_cur_bytes p = mq_cur_bytes w" "mq_cur_length p = mq_cur_length w"
    and "mq_cur_count p = mq_cur_count w" "signalled_enqueue p = (q', r)"
  shows "enqueued q q' zs r"
proof (rule enqueuedI [OF assms(10)])
  have sums: "(\<Sum>a\<leftarrow>zs. f a) = (\<Sum>a\<leftarrow>xs @ n # ys. f a)" for f :: "addr \<Rightarrow> size_t"
    using assms(3) by (metis mset_map sum_mset_sum_list)
  have len: "length zs = length (xs @ n # ys)" using assms(3) by (metis size_mset)
  show "mq_at p zs"
    by (rule mq_atI [OF assms(2)]) (use assms in \<open>simp_all only: walked_def sums len\<close>)
qed (use assms in \<open>simp_all add: walked_def\<close>)

text \<open>The new blocks stay linked among themselves when only links around them change.\<close>

lemma walked_linked:
  assumes "walked q w xs n ys" "fresh_chain q n ys xs"
    and "\<And>x. x \<in> set (butlast (n # ys)) \<Longrightarrow> f x = mnext q x" "\<And>x. x \<in> set ys \<Longrightarrow> g x = mprev w x"
  shows "linked f g n ys"
proof -
  have "linked f g n ys \<longleftrightarrow> linked (mnext w) (mprev w) n ys"
    using assms by (intro linked_cong) (auto simp: walked_def)
  moreover have "linked (mnext w) (mprev w) n ys" using assms(1) unfolding walked_def by blast
  ultimately show ?thesis by simp
qed

lemma enqueue_tail_i_correct:
  assumes "mq_at q xs" "fresh_chain q n ys xs"
  shows "\<exists>q' r. enqueue_tail_i q n = Some (q', r) \<and> enqueued q q' (xs @ n # ys) r"
proof -
  note Q = mq_at_chains [OF assms(1)] and C = fresh_chain_facts [OF assms(2)]
  obtain w where W: "walked q w xs n ys" using fresh_walk [OF assms] by blast
  define l t where "l = last (NULL # xs)" and "t = last (n # ys)"
  define p where "p = (if mq_tail w = NULL
      then set_mprev (w\<lparr>mq_head := n, mq_tail := t\<rparr>) n NULL
      else (set_mprev (set_mnext w (mq_tail w) n) n (mq_tail w))\<lparr>mq_tail := t\<rparr>)"
  have l: "mq_tail q = l" "l = NULL \<longleftrightarrow> xs = []" "l \<in> insert NULL (set xs)"
    using Q(4,6) last_in_set_Cons [of NULL xs] by (auto simp: l_def)
  have N: "lnext p = (lnext q)(l := n)" and P: "lprev p = (lprev w)(n := l, NULL := t)"
    using W l C(3) by (auto simp: p_def fun_eq_iff walked_def)
  have "linked (lnext p) (lprev p) NULL xs"
  proof -
    have "l \<notin> set (butlast (NULL # xs))"
      using Q(3,4) unfolding l_def
      by (metis append_butlast_last_id distinct.simps(2) distinct_append disjoint_iff list.distinct(1)
          list.set_intros(1))
    then have "linked (lnext q) (lprev q) NULL xs \<longleftrightarrow> linked (lnext p) (lprev p) NULL xs"
      unfolding N P using W Q(4) C(5) by (intro linked_cong) (auto simp: walked_def)
    then show ?thesis using assms(1) by (simp add: mq_at_def ring_def seg_linked)
  qed
  moreover have "linked (lnext p) (lprev p) n ys"
  proof (rule walked_linked [OF W assms(2)])
    fix x assume "x \<in> set (butlast (n # ys))"
    then have "x \<in> set (n # ys)" by (rule in_set_butlastD)
    then show "lnext p x = mnext q x" unfolding N using C(4,5) l(3) by auto
  qed (use P C in auto)
  moreover have "lnext p (last (NULL # xs)) = n" "lprev p n = last (NULL # xs)"
      "lnext p t = NULL" "lprev p NULL = t"
    unfolding N P using C(3-7) l(3) by (auto simp: l_def t_def)
  moreover have "last (NULL # xs @ n # ys) = t" "distinct (NULL # xs @ n # ys)"
    using Q(3,4) C by (auto simp: t_def)
  ultimately have "ring (lnext p) (lprev p) NULL (xs @ n # ys)"
    unfolding ring_def seg_linked linked_append by simp
  moreover obtain q' r where s: "signalled_enqueue p = (q', r)" by fastforce
  ultimately have "enqueued q q' (xs @ n # ys) r"
    by (intro walked_enqueued [OF W]) (auto simp: p_def payload_def settings_def fun_eq_iff set_mprev_def
        set_mnext_def)
  moreover have sw: "seq_walk (count_block q n) n = Some (w, t)" using W unfolding walked_def t_def by blast
  have "enqueue_tail_i q n = Some (q', r)"
    using C(3) s [unfolded p_def] by (simp add: enqueue_tail_i_def sw)
  ultimately show ?thesis by blast
qed

lemma enqueue_head_i_correct:
  assumes "mq_at q xs" "fresh_chain q n ys xs"
  shows "\<exists>q' r. enqueue_head_i q n = Some (q', r) \<and> enqueued q q' (n # ys @ xs) r"
proof -
  note Q = mq_at_chains [OF assms(1)] and C = fresh_chain_facts [OF assms(2)]
  obtain w where W: "walked q w xs n ys" using fresh_walk [OF assms] by blast
  define h t where "h = hd (xs @ [NULL])" and "t = last (n # ys)"
  define q2 where "q2 = set_mnext (set_mprev w n NULL) t (mq_head w)"
  define p where "p = (if mq_head q2 \<noteq> NULL then set_mprev q2 (mq_head q2) t
      else q2\<lparr>mq_tail := t\<rparr>)\<lparr>mq_head := n\<rparr>"
  have h: "mq_head q = h" "h = NULL \<longleftrightarrow> xs = []" "h \<in> insert NULL (set xs)"
    using Q(4,5) hd_in_set_snoc [of xs NULL] by (cases xs; auto simp: h_def)+
  have N: "lnext p = (lnext q)(t := h, NULL := n)" and P: "lprev p = (lprev w)(n := NULL, h := t)"
    using W h C(3,4,7) by (auto simp: p_def q2_def fun_eq_iff walked_def t_def)
  have R: "seg (lnext q) (lprev q) NULL xs NULL" using assms(1) by (simp add: mq_at_def ring_def)
  have "seg (lnext p) (lprev p) t xs NULL"
  proof (cases xs)
    case Nil
    then show ?thesis unfolding N P using h C(4,7) by (auto simp: t_def)
  next
    case (Cons x us)
    then have "x = h" "seg (lnext q) (lprev q) h us NULL" using R h by (auto simp: h_def)
    moreover have "seg (lnext p) (lprev p) h us NULL \<longleftrightarrow> seg (lnext q) (lprev q) h us NULL"
      unfolding N P using W Cons Q(3,4) C(3-5,7) h by (intro seg_cong) (auto simp: walked_def t_def h_def)
    ultimately show ?thesis unfolding N P using Cons C(4,7) by (auto simp: t_def)
  qed
  moreover have "linked (lnext p) (lprev p) n ys"
  proof (rule walked_linked [OF W assms(2)])
    fix x assume x: "x \<in> set (butlast (n # ys))"
    then have "x \<in> set (n # ys)" by (rule in_set_butlastD)
    moreover have "x \<noteq> t" using x C(2) unfolding t_def
      by (metis append_butlast_last_id distinct_append disjoint_iff list.distinct(1) list.set_intros(1))
    ultimately show "lnext p x = mnext q x" unfolding N using C(4) by auto
  qed (use P C h in auto)
  moreover have "lnext p NULL = n" "lprev p n = NULL"
    unfolding N P using C(3,5) h(3) by auto
  moreover have "distinct (NULL # n # ys @ xs)" using Q(3,4) C by auto
  ultimately have "ring (lnext p) (lprev p) NULL (n # ys @ xs)"
    using seg_prepend [of "lnext p" "lprev p" n ys xs NULL] unfolding ring_def t_def seg.simps by blast
  moreover obtain q' r where s: "signalled_enqueue p = (q', r)" by fastforce
  ultimately have "enqueued q q' (n # ys @ xs) r"
    by (intro walked_enqueued [OF W]) (auto simp: p_def q2_def payload_def settings_def fun_eq_iff
        set_mprev_def set_mnext_def)
  moreover have sw: "seq_walk (count_block q n) n = Some (w, t)" using W unfolding walked_def t_def by blast
  have "enqueue_head_i q n = Some (q', r)"
    using C(3) s [unfolded p_def q2_def] by (simp add: enqueue_head_i_def sw Let_def)
  ultimately show ?thesis by blast
qed

lemma mq_at_detach:
  assumes "mq_at q xs" "n \<notin> set xs" "n \<noteq> NULL"
  shows "mq_at (set_mnext q n NULL) xs" "fresh_chain (set_mnext q n NULL) n [] xs"
proof -
  let ?p = "set_mnext q n NULL"
  have "ring (lnext ?p) (lprev ?p) NULL xs \<longleftrightarrow> ring (lnext q) (lprev q) NULL xs"
    using assms(2,3) by (intro ring_cong) auto
  then show "mq_at ?p xs"
    using assms(1) payload_fields [of ?p q] by (simp add: mq_at_def)
  show "fresh_chain ?p n [] xs" using assms(2,3) by (simp add: fresh_chain_def)
qed

lemma enqueued_trans: "enqueued p q' zs r \<Longrightarrow> payload p = payload q \<Longrightarrow> settings p = settings q \<Longrightarrow>
    mq_not_empty_cond p = mq_not_empty_cond q \<Longrightarrow> enqueued q q' zs r"
  by (simp add: enqueued_def)

lemma insert_behind_correct:
  assumes "mq_at q (us @ vs)" "us \<noteq> []" "vs \<noteq> []" "n \<notin> set (us @ vs)" "n \<noteq> NULL"
    and "p = count_block (insert_behind q (last us) n) n"
  shows "mq_at p (us @ n # vs)" "payload p = payload q" "settings p = settings q"
    and "mq_not_empty_cond p = mq_not_empty_cond q"
proof -
  note Q = mq_at_chains [OF assms(1)]
  have R: "ring (lnext q) (lprev q) NULL (us @ vs)" using assms(1) by (simp add: mq_at_def)
  define t s where "t = last (NULL # us)" and "s = hd (vs @ [NULL])"
  have "t = last us" "s = hd vs" using assms(2,3) by (simp_all add: t_def s_def)
  then have ts: "t \<in> set us" "s \<in> set vs" "t \<noteq> NULL" "s \<noteq> NULL"
    using Q(4) assms(2,3) by auto
  have s: "mnext q t = s" using ring_next_after [OF R] ts(3) by (simp add: t_def s_def)
  have ne: "t \<noteq> n" "s \<noteq> n" using ts assms(4) by auto
  have p: "p = count_block (set_mnext (set_mprev (set_mnext (set_mprev q n t) n s) s n) t n) n"
    using s ne \<open>t = last us\<close> by (simp add: assms(6) insert_behind_def Let_def)
  have "lnext p = (lnext q)(n := s, t := n)" "lprev p = (lprev q)(n := t, s := n)"
    using ts assms(5) by (auto simp: p fun_eq_iff)
  then have ring: "ring (lnext p) (lprev p) NULL (us @ n # vs)"
    using ring_insert [OF R _ t_def s_def] assms(4,5) by simp
  show pl: "payload p = payload q" and "settings p = settings q" "mq_not_empty_cond p = mq_not_empty_cond q"
    by (simp_all add: p)
  have "payload (set_mnext (set_mprev (set_mnext (set_mprev q n t) n s) s n) t n) = payload q" by simp
  note B = payload_fields [OF this]
  show "mq_at p (us @ n # vs)"
    by (rule mq_atI [OF ring pl]) (use assms(1) in \<open>simp_all add: p B mq_at_def algebra_simps\<close>)
qed

text \<open>Where the scan from the tail puts a block: behind the last one with at least its priority.\<close>

abbreviation prio :: "message_queue \<Rightarrow> addr \<Rightarrow> 64 word" where
  "prio q a \<equiv> mb_priority (mq_blocks q a)"

definition prio_insert :: "message_queue \<Rightarrow> addr \<Rightarrow> addr list \<Rightarrow> addr list" where
  "prio_insert q n xs =
     (let vs = rev (takeWhile (\<lambda>a. prio q a < prio q n) (rev xs));
          us = rev (dropWhile (\<lambda>a. prio q a < prio q n) (rev xs))
      in us @ n # vs)"

lemma find_rev_split:
  assumes "us = rev (dropWhile (\<lambda>a. \<not> P a) (rev xs))" "vs = rev (takeWhile (\<lambda>a. \<not> P a) (rev xs))"
  shows "xs = us @ vs" "find P (rev xs) = (if us = [] then None else Some (last us))"
proof -
  show "xs = us @ vs" unfolding assms by (metis rev_append rev_rev_ident takeWhile_dropWhile_id)
  have "find P ys = (case dropWhile (\<lambda>a. \<not> P a) ys of [] \<Rightarrow> None | z # _ \<Rightarrow> Some z)" for ys
    by (induction ys) auto
  then show "find P (rev xs) = (if us = [] then None else Some (last us))"
    unfolding assms by (cases "dropWhile (\<lambda>a. \<not> P a) (rev xs)") (simp_all only: list.case, auto)
qed

lemma enqueue_i_correct:
  assumes "mq_at q xs" "n \<notin> set xs" "n \<noteq> NULL"
  shows "\<exists>q' r. enqueue_i q n = Some (q', r) \<and> enqueued q q' (prio_insert q n xs) r"
proof -
  let ?q0 = "set_mnext q n NULL" and ?P = "\<lambda>t. prio q t \<ge> prio q n"
  note D = mq_at_detach [OF assms] and Q = mq_at_chains [OF mq_at_detach(1) [OF assms]]
  define us vs where "us = rev (dropWhile (\<lambda>a. \<not> ?P a) (rev xs))"
    and "vs = rev (takeWhile (\<lambda>a. \<not> ?P a) (rev xs))"
  note S = find_rev_split [OF us_def vs_def]
  have ins: "prio_insert q n xs = us @ n # vs"
    by (simp add: prio_insert_def us_def vs_def not_le Let_def)
  have P: "mb_priority (mq_blocks ?q0 a) = prio q a" for a using payload_fields(3) [of ?q0 q] by simp
  have f: "find_link (mprev ?q0) (\<lambda>t. mb_priority (mq_blocks ?q0 t) \<ge> mb_priority (mq_blocks ?q0 n))
      (mq_tail ?q0) = Some (if us = [] then NULL else last us)"
    using find_link_chain [OF Q(2), of ?P] S(2) unfolding P by simp
  have tr: "enqueued ?q0 q' zs r \<Longrightarrow> enqueued q q' zs r" for q' zs r by (erule enqueued_trans) simp_all
  show ?thesis
  proof (cases "us = []")
    case True
    then have "enqueue_i q n = enqueue_head_i ?q0 n"
      using f assms(3) by (simp add: enqueue_i_def Let_def)
    then show ?thesis using enqueue_head_i_correct [OF D] ins True S(1) tr by (auto)
  next
    case False
    then have xs: "xs \<noteq> []" and h: "mq_head ?q0 \<noteq> NULL" and l: "last us \<noteq> NULL" "last us \<in> set us"
      using S(1) Q(4,5) by auto
    show ?thesis
    proof (cases "vs = []")
      case True
      have "mnext ?q0 (last us) = NULL"
        using chain_last [of "mnext ?q0" "mq_head ?q0" "butlast xs" "last xs"] Q(1) xs S(1) True by simp
      then have "enqueue_i q n = enqueue_tail_i ?q0 n"
        using f assms(3) False h l by (simp add: enqueue_i_def Let_def)
      then show ?thesis using enqueue_tail_i_correct [OF D] ins True S(1) tr by auto
    next
      case vs: False
      have at: "mq_at ?q0 (us @ vs)" using D(1) S(1) by simp
      have R: "ring (lnext ?q0) (lprev ?q0) NULL (us @ vs)" using at by (simp add: mq_at_def)
      have "mnext ?q0 (last us) = hd vs"
        using ring_next_after [OF R] False vs l(1) by simp
      moreover have "hd vs \<noteq> NULL" using Q(4) S(1) vs by auto
      ultimately have "mnext ?q0 (last us) \<noteq> NULL" by metis
      then have e: "enqueue_i q n = Some (signalled_enqueue (count_block (insert_behind ?q0 (last us) n) n))"
        using f assms(3) False h l by (simp add: enqueue_i_def Let_def)
      note I = insert_behind_correct [OF at False vs _ assms(3) refl]
      obtain q' r where "signalled_enqueue (count_block (insert_behind ?q0 (last us) n) n) = (q', r)" by fastforce
      then show ?thesis
        using e ins enqueuedI [of _ q' r "us @ n # vs" ?q0] I assms(2) S(1) tr by auto
    qed
  qed
qed

section \<open>Dequeueing\<close>

text \<open>
  The result of dequeueing the block \<open>c\<close>: the others stay queued in order, the block is unlinked,
  and a waiting producer is signalled exactly when the bytes have fallen to the low water mark.
\<close>

definition dequeued :: "message_queue \<Rightarrow> message_queue \<Rightarrow> addr list \<Rightarrow> addr \<Rightarrow> int \<Rightarrow> bool" where
  "dequeued q q' zs c r \<longleftrightarrow>
     mq_at q' zs \<and> payload q' = payload q \<and> settings q' = settings q \<and>
     mnext q' c = NULL \<and> mprev q' c = NULL \<and>
     cond_signals (mq_not_full_cond q') = cond_signals (mq_not_full_cond q) +
       (if mq_cur_bytes q' \<le> mq_low_water_mark q then 1 else 0) \<and>
     r = (if mq_cur_bytes q' \<le> mq_low_water_mark q \<and> cond_fails (mq_not_full_cond q) then -1
          else truncate_int (of_nat (length zs)))"

lemma finish_dequeue_correct:
  assumes "mq_at q (us @ c # vs)" "lnext p = (lnext q)(last (NULL # us) := hd (vs @ [NULL]))"
    and "lprev p = (lprev q)(hd (vs @ [NULL]) := last (NULL # us))" "payload p = payload q"
    and "mq_cur_bytes p = mq_cur_bytes q" "mq_cur_length p = mq_cur_length q" "mq_cur_count p = mq_cur_count q"
  shows "mq_at (finish_dequeue p c) (us @ vs)" "payload (finish_dequeue p c) = payload q"
    and "settings (finish_dequeue p c) = settings p" "mnext (finish_dequeue p c) c = NULL"
    and "mprev (finish_dequeue p c) c = NULL"
    and "mq_not_full_cond (finish_dequeue p c) = mq_not_full_cond p"
proof -
  let ?f = "finish_dequeue p c" and ?u = "uncount_block p c"
  note Q = mq_at_chains [OF assms(1)]
  have R: "ring (lnext p) (lprev p) NULL (us @ vs)"
    unfolding assms(2,3) using assms(1) by (intro ring_remove [of _ _ _ us c vs]) (auto simp: mq_at_def)
  have ends: "mq_head p = hd ((us @ vs) @ [NULL])" "mq_tail p = last (NULL # us @ vs)"
    using ring_first [OF R] ring_last [OF R] by simp_all
  have none: "us @ vs = []" if "mq_cur_count ?u = 0" "mq_head ?u = mq_tail ?u"
  proof (rule ccontr)
    assume ne: "us @ vs \<noteq> []"
    have d: "distinct (us @ vs)" using Q(3) by auto
    have "mq_head p = hd (us @ vs)" "mq_tail p = last (us @ vs)"
      using ends ne by (metis hd_append2, metis last_ConsR)
    then have "hd (us @ vs) = last (us @ vs)" using that(2) by simp
    then have "length (us @ vs) = 1"
      using d ne by (metis One_nat_def distinct.simps(2) hd_Cons_tl last.simps last_in_set length_Cons list.size(3))
    then have "length (us @ c # vs) = 2" by simp
    then have "mq_cur_count ?u = 1" using assms(1,7) by (simp add: mq_at_def)
    with that(1) show False by simp
  qed
  have f: "?f = set_mnext (set_mprev ?u c NULL) c NULL"
  proof (cases "mq_cur_count ?u = 0 \<and> mq_head ?u = mq_tail ?u")
    case True
    then have "mq_head p = NULL" "mq_tail p = NULL" using none ends by simp_all
    then have "?u\<lparr>mq_head := NULL, mq_tail := NULL\<rparr> = ?u" by (simp add: uncount_block_def total_size_and_length_sum)
    then show ?thesis using True by (simp add: finish_dequeue_def Let_def)
  qed (auto simp: finish_dequeue_def Let_def)
  have c: "c \<noteq> NULL" "c \<notin> set (us @ vs)" using Q(3,4) by auto
  have "ring (lnext ?f) (lprev ?f) NULL (us @ vs) \<longleftrightarrow> ring (lnext p) (lprev p) NULL (us @ vs)"
    using c by (intro ring_cong) (auto simp: f)
  then have ring: "ring (lnext ?f) (lprev ?f) NULL (us @ vs)" using R by simp
  show pl: "payload ?f = payload q" using assms(4) by (simp add: f)
  show "mq_at ?f (us @ vs)"
    by (rule mq_atI [OF ring pl])
       (use assms payload_fields [OF assms(4)] in \<open>simp_all add: f mq_at_def\<close>)
  show "settings ?f = settings p" "mnext ?f c = NULL" "mprev ?f c = NULL"
    "mq_not_full_cond ?f = mq_not_full_cond p" by (simp_all add: f)
qed

lemma signalled_dequeue_correct:
  assumes "signalled_dequeue p = (q', r)" "mq_at p zs" "payload p = payload q" "settings p = settings q"
    and "mnext p c = NULL" "mprev p c = NULL" "mq_not_full_cond p = mq_not_full_cond q"
  shows "dequeued q q' zs c r"
proof -
  have lw: "mq_low_water_mark p = mq_low_water_mark q" using assms(4) by (simp add: settings_def)
  have cnt: "mq_cur_count p = of_nat (length zs)" using assms(2) by (simp add: mq_at_def)
  show ?thesis
  proof (cases "mq_cur_bytes p \<le> mq_low_water_mark p")
    case True
    then have q': "q' = p\<lparr>mq_not_full_cond := (mq_not_full_cond p)
        \<lparr>cond_signals := cond_signals (mq_not_full_cond p) + 1\<rparr>\<rparr>"
      "r = (if cond_fails (mq_not_full_cond p) then -1 else truncate_int (mq_cur_count p))"
      using assms(1) by (auto simp: signalled_dequeue_def signal_enqueue_waiters_def)
    have "mq_at q' zs \<longleftrightarrow> mq_at p zs" by (rule mq_at_cong) (simp_all add: q')
    moreover have "payload q' = payload p" "settings q' = settings p"
      by (simp_all add: q' payload_def settings_def fun_eq_iff)
    ultimately show ?thesis using True assms lw cnt by (auto simp: dequeued_def q')
  next
    case False
    then have "q' = p" "r = truncate_int (mq_cur_count p)" using assms(1) by (auto simp: signalled_dequeue_def)
    then show ?thesis using False assms lw cnt by (simp add: dequeued_def)
  qed
qed

lemma dequeue_finish:
  assumes "mq_at q (us @ c # vs)" "lnext p = (lnext q)(last (NULL # us) := hd (vs @ [NULL]))"
    and "lprev p = (lprev q)(hd (vs @ [NULL]) := last (NULL # us))" "payload p = payload q"
    and "mq_cur_bytes p = mq_cur_bytes q" "mq_cur_length p = mq_cur_length q" "mq_cur_count p = mq_cur_count q"
    and "settings p = settings q" "mq_not_full_cond p = mq_not_full_cond q"
    and "signalled_dequeue (finish_dequeue p c) = (q', r)"
  shows "dequeued q q' (us @ vs) c r"
  using finish_dequeue_correct [OF assms(1-7)] assms(8-)
  by (intro signalled_dequeue_correct [OF assms(10)]) simp_all

lemma dequeue_head_i_correct:
  assumes "mq_at q (c # vs)"
  shows "\<exists>q' r. dequeue_head_i q = (q', Some c, r) \<and> dequeued q q' vs c r"
proof -
  note Q = mq_at_chains [OF assms]
  let ?h = "mnext q c"
  define p where "p = (let q1 = q\<lparr>mq_head := mnext q (mq_head q)\<rparr>
    in if mq_head q1 = NULL then q1\<lparr>mq_tail := NULL\<rparr> else set_mprev q1 (mq_head q1) NULL)"
  have h: "mq_head q = c" "c \<noteq> NULL" using Q(4,5) by auto
  have R: "ring (lnext q) (lprev q) NULL ([] @ c # vs)" using assms by (simp add: mq_at_def)
  have s: "?h = hd (vs @ [NULL])" using ring_neighbours(2) [OF R] h by simp
  obtain q' r where r: "signalled_dequeue (finish_dequeue p c) = (q', r)" by fastforce
  have at: "mq_at q ([] @ c # vs)" using assms by simp
  have "dequeued q q' ([] @ vs) c r"
    by (rule dequeue_finish [OF at, of p])
       (use r h s in \<open>auto simp: p_def Let_def fun_eq_iff payload_def settings_def set_mprev_def\<close>)
  moreover have "dequeue_head_i q = (q', Some c, r)"
    using h r by (simp add: dequeue_head_i_def p_def Let_def)
  ultimately show ?thesis by auto
qed

lemma dequeue_tail_i_correct:
  assumes "mq_at q (us @ [c])"
  shows "\<exists>q' r. dequeue_tail_i q = (q', Some c, r) \<and> dequeued q q' us c r"
proof -
  note Q = mq_at_chains [OF assms]
  define p where "p = (if mprev q (mq_tail q) = NULL then q\<lparr>mq_head := NULL, mq_tail := NULL\<rparr>
      else let q1 = set_mnext q (mprev q (mq_tail q)) NULL in q1\<lparr>mq_tail := mprev q1 (mq_tail q1)\<rparr>)"
  have t: "mq_tail q = c" "c \<noteq> NULL" using Q(4,6) by auto
  have h: "mq_head q \<noteq> NULL" using Q(4,5) by (cases us) auto
  have R: "ring (lnext q) (lprev q) NULL (us @ c # [])" using assms by (simp add: mq_at_def)
  have s: "mprev q c = last (NULL # us)" using ring_neighbours(1) [OF R] t by simp
  obtain q' r where r: "signalled_dequeue (finish_dequeue p c) = (q', r)" by fastforce
  have at: "mq_at q (us @ c # [])" using assms by simp
  have "dequeued q q' (us @ []) c r"
    by (rule dequeue_finish [OF at, of p])
       (use r t s in \<open>auto simp: p_def Let_def fun_eq_iff payload_def settings_def set_mnext_def\<close>)
  moreover have "dequeue_tail_i q = (q', Some c, r)"
    using h t r by (simp add: dequeue_tail_i_def p_def Let_def)
  ultimately show ?thesis by auto
qed

lemma unlink_block_frame [simp]:
  "payload (unlink_block q c) = payload q" "settings (unlink_block q c) = settings q"
  "mq_not_full_cond (unlink_block q c) = mq_not_full_cond q"
  "mq_cur_bytes (unlink_block q c) = mq_cur_bytes q" "mq_cur_length (unlink_block q c) = mq_cur_length q"
  "mq_cur_count (unlink_block q c) = mq_cur_count q"
  by (simp_all add: unlink_block_def Let_def payload_def settings_def set_mnext_def set_mprev_def fun_eq_iff)

lemma unlink_block_links:
  assumes "c \<noteq> NULL" "mprev q c \<noteq> c" "mnext q c \<noteq> c"
  shows "lnext (unlink_block q c) = (lnext q)(mprev q c := mnext q c)"
    and "lprev (unlink_block q c) = (lprev q)(mnext q c := mprev q c)"
proof -
  show "lnext (unlink_block q c) = (lnext q)(mprev q c := mnext q c)"
    by (rule ext) (use assms in \<open>simp add: unlink_block_def Let_def\<close>)
  show "lprev (unlink_block q c) = (lprev q)(mnext q c := mprev q c)"
    by (rule ext) (use assms in \<open>simp add: unlink_block_def Let_def\<close>)
qed

lemma unlink_block_correct:
  assumes "mq_at q (us @ c # vs)" "signalled_dequeue (finish_dequeue (unlink_block q c) c) = (q', r)"
  shows "dequeued q q' (us @ vs) c r"
proof -
  note Q = mq_at_chains [OF assms(1)]
  have R: "ring (lnext q) (lprev q) NULL (us @ c # vs)" using assms by (simp add: mq_at_def)
  have c: "c \<noteq> NULL" using Q(4) by auto
  have n: "mprev q c = last (NULL # us)" "mnext q c = hd (vs @ [NULL])"
    using ring_neighbours [OF R] c by simp_all
  have d: "mprev q c \<noteq> c" "mnext q c \<noteq> c"
    unfolding n using Q(3,4) last_in_set_Cons [of NULL us] hd_in_set_snoc [of vs NULL] by auto
  note L = unlink_block_links [OF c d, unfolded n]
  show ?thesis by (rule dequeue_finish [OF assms(1) L _ _ _ _ _ _ assms(2)]) simp_all
qed

section \<open>Choosing a block\<close>

text \<open>
  The priority scan runs from the tail and lets a block of equal priority replace the choice, so
  it ends on the frontmost block of minimal priority; the deadline scan runs from the head and
  keeps the first block of minimal deadline.
\<close>

definition last_least :: "(addr \<Rightarrow> 'k::linorder) \<Rightarrow> addr list \<Rightarrow> addr \<Rightarrow> bool" where
  "last_least f ys c \<longleftrightarrow>
     (\<exists>us vs. ys = us @ c # vs \<and> (\<forall>a\<in>set us. f c \<le> f a) \<and> (\<forall>a\<in>set vs. f c < f a))"

definition first_least :: "(addr \<Rightarrow> 'k::linorder) \<Rightarrow> addr list \<Rightarrow> addr \<Rightarrow> bool" where
  "first_least f ys c \<longleftrightarrow>
     (\<exists>us vs. ys = us @ c # vs \<and> (\<forall>a\<in>set us. f c < f a) \<and> (\<forall>a\<in>set vs. f c \<le> f a))"

lemma last_least_Cons:
  "last_least f ys c \<Longrightarrow> f c \<le> f y \<Longrightarrow> last_least f (y # ys) c"
  "\<forall>a\<in>set ys. f y < f a \<Longrightarrow> last_least f (y # ys) y"
  unfolding last_least_def by (metis append_Cons set_ConsD, metis append_Nil empty_iff list.set(1))

lemma first_least_Cons:
  "first_least f ys c \<Longrightarrow> f c < f y \<Longrightarrow> first_least f (y # ys) c"
  "\<forall>a\<in>set ys. f y \<le> f a \<Longrightarrow> first_least f (y # ys) y"
  unfolding first_least_def by (metis append_Cons set_ConsD, metis append_Nil empty_iff list.set(1))

lemma last_least_rev: "last_least f (rev ys) c \<longleftrightarrow> first_least f ys c"
proof
  assume "last_least f (rev ys) c"
  then obtain us vs where s: "rev ys = us @ c # vs" "\<forall>a\<in>set us. f c \<le> f a" "\<forall>a\<in>set vs. f c < f a"
    by (auto simp: last_least_def)
  have "ys = rev vs @ c # rev us" using arg_cong [OF s(1), of rev] by simp
  then show "first_least f ys c" unfolding first_least_def using s(2,3) by (metis set_rev)
next
  assume "first_least f ys c"
  then obtain us vs where "ys = us @ c # vs" "\<forall>a\<in>set us. f c < f a" "\<forall>a\<in>set vs. f c \<le> f a"
    by (auto simp: first_least_def)
  then show "last_least f (rev ys) c" unfolding last_least_def
    by (intro exI [of _ "rev vs"] exI [of _ "rev us"]) simp
qed

lemma choose_prio_correct:
  assumes "chain (mprev q) t ys"
  shows "\<exists>c. choose_prio q t pr chosen = Some c \<and>
    (c = chosen \<and> (\<forall>a\<in>set ys. pr < prio q a) \<or> last_least (prio q) ys c \<and> prio q c \<le> pr)"
  using assms
proof (induction ys arbitrary: t pr chosen)
  case Nil
  then show ?case by (simp add: choose_prio.simps)
next
  case (Cons y ys)
  have y: "t = y" "y \<noteq> NULL" "chain (mprev q) (mprev q y) ys" using Cons.prems by auto
  show ?case
  proof (cases "prio q y \<le> pr")
    case True
    then have "choose_prio q t pr chosen = choose_prio q (mprev q y) (prio q y) y"
      using y by (simp add: choose_prio.simps [of q y pr])
    with Cons.IH [OF y(3), of "prio q y" y] True show ?thesis
      using last_least_Cons [where f = "prio q" and ys = ys and y = y] by (auto dest: order_trans)
  next
    case False
    then have "choose_prio q t pr chosen = choose_prio q (mprev q y) pr chosen"
      using y by (simp add: choose_prio.simps [of q y pr])
    with Cons.IH [OF y(3), of pr chosen] False show ?thesis
      using last_least_Cons(1) [where f = "prio q" and ys = ys and y = y] by (auto simp: not_le)
  qed
qed

abbreviation deadline :: "message_queue \<Rightarrow> addr \<Rightarrow> ace_time_value" where
  "deadline q a \<equiv> mb_deadline (mq_blocks q a)"

lemma choose_deadline_correct:
  assumes "chain (mnext q) t ys"
  shows "\<exists>c. choose_deadline q t d chosen = Some c \<and>
    (c = chosen \<and> (\<forall>a\<in>set ys. d \<le> deadline q a) \<or> first_least (deadline q) ys c \<and> deadline q c < d)"
  using assms
proof (induction ys arbitrary: t d chosen)
  case Nil
  then show ?case by (simp add: choose_deadline.simps)
next
  case (Cons y ys)
  have y: "t = y" "y \<noteq> NULL" "chain (mnext q) (mnext q y) ys" using Cons.prems by auto
  show ?case
  proof (cases "deadline q y < d")
    case True
    then have "choose_deadline q t d chosen = choose_deadline q (mnext q y) (deadline q y) y"
      using y by (simp add: choose_deadline.simps [of q y d])
    with Cons.IH [OF y(3), of "deadline q y" y] True show ?thesis
      using first_least_Cons [where f = "deadline q" and ys = ys and y = y] by (auto dest: less_trans)
  next
    case False
    then have "choose_deadline q t d chosen = choose_deadline q (mnext q y) d chosen"
      using y by (simp add: choose_deadline.simps [of q y d])
    with Cons.IH [OF y(3), of d chosen] False show ?thesis
      using first_least_Cons(1) [where f = "deadline q" and ys = ys and y = y] by (auto simp: not_less)
  qed
qed

lemma dequeue_prio_i_correct:
  assumes "mq_at q xs" "xs \<noteq> []"
  shows "\<exists>us c vs q' r. xs = us @ c # vs \<and> (\<forall>a\<in>set us. prio q c < prio q a) \<and>
    (\<forall>a\<in>set vs. prio q c \<le> prio q a) \<and> dequeue_prio_i q = Some (q', Some c, r) \<and>
    dequeued q q' (us @ vs) c r"
proof -
  note Q = mq_at_chains [OF assms(1)]
  have h: "mq_head q \<noteq> NULL" using Q(4,5) assms(2) by auto
  have "\<not> (\<forall>a\<in>set (rev xs). -1 < prio q a)" using assms(2) by (cases xs) auto
  with choose_prio_correct [OF Q(2), of "-1" NULL] obtain c where
    c: "choose_prio q (mq_tail q) (-1) NULL = Some c" "first_least (prio q) xs c"
    by (auto simp: last_least_rev)
  then obtain us vs where s: "xs = us @ c # vs" "\<forall>a\<in>set us. prio q c < prio q a" "\<forall>a\<in>set vs. prio q c \<le> prio q a"
    by (auto simp: first_least_def)
  have "c \<noteq> NULL" using Q(4) s by auto
  obtain q' r where r: "signalled_dequeue (finish_dequeue (unlink_block q c) c) = (q', r)" by fastforce
  have "dequeued q q' (us @ vs) c r" using unlink_block_correct [OF _ r] assms(1) s by simp
  moreover have "dequeue_prio_i q = Some (q', Some c, r)"
    using h c \<open>c \<noteq> NULL\<close> r by (simp add: dequeue_prio_i_def)
  ultimately show ?thesis using s by blast
qed

lemma deadline_result:
  assumes "signalled_dequeue p = (q', r0)"
  shows "(if mq_cur_bytes p \<le> mq_low_water_mark p
      then let (q2, r) = signal_enqueue_waiters p
           in (q2, x, if r = -1 then -1 else sint (ucast (mq_cur_count q2) :: 32 word))
      else (p, x, sint (ucast (mq_cur_count p) :: 32 word))) =
    (q', x, if r0 = -1 then -1 else sint (ucast (mq_cur_count q') :: 32 word))"
proof -
  show ?thesis using assms truncate_int_nonneg by (auto simp: signalled_dequeue_def signal_enqueue_waiters_def split: if_splits)
qed

lemma dequeue_deadline_i_correct:
  assumes "mq_at q xs" "xs \<noteq> []"
  shows "\<exists>us c vs q' r r0. xs = us @ c # vs \<and> dequeue_deadline_i True q = Some (q', Some c, r) \<and>
    dequeued q q' (us @ vs) c r0 \<and>
    r = (if r0 = -1 then -1 else sint (ucast (of_nat (length (us @ vs)) :: size_t) :: 32 word)) \<and>
    (us = [] \<and> (\<forall>a\<in>set xs. max_time \<le> deadline q a) \<or>
     deadline q c < max_time \<and> (\<forall>a\<in>set us. deadline q c < deadline q a) \<and>
     (\<forall>a\<in>set vs. deadline q c \<le> deadline q a))"
proof -
  note Q = mq_at_chains [OF assms(1)]
  have h: "mq_head q = hd xs" "hd xs \<noteq> NULL" using Q(4,5) assms(2) by auto
  obtain c0 where c0: "choose_deadline q (mq_head q) max_time NULL = Some c0"
    "c0 = NULL \<and> (\<forall>a\<in>set xs. max_time \<le> deadline q a) \<or>
     first_least (deadline q) xs c0 \<and> deadline q c0 < max_time"
    using choose_deadline_correct [OF Q(1), of max_time NULL] by blast
  define c where "c = (if c0 = NULL then mq_head q else c0)"
  have "\<exists>us vs. xs = us @ c # vs \<and> (us = [] \<and> (\<forall>a\<in>set xs. max_time \<le> deadline q a) \<or>
     deadline q c < max_time \<and> (\<forall>a\<in>set us. deadline q c < deadline q a) \<and>
     (\<forall>a\<in>set vs. deadline q c \<le> deadline q a))"
  proof (cases "c0 = NULL \<and> (\<forall>a\<in>set xs. max_time \<le> deadline q a)")
    case True
    then have "xs = [] @ c # tl xs" using h assms(2) by (simp add: c_def)
    then show ?thesis using True by blast
  next
    case False
    then obtain us vs where s: "xs = us @ c0 # vs" "\<forall>a\<in>set us. deadline q c0 < deadline q a"
      "\<forall>a\<in>set vs. deadline q c0 \<le> deadline q a" "deadline q c0 < max_time"
      using c0(2) by (auto simp: first_least_def)
    moreover have "c = c0" using s(1) Q(4) by (auto simp: c_def)
    ultimately show ?thesis by blast
  qed
  then obtain us vs where s: "xs = us @ c # vs" and m: "us = [] \<and> (\<forall>a\<in>set xs. max_time \<le> deadline q a) \<or>
     deadline q c < max_time \<and> (\<forall>a\<in>set us. deadline q c < deadline q a) \<and>
     (\<forall>a\<in>set vs. deadline q c \<le> deadline q a)" by blast
  obtain q' r0 where r0: "signalled_dequeue (finish_dequeue (unlink_block q c) c) = (q', r0)" by fastforce
  have D: "dequeued q q' (us @ vs) c r0" using unlink_block_correct [OF _ r0] assms(1) s by simp
  have "mq_cur_count q' = of_nat (length (us @ vs))" using D by (simp add: dequeued_def mq_at_def)
  moreover have "dequeue_deadline_i True q = Some (q', Some c,
      if r0 = -1 then -1 else sint (ucast (mq_cur_count q') :: 32 word))"
    using h c0(1) deadline_result [OF r0, of "Some c"]
    by (simp add: dequeue_deadline_i_def c_def [symmetric] Let_def split del: if_split)
  ultimately show ?thesis using s m D by (intro exI [of _ us] exI [of _ c] exI [of _ vs] exI [of _ q']
      exI [of _ "if r0 = -1 then -1 else sint (ucast (mq_cur_count q') :: 32 word)"] exI [of _ r0]) simp
qed

section \<open>Enqueueing by deadline\<close>

definition deadline_insert :: "(addr \<Rightarrow> ace_time_value) \<Rightarrow> addr \<Rightarrow> addr list \<Rightarrow> addr list" where
  "deadline_insert f n xs =
     (let us = takeWhile (\<lambda>a. f a \<le> f n) xs
      in case dropWhile (\<lambda>a. f a \<le> f n) xs of
           t # v # vs \<Rightarrow> us @ t # n # v # vs
         | _ \<Rightarrow> xs @ [n])"

lemma find_dropWhile: "find P xs = (case dropWhile (\<lambda>a. \<not> P a) xs of [] \<Rightarrow> None | z # _ \<Rightarrow> Some z)"
  by (induction xs) auto

lemma enqueue_deadline_i_correct:
  assumes "mq_at q xs" "n \<notin> set xs" "n \<noteq> NULL"
  shows "\<exists>q' r r0. enqueue_deadline_i True q n = Some (q', r) \<and>
    enqueued q q' (deadline_insert (deadline q) n xs) r0"
proof -
  let ?q0 = "set_mnext q n NULL" and ?P = "\<lambda>t. deadline q n < deadline q t"
  note D = mq_at_detach [OF assms] and Q = mq_at_chains [OF mq_at_detach(1) [OF assms]]
  define us ws where "us = takeWhile (\<lambda>a. \<not> ?P a) xs" and "ws = dropWhile (\<lambda>a. \<not> ?P a) xs"
  have xs: "xs = us @ ws" by (simp add: us_def ws_def)
  have ins: "deadline_insert (deadline q) n xs = (case ws of t # v # vs \<Rightarrow> us @ t # n # v # vs | _ \<Rightarrow> xs @ [n])"
    unfolding deadline_insert_def us_def ws_def not_less Let_def ..
  have P: "mb_deadline (mq_blocks ?q0 a) = deadline q a" for a using payload_fields(4) [of ?q0 q] by simp
  have f: "find_link (mnext ?q0) (\<lambda>t. mb_deadline (mq_blocks ?q0 n) < mb_deadline (mq_blocks ?q0 t))
      (mq_head ?q0) = Some (case ws of [] \<Rightarrow> NULL | t # _ \<Rightarrow> t)"
    using find_link_chain [OF Q(1), of ?P] unfolding P
    by (simp add: find_dropWhile ws_def [symmetric] split: list.splits)
  have tr: "enqueued ?q0 q' zs r \<Longrightarrow> enqueued q q' zs r" for q' zs r by (erule enqueued_trans) simp_all
  show ?thesis
  proof (cases "\<exists>t v vs. ws = t # v # vs")
    case False
    have "enqueue_deadline_i True q n = enqueue_head_i ?q0 n \<and> xs = [] \<or>
        enqueue_deadline_i True q n = enqueue_tail_i ?q0 n"
    proof (cases ws)
      case Nil
      then show ?thesis using f assms(3) Q(4,5) xs by (cases xs) (auto simp: enqueue_deadline_i_def Let_def)
    next
      case (Cons t ts)
      then have "ts = []" using False by (cases ts) auto
      then have "mnext ?q0 t = NULL" using chain_last [of "mnext ?q0" "mq_head ?q0" us t] Q(1) xs Cons by simp
      moreover have "mq_head ?q0 \<noteq> NULL" using Q(4,5) xs Cons by (cases us) auto
      ultimately show ?thesis using f assms(3) Cons by (auto simp: enqueue_deadline_i_def Let_def)
    qed
    moreover have "deadline_insert (deadline q) n xs = xs @ [n]"
      using ins False by (auto split: list.splits)
    ultimately show ?thesis using enqueue_head_i_correct [OF D] enqueue_tail_i_correct [OF D] tr by fastforce
  next
    case True
    then obtain t v vs where ws: "ws = t # v # vs" by blast
    have at: "mq_at ?q0 ((us @ [t]) @ (v # vs))" using D(1) xs ws by simp
    have R: "ring (lnext ?q0) (lprev ?q0) NULL ((us @ [t]) @ (v # vs))" using at by (simp add: mq_at_def)
    have nn: "t \<noteq> NULL" "v \<noteq> NULL" using Q(4) xs ws by auto
    have "mnext ?q0 t = v" using ring_next_after [OF R] nn by simp
    moreover have "mq_head ?q0 \<noteq> NULL" using Q(4,5) xs ws by (cases us) auto
    ultimately have e: "enqueue_deadline_i True q n =
        Some (let q1 = count_block (insert_behind ?q0 t n) n; (q2, r) = signal_dequeue_waiters q1
              in (q2, if r = -1 then -1 else sint (ucast (mq_cur_count q2) :: 32 word)))"
      using f assms(3) nn ws by (simp add: enqueue_deadline_i_def Let_def)
    have I: "mq_at (count_block (insert_behind ?q0 t n) n) ((us @ [t]) @ n # v # vs)"
      "payload (count_block (insert_behind ?q0 t n) n) = payload ?q0"
      "settings (count_block (insert_behind ?q0 t n) n) = settings ?q0"
      "mq_not_empty_cond (count_block (insert_behind ?q0 t n) n) = mq_not_empty_cond ?q0"
      using insert_behind_correct [OF at _ _ _ assms(3) refl] assms(2) xs ws by simp_all
    obtain q' r0 where s: "signalled_enqueue (count_block (insert_behind ?q0 t n) n) = (q', r0)" by fastforce
    have "enqueued ?q0 q' ((us @ [t]) @ n # v # vs) r0" using I by (intro enqueuedI [OF s])
    then have "enqueued q q' (deadline_insert (deadline q) n xs) r0" using ins ws tr by simp
    moreover obtain r where "enqueue_deadline_i True q n = Some (q', r)"
      using e s by (auto simp: signalled_enqueue_def Let_def split: prod.splits)
    ultimately show ?thesis by blast
  qed
qed

section \<open>Flushing\<close>

lemma flush_loop_correct:
  assumes "chain (mnext q) (mq_head q) xs"
  shows "\<exists>q'. flush_loop q k = Some (q', k + length xs) \<and> mq_head q' = NULL \<and> mq_tail q' = mq_tail q \<and>
    mq_released q' = mq_released q @ xs \<and> mq_blocks q' = mq_blocks q \<and> mq_state q' = mq_state q \<and>
    mq_cur_bytes q' = mq_cur_bytes q - (\<Sum>a\<leftarrow>xs. block_bytes (mq_blocks q a)) \<and>
    mq_cur_length q' = mq_cur_length q - (\<Sum>a\<leftarrow>xs. block_length (mq_blocks q a)) \<and>
    mq_cur_count q' = mq_cur_count q - of_nat (length xs)"
  using assms
proof (induction xs arbitrary: q k)
  case Nil
  then show ?case by (simp add: flush_loop.simps)
next
  case (Cons x xs)
  let ?r = "(uncount_block q x)\<lparr>mq_head := mnext q x, mq_released := mq_released (uncount_block q x) @ [x]\<rparr>"
  have x: "mq_head q = x" "x \<noteq> NULL" "chain (mnext q) (mnext q x) xs" using Cons.prems by auto
  have "chain (mnext ?r) (mq_head ?r) xs" using x(3) by simp
  from Cons.IH [OF this, of "k + 1"] obtain q' where q': "flush_loop ?r (k + 1) = Some (q', k + 1 + length xs)"
    "mq_head q' = NULL" "mq_tail q' = mq_tail ?r" "mq_released q' = mq_released ?r @ xs"
    "mq_blocks q' = mq_blocks ?r" "mq_state q' = mq_state ?r"
    "mq_cur_bytes q' = mq_cur_bytes ?r - (\<Sum>a\<leftarrow>xs. block_bytes (mq_blocks ?r a))"
    "mq_cur_length q' = mq_cur_length ?r - (\<Sum>a\<leftarrow>xs. block_length (mq_blocks ?r a))"
    "mq_cur_count q' = mq_cur_count ?r - of_nat (length xs)" by blast
  have "flush_loop q k = flush_loop ?r (k + 1)" using x by (simp add: flush_loop.simps [of q k] Let_def)
  moreover have "mq_released (uncount_block q x) = mq_released q" "mq_state (uncount_block q x) = mq_state q"
    by (simp_all add: uncount_block_def total_size_and_length_sum)
  ultimately show ?case using q' by (intro exI [of _ q']) (simp add: algebra_simps)
qed

lemma flush_i_correct:
  assumes "mq_at q xs"
  shows "\<exists>q'. flush_i q = Some (q', length xs) \<and> mq_at q' [] \<and> mq_released q' = mq_released q @ xs \<and>
    mq_state q' = mq_state q \<and> is_empty_i q'"
proof -
  have "chain (mnext (q\<lparr>mq_tail := NULL\<rparr>)) (mq_head (q\<lparr>mq_tail := NULL\<rparr>)) xs"
    using mq_at_chains(1) [OF assms] by simp
  from flush_loop_correct [OF this, of 0] assms show ?thesis
    unfolding flush_i_def by (auto simp: mq_at_def ring_def is_empty_i_def)
qed

section \<open>Scripts of operations\<close>

text \<open>
  A buffer whose \<open>put\<close> inserts a block into the list of its contents at the place that \<open>ins\<close> gives
  and whose \<open>get\<close> hands out the first one. A script of calls on the buffer then gives what the same
  script gives on the list.
\<close>

datatype buffer_op = Put addr | Get

fun run_buffer ::
  "('s \<Rightarrow> addr \<Rightarrow> ('s \<times> int) option) \<Rightarrow> ('s \<Rightarrow> 's \<times> addr option \<times> int) \<Rightarrow> buffer_op list \<Rightarrow> 's \<Rightarrow>
   ('s \<times> addr option list) option" where
  "run_buffer put get [] s = Some (s, [])"
| "run_buffer put get (Put a # ops) s =
     (case put s a of None \<Rightarrow> None | Some (s', r) \<Rightarrow> run_buffer put get ops s')"
| "run_buffer put get (Get # ops) s =
     (case get s of (s', x, r) \<Rightarrow>
        case run_buffer put get ops s' of None \<Rightarrow> None | Some (t, out) \<Rightarrow> Some (t, x # out))"

fun run_list :: "(addr \<Rightarrow> addr list \<Rightarrow> addr list) \<Rightarrow> buffer_op list \<Rightarrow> addr list \<Rightarrow> addr list \<times> addr option list" where
  "run_list ins [] xs = (xs, [])"
| "run_list ins (Put a # ops) xs = run_list ins ops (ins a xs)"
| "run_list ins (Get # ops) [] = (let (ys, out) = run_list ins ops [] in (ys, None # out))"
| "run_list ins (Get # ops) (x # xs) = (let (ys, out) = run_list ins ops xs in (ys, Some x # out))"

text \<open>A script puts only blocks that are not in the buffer.\<close>

fun puts_fresh :: "(addr \<Rightarrow> addr list \<Rightarrow> addr list) \<Rightarrow> buffer_op list \<Rightarrow> addr list \<Rightarrow> bool" where
  "puts_fresh ins [] xs \<longleftrightarrow> True"
| "puts_fresh ins (Put a # ops) xs \<longleftrightarrow> a \<noteq> NULL \<and> a \<notin> set xs \<and> puts_fresh ins ops (ins a xs)"
| "puts_fresh ins (Get # ops) xs \<longleftrightarrow> puts_fresh ins ops (tl xs)"

locale list_buffer =
  fixes repr :: "'s \<Rightarrow> addr list \<Rightarrow> bool"
    and ins :: "addr \<Rightarrow> addr list \<Rightarrow> addr list"
    and put :: "'s \<Rightarrow> addr \<Rightarrow> ('s \<times> int) option"
    and get :: "'s \<Rightarrow> 's \<times> addr option \<times> int"
  assumes put_law: "repr s xs \<Longrightarrow> a \<notin> set xs \<Longrightarrow> a \<noteq> NULL \<Longrightarrow> \<exists>s' r. put s a = Some (s', r) \<and> repr s' (ins a xs)"
    and get_law: "repr s (x # xs) \<Longrightarrow> \<exists>s' r. get s = (s', Some x, r) \<and> repr s' xs"
    and get_empty: "repr s [] \<Longrightarrow> get s = (s, None, -1)"
begin

lemma run_refines:
  "repr s xs \<Longrightarrow> puts_fresh ins ops xs \<Longrightarrow> run_list ins ops xs = (ys, out) \<Longrightarrow>
   \<exists>t. run_buffer put get ops s = Some (t, out) \<and> repr t ys"
proof (induction ops arbitrary: s xs ys out)
  case (Cons b ops)
  show ?case
  proof (cases b)
    case (Put a)
    then have a: "a \<notin> set xs" "a \<noteq> NULL" "puts_fresh ins ops (ins a xs)" "run_list ins ops (ins a xs) = (ys, out)"
      using Cons.prems by simp_all
    obtain s' r where "put s a = Some (s', r)" "repr s' (ins a xs)"
      using put_law [OF Cons.prems(1) a(1,2)] by blast
    then show ?thesis using Cons.IH a(3,4) Put by simp
  next
    case Get
    obtain out' where o: "run_list ins ops (tl xs) = (ys, out')"
        "out = (if xs = [] then None else Some (hd xs)) # out'"
      using Cons.prems(3) Get by (cases xs) (auto split: prod.splits)
    obtain s' r where g: "get s = (s', if xs = [] then None else Some (hd xs), r)" "repr s' (tl xs)"
      using get_law get_empty Cons.prems(1) by (cases xs) fastforce+
    obtain t where "run_buffer put get ops s' = Some (t, out')" "repr t ys"
      using Cons.IH [OF g(2) _ o(1)] Cons.prems(2) Get by auto
    then show ?thesis using g(1) o(2) Get by simp
  qed
qed simp

end

text \<open>Stable insertion by descending priority.\<close>

definition stable_insert :: "(addr \<Rightarrow> 64 word) \<Rightarrow> addr \<Rightarrow> addr list \<Rightarrow> addr list" where
  "stable_insert f n xs = filter (\<lambda>a. f n \<le> f a) xs @ n # filter (\<lambda>a. f a < f n) xs"

definition by_priority :: "(addr \<Rightarrow> 64 word) \<Rightarrow> addr list \<Rightarrow> bool" where
  "by_priority f xs \<longleftrightarrow> sorted_wrt (\<lambda>a b. f b \<le> f a) xs"

lemma stable_insert_sorted: "by_priority f xs \<Longrightarrow> by_priority f (stable_insert f n xs)"
  unfolding by_priority_def stable_insert_def
  by (auto simp: sorted_wrt_append sorted_wrt_filter intro: order_trans less_imp_le)

lemma sorted_cut:
  fixes f :: "'a \<Rightarrow> 'k::linorder"
  assumes "sorted_wrt (\<lambda>a b. f a \<le> f b) ys"
  shows "takeWhile (\<lambda>a. f a < k) ys = filter (\<lambda>a. f a < k) ys"
    and "dropWhile (\<lambda>a. f a < k) ys = filter (\<lambda>a. k \<le> f a) ys"
proof -
  have "takeWhile (\<lambda>a. f a < k) ys = filter (\<lambda>a. f a < k) ys \<and>
      dropWhile (\<lambda>a. f a < k) ys = filter (\<lambda>a. k \<le> f a) ys"
    using assms
  proof (induction ys)
    case (Cons y ys)
    show ?case
    proof (cases "f y < k")
      case False
      then have "\<forall>a\<in>set (y # ys). k \<le> f a" using Cons.prems by auto
      then have "filter (\<lambda>a. k \<le> f a) (y # ys) = y # ys" "filter (\<lambda>a. f a < k) (y # ys) = []"
        by (simp_all only: filter_id_conv filter_empty_conv not_less)
      then show ?thesis using False by simp
    qed (use Cons in auto)
  qed simp
  then show "takeWhile (\<lambda>a. f a < k) ys = filter (\<lambda>a. f a < k) ys"
    "dropWhile (\<lambda>a. f a < k) ys = filter (\<lambda>a. k \<le> f a) ys" by simp_all
qed

lemma prio_insert_stable:
  assumes "by_priority (prio q) xs"
  shows "prio_insert q n xs = stable_insert (prio q) n xs"
proof -
  have "sorted_wrt (\<lambda>a b. prio q a \<le> prio q b) (rev xs)"
    using assms by (simp add: by_priority_def sorted_wrt_rev)
  from sorted_cut [OF this, of "prio q n"] show ?thesis
    by (simp add: prio_insert_def stable_insert_def rev_filter)
qed

definition prio_repr :: "(addr \<Rightarrow> 64 word) \<Rightarrow> message_queue \<Rightarrow> addr list \<Rightarrow> bool" where
  "prio_repr f q xs \<longleftrightarrow> mq_at q xs \<and> (\<forall>a. prio q a = f a) \<and> by_priority f xs"

definition deadline_repr :: "(addr \<Rightarrow> ace_time_value) \<Rightarrow> message_queue \<Rightarrow> addr list \<Rightarrow> bool" where
  "deadline_repr f q xs \<longleftrightarrow> mq_at q xs \<and> (\<forall>a. deadline q a = f a)"

lemma dequeue_head_i_empty: "mq_at q [] \<Longrightarrow> dequeue_head_i q = (q, None, -1)"
  using mq_at_chains(5) [of q "[]"] by (simp add: dequeue_head_i_def)

interpretation mq_prio: list_buffer "prio_repr f" "stable_insert f" enqueue_i dequeue_head_i for f
proof
  fix s xs a assume r: "prio_repr f s xs" and a: "a \<notin> set xs" "a \<noteq> NULL"
  then have R: "mq_at s xs" "prio s = f" "by_priority f xs" by (auto simp: prio_repr_def)
  obtain s' v where "enqueue_i s a = Some (s', v)" "enqueued s s' (prio_insert s a xs) v"
    using enqueue_i_correct [OF R(1) a] by blast
  then show "\<exists>s' r. enqueue_i s a = Some (s', r) \<and> prio_repr f s' (stable_insert f a xs)"
    using R prio_insert_stable [of s xs a] stable_insert_sorted [of f xs a] payload_fields(3) [of s' s]
    by (auto simp: prio_repr_def enqueued_def)
next
  fix s x xs assume r: "prio_repr f s (x # xs)"
  then have "mq_at s (x # xs)" by (simp add: prio_repr_def)
  then obtain s' v where "dequeue_head_i s = (s', Some x, v)" "dequeued s s' xs x v"
    using dequeue_head_i_correct by blast
  then show "\<exists>s' r. dequeue_head_i s = (s', Some x, r) \<and> prio_repr f s' xs"
    using r payload_fields(3) [of s' s] by (auto simp: prio_repr_def dequeued_def by_priority_def)
next
  fix s assume "prio_repr f s []"
  then show "dequeue_head_i s = (s, None, -1)" using dequeue_head_i_empty by (simp add: prio_repr_def)
qed

interpretation mq_deadline: list_buffer "deadline_repr f" "deadline_insert f" "enqueue_deadline_i True" dequeue_head_i
  for f
proof
  fix s xs a assume r: "deadline_repr f s xs" and a: "a \<notin> set xs" "a \<noteq> NULL"
  then have R: "mq_at s xs" "deadline s = f" by (auto simp: deadline_repr_def)
  obtain s' v v0 where "enqueue_deadline_i True s a = Some (s', v)"
      "enqueued s s' (deadline_insert (deadline s) a xs) v0"
    using enqueue_deadline_i_correct [OF R(1) a] by blast
  then show "\<exists>s' r. enqueue_deadline_i True s a = Some (s', r) \<and> deadline_repr f s' (deadline_insert f a xs)"
    using R payload_fields(4) [of s' s] by (auto simp: deadline_repr_def enqueued_def)
next
  fix s x xs assume r: "deadline_repr f s (x # xs)"
  then have "mq_at s (x # xs)" by (simp add: deadline_repr_def)
  then obtain s' v where "dequeue_head_i s = (s', Some x, v)" "dequeued s s' xs x v"
    using dequeue_head_i_correct by blast
  then show "\<exists>s' r. dequeue_head_i s = (s', Some x, r) \<and> deadline_repr f s' xs"
    using r payload_fields(4) [of s' s] by (auto simp: deadline_repr_def dequeued_def)
next
  fix s assume "deadline_repr f s []"
  then show "dequeue_head_i s = (s, None, -1)" using dequeue_head_i_empty by (simp add: deadline_repr_def)
qed

section \<open>Waiting\<close>

text \<open>
  A wait that succeeds leaves a queue that is not full: the one the caller had, or one handed back
  by a wait while the queue was active.
\<close>

lemma wait_not_full_success:
  "wait_not_full_cond ws q = Some (q1, ws', r, e) \<Longrightarrow> r \<noteq> -1 \<Longrightarrow>
   r = 0 \<and> e = None \<and> \<not> is_full_i q1 \<and> (q1 = q \<or> Wait_Woken q1 \<in> set ws \<and> mq_state q1 = ACTIVATED)"
proof (induction ws q rule: wait_not_full_cond.induct)
  case (1 ws q)
  then show ?case
    by (subst (asm) (2) wait_not_full_cond.simps) (auto split: if_splits list.splits wait_result.splits)
qed

lemma wait_not_empty_success:
  "wait_not_empty_cond ws q = Some (q1, ws', r, e) \<Longrightarrow> r \<noteq> -1 \<Longrightarrow>
   r = 0 \<and> e = None \<and> \<not> is_empty_i q1 \<and> (q1 = q \<or> Wait_Woken q1 \<in> set ws \<and> mq_state q1 = ACTIVATED)"
proof (induction ws q rule: wait_not_empty_cond.induct)
  case (1 ws q)
  then show ?case
    by (subst (asm) (2) wait_not_empty_cond.simps) (auto split: if_splits list.splits wait_result.splits)
qed

lemma enqueue_with_success:
  assumes "enqueue_with op ws q n = Some (q', r, e)" "r \<noteq> -1"
  shows "e = None \<and> mq_state q \<noteq> DEACTIVATED \<and>
    (\<exists>q1 q2. \<not> is_full_i q1 \<and> (q1 = q \<or> Wait_Woken q1 \<in> set ws \<and> mq_state q1 = ACTIVATED) \<and>
      op q1 n = Some (q2, r) \<and> q' = mq_notify q2)"
proof -
  have s: "mq_state q \<noteq> DEACTIVATED" using assms by (auto simp: enqueue_with_def)
  obtain q1 ws' w e1 where w: "wait_not_full_cond ws q = Some (q1, ws', w, e1)"
    using assms s by (auto simp: enqueue_with_def split: option.splits)
  have "w \<noteq> -1" using assms s w by (auto simp: enqueue_with_def)
  note W = this wait_not_full_success [OF w this]
  obtain q2 where o: "op q1 n = Some (q2, r)"
    using assms s w W by (auto simp: enqueue_with_def split: option.splits if_splits)
  have "q' = mq_notify q2" "e = None"
    using assms s w W o by (auto simp: enqueue_with_def mq_notify_def split: if_splits)
  then show ?thesis using s W o by blast
qed

lemma dequeue_with_success:
  assumes "dequeue_with op ws q = Some (q', x, r, e)" "r \<noteq> -1"
  shows "e = None \<and> mq_state q \<noteq> DEACTIVATED \<and>
    (\<exists>q1. \<not> is_empty_i q1 \<and> (q1 = q \<or> Wait_Woken q1 \<in> set ws \<and> mq_state q1 = ACTIVATED) \<and>
      op q1 = Some (q', x, r))"
proof -
  have s: "mq_state q \<noteq> DEACTIVATED" using assms by (auto simp: dequeue_with_def)
  obtain q1 ws' w e1 where w: "wait_not_empty_cond ws q = Some (q1, ws', w, e1)"
    using assms s by (auto simp: dequeue_with_def split: option.splits)
  have "w \<noteq> -1" using assms s w by (auto simp: dequeue_with_def)
  from wait_not_empty_success [OF w this] show ?thesis
    using assms s w by (auto simp: dequeue_with_def split: option.splits if_splits)
qed

lemma enqueue_with_room:
  assumes "mq_state q \<noteq> DEACTIVATED" "\<not> is_full_i q" "op q n = Some (q', r)"
  shows "enqueue_with op ws q n = Some (if r = -1 then q' else mq_notify q', r, None)"
  using assms by (simp add: enqueue_with_def wait_not_full_cond.simps [of ws q] mq_notify_def)

lemma dequeue_with_item:
  assumes "mq_state q \<noteq> DEACTIVATED" "\<not> is_empty_i q" "op q = Some (q', x, r)"
  shows "dequeue_with op ws q = Some (q', x, r, None)"
  using assms by (simp add: dequeue_with_def wait_not_empty_cond.simps [of ws q])

lemma mq_at_not_empty: "mq_at q xs \<Longrightarrow> is_empty_i q \<longleftrightarrow> xs = []"
  using mq_at_chains(4,6) [of q xs] by (auto simp: is_empty_i_def)

text \<open>A client's loop over an iterator.\<close>

partial_function (option) mq_visit :: "(addr \<Rightarrow> addr \<times> bool) \<Rightarrow> addr \<Rightarrow> addr list option" where
  "mq_visit adv c =
     (case mq_iter_next c of
        (None, r) \<Rightarrow> Some []
      | (Some a, r) \<Rightarrow> Option.bind (mq_visit adv (fst (adv c))) (\<lambda>as. Some (a # as)))"

declare mq_visit.simps [code]

lemma mq_visit_chain:
  assumes "\<And>a. a \<noteq> NULL \<Longrightarrow> fst (adv a) = f a"
  shows "chain f c xs \<Longrightarrow> mq_visit adv c = Some xs"
proof (induction xs arbitrary: c)
  case Nil
  then show ?case by (simp add: mq_visit.simps [of adv] mq_iter_next_def)
next
  case (Cons x xs)
  then show ?case using assms by (simp add: mq_visit.simps [of adv] mq_iter_next_def)
qed

end
