(* ===== verification/ACE_Message_Queue_Correct.thy ===== *)
theory ACE_Message_Queue_Correct
  imports ACE_Message_Queue
begin

text \<open>
  What \<^verbatim>\<open>ACE_Message_Queue\<close> promises its callers, on the public operations: the order in which
  blocks come out, the flow control of a full or empty queue, and closing.
\<close>

section \<open>A queue to compute with\<close>

definition mb_sample :: "addr \<Rightarrow> message_block" where
  "mb_sample a = \<lparr>mb_next = NULL, mb_prev = NULL, mb_blocks = [(of_nat (10 * a), of_nat a)],
     mb_priority = (if a = 2 then 5 else 1), mb_deadline = ACE_Time_Value (int (5 * a)) 0\<rparr>"

definition mq_sample :: message_queue where
  "mq_sample = fst (mq_open \<lparr>mq_high_water_mark = 0, mq_low_water_mark = 0, mq_state = DEACTIVATED,
     mq_cur_bytes = 0, mq_cur_length = 0, mq_cur_count = 0, mq_head = 0, mq_tail = 0,
     mq_notification_strategy = NULL, mq_notified = 0,
     mq_not_empty_cond = \<lparr>cond_fails = False, cond_signals = 0, cond_broadcasts = 0\<rparr>,
     mq_not_full_cond = \<lparr>cond_fails = False, cond_signals = 0, cond_broadcasts = 0\<rparr>,
     mq_blocks = mb_sample, mq_released = []\<rparr> 50 20 7)"

lemma mq_open_empty: "mq_at (fst (mq_open q hwm lwm ns)) []"
  by (simp add: mq_at_def mq_open_def ring_def)

lemma mq_sample_at: "mq_at mq_sample []"
  unfolding mq_sample_def by (rule mq_open_empty)

text \<open>The queue with three blocks enqueued at the tail, of 10, 20 and 30 bytes: it is full.\<close>

definition mq_sample3 :: message_queue where
  "mq_sample3 =
     (case enqueue_tail_i mq_sample 1 of None \<Rightarrow> mq_sample | Some (q1, _) \<Rightarrow>
      case enqueue_tail_i q1 2 of None \<Rightarrow> q1 | Some (q2, _) \<Rightarrow>
      case enqueue_tail_i q2 3 of None \<Rightarrow> q2 | Some (q3, _) \<Rightarrow> q3)"

lemmas mq_eval = mq_sample3_def mq_sample_def mq_open_def mb_sample_def enqueue_tail_i_def seq_walk.simps
  count_block_def total_size_and_length_def set_mnext_def set_mprev_def signalled_enqueue_def
  signal_dequeue_waiters_def Let_def

lemma mq_sample3_at: "mq_at mq_sample3 [1, 2, 3]"
  by (simp add: mq_eval mq_at_def ring_def block_bytes_def block_length_def)

lemma mq_sample3_fields [simp]:
  "mq_state mq_sample3 = ACTIVATED" "is_full_i mq_sample3" "mq_low_water_mark mq_sample3 = 20"
  "prio mq_sample3 1 = 1" "prio mq_sample3 2 = 5" "prio mq_sample3 3 = 1"
  "deadline mq_sample3 1 = ACE_Time_Value 5 0" "deadline mq_sample3 2 = ACE_Time_Value 10 0"
  "deadline mq_sample3 3 = ACE_Time_Value 15 0"
  "\<not> cond_fails (mq_not_full_cond mq_sample3)" "mq_released mq_sample3 = []"
  by (simp_all add: mq_eval is_full_i_def)

section \<open>Order\<close>

text \<open>C18: a queue that has just been opened behaves, under any sequence of \<open>enqueue_i\<close> and
  \<open>dequeue_head_i\<close> calls that never enqueues a block already queued, as a list kept in descending
  priority with stable insertion: every call returns, the blocks handed out are those the list gives,
  in order, \<open>None\<close> (the error return) for a dequeue from the empty queue, and what is left in the queue
  is linked and counted as the list that remains.\<close>

theorem mq_priority_refinement:
  assumes "mq_open q hwm lwm ns = (q0, v)"
    and "puts_fresh (stable_insert (prio q)) ops []"
    and "run_list (stable_insert (prio q)) ops [] = (ys, out)"
  shows "\<exists>t. run_buffer enqueue_i dequeue_head_i ops q0 = Some (t, out) \<and> mq_at t ys \<and> by_priority (prio q) ys"
proof -
  have "mq_at q0 []" using mq_open_empty [of q hwm lwm ns] assms(1) by simp
  moreover have "mq_blocks q0 = mq_blocks q" using assms(1) by (auto simp: mq_open_def)
  ultimately have "prio_repr (prio q) q0 []" by (simp add: prio_repr_def by_priority_def)
  from mq_prio.run_refines [OF this assms(2,3)] show ?thesis by (auto simp: prio_repr_def)
qed

theorem mq_priority_refinement_witness:
  "\<exists>t. run_buffer enqueue_i dequeue_head_i [Put 1, Put 2, Put 3, Get, Get, Get, Get]
     (fst (mq_open mq_sample 50 20 7)) = Some (t, [Some 2, Some 1, Some 3, None]) \<and> mq_at t [] \<and>
     by_priority (prio mq_sample) []"
  by (rule mq_priority_refinement [where hwm = 50 and lwm = 20 and ns = 7 and v = 0])
     (simp_all add: mq_eval stable_insert_def word_le_nat_alt)

text \<open>\<open>enqueue_tail\<close> on an active queue with room links a whole chain of new blocks behind the
  queued ones, in order, adds their bytes, lengths and number to the counts, signals one waiting consumer,
  notifies the strategy if there is one and returns the number of blocks (cut to an \<open>int\<close>).\<close>

theorem enqueue_tail_correct:
  assumes "mq_at q xs" "fresh_chain q n ys xs" "mq_state q \<noteq> DEACTIVATED" "\<not> is_full_i q"
    and "\<not> cond_fails (mq_not_empty_cond q)"
  shows "\<exists>q'. enqueue_tail ws q n = Some (q', truncate_int (of_nat (length (xs @ n # ys))), None) \<and>
    mq_at q' (xs @ n # ys) \<and> payload q' = payload q \<and>
    cond_signals (mq_not_empty_cond q') = cond_signals (mq_not_empty_cond q) + 1 \<and>
    mq_notified q' = mq_notified q + (if mq_notification_strategy q = NULL then 0 else 1)"
proof -
  obtain p r where p: "enqueue_tail_i q n = Some (p, r)" "enqueued q p (xs @ n # ys) r"
    using enqueue_tail_i_correct [OF assms(1,2)] by blast
  have r: "r = truncate_int (of_nat (length (xs @ n # ys)))" "r \<noteq> -1"
    using p(2) assms(5) truncate_int_nonneg by (auto simp: enqueued_def)
  have "enqueue_tail ws q n = Some (mq_notify p, r, None)"
    using enqueue_with_room [of q enqueue_tail_i n p r ws] assms(3,4) p(1) r by (simp add: enqueue_tail_def)
  moreover have "mq_at (mq_notify p) zs \<longleftrightarrow> mq_at p zs" for zs
    by (rule mq_at_cong) (simp_all add: mq_notify_def)
  moreover have "payload (mq_notify p) = payload p" "mq_not_empty_cond (mq_notify p) = mq_not_empty_cond p"
    by (simp_all add: mq_notify_def payload_def fun_eq_iff)
  moreover have "mq_notified (mq_notify p) = mq_notified q + (if mq_notification_strategy q = NULL then 0 else 1)"
    using p(2) by (simp add: mq_notify_def enqueued_def settings_def)
  ultimately show ?thesis using p(2) r(1) by (simp add: enqueued_def)
qed

theorem enqueue_tail_correct_witness:
  "\<exists>q'. enqueue_tail [] mq_sample 4 = Some (q', 1, None) \<and> mq_at q' [4] \<and> mq_notified q' = 1"
proof -
  have "fresh_chain mq_sample 4 [] []" by (simp add: fresh_chain_def mq_eval)
  from enqueue_tail_correct [OF mq_sample_at this, of "[]"] show ?thesis
    by (auto simp: is_full_i_def truncate_int_def INT_MAX_def mq_sample_def mq_open_def)
qed

text \<open>C21: on an active queue that holds blocks, \<open>dequeue_head\<close> hands out the first and
  \<open>dequeue_tail\<close> the last. The others stay queued in order, the block leaves unlinked, the counts
  are those of the rest, and a waiting producer is signalled exactly if the bytes left are at most
  the low water mark.\<close>

theorem dequeue_ends_correct:
  assumes "mq_at q xs" "xs \<noteq> []" "mq_state q \<noteq> DEACTIVATED"
  shows "(\<exists>q' r. dequeue_head ws q = Some (q', Some (hd xs), r, None) \<and> dequeued q q' (tl xs) (hd xs) r) \<and>
    (\<exists>q' r. dequeue_tail ws q = Some (q', Some (last xs), r, None) \<and> dequeued q q' (butlast xs) (last xs) r)"
proof
  have e: "\<not> is_empty_i q" using mq_at_not_empty [OF assms(1)] assms(2) by simp
  obtain q' r where "dequeue_head_i q = (q', Some (hd xs), r)" "dequeued q q' (tl xs) (hd xs) r"
    using dequeue_head_i_correct [of q "hd xs" "tl xs"] assms(1,2) by auto
  then show "\<exists>q' r. dequeue_head ws q = Some (q', Some (hd xs), r, None) \<and> dequeued q q' (tl xs) (hd xs) r"
    using dequeue_with_item [OF assms(3) e] by (simp add: dequeue_head_def)
  obtain q' r where "dequeue_tail_i q = (q', Some (last xs), r)" "dequeued q q' (butlast xs) (last xs) r"
    using dequeue_tail_i_correct [of q "butlast xs" "last xs"] assms(1,2) by auto
  then show "\<exists>q' r. dequeue_tail ws q = Some (q', Some (last xs), r, None) \<and> dequeued q q' (butlast xs) (last xs) r"
    using dequeue_with_item [OF assms(3) e] by (simp add: dequeue_tail_def)
qed

theorem dequeue_ends_correct_witness:
  "(\<exists>q' r. dequeue_head [] mq_sample3 = Some (q', Some 1, r, None) \<and> dequeued mq_sample3 q' [2, 3] 1 r) \<and>
   (\<exists>q' r. dequeue_tail [] mq_sample3 = Some (q', Some 3, r, None) \<and> dequeued mq_sample3 q' [1, 2] 3 r)"
  using dequeue_ends_correct [OF mq_sample3_at, of "[]"] by simp

text \<open>\<open>dequeue_prio\<close> hands out the frontmost of the blocks of lowest priority, and the others
  stay queued in order.\<close>

theorem dequeue_prio_correct:
  assumes "mq_at q xs" "xs \<noteq> []" "mq_state q \<noteq> DEACTIVATED"
  shows "\<exists>us c vs q' r. xs = us @ c # vs \<and> (\<forall>a\<in>set us. prio q c < prio q a) \<and>
    (\<forall>a\<in>set vs. prio q c \<le> prio q a) \<and> dequeue_prio ws q = Some (q', Some c, r, None) \<and>
    dequeued q q' (us @ vs) c r"
proof -
  have "\<not> is_empty_i q" using mq_at_not_empty [OF assms(1)] assms(2) by simp
  with dequeue_prio_i_correct [OF assms(1,2)] dequeue_with_item [OF assms(3), of dequeue_prio_i]
  show ?thesis unfolding dequeue_prio_def by metis
qed

theorem dequeue_prio_correct_witness:
  "\<exists>us c vs q' r. [1, 2, 3] = us @ c # vs \<and> (\<forall>a\<in>set us. prio mq_sample3 c < prio mq_sample3 a) \<and>
    (\<forall>a\<in>set vs. prio mq_sample3 c \<le> prio mq_sample3 a) \<and>
    dequeue_prio [] mq_sample3 = Some (q', Some c, r, None) \<and> dequeued mq_sample3 q' (us @ vs) c r"
  by (rule dequeue_prio_correct [OF mq_sample3_at]) simp_all

text \<open>With timed message blocks, \<open>dequeue_deadline\<close> hands out the first block of earliest deadline;
  if every deadline is the largest time value it hands out the head. The others stay queued in order.\<close>

theorem dequeue_deadline_correct:
  assumes "mq_at q xs" "xs \<noteq> []" "mq_state q \<noteq> DEACTIVATED"
  shows "\<exists>us c vs q' r r0. xs = us @ c # vs \<and> dequeue_deadline True ws q = Some (q', Some c, r, None) \<and>
    dequeued q q' (us @ vs) c r0 \<and>
    (us = [] \<and> (\<forall>a\<in>set xs. max_time \<le> deadline q a) \<or>
     deadline q c < max_time \<and> (\<forall>a\<in>set us. deadline q c < deadline q a) \<and>
     (\<forall>a\<in>set vs. deadline q c \<le> deadline q a))"
proof -
  have "\<not> is_empty_i q" using mq_at_not_empty [OF assms(1)] assms(2) by simp
  with dequeue_deadline_i_correct [OF assms(1,2)] dequeue_with_item [OF assms(3), of "dequeue_deadline_i True"]
  show ?thesis unfolding dequeue_deadline_def by metis
qed

theorem dequeue_deadline_correct_witness:
  "\<exists>us c vs q' r r0. [1, 2, 3] = us @ c # vs \<and>
    dequeue_deadline True [] mq_sample3 = Some (q', Some c, r, None) \<and> dequeued mq_sample3 q' (us @ vs) c r0 \<and>
    (us = [] \<and> (\<forall>a\<in>set [1, 2, 3]. max_time \<le> deadline mq_sample3 a) \<or>
     deadline mq_sample3 c < max_time \<and> (\<forall>a\<in>set us. deadline mq_sample3 c < deadline mq_sample3 a) \<and>
     (\<forall>a\<in>set vs. deadline mq_sample3 c \<le> deadline mq_sample3 a))"
  by (rule dequeue_deadline_correct [OF mq_sample3_at]) simp_all

text \<open>With timed message blocks, \<open>enqueue_deadline\<close> puts a block directly behind the first
  block with a later deadline, or at the tail if there is none or that one is the last. A block that is due
  before every queued one therefore never becomes the first: the old head stays in front of it.\<close>

theorem enqueue_deadline_correct:
  assumes "mq_at q xs" "n \<notin> set xs" "n \<noteq> NULL" "mq_state q \<noteq> DEACTIVATED" "\<not> is_full_i q"
  shows "\<exists>q' r e. enqueue_deadline True ws q n = Some (q', r, e) \<and> payload q' = payload q \<and>
    mq_at q' (deadline_insert (deadline q) n xs) \<and>
    ((\<forall>a\<in>set xs. deadline q n < deadline q a) \<longrightarrow> xs \<noteq> [] \<longrightarrow>
      deadline_insert (deadline q) n xs = hd xs # n # tl xs)"
proof -
  obtain p r r0 where p: "enqueue_deadline_i True q n = Some (p, r)"
      "enqueued q p (deadline_insert (deadline q) n xs) r0"
    using enqueue_deadline_i_correct [OF assms(1-3)] by blast
  have "enqueue_deadline True ws q n = Some (if r = -1 then p else mq_notify p, r, None)"
    using enqueue_with_room [of q "enqueue_deadline_i True" n p r ws] assms(4,5) p(1)
    by (simp add: enqueue_deadline_def)
  moreover have "mq_at (if r = -1 then p else mq_notify p) zs \<longleftrightarrow> mq_at p zs" for zs
    by (rule mq_at_cong) (simp_all add: mq_notify_def)
  moreover have "payload (if r = -1 then p else mq_notify p) = payload p"
    by (simp add: mq_notify_def payload_def fun_eq_iff)
  moreover have "deadline_insert (deadline q) n xs = hd xs # n # tl xs"
    if "\<forall>a\<in>set xs. deadline q n < deadline q a" "xs \<noteq> []"
    using that by (cases xs; cases "tl xs") (auto simp: deadline_insert_def not_le)
  ultimately show ?thesis using p(2) by (auto simp: enqueued_def)
qed

theorem enqueue_deadline_correct_witness:
  "\<exists>q' r e. enqueue_deadline True [] (mq_sample3\<lparr>mq_high_water_mark := 100\<rparr>) 4 = Some (q', r, e) \<and>
     mq_at q' [1, 2, 3, 4]"
proof -
  let ?q = "mq_sample3\<lparr>mq_high_water_mark := 100\<rparr>"
  have "mq_at ?q [1, 2, 3] \<longleftrightarrow> mq_at mq_sample3 [1, 2, 3]" by (rule mq_at_cong) simp_all
  then have at: "mq_at ?q [1, 2, 3]" using mq_sample3_at by simp
  have "\<not> is_full_i ?q" by (simp add: is_full_i_def mq_eval)
  with enqueue_deadline_correct [OF at, of 4 "[]"]
  have "\<exists>q' r e. enqueue_deadline True [] ?q 4 = Some (q', r, e) \<and>
      mq_at q' (deadline_insert (deadline ?q) 4 [1, 2, 3])" by auto
  moreover have "deadline_insert (deadline ?q) 4 [1, 2, 3] = [1, 2, 3, 4]"
    by (simp add: deadline_insert_def mq_eval less_eq_ace_time_value_def tv_greater_eq_def)
  ultimately show ?thesis by simp
qed

section \<open>Flow control\<close>

text \<open>C19: no enqueue operation links a block into a full queue: if it returns anything but an error,
  it has linked the block with the queue in a state that was not full, either the one the call found or one
  in which a wait woke up while the queue was activated, and nothing happened after that but the
  notification of the strategy. A deactivated queue refuses with \<open>ESHUTDOWN\<close> and is left as it is; a
  full queue blocks until a wait ends; a wait that times out gives \<open>EWOULDBLOCK\<close>, and one that ends in
  a queue no longer activated gives \<open>ESHUTDOWN\<close>, both without enqueueing.\<close>

theorem enqueue_flow_control:
  assumes "enq \<in> {enqueue_head, enqueue_tail, enqueue_prio, enqueue_deadline timed}"
  shows "\<exists>op \<in> {enqueue_head_i, enqueue_tail_i, enqueue_i, enqueue_deadline_i timed}.
    (\<forall>ws q n q' r e. enq ws q n = Some (q', r, e) \<longrightarrow> r \<noteq> -1 \<longrightarrow>
       (\<exists>q1 q2. \<not> is_full_i q1 \<and> (q1 = q \<or> Wait_Woken q1 \<in> set ws \<and> mq_state q1 = ACTIVATED) \<and>
         op q1 n = Some (q2, r) \<and> q' = mq_notify q2)) \<and>
    (\<forall>ws q n. mq_state q = DEACTIVATED \<longrightarrow> enq ws q n = Some (q, -1, Some ESHUTDOWN)) \<and>
    (\<forall>q n. mq_state q \<noteq> DEACTIVATED \<longrightarrow> is_full_i q \<longrightarrow> enq [] q n = None \<and>
       (\<forall>q1 ws. enq (Wait_Failed ETIME q1 # ws) q n = Some (q1, -1, Some EWOULDBLOCK) \<and>
         (mq_state q1 \<noteq> ACTIVATED \<longrightarrow> enq (Wait_Woken q1 # ws) q n = Some (q1, -1, Some ESHUTDOWN))))"
proof -
  obtain op where op: "op \<in> {enqueue_head_i, enqueue_tail_i, enqueue_i, enqueue_deadline_i timed}"
    and e: "enq = enqueue_with op"
    using assms by (auto simp: fun_eq_iff enqueue_head_def enqueue_tail_def enqueue_prio_def enqueue_deadline_def)
  show ?thesis
  proof (rule bexI [OF _ op], intro conjI allI impI)
    fix ws q n q' r v assume "enq ws q n = Some (q', r, v)" "r \<noteq> -1"
    from enqueue_with_success [OF this [unfolded e]]
    show "\<exists>q1 q2. \<not> is_full_i q1 \<and> (q1 = q \<or> Wait_Woken q1 \<in> set ws \<and> mq_state q1 = ACTIVATED) \<and>
         op q1 n = Some (q2, r) \<and> q' = mq_notify q2" by blast
  qed (simp_all add: e enqueue_with_def wait_not_full_cond.simps)
qed

theorem enqueue_flow_control_witness:
  "enqueue_tail [] mq_sample3 4 = None \<and>
   enqueue_tail [Wait_Failed ETIME mq_sample3] mq_sample3 4 = Some (mq_sample3, -1, Some EWOULDBLOCK)"
proof -
  have "enqueue_tail \<in> {enqueue_head, enqueue_tail, enqueue_prio, enqueue_deadline False}" by simp
  from enqueue_flow_control [OF this]
  have "\<forall>q n. mq_state q \<noteq> DEACTIVATED \<longrightarrow> is_full_i q \<longrightarrow> enqueue_tail [] q n = None \<and>
    (\<forall>q1 ws. enqueue_tail (Wait_Failed ETIME q1 # ws) q n = Some (q1, -1, Some EWOULDBLOCK))" by blast
  then show ?thesis by simp
qed

lemma dequeue_with_defs:
  "dequeue_head = dequeue_with (\<lambda>p. Some (dequeue_head_i p))"
  "dequeue_tail = dequeue_with (\<lambda>p. Some (dequeue_tail_i p))" "dequeue_prio = dequeue_with dequeue_prio_i"
  "dequeue_deadline timed = dequeue_with (dequeue_deadline_i timed)"
  by (simp_all add: fun_eq_iff dequeue_head_def dequeue_tail_def dequeue_prio_def dequeue_deadline_def)

text \<open>C20: no dequeue operation takes a block from an empty queue: if it returns anything but an error, it
  has taken the block from a state that was not empty, the one the call found or one in which a wait woke up
  while the queue was activated. A deactivated queue refuses with \<open>ESHUTDOWN\<close>; an empty queue blocks
  until a wait ends, with \<open>EWOULDBLOCK\<close> on a timeout and \<open>ESHUTDOWN\<close> if the queue is then no longer
  activated.\<close>

theorem dequeue_flow_control:
  assumes "deq \<in> {dequeue_head, dequeue_tail, dequeue_prio, dequeue_deadline timed}"
  shows "\<exists>op \<in> {(\<lambda>p. Some (dequeue_head_i p)), (\<lambda>p. Some (dequeue_tail_i p)), dequeue_prio_i, dequeue_deadline_i timed}.
    (\<forall>ws q q' x r e. deq ws q = Some (q', x, r, e) \<longrightarrow> r \<noteq> -1 \<longrightarrow>
       (\<exists>q1. \<not> is_empty_i q1 \<and> (q1 = q \<or> Wait_Woken q1 \<in> set ws \<and> mq_state q1 = ACTIVATED) \<and>
         op q1 = Some (q', x, r))) \<and>
    (\<forall>ws q. mq_state q = DEACTIVATED \<longrightarrow> deq ws q = Some (q, None, -1, Some ESHUTDOWN)) \<and>
    (\<forall>q. mq_state q \<noteq> DEACTIVATED \<longrightarrow> is_empty_i q \<longrightarrow> deq [] q = None \<and>
       (\<forall>q1 ws. deq (Wait_Failed ETIME q1 # ws) q = Some (q1, None, -1, Some EWOULDBLOCK) \<and>
         (mq_state q1 \<noteq> ACTIVATED \<longrightarrow> deq (Wait_Woken q1 # ws) q = Some (q1, None, -1, Some ESHUTDOWN))))"
proof -
  obtain op where op: "op \<in> {(\<lambda>p. Some (dequeue_head_i p)), (\<lambda>p. Some (dequeue_tail_i p)),
      dequeue_prio_i, dequeue_deadline_i timed}" and e: "deq = dequeue_with op"
    using assms dequeue_with_defs(1-3) dequeue_with_defs(4) [of timed] by blast
  show ?thesis
  proof (rule bexI [OF _ op], intro conjI allI impI)
    fix ws q q' x r v assume "deq ws q = Some (q', x, r, v)" "r \<noteq> -1"
    from dequeue_with_success [OF this [unfolded e]]
    show "\<exists>q1. \<not> is_empty_i q1 \<and> (q1 = q \<or> Wait_Woken q1 \<in> set ws \<and> mq_state q1 = ACTIVATED) \<and>
         op q1 = Some (q', x, r)" by blast
  qed (simp_all add: e dequeue_with_def wait_not_empty_cond.simps)
qed

theorem dequeue_flow_control_witness:
  "dequeue_head [] mq_sample = None \<and>
   dequeue_head [Wait_Failed ETIME mq_sample] mq_sample = Some (mq_sample, None, -1, Some EWOULDBLOCK)"
proof -
  have "dequeue_head \<in> {dequeue_head, dequeue_tail, dequeue_prio, dequeue_deadline False}" by simp
  from dequeue_flow_control [OF this]
  have "\<forall>q. mq_state q \<noteq> DEACTIVATED \<longrightarrow> is_empty_i q \<longrightarrow> dequeue_head [] q = None \<and>
    (\<forall>q1 ws. dequeue_head (Wait_Failed ETIME q1 # ws) q = Some (q1, None, -1, Some EWOULDBLOCK))" by blast
  then show ?thesis by (simp add: mq_sample_def mq_open_def is_empty_i_def)
qed

section \<open>Closing and iterating\<close>

text \<open>C22: \<open>close\<close> returns the number of blocks, releases every queued block once, in queue order, and
  leaves a deactivated queue that is empty with all counts zero; waiters are woken unless it was already
  deactivated, and every later operation is refused.\<close>

theorem mq_close_correct:
  assumes "mq_at q xs"
  shows "\<exists>q'. mq_close q = Some (q', length xs) \<and> mq_at q' [] \<and> mq_released q' = mq_released q @ xs \<and>
    mq_state q' = DEACTIVATED \<and> is_empty_i q' \<and>
    (\<forall>ws n. enqueue_tail ws q' n = Some (q', -1, Some ESHUTDOWN) \<and>
      dequeue_head ws q' = Some (q', None, -1, Some ESHUTDOWN))"
proof -
  let ?d = "fst (deactivate_i q False)"
  have "mq_at ?d xs \<longleftrightarrow> mq_at q xs" by (rule mq_at_cong) (simp_all add: deactivate_i_def Let_def)
  then have at: "mq_at ?d xs" using assms by simp
  have "mq_state ?d = DEACTIVATED" "mq_released ?d = mq_released q" by (simp_all add: deactivate_i_def Let_def)
  with flush_i_correct [OF at] show ?thesis
    by (auto simp: mq_close_def enqueue_tail_def enqueue_with_def dequeue_head_def dequeue_with_def)
qed

theorem mq_close_correct_witness:
  "\<exists>q'. mq_close mq_sample3 = Some (q', 3) \<and> mq_released q' = [1, 2, 3] \<and> mq_state q' = DEACTIVATED"
  using mq_close_correct [OF mq_sample3_at] by auto

text \<open>A loop over an \<open>ACE_Message_Queue_Iterator\<close> ends and visits the queued blocks in order;
  a loop over the reverse iterator visits them backwards.\<close>

theorem mq_iterators_correct:
  assumes "mq_at q xs"
  shows "mq_visit (mq_iter_advance q) (mq_iter_init q) = Some xs \<and>
    mq_visit (mq_riter_advance q) (mq_riter_init q) = Some (rev xs)"
  using mq_visit_chain [of "mq_iter_advance q" "mnext q" "mq_head q" xs]
    mq_visit_chain [of "mq_riter_advance q" "mprev q" "mq_tail q" "rev xs"] mq_at_chains [OF assms]
  by (simp add: mq_iter_advance_def mq_riter_advance_def mq_iter_init_def mq_riter_init_def Let_def)

theorem mq_iterators_correct_witness:
  "mq_visit (mq_iter_advance mq_sample3) (mq_iter_init mq_sample3) = Some [1, 2, 3] \<and>
   mq_visit (mq_riter_advance mq_sample3) (mq_riter_init mq_sample3) = Some [3, 2, 1]"
  using mq_iterators_correct [OF mq_sample3_at] by simp

end
