(* ===== verification/ACE_Allocator.thy ===== *)
theory ACE_Allocator
  imports ACE_Prelude
begin

text \<open>
  Allocators: the interface \<^verbatim>\<open>ACE_Allocator\<close> as the containers use it, as a locale, and
  \<^verbatim>\<open>ACE_Static_Allocator_Base\<close> (\<^verbatim>\<open>Malloc_Allocator.cpp\<close>), which hands out consecutive pieces of a
  buffer, as an instance of it. Sizes are 64-bit words, because the code adds them without a check.
\<close>

section \<open>The interface\<close>

text \<open>
  The virtual functions, on the memory \<open>'m\<close> that all allocators of the program share; an
  allocator object is named by its address, and \<open>al_instance\<close> is the process-wide default.
\<close>

record 'm allocator_ops =
  al_malloc :: "'m \<Rightarrow> addr \<Rightarrow> 64 word \<Rightarrow> 'm \<times> addr"
  al_free :: "'m \<Rightarrow> addr \<Rightarrow> addr \<Rightarrow> 'm"
  al_instance :: addr

text \<open>The blocks in use: where they start, which allocator they came from and how long they are.\<close>

type_synonym blocks = "addr \<rightharpoonup> addr \<times> nat"

section \<open>The static allocator\<close>

record static_allocator =
  sa_buffer :: addr
  sa_size :: "64 word"
  sa_offset :: "64 word"

definition static_init :: "addr \<Rightarrow> 64 word \<Rightarrow> static_allocator" where
  "static_init buffer sz = \<lparr>sa_buffer = buffer, sa_size = sz, sa_offset = 0\<rparr>"

definition static_malloc :: "static_allocator \<Rightarrow> 64 word \<Rightarrow> static_allocator \<times> addr" where
  "static_malloc a nbytes =
     (if sa_offset a + nbytes > sa_size a then (a, NULL)
      else (a\<lparr>sa_offset := sa_offset a + nbytes\<rparr>, sa_buffer a + unat (sa_offset a)))"

text \<open>\<open>calloc\<close> fills the piece without looking at the result of \<open>malloc\<close>; \<open>None\<close> is a write through null.\<close>

definition memset :: "(addr \<Rightarrow> byte) \<Rightarrow> addr \<Rightarrow> byte \<Rightarrow> nat \<Rightarrow> addr \<Rightarrow> byte" where
  "memset bytes p c n = (\<lambda>a. if p \<le> a \<and> a < p + n then c else bytes a)"

definition static_calloc ::
  "(addr \<Rightarrow> byte) \<Rightarrow> static_allocator \<Rightarrow> 64 word \<Rightarrow> byte \<Rightarrow> ((addr \<Rightarrow> byte) \<times> static_allocator \<times> addr) option" where
  "static_calloc bytes a nbytes initial_value =
     (let (a', p) = static_malloc a nbytes
      in if p = NULL \<and> nbytes \<noteq> 0 then None
         else Some (memset bytes p initial_value (unat nbytes), a', p))"

definition static_calloc_array ::
  "(addr \<Rightarrow> byte) \<Rightarrow> static_allocator \<Rightarrow> 64 word \<Rightarrow> 64 word \<Rightarrow> byte \<Rightarrow>
   ((addr \<Rightarrow> byte) \<times> static_allocator \<times> addr) option" where
  "static_calloc_array bytes a n_elem elem_size initial_value =
     static_calloc bytes a (n_elem * elem_size) initial_value"

text \<open>\<open>free\<close> only asserts that the pointer is in the buffer.\<close>

definition static_free_assert :: "static_allocator \<Rightarrow> addr \<Rightarrow> bool" where
  "static_free_assert a ptr \<longleftrightarrow> sa_buffer a \<le> ptr \<and> ptr < sa_buffer a + unat (sa_size a)"

text \<open>Several static allocators, by address.\<close>

type_synonym static_pools = "addr \<Rightarrow> static_allocator"

definition static_ops :: "addr \<Rightarrow> static_pools allocator_ops" where
  "static_ops inst = \<lparr>
     al_malloc = (\<lambda>w al n. let (a, p) = static_malloc (w al) n in (w(al := a), p)),
     al_free = (\<lambda>w al p. w),
     al_instance = inst\<rparr>"

text \<open>A sequence of requests and the pieces it gets.\<close>

fun static_pieces :: "static_allocator \<Rightarrow> 64 word list \<Rightarrow> (addr \<times> nat) list" where
  "static_pieces a [] = []"
| "static_pieces a (n # ns) = (let (a', p) = static_malloc a n in (p, unat n) # static_pieces a' ns)"

section \<open>The contract\<close>

definition apart :: "blocks \<Rightarrow> addr \<Rightarrow> nat \<Rightarrow> bool" where
  "apart B p n \<longleftrightarrow> (\<forall>q al k. B q = Some (al, k) \<longrightarrow> p + n \<le> q \<or> q + k \<le> p)"

locale allocator =
  fixes ops :: "'m allocator_ops"
    and minv :: "'m \<Rightarrow> blocks \<Rightarrow> bool"
  assumes block: "minv m B \<Longrightarrow> B p = Some (al, n) \<Longrightarrow> p \<noteq> NULL \<and> 0 < n"
    and disjoint: "minv m B \<Longrightarrow> B p = Some (al, n) \<Longrightarrow> apart (B(p := None)) p n"
    and malloc: "minv m B \<Longrightarrow> 0 < unat nb \<Longrightarrow> unat nb < 2 ^ 63 \<Longrightarrow> al_malloc ops m al nb = (m', p) \<Longrightarrow>
      p \<noteq> NULL \<Longrightarrow> apart B p (unat nb) \<and> minv m' (B(p \<mapsto> (al, unat nb)))"
    and malloc_fails: "minv m B \<Longrightarrow> al_malloc ops m al nb = (m', NULL) \<Longrightarrow> minv m' B"
    and free: "minv m B \<Longrightarrow> B p = Some (al, n) \<Longrightarrow> minv (al_free ops m al p) (B(p := None))"
begin

lemma malloc_fresh:
  assumes "minv m B" "0 < unat n" "unat n < 2 ^ 63" "al_malloc ops m al n = (m', p)" "p \<noteq> NULL"
  shows "B p = None"
proof (rule ccontr)
  assume "B p \<noteq> None"
  then obtain al' k where "B p = Some (al', k)" by auto
  with malloc [OF assms] block [OF assms(1), of p al' k] assms(2) show False by (fastforce simp: apart_def)
qed

text \<open>An element of an array in one block is not the start of another block.\<close>

lemma array_elem:
  assumes "minv m B" "B p = Some (al, k * s)" "i < k" "B q = Some (al', n)" "q \<noteq> p"
  shows "p + i * s \<noteq> q"
proof
  assume e: "p + i * s = q"
  have "i * s < k * s" using block [OF assms(1,2)] assms(3) by simp
  moreover have "0 < n" using block [OF assms(1,4)] by simp
  moreover have "p + k * s \<le> q \<or> q + n \<le> p" using disjoint [OF assms(1,2)] assms(4,5) by (auto simp: apart_def)
  ultimately show False using e by linarith
qed

end

section \<open>The static allocator keeps the contract\<close>

definition pool_inv :: "static_pools \<Rightarrow> blocks \<Rightarrow> bool" where
  "pool_inv w B \<longleftrightarrow>
     (\<forall>al. sa_offset (w al) \<le> sa_size (w al) \<and> unat (sa_size (w al)) < 2 ^ 63 \<and>
        (sa_size (w al) \<noteq> 0 \<longrightarrow> sa_buffer (w al) \<noteq> NULL)) \<and>
     (\<forall>al al'. al \<noteq> al' \<longrightarrow> sa_buffer (w al) + unat (sa_size (w al)) \<le> sa_buffer (w al') \<or>
        sa_buffer (w al') + unat (sa_size (w al')) \<le> sa_buffer (w al) \<or> sa_size (w al) = 0 \<or> sa_size (w al') = 0) \<and>
     (\<forall>p al n. B p = Some (al, n) \<longrightarrow> 0 < n \<and> sa_buffer (w al) \<le> p \<and>
        p + n \<le> sa_buffer (w al) + unat (sa_offset (w al))) \<and>
     (\<forall>p al n. B p = Some (al, n) \<longrightarrow> apart (B(p := None)) p n)"

lemma static_malloc_cases:
  assumes "sa_offset a \<le> sa_size a" "unat (sa_size a) < 2 ^ 63" "unat n < 2 ^ 63"
  shows "static_malloc a n = (if unat (sa_offset a) + unat n > unat (sa_size a) then (a, NULL)
     else (a\<lparr>sa_offset := sa_offset a + n\<rparr>, sa_buffer a + unat (sa_offset a)))"
    and "unat (sa_offset a + n) = unat (sa_offset a) + unat n"
proof -
  have "unat (sa_offset a) < 2 ^ 63" using assms(1,2) by (simp add: word_le_nat_alt)
  then show u: "unat (sa_offset a + n) = unat (sa_offset a) + unat n" using assms(3) by (intro iffD1 [OF unat_add_lem]) simp
  show "static_malloc a n = (if unat (sa_offset a) + unat n > unat (sa_size a) then (a, NULL)
     else (a\<lparr>sa_offset := sa_offset a + n\<rparr>, sa_buffer a + unat (sa_offset a)))"
    by (simp add: static_malloc_def word_less_nat_alt u)
qed

lemma pool_invD:
  assumes "pool_inv w B"
  shows "sa_offset (w al) \<le> sa_size (w al)" "unat (sa_size (w al)) < 2 ^ 63"
    "sa_size (w al) \<noteq> 0 \<Longrightarrow> sa_buffer (w al) \<noteq> NULL"
    "al \<noteq> al' \<Longrightarrow> sa_buffer (w al) + unat (sa_size (w al)) \<le> sa_buffer (w al') \<or>
        sa_buffer (w al') + unat (sa_size (w al')) \<le> sa_buffer (w al) \<or> sa_size (w al) = 0 \<or> sa_size (w al') = 0"
    "B p = Some (al, n) \<Longrightarrow> 0 < n \<and> sa_buffer (w al) \<le> p \<and> p + n \<le> sa_buffer (w al) + unat (sa_offset (w al))"
    "B p = Some (al, n) \<Longrightarrow> apart (B(p := None)) p n"
  using assms unfolding pool_inv_def by blast+

lemma pool_block_end:
  assumes "pool_inv w B" "B p = Some (al, n)"
  shows "p + n \<le> sa_buffer (w al) + unat (sa_size (w al))" "sa_size (w al) \<noteq> 0"
  using pool_invD(1) [OF assms(1), of al] pool_invD(5) [OF assms] by (auto simp: word_le_nat_alt)

lemma pool_malloc:
  assumes P: "pool_inv w B" and n: "0 < unat n" "unat n < 2 ^ 63"
    and f: "unat (sa_offset (w al)) + unat n \<le> unat (sa_size (w al))"
  defines "p \<equiv> sa_buffer (w al) + unat (sa_offset (w al))"
  defines "w' \<equiv> w(al := (w al)\<lparr>sa_offset := sa_offset (w al) + n\<rparr>)"
  shows "apart B p (unat n)" "pool_inv w' (B(p \<mapsto> (al, unat n)))"
proof -
  note u = static_malloc_cases(2) [OF pool_invD(1,2) [OF P, of al] n(2)]
  show A: "apart B p (unat n)"
    unfolding apart_def
  proof (intro allI impI)
    fix q al' k assume q: "B q = Some (al', k)"
    show "p + unat n \<le> q \<or> q + k \<le> p"
    proof (cases "al' = al")
      case True
      then show ?thesis using pool_invD(5) [OF P q] by (simp add: p_def)
    next
      case False
      have "sa_size (w al) \<noteq> 0" using f n(1) by auto
      then show ?thesis
        using pool_invD(4) [OF P False] pool_block_end [OF P q] pool_invD(5) [OF P q] f
        by (auto simp: p_def)
    qed
  qed
  have "apart ((B(p \<mapsto> (al, unat n)))(q := None)) q k" if q: "(B(p \<mapsto> (al, unat n))) q = Some (al', k)" for q al' k
  proof (cases "q = p")
    case True
    then show ?thesis using A q by (auto simp: apart_def)
  next
    case False
    then have b: "B q = Some (al', k)" using q by simp
    have "p + unat n \<le> q \<or> q + k \<le> p" using A b by (auto simp: apart_def)
    then show ?thesis using pool_invD(6) [OF P b] False by (auto simp: apart_def)
  qed
  moreover have "0 < k \<and> sa_buffer (w' al') \<le> q \<and> q + k \<le> sa_buffer (w' al') + unat (sa_offset (w' al'))"
    if "(B(p \<mapsto> (al, unat n))) q = Some (al', k)" for q al' k
    using that pool_invD(5) [OF P, of q al' k] n u by (auto simp: w'_def p_def split: if_splits)
  moreover have "sa_offset (w' al') \<le> sa_size (w' al')" for al'
    using f u pool_invD(1) [OF P, of al'] by (simp add: w'_def word_le_nat_alt)
  moreover have "sa_size (w' al') = sa_size (w al')" "sa_buffer (w' al') = sa_buffer (w al')" for al'
    by (simp_all add: w'_def)
  ultimately show "pool_inv w' (B(p \<mapsto> (al, unat n)))"
    using pool_invD(2-4) [OF P] unfolding pool_inv_def by simp
qed

lemma pool_free:
  assumes "pool_inv w B"
  shows "pool_inv w (B(p := None))"
  using assms unfolding pool_inv_def apart_def by (auto split: if_splits)

interpretation sp: allocator "static_ops inst" pool_inv for inst
proof (unfold_locales, goal_cases)
  case (1 m B p al n)
  then show ?case
    using pool_invD(3) [OF 1(1), of al] pool_invD(5) [OF 1] pool_block_end [OF 1] by auto
next
  case (2 m B p al n)
  then show ?case by (rule pool_invD(6))
next
  case (3 m B n al m' p)
  note S = static_malloc_cases [OF pool_invD(1,2) [OF 3(1), of al] 3(3)]
  have f: "unat (sa_offset (m al)) + unat n \<le> unat (sa_size (m al))"
    and r: "m' = m(al := (m al)\<lparr>sa_offset := sa_offset (m al) + n\<rparr>)" "p = sa_buffer (m al) + unat (sa_offset (m al))"
    using 3(4,5) S by (auto simp: static_ops_def split: if_splits)
  show ?case unfolding r using pool_malloc [OF 3(1-3) f] by blast
next
  case (4 m B al n m')
  have "m' = m \<or> sa_size (m al) = 0"
    using 4(2) pool_invD(3) [OF 4(1), of al] by (auto simp: static_ops_def static_malloc_def split: if_splits)
  then show ?case
  proof
    assume z: "sa_size (m al) = 0"
    then have "sa_offset (m al) = 0" using pool_invD(1) [OF 4(1), of al] by simp
    then have o: "m al\<lparr>sa_offset := 0\<rparr> = m al" by (cases "m al") simp
    have "m' = m \<or> m' = m(al := m al\<lparr>sa_offset := 0\<rparr>)"
      using 4(2) z \<open>sa_offset (m al) = 0\<close>
      by (auto simp: static_ops_def static_malloc_def word_gt_0 split: if_splits)
    then have "m' = m" unfolding o by simp
    then show ?thesis using 4(1) by simp
  qed (use 4(1) in simp)
next
  case (5 m B p al n)
  then show ?case by (simp add: static_ops_def pool_free)
qed

section \<open>Properties\<close>

lemma static_pieces_bounds:
  assumes "sa_offset a \<le> sa_size a" "unat (sa_size a) < 2 ^ 63" "\<forall>n \<in> set ns. unat n < 2 ^ 63"
    and "(p, n) \<in> set (static_pieces a ns)" "p \<noteq> NULL"
  shows "sa_buffer a + unat (sa_offset a) \<le> p \<and> p + n \<le> sa_buffer a + unat (sa_size a)"
  using assms
proof (induction ns arbitrary: a)
  case (Cons m ns)
  note S = static_malloc_cases [OF Cons.prems(1,2), of m]
  obtain a' q where m: "static_malloc a m = (a', q)" by fastforce
  have s: "sa_size a' = sa_size a" "sa_buffer a' = sa_buffer a" "sa_offset a' \<le> sa_size a'"
    "unat (sa_offset a) \<le> unat (sa_offset a')" "q \<noteq> NULL \<Longrightarrow> q + unat m = sa_buffer a + unat (sa_offset a')"
    "q \<noteq> NULL \<Longrightarrow> q = sa_buffer a + unat (sa_offset a)"
    using m S Cons.prems(1,3) by (auto simp: word_le_nat_alt split: if_splits)
  show ?case
  proof (cases "(p, n) \<in> set (static_pieces a' ns)")
    case True
    have "unat (sa_size a') < 2 ^ 63" "\<forall>n \<in> set ns. unat n < 2 ^ 63" using Cons.prems(2,3) s(1) by simp_all
    from Cons.IH [OF s(3) this True Cons.prems(5)] show ?thesis using s by simp
  next
    case False
    then have "p = q" "n = unat m" using Cons.prems(4) m by auto
    then show ?thesis using s Cons.prems(5) by (simp add: word_le_nat_alt)
  qed
qed simp

text \<open>C37: requests below \<open>2 ^ 63\<close> bytes to a static allocator: every piece handed out lies in the buffer, behind
  everything handed out before, and the pieces do not overlap; a request gets no piece exactly when the rest of the
  buffer is too short for it.\<close>

theorem static_malloc_pieces:
  assumes "sa_offset a \<le> sa_size a" "unat (sa_size a) < 2 ^ 63" "sa_buffer a \<noteq> NULL" "\<forall>n \<in> set ns. unat n < 2 ^ 63"
  shows "(\<forall>(p, n) \<in> set (static_pieces a ns). p \<noteq> NULL \<longrightarrow>
      sa_buffer a + unat (sa_offset a) \<le> p \<and> p + n \<le> sa_buffer a + unat (sa_size a)) \<and>
    sorted_wrt (\<lambda>(p, n) (q, m). p \<noteq> NULL \<longrightarrow> q \<noteq> NULL \<longrightarrow> p + n \<le> q) (static_pieces a ns) \<and>
    (\<forall>n. unat n < 2 ^ 63 \<longrightarrow>
      (snd (static_malloc a n) = NULL \<longleftrightarrow> unat (sa_offset a) + unat n > unat (sa_size a)))"
proof -
  have "sorted_wrt (\<lambda>(p, n) (q, m). p \<noteq> NULL \<longrightarrow> q \<noteq> NULL \<longrightarrow> p + n \<le> q) (static_pieces a ns)"
    using assms
  proof (induction ns arbitrary: a)
    case (Cons m ns)
    note S = static_malloc_cases [OF Cons.prems(1,2), of m]
    obtain a' q where m: "static_malloc a m = (a', q)" by fastforce
    have s: "sa_size a' = sa_size a" "sa_buffer a' = sa_buffer a" "sa_offset a' \<le> sa_size a'"
      "q \<noteq> NULL \<Longrightarrow> q + unat m = sa_buffer a + unat (sa_offset a')"
      using m S Cons.prems(1,4) by (auto simp: word_le_nat_alt split: if_splits)
    have "unat (sa_size a') < 2 ^ 63" "\<forall>n \<in> set ns. unat n < 2 ^ 63" using Cons.prems(2,4) s(1) by simp_all
    then show ?case
      using Cons.IH [of a'] static_pieces_bounds [of a' ns] s Cons.prems(3) m by fastforce
  qed simp
  moreover have "\<forall>(p, n) \<in> set (static_pieces a ns). p \<noteq> NULL \<longrightarrow>
      sa_buffer a + unat (sa_offset a) \<le> p \<and> p + n \<le> sa_buffer a + unat (sa_size a)"
    using static_pieces_bounds [OF assms(1,2,4)] by blast
  ultimately show ?thesis using static_malloc_cases(1) [OF assms(1,2)] assms(3) by simp
qed

theorem static_malloc_pieces_witness:
  "static_pieces (static_init 1000 100) [40, 70, 60] = [(1000, 40), (NULL, 70), (1040, 60)] \<and>
   sorted_wrt (\<lambda>(p, n) (q, m). p \<noteq> NULL \<longrightarrow> q \<noteq> NULL \<longrightarrow> p + n \<le> q) (static_pieces (static_init 1000 100) [40, 70, 60])"
proof -
  have "\<forall>n \<in> set [40, 70, 60 :: 64 word]. unat n < 2 ^ 63" by simp
  then show ?thesis using static_malloc_pieces [of "static_init 1000 100" "[40, 70, 60]"]
    by (simp add: static_init_def static_malloc_def)
qed

text \<open>A request of almost \<open>2 ^ 64\<close> bytes wraps around: it succeeds and moves the offset backwards, so that the
  next piece overlaps one handed out before.\<close>

lemma static_malloc_wraps:
  assumes "sa_offset a \<le> sa_size a" "k \<le> sa_offset a"
  shows "static_malloc a (- k) = (a\<lparr>sa_offset := sa_offset a - k\<rparr>, sa_buffer a + unat (sa_offset a))"
proof -
  have "sa_offset a - k \<le> sa_size a" using assms word_sub_le order_trans by blast
  then show ?thesis by (simp add: static_malloc_def not_less [symmetric])
qed

text \<open>\<open>calloc\<close> on an exhausted buffer writes through the null pointer.\<close>

lemma static_calloc_exhausted:
  assumes "sa_offset a \<le> sa_size a" "unat (sa_size a) < 2 ^ 63" "unat n < 2 ^ 63" "unat (sa_offset a) + unat n > unat (sa_size a)"
  shows "static_calloc bytes a n c = None"
proof -
  have "n \<noteq> 0" using assms(1,4) by (auto simp: word_le_nat_alt)
  then show ?thesis using assms(4) static_malloc_cases(1) [OF assms(1-3)] by (simp add: static_calloc_def)
qed

end
