(* ===== verification/ACE_Hash_Map.thy ===== *)
theory ACE_Hash_Map
  imports ACE_Links ACE_Allocator
begin

text \<open>
  The hash map \<^verbatim>\<open>ACE_Hash_Map_Manager_Ex\<close> (\<^verbatim>\<open>Hash_Map_Manager_T.cpp\<close>, \<^verbatim>\<open>.inl\<close>, \<^verbatim>\<open>.h\<close>): a table of
  sentinels, each the head of a circular doubly linked list of entries. The definitions of all
  operations and of the iterators.
\<close>

section \<open>State\<close>

record ('k, 'v) hm_entry =
  ext_id :: 'k
  int_id :: 'v
  he_next :: addr
  he_prev :: addr

datatype errno = ENOENT | ENOMEM

text \<open>
  What the template parameters give: the hash functor, the comparison functor and the size of an entry. The
  allocators' memory is part of the state, since every allocation changes it.
\<close>

record 'k hm_traits =
  hash_key :: "'k \<Rightarrow> 64 word"
  compare_keys :: "'k \<Rightarrow> 'k \<Rightarrow> bool"
  sizeof_entry :: nat

record ('k, 'v, 'm) hash_map =
  hm_mem :: 'm
  hm_store :: "addr \<Rightarrow> ('k, 'v) hm_entry"
  hm_table_allocator :: addr
  hm_entry_allocator :: addr
  hm_table :: addr
  hm_total_size :: nat
  hm_cur_size :: nat
  hm_errno :: "errno option"

text \<open>\<open>&table_[i]\<close> is \<open>i\<close> entries behind the start of the table.\<close>

definition sentinel :: "'k hm_traits \<Rightarrow> ('k, 'v, 'm) hash_map \<Rightarrow> nat \<Rightarrow> addr" where
  "sentinel T q i = hm_table q + i * sizeof_entry T"

definition hnxt :: "('k, 'v, 'm) hash_map \<Rightarrow> addr \<Rightarrow> addr" where
  "hnxt q a = he_next (hm_store q a)"

definition hprv :: "('k, 'v, 'm) hash_map \<Rightarrow> addr \<Rightarrow> addr" where
  "hprv q a = he_prev (hm_store q a)"

definition hkey :: "('k, 'v, 'm) hash_map \<Rightarrow> addr \<Rightarrow> 'k" where
  "hkey q a = ext_id (hm_store q a)"

definition hval :: "('k, 'v, 'm) hash_map \<Rightarrow> addr \<Rightarrow> 'v" where
  "hval q a = int_id (hm_store q a)"

definition upd_entry ::
  "addr \<Rightarrow> (('k, 'v) hm_entry \<Rightarrow> ('k, 'v) hm_entry) \<Rightarrow> ('k, 'v, 'm) hash_map \<Rightarrow> ('k, 'v, 'm) hash_map" where
  "upd_entry a f q = q\<lparr>hm_store := (hm_store q)(a := f (hm_store q a))\<rparr>"

definition set_hnext :: "addr \<Rightarrow> addr \<Rightarrow> ('k, 'v, 'm) hash_map \<Rightarrow> ('k, 'v, 'm) hash_map" where
  "set_hnext a p = upd_entry a (\<lambda>e. e\<lparr>he_next := p\<rparr>)"

definition set_hprev :: "addr \<Rightarrow> addr \<Rightarrow> ('k, 'v, 'm) hash_map \<Rightarrow> ('k, 'v, 'm) hash_map" where
  "set_hprev a p = upd_entry a (\<lambda>e. e\<lparr>he_prev := p\<rparr>)"

definition hm_malloc ::
  "'m allocator_ops \<Rightarrow> addr \<Rightarrow> 64 word \<Rightarrow> ('k, 'v, 'm) hash_map \<Rightarrow> ('k, 'v, 'm) hash_map \<times> addr" where
  "hm_malloc ops al n q = (let (m, p) = al_malloc ops (hm_mem q) al n in (q\<lparr>hm_mem := m\<rparr>, p))"

definition hm_free :: "'m allocator_ops \<Rightarrow> addr \<Rightarrow> addr \<Rightarrow> ('k, 'v, 'm) hash_map \<Rightarrow> ('k, 'v, 'm) hash_map" where
  "hm_free ops al p q = q\<lparr>hm_mem := al_free ops (hm_mem q) al p\<rparr>"

section \<open>Opening and closing\<close>

text \<open>The sentinels are constructed in place, each linked to itself.\<close>

primrec init_sentinels :: "'k hm_traits \<Rightarrow> nat list \<Rightarrow> ('k, 'v, 'm) hash_map \<Rightarrow> ('k, 'v, 'm) hash_map" where
  "init_sentinels T [] q = q"
| "init_sentinels T (i # is) q =
     init_sentinels T is (set_hprev (sentinel T q i) (sentinel T q i) (set_hnext (sentinel T q i) (sentinel T q i) q))"

definition create_buckets ::
  "'m allocator_ops \<Rightarrow> 'k hm_traits \<Rightarrow> 64 word \<Rightarrow> ('k, 'v, 'm) hash_map \<Rightarrow> ('k, 'v, 'm) hash_map \<times> int" where
  "create_buckets ops T sz q =
     (let bytes = sz * of_nat (sizeof_entry T);
          (q1, ptr) = hm_malloc ops (hm_table_allocator q) bytes q
      in if ptr = NULL then (q1\<lparr>hm_errno := Some ENOMEM\<rparr>, -1)
         else (init_sentinels T [0..<unat sz] (q1\<lparr>hm_table := ptr, hm_total_size := unat sz\<rparr>), 0))"

text \<open>The entries of one bucket are freed along the links; the link is read before the entry goes.\<close>

partial_function (option) free_bucket ::
  "'m allocator_ops \<Rightarrow> addr \<Rightarrow> addr \<Rightarrow> ('k, 'v, 'm) hash_map \<Rightarrow> ('k, 'v, 'm) hash_map option" where
  "free_bucket ops h temp_ptr q =
     (if temp_ptr \<noteq> h then free_bucket ops h (hnxt q temp_ptr) (hm_free ops (hm_entry_allocator q) temp_ptr q)
      else Some q)"

declare free_bucket.simps [code]

primrec unbind_buckets ::
  "'m allocator_ops \<Rightarrow> 'k hm_traits \<Rightarrow> nat list \<Rightarrow> ('k, 'v, 'm) hash_map \<Rightarrow> ('k, 'v, 'm) hash_map option" where
  "unbind_buckets ops T [] q = Some q"
| "unbind_buckets ops T (i # is) q =
     (let h = sentinel T q i
      in case free_bucket ops h (hnxt q h) q of
           None \<Rightarrow> None
         | Some q1 \<Rightarrow> unbind_buckets ops T is (set_hprev h h (set_hnext h h q1)))"

definition unbind_all_i ::
  "'m allocator_ops \<Rightarrow> 'k hm_traits \<Rightarrow> ('k, 'v, 'm) hash_map \<Rightarrow> (('k, 'v, 'm) hash_map \<times> int) option" where
  "unbind_all_i ops T q =
     (case unbind_buckets ops T [0..<hm_total_size q] q of
        None \<Rightarrow> None
      | Some q1 \<Rightarrow> Some (q1\<lparr>hm_cur_size := 0\<rparr>, 0))"

definition hm_close_i ::
  "'m allocator_ops \<Rightarrow> 'k hm_traits \<Rightarrow> ('k, 'v, 'm) hash_map \<Rightarrow> (('k, 'v, 'm) hash_map \<times> int) option" where
  "hm_close_i ops T q =
     (if hm_table q \<noteq> NULL
      then case unbind_all_i ops T q of
             None \<Rightarrow> None
           | Some (q1, _) \<Rightarrow>
               Some ((hm_free ops (hm_table_allocator q1) (hm_table q1) (q1\<lparr>hm_total_size := 0\<rparr>))\<lparr>hm_table := NULL\<rparr>, 0)
      else Some (q, 0))"

definition hm_open ::
  "'m allocator_ops \<Rightarrow> 'k hm_traits \<Rightarrow> 64 word \<Rightarrow> addr \<Rightarrow> addr \<Rightarrow> ('k, 'v, 'm) hash_map \<Rightarrow>
   (('k, 'v, 'm) hash_map \<times> int) option" where
  "hm_open ops T sz table_alloc entry_alloc q =
     (case hm_close_i ops T q of
        None \<Rightarrow> None
      | Some (q1, _) \<Rightarrow>
          let ta = (if table_alloc = NULL then al_instance ops else table_alloc);
              ea = (if entry_alloc = NULL then ta else entry_alloc);
              q2 = q1\<lparr>hm_table_allocator := ta, hm_entry_allocator := ea\<rparr>
          in if sz = 0 then Some (q2, -1) else Some (create_buckets ops T sz q2))"

text \<open>The constructor: an empty object, opened; a failure is only logged.\<close>

definition hm_init ::
  "'m allocator_ops \<Rightarrow> 'k hm_traits \<Rightarrow> 'm \<Rightarrow> (addr \<Rightarrow> ('k, 'v) hm_entry) \<Rightarrow> 64 word \<Rightarrow> addr \<Rightarrow> addr \<Rightarrow>
   ('k, 'v, 'm) hash_map option" where
  "hm_init ops T mem store sz table_alloc entry_alloc =
     map_option fst (hm_open ops T sz table_alloc entry_alloc
       \<lparr>hm_mem = mem, hm_store = store, hm_table_allocator = table_alloc, hm_entry_allocator = entry_alloc,
        hm_table = NULL, hm_total_size = 0, hm_cur_size = 0, hm_errno = None\<rparr>)"

section \<open>Finding\<close>

text \<open>The search loop along a bucket.\<close>

partial_function (option) find_loop ::
  "'k hm_traits \<Rightarrow> ('k, 'v, 'm) hash_map \<Rightarrow> addr \<Rightarrow> 'k \<Rightarrow> addr \<Rightarrow> addr option" where
  "find_loop T q h k temp =
     (if temp \<noteq> h \<and> \<not> compare_keys T (hkey q temp) k then find_loop T q h k (hnxt q temp) else Some temp)"

declare find_loop.simps [code]

definition hm_loc :: "'k hm_traits \<Rightarrow> ('k, 'v, 'm) hash_map \<Rightarrow> 'k \<Rightarrow> nat" where
  "hm_loc T q k = unat (hash_key T k) mod hm_total_size q"

text \<open>
  \<open>shared_find\<close> sets \<open>entry\<close> when it finds the key and \<open>loc\<close> whenever the table is not empty; the result carries the
  map (for \<open>errno\<close>), the new \<open>entry\<close> and \<open>loc\<close> and the return value.
\<close>

definition shared_find ::
  "'k hm_traits \<Rightarrow> 'k \<Rightarrow> addr \<Rightarrow> nat \<Rightarrow> ('k, 'v, 'm) hash_map \<Rightarrow> (('k, 'v, 'm) hash_map \<times> addr \<times> nat \<times> int) option" where
  "shared_find T k entry loc q =
     (if hm_total_size q = 0 then Some (q\<lparr>hm_errno := Some ENOENT\<rparr>, entry, loc, -1)
      else let loc = hm_loc T q k; h = sentinel T q loc
           in case find_loop T q h k (hnxt q h) of
                None \<Rightarrow> None
              | Some temp \<Rightarrow> if temp = h then Some (q\<lparr>hm_errno := Some ENOENT\<rparr>, entry, loc, -1)
                             else Some (q, temp, loc, 0))"

text \<open>The three overloads of \<open>find_i\<close>: with the item, with nothing, with the entry passed out.\<close>

definition hm_find_i ::
  "'k hm_traits \<Rightarrow> 'k \<Rightarrow> 'v \<Rightarrow> ('k, 'v, 'm) hash_map \<Rightarrow> (('k, 'v, 'm) hash_map \<times> 'v \<times> int) option" where
  "hm_find_i T k v q =
     (case shared_find T k NULL 0 q of
        None \<Rightarrow> None
      | Some (q1, entry, _, r) \<Rightarrow> if r = -1 then Some (q1, v, -1) else Some (q1, hval q1 entry, 0))"

definition hm_find_key_i ::
  "'k hm_traits \<Rightarrow> 'k \<Rightarrow> ('k, 'v, 'm) hash_map \<Rightarrow> (('k, 'v, 'm) hash_map \<times> int) option" where
  "hm_find_key_i T k q = (case shared_find T k NULL 0 q of None \<Rightarrow> None | Some (q1, _, _, r) \<Rightarrow> Some (q1, r))"

definition hm_find_entry_i ::
  "'k hm_traits \<Rightarrow> 'k \<Rightarrow> addr \<Rightarrow> ('k, 'v, 'm) hash_map \<Rightarrow> (('k, 'v, 'm) hash_map \<times> addr \<times> int) option" where
  "hm_find_entry_i T k entry q =
     (case shared_find T k entry 0 q of None \<Rightarrow> None | Some (q1, e, _, r) \<Rightarrow> Some (q1, e, r))"

section \<open>Binding\<close>

text \<open>
  A new entry is linked in behind the sentinel. On a map whose table could not be created \<open>table_[loc]\<close> is read through
  null: \<open>None\<close>.
\<close>

definition link_entry :: "'k hm_traits \<Rightarrow> 'k \<Rightarrow> 'v \<Rightarrow> addr \<Rightarrow> nat \<Rightarrow> ('k, 'v, 'm) hash_map \<Rightarrow> ('k, 'v, 'm) hash_map" where
  "link_entry T k v ptr loc q =
     (let h = sentinel T q loc;
          q1 = upd_entry ptr (\<lambda>_. \<lparr>ext_id = k, int_id = v, he_next = hnxt q h, he_prev = h\<rparr>) q;
          q2 = set_hnext h ptr q1;
          q3 = set_hprev (hnxt q2 ptr) ptr q2
      in q3\<lparr>hm_cur_size := Suc (hm_cur_size q3)\<rparr>)"

definition bind_i_entry ::
  "'m allocator_ops \<Rightarrow> 'k hm_traits \<Rightarrow> 'k \<Rightarrow> 'v \<Rightarrow> addr \<Rightarrow> ('k, 'v, 'm) hash_map \<Rightarrow>
   (('k, 'v, 'm) hash_map \<times> addr \<times> int) option" where
  "bind_i_entry ops T k v entry q =
     (case shared_find T k entry 0 q of
        None \<Rightarrow> None
      | Some (q1, e, loc, r) \<Rightarrow>
          if r = -1
          then let (q2, ptr) = hm_malloc ops (hm_entry_allocator q1) (of_nat (sizeof_entry T)) q1
               in if ptr = NULL then Some (q2\<lparr>hm_errno := Some ENOMEM\<rparr>, e, -1)
                  else if hm_table q2 = NULL then None
                  else Some (link_entry T k v ptr loc q2, ptr, 0)
          else Some (q1, e, 1))"

definition hm_bind_i ::
  "'m allocator_ops \<Rightarrow> 'k hm_traits \<Rightarrow> 'k \<Rightarrow> 'v \<Rightarrow> ('k, 'v, 'm) hash_map \<Rightarrow> (('k, 'v, 'm) hash_map \<times> int) option" where
  "hm_bind_i ops T k v q = (case bind_i_entry ops T k v NULL q of None \<Rightarrow> None | Some (q1, _, r) \<Rightarrow> Some (q1, r))"

text \<open>\<open>trybind_i\<close> is \<open>bind_i\<close> word for word; the overload without the entry passes the existing item out.\<close>

definition trybind_i_entry ::
  "'m allocator_ops \<Rightarrow> 'k hm_traits \<Rightarrow> 'k \<Rightarrow> 'v \<Rightarrow> addr \<Rightarrow> ('k, 'v, 'm) hash_map \<Rightarrow>
   (('k, 'v, 'm) hash_map \<times> addr \<times> int) option" where
  "trybind_i_entry ops T k v entry q =
     (case shared_find T k entry 0 q of
        None \<Rightarrow> None
      | Some (q1, e, loc, r) \<Rightarrow>
          if r = -1
          then let (q2, ptr) = hm_malloc ops (hm_entry_allocator q1) (of_nat (sizeof_entry T)) q1
               in if ptr = NULL then Some (q2\<lparr>hm_errno := Some ENOMEM\<rparr>, e, -1)
                  else if hm_table q2 = NULL then None
                  else Some (link_entry T k v ptr loc q2, ptr, 0)
          else Some (q1, e, 1))"

definition hm_trybind_i ::
  "'m allocator_ops \<Rightarrow> 'k hm_traits \<Rightarrow> 'k \<Rightarrow> 'v \<Rightarrow> ('k, 'v, 'm) hash_map \<Rightarrow>
   (('k, 'v, 'm) hash_map \<times> 'v \<times> int) option" where
  "hm_trybind_i ops T k v q =
     (case trybind_i_entry ops T k v NULL q of
        None \<Rightarrow> None
      | Some (q1, temp, r) \<Rightarrow> Some (q1, if r = 1 then hval q1 temp else v, r))"

section \<open>Rebinding\<close>

text \<open>
  The three functions that pass the entry out, each with a different set of old values. A key that is not found is
  bound by the overload of \<open>bind_i\<close> without an entry, so the caller's \<open>entry\<close> stays as it was.
\<close>

definition rebind_i_entry ::
  "'m allocator_ops \<Rightarrow> 'k hm_traits \<Rightarrow> 'k \<Rightarrow> 'v \<Rightarrow> addr \<Rightarrow> ('k, 'v, 'm) hash_map \<Rightarrow>
   (('k, 'v, 'm) hash_map \<times> addr \<times> int) option" where
  "rebind_i_entry ops T k v entry q =
     (case shared_find T k entry 0 q of
        None \<Rightarrow> None
      | Some (q1, e, _, r) \<Rightarrow>
          if r = -1 then map_option (\<lambda>(q2, r2). (q2, e, r2)) (hm_bind_i ops T k v q1)
          else Some (upd_entry e (\<lambda>x. x\<lparr>ext_id := k, int_id := v\<rparr>) q1, e, 1))"

definition rebind_i_old_entry ::
  "'m allocator_ops \<Rightarrow> 'k hm_traits \<Rightarrow> 'k \<Rightarrow> 'v \<Rightarrow> 'v \<Rightarrow> addr \<Rightarrow> ('k, 'v, 'm) hash_map \<Rightarrow>
   (('k, 'v, 'm) hash_map \<times> 'v \<times> addr \<times> int) option" where
  "rebind_i_old_entry ops T k v old_int_id entry q =
     (case shared_find T k entry 0 q of
        None \<Rightarrow> None
      | Some (q1, e, _, r) \<Rightarrow>
          if r = -1 then map_option (\<lambda>(q2, r2). (q2, old_int_id, e, r2)) (hm_bind_i ops T k v q1)
          else Some (upd_entry e (\<lambda>x. x\<lparr>ext_id := k, int_id := v\<rparr>) q1, hval q1 e, e, 1))"

definition rebind_i_olds_entry ::
  "'m allocator_ops \<Rightarrow> 'k hm_traits \<Rightarrow> 'k \<Rightarrow> 'v \<Rightarrow> 'k \<Rightarrow> 'v \<Rightarrow> addr \<Rightarrow> ('k, 'v, 'm) hash_map \<Rightarrow>
   (('k, 'v, 'm) hash_map \<times> 'k \<times> 'v \<times> addr \<times> int) option" where
  "rebind_i_olds_entry ops T k v old_ext_id old_int_id entry q =
     (case shared_find T k entry 0 q of
        None \<Rightarrow> None
      | Some (q1, e, _, r) \<Rightarrow>
          if r = -1 then map_option (\<lambda>(q2, r2). (q2, old_ext_id, old_int_id, e, r2)) (hm_bind_i ops T k v q1)
          else Some (upd_entry e (\<lambda>x. x\<lparr>ext_id := k, int_id := v\<rparr>) q1, hkey q1 e, hval q1 e, e, 1))"

definition hm_rebind_i ::
  "'m allocator_ops \<Rightarrow> 'k hm_traits \<Rightarrow> 'k \<Rightarrow> 'v \<Rightarrow> ('k, 'v, 'm) hash_map \<Rightarrow> (('k, 'v, 'm) hash_map \<times> int) option" where
  "hm_rebind_i ops T k v q = map_option (\<lambda>(q1, _, r). (q1, r)) (rebind_i_entry ops T k v NULL q)"

definition hm_rebind_old_i ::
  "'m allocator_ops \<Rightarrow> 'k hm_traits \<Rightarrow> 'k \<Rightarrow> 'v \<Rightarrow> 'v \<Rightarrow> ('k, 'v, 'm) hash_map \<Rightarrow>
   (('k, 'v, 'm) hash_map \<times> 'v \<times> int) option" where
  "hm_rebind_old_i ops T k v old_int_id q =
     map_option (\<lambda>(q1, old, _, r). (q1, old, r)) (rebind_i_old_entry ops T k v old_int_id NULL q)"

definition hm_rebind_olds_i ::
  "'m allocator_ops \<Rightarrow> 'k hm_traits \<Rightarrow> 'k \<Rightarrow> 'v \<Rightarrow> 'k \<Rightarrow> 'v \<Rightarrow> ('k, 'v, 'm) hash_map \<Rightarrow>
   (('k, 'v, 'm) hash_map \<times> 'k \<times> 'v \<times> int) option" where
  "hm_rebind_olds_i ops T k v old_ext_id old_int_id q =
     map_option (\<lambda>(q1, oldk, oldv, _, r). (q1, oldk, oldv, r)) (rebind_i_olds_entry ops T k v old_ext_id old_int_id NULL q)"

section \<open>Unbinding\<close>

definition unbind_entry_i ::
  "'m allocator_ops \<Rightarrow> addr \<Rightarrow> ('k, 'v, 'm) hash_map \<Rightarrow> ('k, 'v, 'm) hash_map \<times> int" where
  "unbind_entry_i ops entry q =
     (let q1 = set_hprev (hnxt q entry) (hprv q entry) q;
          q2 = set_hnext (hprv q1 entry) (hnxt q1 entry) q1;
          q3 = hm_free ops (hm_entry_allocator q2) entry q2
      in (q3\<lparr>hm_cur_size := hm_cur_size q3 - 1\<rparr>, 0))"

definition hm_unbind_i ::
  "'m allocator_ops \<Rightarrow> 'k hm_traits \<Rightarrow> 'k \<Rightarrow> 'v \<Rightarrow> ('k, 'v, 'm) hash_map \<Rightarrow>
   (('k, 'v, 'm) hash_map \<times> 'v \<times> int) option" where
  "hm_unbind_i ops T k v q =
     (case shared_find T k NULL 0 q of
        None \<Rightarrow> None
      | Some (q1, temp, _, r) \<Rightarrow>
          if r = -1 then Some (q1\<lparr>hm_errno := Some ENOENT\<rparr>, v, -1)
          else let (q2, r2) = unbind_entry_i ops temp q1 in Some (q2, hval q1 temp, r2))"

definition hm_unbind_key_i ::
  "'m allocator_ops \<Rightarrow> 'k hm_traits \<Rightarrow> 'k \<Rightarrow> 'v \<Rightarrow> ('k, 'v, 'm) hash_map \<Rightarrow> (('k, 'v, 'm) hash_map \<times> int) option" where
  "hm_unbind_key_i ops T k uninit q = map_option (\<lambda>(q1, _, r). (q1, r)) (hm_unbind_i ops T k uninit q)"

definition hm_unbind ::
  "'m allocator_ops \<Rightarrow> 'k hm_traits \<Rightarrow> 'k \<Rightarrow> 'v \<Rightarrow> ('k, 'v, 'm) hash_map \<Rightarrow> (('k, 'v, 'm) hash_map \<times> int) option" where
  "hm_unbind ops T k uninit q =
     map_option (\<lambda>(q1, r). (q1, if r = -1 then -1 else 0)) (hm_unbind_key_i ops T k uninit q)"

definition hm_unbind_entry ::
  "'m allocator_ops \<Rightarrow> addr \<Rightarrow> ('k, 'v, 'm) hash_map \<Rightarrow> ('k, 'v, 'm) hash_map \<times> int" where
  "hm_unbind_entry ops entry q = (let (q1, r) = unbind_entry_i ops entry q in (q1, if r = -1 then -1 else 0))"

section \<open>Iterators\<close>

record hm_iterator =
  hi_index :: int
  hi_next :: addr

definition hi_base_init :: "'k hm_traits \<Rightarrow> bool \<Rightarrow> ('k, 'v, 'm) hash_map \<Rightarrow> hm_iterator" where
  "hi_base_init T head q =
     \<lparr>hi_index = (if head then -1 else int (hm_total_size q)),
      hi_next = (if hm_table q \<noteq> NULL then sentinel T q (if head then 0 else hm_total_size q - 1) else NULL)\<rparr>"

text \<open>The inner loops look for the next bucket that is not empty; the last bucket looked at stays in \<open>next_\<close>.\<close>

function forward_scan :: "'k hm_traits \<Rightarrow> ('k, 'v, 'm) hash_map \<Rightarrow> hm_iterator \<Rightarrow> hm_iterator" where
  "forward_scan T q it =
     (let index = hi_index it + 1
      in if index < int (hm_total_size q)
         then let nx = hnxt q (sentinel T q (nat index)); it1 = \<lparr>hi_index = index, hi_next = nx\<rparr>
              in if nx \<noteq> sentinel T q (nat index) then it1 else forward_scan T q it1
         else it\<lparr>hi_index := index\<rparr>)"
  by pat_completeness auto
termination by (relation "measure (\<lambda>(T, q, it). nat (int (hm_total_size q) - hi_index it))") auto

function reverse_scan :: "'k hm_traits \<Rightarrow> ('k, 'v, 'm) hash_map \<Rightarrow> hm_iterator \<Rightarrow> hm_iterator" where
  "reverse_scan T q it =
     (let index = hi_index it - 1
      in if index \<ge> 0
         then let nx = hprv q (sentinel T q (nat index)); it1 = \<lparr>hi_index = index, hi_next = nx\<rparr>
              in if nx \<noteq> sentinel T q (nat index) then it1 else reverse_scan T q it1
         else it\<lparr>hi_index := index\<rparr>)"
  by pat_completeness auto
termination by (relation "measure (\<lambda>(T, q, it). nat (hi_index it + 1))") auto

declare forward_scan.simps [simp del] reverse_scan.simps [simp del]

text \<open>\<open>forward_i\<close> and \<open>reverse_i\<close> call themselves once, to leave the position before the first or behind the last bucket.\<close>

definition forward_step :: "'k hm_traits \<Rightarrow> ('k, 'v, 'm) hash_map \<Rightarrow> hm_iterator \<Rightarrow> hm_iterator \<times> int" where
  "forward_step T q it =
     (if hi_index it \<ge> int (hm_total_size q) then (it, 0)
      else let it1 = it\<lparr>hi_next := hnxt q (hi_next it)\<rparr>;
               it2 = (if hi_next it1 = sentinel T q (nat (hi_index it1)) then forward_scan T q it1 else it1)
           in (it2, if hi_index it2 < int (hm_total_size q) then 1 else 0))"

definition forward_i :: "'k hm_traits \<Rightarrow> ('k, 'v, 'm) hash_map \<Rightarrow> hm_iterator \<Rightarrow> hm_iterator \<times> int" where
  "forward_i T q it =
     (if hm_table q = NULL then (it, -1)
      else if hi_index it = -1 then forward_step T q (it\<lparr>hi_index := 0\<rparr>)
      else forward_step T q it)"

definition reverse_step :: "'k hm_traits \<Rightarrow> ('k, 'v, 'm) hash_map \<Rightarrow> hm_iterator \<Rightarrow> hm_iterator \<times> int" where
  "reverse_step T q it =
     (if hi_index it < 0 then (it, 0)
      else let it1 = it\<lparr>hi_next := hprv q (hi_next it)\<rparr>;
               it2 = (if hi_next it1 = sentinel T q (nat (hi_index it1)) then reverse_scan T q it1 else it1)
           in (it2, if hi_index it2 \<ge> 0 then 1 else 0))"

definition reverse_i :: "'k hm_traits \<Rightarrow> ('k, 'v, 'm) hash_map \<Rightarrow> hm_iterator \<Rightarrow> hm_iterator \<times> int" where
  "reverse_i T q it =
     (if hm_table q = NULL then (it, -1)
      else if hi_index it = int (hm_total_size q) then reverse_step T q (it\<lparr>hi_index := int (hm_total_size q) - 1\<rparr>)
      else reverse_step T q it)"

definition hi_next_entry :: "'k hm_traits \<Rightarrow> ('k, 'v, 'm) hash_map \<Rightarrow> hm_iterator \<Rightarrow> addr option" where
  "hi_next_entry T q it =
     (if hm_table q \<noteq> NULL \<and> hi_index it < int (hm_total_size q) \<and> hi_index it \<ge> 0 \<and>
         hi_next it \<noteq> sentinel T q (nat (hi_index it))
      then Some (hi_next it) else None)"

definition hi_done :: "('k, 'v, 'm) hash_map \<Rightarrow> hm_iterator \<Rightarrow> bool" where
  "hi_done q it \<longleftrightarrow> hm_table q = NULL \<or> hi_index it \<ge> int (hm_total_size q) \<or> hi_index it < 0"

text \<open>The forward and the reverse iterator; \<open>begin\<close>, \<open>end\<close>, \<open>rbegin\<close>, \<open>rend\<close> construct them.\<close>

definition hm_begin :: "'k hm_traits \<Rightarrow> ('k, 'v, 'm) hash_map \<Rightarrow> hm_iterator" where
  "hm_begin T q = fst (forward_i T q (hi_base_init T True q))"

definition hm_end :: "'k hm_traits \<Rightarrow> ('k, 'v, 'm) hash_map \<Rightarrow> hm_iterator" where
  "hm_end T q = hi_base_init T False q"

definition hm_rbegin :: "'k hm_traits \<Rightarrow> ('k, 'v, 'm) hash_map \<Rightarrow> hm_iterator" where
  "hm_rbegin T q = fst (reverse_i T q (hi_base_init T False q))"

definition hm_rend :: "'k hm_traits \<Rightarrow> ('k, 'v, 'm) hash_map \<Rightarrow> hm_iterator" where
  "hm_rend T q = hi_base_init T True q"

text \<open>\<open>find\<close> with an iterator and \<open>unbind\<close> by iterator; \<open>None\<close> is the failed assertion of \<open>operator*\<close>.\<close>

definition hm_find_pos ::
  "'k hm_traits \<Rightarrow> 'k \<Rightarrow> ('k, 'v, 'm) hash_map \<Rightarrow> (('k, 'v, 'm) hash_map \<times> hm_iterator) option" where
  "hm_find_pos T k q =
     (case shared_find T k NULL 0 q of
        None \<Rightarrow> None
      | Some (q1, entry, index, r) \<Rightarrow>
          Some (q1, if r \<noteq> -1 then \<lparr>hi_index = int index, hi_next = entry\<rparr> else hm_end T q1))"

definition hm_unbind_pos ::
  "'m allocator_ops \<Rightarrow> 'k hm_traits \<Rightarrow> hm_iterator \<Rightarrow> ('k, 'v, 'm) hash_map \<Rightarrow> (('k, 'v, 'm) hash_map \<times> int) option" where
  "hm_unbind_pos ops T pos q = map_option (\<lambda>e. hm_unbind_entry ops e q) (hi_next_entry T q pos)"

text \<open>The bucket iterator, which stays in the bucket of a key.\<close>

definition bucket_forward_i :: "'k hm_traits \<Rightarrow> ('k, 'v, 'm) hash_map \<Rightarrow> hm_iterator \<Rightarrow> hm_iterator \<times> bool" where
  "bucket_forward_i T q it =
     (let it1 = it\<lparr>hi_next := hnxt q (hi_next it)\<rparr> in (it1, hi_next it1 \<noteq> sentinel T q (nat (hi_index it1))))"

definition bucket_reverse_i :: "'k hm_traits \<Rightarrow> ('k, 'v, 'm) hash_map \<Rightarrow> hm_iterator \<Rightarrow> hm_iterator \<times> bool" where
  "bucket_reverse_i T q it =
     (let it1 = it\<lparr>hi_next := hprv q (hi_next it)\<rparr> in (it1, hi_next it1 \<noteq> sentinel T q (nat (hi_index it1))))"

definition bucket_init :: "'k hm_traits \<Rightarrow> 'k \<Rightarrow> int \<Rightarrow> ('k, 'v, 'm) hash_map \<Rightarrow> hm_iterator" where
  "bucket_init T k tail q =
     (let it = \<lparr>hi_index = int (hm_loc T q k), hi_next = sentinel T q (hm_loc T q k)\<rparr>
      in if tail = 0 then fst (bucket_forward_i T q it) else it)"

end
