(* ===== verification/ACE_Hash_Map_Inv.thy ===== *)
theory ACE_Hash_Map_Inv
  imports ACE_Hash_Map
begin

text \<open>
  The invariant of the hash map, the abstract map it stands for, and what finding, binding,
  rebinding and unbinding do to both. The lemmas are proved once for every allocator that keeps its contract and every
  hash functor that respects the comparison.
\<close>

section \<open>The abstract map\<close>

text \<open>The nodes of a ring, by walking the links.\<close>

primrec ring_walk :: "(addr \<Rightarrow> addr) \<Rightarrow> addr \<Rightarrow> nat \<Rightarrow> addr \<Rightarrow> addr list" where
  "ring_walk nxt h 0 p = []"
| "ring_walk nxt h (Suc fuel) p = (if p = h then [] else p # ring_walk nxt h fuel (nxt p))"

definition bucket_nodes :: "'k hm_traits \<Rightarrow> ('k, 'v, 'm) hash_map \<Rightarrow> nat \<Rightarrow> addr list" where
  "bucket_nodes T q i = ring_walk (hnxt q) (sentinel T q i) (hm_cur_size q) (hnxt q (sentinel T q i))"

definition hm_all :: "'k hm_traits \<Rightarrow> ('k, 'v, 'm) hash_map \<Rightarrow> addr list" where
  "hm_all T q = concat (map (bucket_nodes T q) [0..<hm_total_size q])"

text \<open>The map the table stands for: a search through all entries, whatever their bucket.\<close>

definition hm_map :: "'k hm_traits \<Rightarrow> ('k, 'v, 'm) hash_map \<Rightarrow> 'k \<rightharpoonup> 'v" where
  "hm_map T q k = map_option (hval q) (find (\<lambda>a. compare_keys T (hkey q a) k) (hm_all T q))"

text \<open>Update and removal up to the comparison of keys.\<close>

definition map_bind :: "'k hm_traits \<Rightarrow> ('k \<rightharpoonup> 'v) \<Rightarrow> 'k \<Rightarrow> 'v \<Rightarrow> 'k \<rightharpoonup> 'v" where
  "map_bind T m k v = (\<lambda>x. if compare_keys T k x then Some v else m x)"

definition map_unbind :: "'k hm_traits \<Rightarrow> ('k \<rightharpoonup> 'v) \<Rightarrow> 'k \<Rightarrow> 'k \<rightharpoonup> 'v" where
  "map_unbind T m k = (\<lambda>x. if compare_keys T k x then None else m x)"

section \<open>The invariant\<close>

text \<open>What the map relies on in its functors: the comparison is an equivalence and equal keys have equal hashes.\<close>

definition traits_ok :: "'k hm_traits \<Rightarrow> bool" where
  "traits_ok T \<longleftrightarrow> equivp (compare_keys T) \<and> (\<forall>a b. compare_keys T a b \<longrightarrow> hash_key T a = hash_key T b) \<and>
     0 < sizeof_entry T \<and> sizeof_entry T < 2 ^ 63"

definition hm_at ::
  "('m \<Rightarrow> blocks \<Rightarrow> bool) \<Rightarrow> 'k hm_traits \<Rightarrow> ('k, 'v, 'm) hash_map \<Rightarrow> (nat \<Rightarrow> addr list) \<Rightarrow> blocks \<Rightarrow> bool" where
  "hm_at minv T q X B \<longleftrightarrow>
     hm_table q \<noteq> NULL \<and> 0 < hm_total_size q \<and> minv (hm_mem q) B \<and>
     B (hm_table q) = Some (hm_table_allocator q, hm_total_size q * sizeof_entry T) \<and>
     (\<forall>i < hm_total_size q. ring (hnxt q) (hprv q) (sentinel T q i) (X i)) \<and>
     (\<forall>i < hm_total_size q. \<forall>a \<in> set (X i). a \<noteq> hm_table q \<and>
        B a = Some (hm_entry_allocator q, sizeof_entry T) \<and> hm_loc T q (hkey q a) = i) \<and>
     (\<forall>i < hm_total_size q. \<forall>a \<in> set (X i). \<forall>b \<in> set (X i).
        compare_keys T (hkey q a) (hkey q b) \<longrightarrow> a = b) \<and>
     hm_cur_size q = (\<Sum>i < hm_total_size q. length (X i))"

definition hm_inv ::
  "('m \<Rightarrow> blocks \<Rightarrow> bool) \<Rightarrow> 'k hm_traits \<Rightarrow> ('k, 'v, 'm) hash_map \<Rightarrow> blocks \<Rightarrow> bool" where
  "hm_inv minv T q B \<longleftrightarrow> hm_at minv T q (bucket_nodes T q) B"

definition hm_closed :: "('k, 'v, 'm) hash_map \<Rightarrow> bool" where
  "hm_closed q \<longleftrightarrow> hm_table q = NULL \<and> hm_total_size q = 0 \<and> hm_cur_size q = 0"

section \<open>Reading after writing\<close>

lemma hm_entry_simps [simp]:
  "hnxt (upd_entry a f q) = (hnxt q)(a := he_next (f (hm_store q a)))"
  "hprv (upd_entry a f q) = (hprv q)(a := he_prev (f (hm_store q a)))"
  "hkey (upd_entry a f q) = (hkey q)(a := ext_id (f (hm_store q a)))"
  "hval (upd_entry a f q) = (hval q)(a := int_id (f (hm_store q a)))"
  by (auto simp: fun_eq_iff hnxt_def hprv_def hkey_def hval_def upd_entry_def)

lemma hm_link_simps [simp]:
  "hnxt (set_hnext a p q) = (hnxt q)(a := p)" "hprv (set_hnext a p q) = hprv q"
  "hnxt (set_hprev a p q) = hnxt q" "hprv (set_hprev a p q) = (hprv q)(a := p)"
  "hkey (set_hnext a p q) = hkey q" "hval (set_hnext a p q) = hval q"
  "hkey (set_hprev a p q) = hkey q" "hval (set_hprev a p q) = hval q"
  unfolding set_hnext_def set_hprev_def hm_entry_simps
  by (auto simp: fun_eq_iff hnxt_def hprv_def hkey_def hval_def)

lemma hm_upd_fields [simp]:
  "hm_mem (upd_entry a f q) = hm_mem q" "hm_table (upd_entry a f q) = hm_table q"
  "hm_total_size (upd_entry a f q) = hm_total_size q" "hm_cur_size (upd_entry a f q) = hm_cur_size q"
  "hm_table_allocator (upd_entry a f q) = hm_table_allocator q"
  "hm_entry_allocator (upd_entry a f q) = hm_entry_allocator q"
  "sentinel T (upd_entry a f q) = sentinel T q" "hm_loc T (upd_entry a f q) = hm_loc T q"
  by (simp_all add: upd_entry_def sentinel_def hm_loc_def fun_eq_iff)

lemma hm_set_fields [simp]:
  "hm_mem (set_hnext a p q) = hm_mem q" "hm_table (set_hnext a p q) = hm_table q"
  "hm_total_size (set_hnext a p q) = hm_total_size q" "hm_cur_size (set_hnext a p q) = hm_cur_size q"
  "hm_table_allocator (set_hnext a p q) = hm_table_allocator q"
  "hm_entry_allocator (set_hnext a p q) = hm_entry_allocator q"
  "sentinel T (set_hnext a p q) = sentinel T q" "hm_loc T (set_hnext a p q) = hm_loc T q"
  "hm_mem (set_hprev a p q) = hm_mem q" "hm_table (set_hprev a p q) = hm_table q"
  "hm_total_size (set_hprev a p q) = hm_total_size q" "hm_cur_size (set_hprev a p q) = hm_cur_size q"
  "hm_table_allocator (set_hprev a p q) = hm_table_allocator q"
  "hm_entry_allocator (set_hprev a p q) = hm_entry_allocator q"
  "sentinel T (set_hprev a p q) = sentinel T q" "hm_loc T (set_hprev a p q) = hm_loc T q"
  by (simp_all add: set_hnext_def set_hprev_def)

lemma hm_field_reads [simp]:
  "hnxt (hm_mem_update f q) = hnxt q" "hnxt (hm_errno_update g q) = hnxt q" "hnxt (hm_cur_size_update h q) = hnxt q"
  "hprv (hm_mem_update f q) = hprv q" "hprv (hm_errno_update g q) = hprv q" "hprv (hm_cur_size_update h q) = hprv q"
  "hkey (hm_mem_update f q) = hkey q" "hkey (hm_errno_update g q) = hkey q" "hkey (hm_cur_size_update h q) = hkey q"
  "hval (hm_mem_update f q) = hval q" "hval (hm_errno_update g q) = hval q" "hval (hm_cur_size_update h q) = hval q"
  "sentinel T (hm_mem_update f q) = sentinel T q" "sentinel T (hm_errno_update g q) = sentinel T q"
  "sentinel T (hm_cur_size_update h q) = sentinel T q" "hm_loc T (hm_mem_update f q) = hm_loc T q"
  "hm_loc T (hm_errno_update g q) = hm_loc T q" "hm_loc T (hm_cur_size_update h q) = hm_loc T q"
  by (simp_all add: fun_eq_iff hnxt_def hprv_def hkey_def hval_def sentinel_def hm_loc_def)

lemma hm_free_fields [simp]:
  "hnxt (hm_free ops al p q) = hnxt q" "hprv (hm_free ops al p q) = hprv q"
  "hkey (hm_free ops al p q) = hkey q" "hval (hm_free ops al p q) = hval q"
  "hm_mem (hm_free ops al p q) = al_free ops (hm_mem q) al p" "hm_table (hm_free ops al p q) = hm_table q"
  "hm_total_size (hm_free ops al p q) = hm_total_size q" "hm_cur_size (hm_free ops al p q) = hm_cur_size q"
  "hm_table_allocator (hm_free ops al p q) = hm_table_allocator q"
  "hm_entry_allocator (hm_free ops al p q) = hm_entry_allocator q"
  "sentinel T (hm_free ops al p q) = sentinel T q" "hm_loc T (hm_free ops al p q) = hm_loc T q"
  by (simp_all add: hm_free_def)

lemma hm_errno_same [simp]:
  "hm_at minv T (hm_errno_update g q) X B \<longleftrightarrow> hm_at minv T q X B"
  "bucket_nodes T (hm_errno_update g q) = bucket_nodes T q" "hm_all T (hm_errno_update g q) = hm_all T q"
  "hm_map T (hm_errno_update g q) = hm_map T q"
  by (simp_all add: hm_at_def bucket_nodes_def [abs_def] hm_all_def hm_map_def [abs_def])

lemma hm_inv_errno [simp]: "hm_inv minv T (hm_errno_update g q) B \<longleftrightarrow> hm_inv minv T q B"
  by (simp add: hm_inv_def)

section \<open>Walking a bucket\<close>

lemma ring_walk_seg:
  "seg nxt prv p xs h \<Longrightarrow> h \<notin> set xs \<Longrightarrow> length xs \<le> fuel \<Longrightarrow> ring_walk nxt h fuel (nxt p) = xs"
proof (induction xs arbitrary: p fuel)
  case Nil
  then show ?case by (cases fuel) auto
next
  case (Cons x xs)
  then show ?case by (cases fuel) auto
qed

lemma find_loop_seg:
  "seg (hnxt q) (hprv q) p xs h \<Longrightarrow> h \<notin> set xs \<Longrightarrow>
   find_loop T q h k (hnxt q p) = Some (case find (\<lambda>a. compare_keys T (hkey q a) k) xs of None \<Rightarrow> h | Some a \<Rightarrow> a)"
proof (induction xs arbitrary: p)
  case Nil
  then show ?case by (subst find_loop.simps) simp
next
  case (Cons x xs)
  then show ?case by (subst find_loop.simps) auto
qed

lemma find_concat_only:
  "i \<in> set is \<Longrightarrow> (\<And>j a. j \<in> set is \<Longrightarrow> j \<noteq> i \<Longrightarrow> a \<in> set (X j) \<Longrightarrow> \<not> P a) \<Longrightarrow>
   find P (concat (map X is)) = find P (X i)"
proof (induction "is")
  case (Cons j "is")
  have app: "find P (xs @ ys) = (case find P xs of None \<Rightarrow> find P ys | Some a \<Rightarrow> Some a)" for xs ys
    by (induction xs) auto
  show ?case
  proof (cases "j = i")
    case True
    show ?thesis
    proof (cases "i \<in> set is")
      case True
      then have "find P (concat (map X is)) = find P (X i)" using Cons.prems(2) by (intro Cons.IH) auto
      then show ?thesis using \<open>j = i\<close> by (simp add: app split: option.split)
    next
      case False
      then have "find P (concat (map X is)) = None" using Cons.prems(2) by (fastforce simp: find_None_iff)
      then show ?thesis using \<open>j = i\<close> by (simp add: app split: option.split)
    qed
  next
    case False
    then have "find P (X j) = None" using Cons.prems(2) [of j] by (auto simp: find_None_iff)
    moreover have "find P (concat (map X is)) = find P (X i)" using Cons.prems False by (intro Cons.IH) auto
    ultimately show ?thesis by (simp add: app)
  qed
qed simp

section \<open>Reading the map\<close>

lemma hm_atD:
  assumes "hm_at minv T q X B"
  shows "hm_table q \<noteq> NULL" "0 < hm_total_size q" "minv (hm_mem q) B"
    "B (hm_table q) = Some (hm_table_allocator q, hm_total_size q * sizeof_entry T)"
    "i < hm_total_size q \<Longrightarrow> ring (hnxt q) (hprv q) (sentinel T q i) (X i)"
    "i < hm_total_size q \<Longrightarrow> a \<in> set (X i) \<Longrightarrow> a \<noteq> hm_table q"
    "i < hm_total_size q \<Longrightarrow> a \<in> set (X i) \<Longrightarrow> B a = Some (hm_entry_allocator q, sizeof_entry T)"
    "i < hm_total_size q \<Longrightarrow> a \<in> set (X i) \<Longrightarrow> hm_loc T q (hkey q a) = i"
    "i < hm_total_size q \<Longrightarrow> a \<in> set (X i) \<Longrightarrow> b \<in> set (X i) \<Longrightarrow> compare_keys T (hkey q a) (hkey q b) \<Longrightarrow> a = b"
    "hm_cur_size q = (\<Sum>i < hm_total_size q. length (X i))"
  using assms unfolding hm_at_def by blast+

lemma hm_at_lengths:
  assumes "hm_at minv T q X B" "i < hm_total_size q"
  shows "length (X i) \<le> hm_cur_size q"
  unfolding hm_atD(10) [OF assms(1)] using assms(2) by (intro member_le_sum) auto

lemma bucket_nodes_at:
  assumes "hm_at minv T q X B" "i < hm_total_size q"
  shows "bucket_nodes T q i = X i"
  unfolding bucket_nodes_def using hm_atD(5) [OF assms] hm_at_lengths [OF assms]
  by (intro ring_walk_seg) (auto simp: ring_def)

lemma hm_all_at:
  assumes "hm_at minv T q X B"
  shows "hm_all T q = concat (map X [0..<hm_total_size q])"
  unfolding hm_all_def using bucket_nodes_at [OF assms]
  by (intro arg_cong [of _ _ concat] map_cong) auto

lemma hm_entries_at: "hm_at minv T q X B \<Longrightarrow> set (hm_all T q) = (\<Union>i < hm_total_size q. set (X i))"
  by (auto simp: hm_all_at)

lemma map_eqI: "(\<And>x v. m x = Some v \<longleftrightarrow> m' x = Some v) \<Longrightarrow> m = m'"
  by (rule ext) (metis not_Some_eq)

lemma hm_invI: "hm_at minv T q X B \<Longrightarrow> hm_inv minv T q B"
  using bucket_nodes_at [of minv T q X B] unfolding hm_inv_def hm_at_def by simp

lemma hm_at_loc: "hm_at minv T q X B \<Longrightarrow> hm_loc T q k < hm_total_size q"
  by (drule hm_atD(2)) (simp add: hm_loc_def)

lemma sum_length_upd:
  assumes "i < (n :: nat)"
  shows "(\<Sum>j < n. length ((X(i := ys)) j)) + length (X i) = (\<Sum>j < n. length (X j)) + length ys"
proof -
  have "(\<Sum>j < n. length ((X(i := ys)) j)) = length ys + (\<Sum>j \<in> {..<n} - {i}. length (X j))"
    using assms by (subst sum.remove [of _ i]) (auto intro: sum.cong)
  moreover have "(\<Sum>j < n. length (X j)) = length (X i) + (\<Sum>j \<in> {..<n} - {i}. length (X j))"
    using assms by (subst sum.remove [of _ i]) auto
  ultimately show ?thesis by simp
qed

text \<open>An operation on one bucket leaves the others as they are.\<close>

lemma hm_at_bucket:
  assumes A: "hm_at minv T q X B" and i: "i < hm_total_size q"
    and same: "hm_table q' = hm_table q" "hm_total_size q' = hm_total_size q"
      "hm_table_allocator q' = hm_table_allocator q" "hm_entry_allocator q' = hm_entry_allocator q"
    and mem: "minv (hm_mem q') B'" "B' (hm_table q) = B (hm_table q)"
    and other: "\<And>j a. j < hm_total_size q \<Longrightarrow> j \<noteq> i \<Longrightarrow> a \<in> insert (sentinel T q j) (set (X j)) \<Longrightarrow>
        hnxt q' a = hnxt q a \<and> hprv q' a = hprv q a"
      "\<And>j a. j < hm_total_size q \<Longrightarrow> j \<noteq> i \<Longrightarrow> a \<in> set (X j) \<Longrightarrow> hkey q' a = hkey q a \<and> B' a = B a"
    and ring: "ring (hnxt q') (hprv q') (sentinel T q i) ys"
    and ents: "\<And>a. a \<in> set ys \<Longrightarrow>
      a \<noteq> hm_table q \<and> B' a = Some (hm_entry_allocator q, sizeof_entry T) \<and> hm_loc T q (hkey q' a) = i"
    and keys: "\<And>a b. a \<in> set ys \<Longrightarrow> b \<in> set ys \<Longrightarrow> compare_keys T (hkey q' a) (hkey q' b) \<Longrightarrow> a = b"
    and sz: "hm_cur_size q' + length (X i) = hm_cur_size q + length ys"
  shows "hm_at minv T q' (X(i := ys)) B'"
proof -
  have loc: "hm_loc T q' = hm_loc T q" "sentinel T q' = sentinel T q"
    using same by (simp_all add: fun_eq_iff hm_loc_def sentinel_def)
  have R: "ring (hnxt q') (hprv q') (sentinel T q j) ((X(i := ys)) j)" if "j < hm_total_size q" for j
  proof (cases "j = i")
    case False
    then have "ring (hnxt q') (hprv q') (sentinel T q j) (X j) \<longleftrightarrow> ring (hnxt q) (hprv q) (sentinel T q j) (X j)"
      using other(1) [OF that False] by (intro ring_cong) auto
    then show ?thesis using False hm_atD(5) [OF A that] by simp
  qed (use ring in simp)
  have E: "a \<noteq> hm_table q \<and> B' a = Some (hm_entry_allocator q, sizeof_entry T) \<and> hm_loc T q (hkey q' a) = j"
    if "j < hm_total_size q" "a \<in> set ((X(i := ys)) j)" for j a
    using that ents [of a] other(2) [of j a] hm_atD(6-8) [OF A that(1), of a] by (auto split: if_splits)
  have K: "a = b" if "j < hm_total_size q" "a \<in> set ((X(i := ys)) j)" "b \<in> set ((X(i := ys)) j)"
      "compare_keys T (hkey q' a) (hkey q' b)" for j a b
  proof (cases "j = i")
    case True
    then show ?thesis using that keys [of a b] by simp
  next
    case False
    then show ?thesis using that other(2) [OF that(1) False] hm_atD(9) [OF A that(1), of a b] by simp
  qed
  have "hm_cur_size q' = (\<Sum>j < hm_total_size q. length ((X(i := ys)) j))"
    using sum_length_upd [OF i, of X ys] sz hm_atD(10) [OF A] by linarith
  moreover have "B' (hm_table q) = Some (hm_table_allocator q, hm_total_size q * sizeof_entry T)"
    using mem(2) hm_atD(4) [OF A] by simp
  ultimately show ?thesis
    unfolding hm_at_def loc same using hm_atD(1,2) [OF A] mem(1) R E K by (intro conjI allI impI ballI) blast+
qed

locale hash_table = allocator ops minv for ops :: "'m allocator_ops" and minv +
  fixes T :: "'k hm_traits"
  assumes traits: "traits_ok T"
begin

lemma compare_equiv: "compare_keys T a a" "compare_keys T a b \<Longrightarrow> compare_keys T b a"
  "compare_keys T a b \<Longrightarrow> compare_keys T b c \<Longrightarrow> compare_keys T a c"
  using traits unfolding traits_ok_def by (blast intro: equivp_reflp equivp_symp equivp_transp)+

lemma compare_iff: "compare_keys T a b \<Longrightarrow> compare_keys T a c \<longleftrightarrow> compare_keys T b c"
  using compare_equiv by blast

lemma compare_loc: "compare_keys T a b \<Longrightarrow> hm_loc T q a = hm_loc T q b"
  using traits by (simp add: traits_ok_def hm_loc_def)

lemma size_pos: "0 < sizeof_entry T" "unat (of_nat (sizeof_entry T) :: 64 word) = sizeof_entry T" "sizeof_entry T < 2 ^ 63"
  using traits by (simp_all add: traits_ok_def unat_of_nat)

lemma sentinel_inj [simp]: "sentinel T q i = sentinel T q j \<longleftrightarrow> i = j"
  using size_pos(1) by (simp add: sentinel_def)

lemma sentinel_not_entry:
  assumes "hm_at minv T q X B" "i < hm_total_size q" "j < hm_total_size q"
  shows "sentinel T q i \<notin> set (X j)"
proof
  assume a: "sentinel T q i \<in> set (X j)"
  show False
    using array_elem [OF hm_atD(3,4) [OF assms(1)] assms(2) hm_atD(7) [OF assms(1,3) a] hm_atD(6) [OF assms(1,3) a]]
    by (simp add: sentinel_def)
qed

lemma buckets_disjoint:
  assumes "hm_at minv T q X B" "i < hm_total_size q" "j < hm_total_size q" "i \<noteq> j"
  shows "set (X i) \<inter> set (X j) = {}"
  using hm_atD(8) [OF assms(1)] assms(2-4) by blast

lemma hm_map_at:
  assumes "hm_at minv T q X B"
  shows "hm_map T q k = map_option (hval q) (find (\<lambda>a. compare_keys T (hkey q a) k) (X (hm_loc T q k)))"
proof -
  have "find (\<lambda>a. compare_keys T (hkey q a) k) (concat (map X [0..<hm_total_size q])) =
      find (\<lambda>a. compare_keys T (hkey q a) k) (X (hm_loc T q k))"
  proof (rule find_concat_only)
    show "hm_loc T q k \<in> set [0..<hm_total_size q]" using hm_at_loc [OF assms] by simp
    show "\<not> compare_keys T (hkey q a) k" if "j \<in> set [0..<hm_total_size q]" "j \<noteq> hm_loc T q k" "a \<in> set (X j)" for j a
      using hm_atD(8) [OF assms, of j a] compare_loc [of "hkey q a" k q] that by auto
  qed
  then show ?thesis by (simp add: hm_map_def hm_all_at [OF assms])
qed

lemma hm_map_Some:
  assumes "hm_at minv T q X B"
  shows "hm_map T q k = Some v \<longleftrightarrow> (\<exists>a \<in> set (hm_all T q). compare_keys T (hkey q a) k \<and> hval q a = v)"
proof
  assume "hm_map T q k = Some v"
  then show "\<exists>a \<in> set (hm_all T q). compare_keys T (hkey q a) k \<and> hval q a = v"
    by (force simp: hm_map_def find_Some_iff)
next
  assume "\<exists>a \<in> set (hm_all T q). compare_keys T (hkey q a) k \<and> hval q a = v"
  then obtain i a where a: "i < hm_total_size q" "a \<in> set (X i)" "compare_keys T (hkey q a) k" "hval q a = v"
    unfolding hm_entries_at [OF assms] by blast
  then have i: "i = hm_loc T q k" using hm_atD(8) [OF assms a(1,2)] compare_loc [OF a(3), of q] by simp
  have "find (\<lambda>a. compare_keys T (hkey q a) k) (X i) \<noteq> None" using a(2,3) by (auto simp: find_None_iff)
  then obtain b where b: "find (\<lambda>a. compare_keys T (hkey q a) k) (X i) = Some b" by blast
  then have "b \<in> set (X i)" "compare_keys T (hkey q b) k" by (auto simp: find_Some_iff)
  then have "b = a" using hm_atD(9) [OF assms a(1,2)] a(3) compare_equiv by blast
  then show "hm_map T q k = Some v" using b a(4) i by (simp add: hm_map_at [OF assms])
qed

lemma hm_entry_unique:
  assumes "hm_at minv T q X B" "a \<in> set (hm_all T q)" "b \<in> set (hm_all T q)" "compare_keys T (hkey q a) (hkey q b)"
  shows "a = b"
proof -
  obtain i where i: "i < hm_total_size q" "a \<in> set (X i)" using assms(2) unfolding hm_entries_at [OF assms(1)] by blast
  obtain j where j: "j < hm_total_size q" "b \<in> set (X j)" using assms(3) unfolding hm_entries_at [OF assms(1)] by blast
  have "i = j" using compare_loc [OF assms(4), of q] hm_atD(8) [OF assms(1)] i j by simp
  then show ?thesis using hm_atD(9) [OF assms(1) i] j assms(4) by blast
qed

lemma hm_map_compare: "compare_keys T k x \<Longrightarrow> hm_map T q k = hm_map T q x"
  using compare_equiv unfolding hm_map_def by (metis (mono_tags, lifting) find_cong)

lemma shared_find_at:
  assumes "hm_at minv T q X B"
  shows "shared_find T k e l q =
    (case find (\<lambda>a. compare_keys T (hkey q a) k) (X (hm_loc T q k)) of
       None \<Rightarrow> Some (q\<lparr>hm_errno := Some ENOENT\<rparr>, e, hm_loc T q k, -1)
     | Some a \<Rightarrow> Some (q, a, hm_loc T q k, 0))"
proof -
  let ?i = "hm_loc T q k"
  have i: "?i < hm_total_size q" by (rule hm_at_loc [OF assms])
  have r: "seg (hnxt q) (hprv q) (sentinel T q ?i) (X ?i) (sentinel T q ?i)" "sentinel T q ?i \<notin> set (X ?i)"
    using hm_atD(5) [OF assms i] by (auto simp: ring_def)
  show ?thesis
  proof (cases "find (\<lambda>a. compare_keys T (hkey q a) k) (X ?i)")
    case None
    then show ?thesis using hm_atD(2) [OF assms] find_loop_seg [OF r, of T k] by (simp add: shared_find_def Let_def)
  next
    case (Some a)
    then have "a \<noteq> sentinel T q ?i" using r(2) nth_mem by (fastforce simp: find_Some_iff)
    then show ?thesis
      using Some hm_atD(2) [OF assms] find_loop_seg [OF r, of T k] by (simp add: shared_find_def Let_def)
  qed
qed

text \<open>The entry of a key: the one entry in its bucket with an equal key, if the key is bound.\<close>

lemma find_entry_cases:
  assumes "hm_at minv T q X B"
  obtains (unbound) "hm_map T q k = None" "\<And>a. a \<in> set (X (hm_loc T q k)) \<Longrightarrow> \<not> compare_keys T (hkey q a) k"
      "find (\<lambda>a. compare_keys T (hkey q a) k) (X (hm_loc T q k)) = None"
    | (bound) a where "hm_map T q k = Some (hval q a)" "a \<in> set (X (hm_loc T q k))" "compare_keys T (hkey q a) k"
      "find (\<lambda>a. compare_keys T (hkey q a) k) (X (hm_loc T q k)) = Some a"
proof (cases "find (\<lambda>a. compare_keys T (hkey q a) k) (X (hm_loc T q k))")
  case None
  then show ?thesis using hm_map_at [OF assms, of k] by (intro unbound) (auto simp: find_None_iff)
next
  case (Some a)
  then have "a \<in> set (X (hm_loc T q k))" "compare_keys T (hkey q a) k" by (auto simp: find_Some_iff)
  then show ?thesis using Some hm_map_at [OF assms, of k] by (intro bound) auto
qed

text \<open>Binding a key that is not bound.\<close>

lemma link_entry_at:
  assumes A: "hm_at minv T q X B" and u: "hm_map T q k = None"
    and B: "B ptr = None" and m: "minv m (B(ptr \<mapsto> (hm_entry_allocator q, sizeof_entry T)))"
  defines "i \<equiv> hm_loc T q k"
  shows "hm_at minv T (link_entry T k v ptr i (q\<lparr>hm_mem := m\<rparr>)) (X(i := ptr # X i))
      (B(ptr \<mapsto> (hm_entry_allocator q, sizeof_entry T)))" (is "hm_at _ _ ?q _ ?B")
    and "hm_map T (link_entry T k v ptr i (q\<lparr>hm_mem := m\<rparr>)) = map_bind T (hm_map T q) k v"
proof -
  let ?h = "sentinel T q i"
  have i: "i < hm_total_size q" and k: "hm_loc T q k = i" unfolding i_def by (rule hm_at_loc [OF A]) simp
  have t: "ptr \<noteq> hm_table q" using B hm_atD(4) [OF A] by auto
  have s: "sentinel T q j \<noteq> ptr" if "j < hm_total_size q" for j
    using array_elem [OF m, of "hm_table q" "hm_table_allocator q" "hm_total_size q" "sizeof_entry T" j ptr]
      hm_atD(4) [OF A] t that by (simp add: sentinel_def)
  have n: "ptr \<notin> set (X j)" if "j < hm_total_size q" for j using hm_atD(7) [OF A that] B by force
  have r: "ring (hnxt q) (hprv q) ?h (X i)" by (rule hm_atD(5) [OF A i])
  have h: "hnxt q ?h = hd (X i @ [?h])" by (rule ring_first [OF r])
  have f: "hnxt ?q = (hnxt q)(ptr := hnxt q ?h, ?h := ptr)" "hprv ?q = (hprv q)(ptr := ?h, hnxt q ?h := ptr)"
    "hkey ?q = (hkey q)(ptr := k)" "hval ?q = (hval q)(ptr := v)" "hm_cur_size ?q = Suc (hm_cur_size q)"
    "hm_table ?q = hm_table q" "hm_total_size ?q = hm_total_size q" "hm_table_allocator ?q = hm_table_allocator q"
    "hm_entry_allocator ?q = hm_entry_allocator q" "hm_mem ?q = m" "hm_loc T ?q = hm_loc T q"
    using s [OF i] by (auto simp: link_entry_def Let_def)
  have "ring (hnxt ?q) (hprv ?q) ?h ([] @ ptr # X i)"
    unfolding f using r n [OF i] s [OF i] h by (intro ring_insert) auto
  then have r': "ring (hnxt ?q) (hprv ?q) ?h (ptr # X i)" by simp
  have hin: "hnxt q ?h \<in> insert ?h (set (X i))" using hd_in_set_snoc [of "X i" ?h] h by simp
  note x = find_entry_cases [OF A, of k]
  have new: "\<not> compare_keys T (hkey q a) k" if "a \<in> set (X i)" for a
    using x [of ?thesis] u that by (auto simp: i_def)
  show at: "hm_at minv T ?q (X(i := ptr # X i)) ?B"
  proof (rule hm_at_bucket [OF A i])
    show "hnxt ?q a = hnxt q a \<and> hprv ?q a = hprv q a"
      if "j < hm_total_size q" "j \<noteq> i" "a \<in> insert (sentinel T q j) (set (X j))" for j a
    proof -
      have "a \<noteq> ptr" using s [OF that(1)] n [OF that(1)] that(3) by auto
      moreover have "a \<noteq> ?h" using that sentinel_not_entry [OF A i that(1)] by auto
      moreover have "a \<noteq> hnxt q ?h"
        using that hin sentinel_not_entry [OF A that(1) i] sentinel_not_entry [OF A i that(1)]
          buckets_disjoint [OF A that(1) i that(2)] by auto
      ultimately show ?thesis by (simp add: f)
    qed
    show "a \<noteq> hm_table q \<and> ?B a = Some (hm_entry_allocator q, sizeof_entry T) \<and> hm_loc T q (hkey ?q a) = i"
      if "a \<in> set (ptr # X i)" for a
      using that t n [OF i] hm_atD(6-8) [OF A i, of a] by (auto simp: f k)
    show "a = b" if "a \<in> set (ptr # X i)" "b \<in> set (ptr # X i)" "compare_keys T (hkey ?q a) (hkey ?q b)" for a b
      using that new compare_equiv(2) n [OF i] hm_atD(9) [OF A i, of a b] by (auto simp: f split: if_splits)
  qed (use f m t n hm_atD(4) [OF A] r' in auto)
  have S: "set (hm_all T ?q) = insert ptr (set (hm_all T q))"
    unfolding hm_entries_at [OF at] hm_entries_at [OF A] f using i by (auto split: if_splits)
  have N: "ptr \<notin> set (hm_all T q)" unfolding hm_entries_at [OF A] using n by auto
  have "hm_map T ?q x = Some w \<longleftrightarrow> (compare_keys T k x \<and> v = w) \<or> hm_map T q x = Some w" for x w
    unfolding hm_map_Some [OF at] hm_map_Some [OF A] S f using N by auto
  then have "hm_map T ?q x = Some w \<longleftrightarrow> map_bind T (hm_map T q) k v x = Some w" for x w
    using u hm_map_compare [of k x q] by (auto simp: map_bind_def)
  then show "hm_map T ?q = map_bind T (hm_map T q) k v" by (intro map_eqI)
qed

text \<open>Rebinding a key that is bound.\<close>

lemma rebind_entry_at:
  assumes A: "hm_at minv T q X B" and a: "a \<in> set (X (hm_loc T q k))" "compare_keys T (hkey q a) k"
  shows "hm_at minv T (upd_entry a (\<lambda>x. x\<lparr>ext_id := k, int_id := v\<rparr>) q) X B" (is "hm_at _ _ ?q _ _")
    and "hm_map T (upd_entry a (\<lambda>x. x\<lparr>ext_id := k, int_id := v\<rparr>) q) = map_bind T (hm_map T q) k v"
proof -
  let ?i = "hm_loc T q k"
  have i: "?i < hm_total_size q" by (rule hm_at_loc [OF A])
  have f: "hnxt ?q = hnxt q" "hprv ?q = hprv q" "hkey ?q = (hkey q)(a := k)" "hval ?q = (hval q)(a := v)"
    by (auto simp: hnxt_def hprv_def fun_eq_iff)
  have key: "compare_keys T (hkey ?q b) c \<longleftrightarrow> compare_keys T (hkey q b) c" for b c
    using a(2) compare_iff by (auto simp: f)
  have key2: "compare_keys T (hkey ?q b) (hkey ?q c) \<longleftrightarrow> compare_keys T (hkey q b) (hkey q c)" for b c
    using key compare_equiv(2) by metis
  have "hm_at minv T ?q (X(?i := X ?i)) B"
  proof (rule hm_at_bucket [OF A i])
    show "b \<noteq> hm_table q \<and> B b = Some (hm_entry_allocator q, sizeof_entry T) \<and> hm_loc T q (hkey ?q b) = ?i"
      if "b \<in> set (X ?i)" for b
      using hm_atD(6-8) [OF A i that] by (auto simp: f)
    show "hkey ?q b = hkey q b \<and> B b = B b" if "j < hm_total_size q" "j \<noteq> ?i" "b \<in> set (X j)" for j b
      using that buckets_disjoint [OF A that(1) i that(2)] a(1) by (auto simp: f)
    show "b = c" if "b \<in> set (X ?i)" "c \<in> set (X ?i)" "compare_keys T (hkey ?q b) (hkey ?q c)" for b c
      using hm_atD(9) [OF A i that(1,2)] that(3) key2 [of b c] by blast
  qed (use f hm_atD(3) [OF A] hm_atD(5) [OF A i] in auto)
  then show at: "hm_at minv T ?q X B" by simp
  have E: "set (hm_all T ?q) = set (hm_all T q)" unfolding hm_entries_at [OF at] hm_entries_at [OF A] by simp
  have aE: "a \<in> set (hm_all T q)" unfolding hm_entries_at [OF A] using i a(1) by blast
  have "hm_map T ?q x = Some w \<longleftrightarrow> map_bind T (hm_map T q) k v x = Some w" for x w
  proof (cases "compare_keys T k x")
    case True
    then have ax: "compare_keys T (hkey q a) x" using a(2) compare_equiv(3) by blast
    then have "hm_map T ?q x = Some v" unfolding hm_map_Some [OF at] E using aE key by (force simp: f)
    then show ?thesis using True by (simp add: map_bind_def)
  next
    case False
    then have "\<not> compare_keys T (hkey q a) x" using a(2) compare_iff by blast
    then have "hm_map T ?q x = Some w \<longleftrightarrow> hm_map T q x = Some w"
      unfolding hm_map_Some [OF at] hm_map_Some [OF A] E key by (auto simp: f)
    then show ?thesis using False by (simp add: map_bind_def)
  qed
  then show "hm_map T ?q = map_bind T (hm_map T q) k v" by (intro map_eqI)
qed

text \<open>Unlinking an entry and giving it back.\<close>

lemma unbind_entry_at:
  assumes A: "hm_at minv T q X B" and i: "i < hm_total_size q" and a: "a \<in> set (X i)"
  shows "hm_at minv T (fst (unbind_entry_i ops a q)) (X(i := remove1 a (X i))) (B(a := None))" (is "hm_at _ _ ?q _ ?B")
    and "hm_map T (fst (unbind_entry_i ops a q)) = map_unbind T (hm_map T q) (hkey q a)"
    and "set (hm_all T (fst (unbind_entry_i ops a q))) = set (hm_all T q) - {a}"
proof -
  let ?h = "sentinel T q i"
  obtain ys zs where x: "X i = ys @ a # zs" using a by (meson split_list)
  have r: "ring (hnxt q) (hprv q) ?h (ys @ a # zs)" using hm_atD(5) [OF A i] x by simp
  have d: "a \<notin> set ys" "a \<notin> set zs" "?h \<noteq> a" using r by (auto simp: ring_def)
  have rm: "remove1 a (X i) = ys @ zs" using x d by (simp add: remove1_append)
  note nb = ring_neighbours [OF r]
  have pn: "hprv q a \<in> insert ?h (set (X i))" "hnxt q a \<in> insert ?h (set (X i))" "hnxt q a \<noteq> a" "hprv q a \<noteq> a"
    using nb last_in_set_Cons [of ?h ys] hd_in_set_snoc [of zs ?h] x d by auto
  have f: "hnxt ?q = (hnxt q)(hprv q a := hnxt q a)" "hprv ?q = (hprv q)(hnxt q a := hprv q a)"
    "hkey ?q = hkey q" "hval ?q = hval q" "hm_cur_size ?q = hm_cur_size q - 1" "hm_total_size ?q = hm_total_size q"
    "hm_mem ?q = al_free ops (hm_mem q) (hm_entry_allocator q) a"
    using pn(3) by (auto simp: unbind_entry_i_def Let_def)
  have out: "b \<noteq> hprv q a \<and> b \<noteq> hnxt q a" if "j < hm_total_size q" "j \<noteq> i" "b \<in> insert (sentinel T q j) (set (X j))" for j b
    using that pn(1,2) sentinel_not_entry [OF A that(1) i] sentinel_not_entry [OF A i that(1)]
      buckets_disjoint [OF A that(1) i that(2)] by auto
  have at: "hm_at minv T ?q (X(i := ys @ zs)) ?B"
  proof (rule hm_at_bucket [OF A i])
    show "minv (hm_mem ?q) ?B" unfolding f using free [OF hm_atD(3) [OF A] hm_atD(7) [OF A i a]] .
    show "?B (hm_table q) = B (hm_table q)" using hm_atD(6) [OF A i a] by simp
    show "hkey ?q b = hkey q b \<and> ?B b = B b" if "j < hm_total_size q" "j \<noteq> i" "b \<in> set (X j)" for j b
      using that buckets_disjoint [OF A that(1) i that(2)] a by (auto simp: f)
    show "b \<noteq> hm_table q \<and> ?B b = Some (hm_entry_allocator q, sizeof_entry T) \<and> hm_loc T q (hkey ?q b) = i"
      if "b \<in> set (ys @ zs)" for b
      using hm_atD(6-8) [OF A i, of b] that d x by (auto simp: f)
    show "b = c" if "b \<in> set (ys @ zs)" "c \<in> set (ys @ zs)" "compare_keys T (hkey ?q b) (hkey ?q c)" for b c
      using hm_atD(9) [OF A i, of b c] that x by (auto simp: f)
    show "ring (hnxt ?q) (hprv ?q) ?h (ys @ zs)" unfolding f using r nb by (intro ring_remove) auto
    show "hm_cur_size ?q + length (X i) = hm_cur_size q + length (ys @ zs)"
      using hm_at_lengths [OF A i] x by (simp add: f)
  qed (use out f in \<open>auto simp: unbind_entry_i_def Let_def\<close>)
  then show "hm_at minv T ?q (X(i := remove1 a (X i))) ?B" by (simp add: rm)
  have "set ((X(i := ys @ zs)) j) = set (X j) - {a}" if "j < hm_total_size q" for j
    using x d a buckets_disjoint [OF A that i] by (cases "j = i") auto
  then show E: "set (hm_all T ?q) = set (hm_all T q) - {a}"
    unfolding hm_entries_at [OF at] hm_entries_at [OF A] f by auto
  have "hm_map T ?q k = Some v \<longleftrightarrow> map_unbind T (hm_map T q) (hkey q a) k = Some v" for k v
  proof -
    have aE: "a \<in> set (hm_all T q)" unfolding hm_entries_at [OF A] using i a by blast
    have "compare_keys T (hkey q a) k \<Longrightarrow> b \<in> set (hm_all T q) \<Longrightarrow> compare_keys T (hkey q b) k \<Longrightarrow> b = a" for b
      using hm_entry_unique [OF A aE] compare_equiv by blast
    then show ?thesis
      unfolding hm_map_Some [OF at] E f map_unbind_def using hm_map_Some [OF A, of k v] by auto
  qed
  then show "hm_map T ?q = map_unbind T (hm_map T q) (hkey q a)" by (intro map_eqI)
qed

end

end
