(* ===== verification/ACE_Hash_Map_Ops.thy ===== *)
theory ACE_Hash_Map_Ops
  imports ACE_Hash_Map_Inv
begin

text \<open>
  What the operations of the hash map return and what they leave behind, on every branch: finding, binding, rebinding,
  unbinding, and scripts of these operations against the abstract map.
\<close>

section \<open>Outcomes\<close>

text \<open>A new entry at \<open>a\<close>; a failed allocation.\<close>

definition entry_malloc :: "'m allocator_ops \<Rightarrow> 'k hm_traits \<Rightarrow> ('k, 'v, 'm) hash_map \<Rightarrow> 'm \<times> addr" where
  "entry_malloc ops T q = al_malloc ops (hm_mem q) (hm_entry_allocator q) (of_nat (sizeof_entry T))"

definition bound_new ::
  "('m \<Rightarrow> blocks \<Rightarrow> bool) \<Rightarrow> 'k hm_traits \<Rightarrow> ('k, 'v, 'm) hash_map \<Rightarrow> blocks \<Rightarrow> 'k \<Rightarrow> 'v \<Rightarrow>
   ('k, 'v, 'm) hash_map \<Rightarrow> addr \<Rightarrow> bool" where
  "bound_new minv T q B k v q' a \<longleftrightarrow> hm_map T q k = None \<and> a \<noteq> NULL \<and> B a = None \<and>
     hm_inv minv T q' (B(a \<mapsto> (hm_entry_allocator q, sizeof_entry T))) \<and>
     hm_map T q' = map_bind T (hm_map T q) k v \<and> set (hm_all T q') = insert a (set (hm_all T q)) \<and>
     hm_cur_size q' = Suc (hm_cur_size q)"

definition bind_failed ::
  "('m \<Rightarrow> blocks \<Rightarrow> bool) \<Rightarrow> 'k hm_traits \<Rightarrow> ('k, 'v, 'm) hash_map \<Rightarrow> blocks \<Rightarrow> 'k \<Rightarrow> ('k, 'v, 'm) hash_map \<Rightarrow> bool" where
  "bind_failed minv T q B k q' \<longleftrightarrow> hm_map T q k = None \<and> hm_inv minv T q' B \<and> hm_map T q' = hm_map T q \<and>
     hm_all T q' = hm_all T q \<and> hm_cur_size q' = hm_cur_size q \<and> hm_errno q' = Some ENOMEM"

text \<open>The entry of a bound key.\<close>

definition entry_of :: "'k hm_traits \<Rightarrow> ('k, 'v, 'm) hash_map \<Rightarrow> 'k \<Rightarrow> addr \<Rightarrow> bool" where
  "entry_of T q k a \<longleftrightarrow> a \<in> set (hm_all T q) \<and> compare_keys T (hkey q a) k \<and> hm_map T q k = Some (hval q a)"

definition rebound ::
  "('m \<Rightarrow> blocks \<Rightarrow> bool) \<Rightarrow> 'k hm_traits \<Rightarrow> ('k, 'v, 'm) hash_map \<Rightarrow> blocks \<Rightarrow> 'k \<Rightarrow> 'v \<Rightarrow> ('k, 'v, 'm) hash_map \<Rightarrow> bool" where
  "rebound minv T q B k v q' \<longleftrightarrow> hm_inv minv T q' B \<and> hm_map T q' = map_bind T (hm_map T q) k v \<and>
     hm_all T q' = hm_all T q \<and> hm_cur_size q' = hm_cur_size q"

section \<open>Scripts of operations\<close>

datatype ('k, 'v) hm_op = Bind 'k 'v | Trybind 'k 'v | Rebind 'k 'v | Find 'k | Unbind 'k

text \<open>The result of an operation: its return value and the item it passes out.\<close>

fun hm_step ::
  "'m allocator_ops \<Rightarrow> 'k hm_traits \<Rightarrow> 'v \<Rightarrow> ('k, 'v) hm_op \<Rightarrow> ('k, 'v, 'm) hash_map \<Rightarrow>
   (('k, 'v, 'm) hash_map \<times> int \<times> 'v) option" where
  "hm_step ops T d (Bind k v) q = map_option (\<lambda>(q1, r). (q1, r, d)) (hm_bind_i ops T k v q)"
| "hm_step ops T d (Trybind k v) q = map_option (\<lambda>(q1, w, r). (q1, r, w)) (hm_trybind_i ops T k v q)"
| "hm_step ops T d (Rebind k v) q = map_option (\<lambda>(q1, w, r). (q1, r, w)) (hm_rebind_old_i ops T k v d q)"
| "hm_step ops T d (Find k) q = map_option (\<lambda>(q1, w, r). (q1, r, w)) (hm_find_i T k d q)"
| "hm_step ops T d (Unbind k) q = map_option (\<lambda>(q1, w, r). (q1, r, w)) (hm_unbind_i ops T k d q)"

primrec hm_run ::
  "'m allocator_ops \<Rightarrow> 'k hm_traits \<Rightarrow> 'v \<Rightarrow> ('k, 'v) hm_op list \<Rightarrow> ('k, 'v, 'm) hash_map \<Rightarrow>
   (('k, 'v, 'm) hash_map \<times> (int \<times> 'v) list) option" where
  "hm_run ops T d [] q = Some (q, [])"
| "hm_run ops T d (x # xs) q =
     (case hm_step ops T d x q of
        None \<Rightarrow> None
      | Some (q1, r) \<Rightarrow> map_option (\<lambda>(q2, rs). (q2, r # rs)) (hm_run ops T d xs q1))"

text \<open>The same on a map; \<open>mem\<close> says whether there is memory for a new entry.\<close>

fun amap_step :: "'k hm_traits \<Rightarrow> 'v \<Rightarrow> ('k, 'v) hm_op \<Rightarrow> bool \<Rightarrow> ('k \<rightharpoonup> 'v) \<Rightarrow> ('k \<rightharpoonup> 'v) \<times> int \<times> 'v" where
  "amap_step T d (Bind k v) mem m =
     (if m k \<noteq> None then (m, 1, d) else if mem then (map_bind T m k v, 0, d) else (m, -1, d))"
| "amap_step T d (Trybind k v) mem m =
     (case m k of Some w \<Rightarrow> (m, 1, w) | None \<Rightarrow> if mem then (map_bind T m k v, 0, v) else (m, -1, v))"
| "amap_step T d (Rebind k v) mem m =
     (case m k of Some w \<Rightarrow> (map_bind T m k v, 1, w) | None \<Rightarrow> if mem then (map_bind T m k v, 0, d) else (m, -1, d))"
| "amap_step T d (Find k) mem m = (case m k of Some w \<Rightarrow> (m, 0, w) | None \<Rightarrow> (m, -1, d))"
| "amap_step T d (Unbind k) mem m = (case m k of Some w \<Rightarrow> (map_unbind T m k, 0, w) | None \<Rightarrow> (m, -1, d))"

primrec amap_run ::
  "'k hm_traits \<Rightarrow> 'v \<Rightarrow> (('k, 'v) hm_op \<times> bool) list \<Rightarrow> ('k \<rightharpoonup> 'v) \<Rightarrow> ('k \<rightharpoonup> 'v) \<times> (int \<times> 'v) list" where
  "amap_run T d [] m = (m, [])"
| "amap_run T d (x # xs) m =
     (let (m1, r) = amap_step T d (fst x) (snd x) m; (m2, rs) = amap_run T d xs m1 in (m2, r # rs))"

section \<open>The operations\<close>

context hash_table
begin

lemma shared_find_correct:
  assumes "hm_inv minv T q B"
  shows "(hm_map T q k = None \<and> shared_find T k e l q = Some (q\<lparr>hm_errno := Some ENOENT\<rparr>, e, hm_loc T q k, -1)) \<or>
    (\<exists>a. entry_of T q k a \<and> shared_find T k e l q = Some (q, a, hm_loc T q k, 0))"
proof -
  note A = assms [unfolded hm_inv_def]
  show ?thesis
  proof (rule find_entry_cases [OF A, of k])
    fix a assume a: "hm_map T q k = Some (hval q a)" "a \<in> set (bucket_nodes T q (hm_loc T q k))"
      "compare_keys T (hkey q a) k" "find (\<lambda>a. compare_keys T (hkey q a) k) (bucket_nodes T q (hm_loc T q k)) = Some a"
    then have "a \<in> set (hm_all T q)" unfolding hm_entries_at [OF A] using hm_at_loc [OF A] by blast
    then show ?thesis using a shared_find_at [OF A] by (auto simp: entry_of_def)
  qed (simp add: shared_find_at [OF A])
qed

lemma bind_i_entry_correct:
  assumes I: "hm_inv minv T q B"
  shows "(\<exists>a. entry_of T q k a \<and> bind_i_entry ops T k v e q = Some (q, a, 1)) \<or>
    (\<exists>q' a. snd (entry_malloc ops T q) = a \<and> bind_i_entry ops T k v e q = Some (q', a, 0) \<and> bound_new minv T q B k v q' a) \<or>
    (\<exists>q'. snd (entry_malloc ops T q) = NULL \<and> bind_i_entry ops T k v e q = Some (q', e, -1) \<and> bind_failed minv T q B k q')"
  using shared_find_correct [OF I, of k e 0]
proof (elim disjE exE conjE)
  fix a assume "entry_of T q k a" "shared_find T k e 0 q = Some (q, a, hm_loc T q k, 0)"
  then show ?thesis by (simp add: bind_i_entry_def)
next
  let ?q = "q\<lparr>hm_errno := Some ENOENT\<rparr>"
  assume u: "hm_map T q k = None" "shared_find T k e 0 q = Some (?q, e, hm_loc T q k, -1)"
  obtain m ptr where m: "al_malloc ops (hm_mem q) (hm_entry_allocator q) (of_nat (sizeof_entry T)) = (m, ptr)" by fastforce
  then have em: "snd (entry_malloc ops T q) = ptr" by (simp add: entry_malloc_def)
  note A = I [unfolded hm_inv_def]
  show ?thesis
  proof (cases "ptr = NULL")
    case True
    have i: "minv m B" using malloc_fails [OF hm_atD(3) [OF A]] m True by simp
    have "hm_at minv T (q\<lparr>hm_mem := m, hm_errno := Some ENOMEM\<rparr>) (bucket_nodes T q) B"
      using A i by (simp add: hm_at_def)
    then have "bind_failed minv T q B k (q\<lparr>hm_mem := m, hm_errno := Some ENOMEM\<rparr>)"
      using u(1) hm_invI by (auto simp: bind_failed_def hm_map_def [abs_def] hm_all_def bucket_nodes_def [abs_def])
    then show ?thesis using True m em u(2) by (simp add: bind_i_entry_def hm_malloc_def)
  next
    case False
    have f: "apart B ptr (sizeof_entry T)" "minv m (B(ptr \<mapsto> (hm_entry_allocator q, sizeof_entry T)))" "B ptr = None"
      using malloc [OF hm_atD(3) [OF A] _ _ m False] malloc_fresh [OF hm_atD(3) [OF A] _ _ m False] size_pos by auto
    let ?r = "link_entry T k v ptr (hm_loc T q k) (?q\<lparr>hm_mem := m\<rparr>)"
    have A': "hm_at minv T ?q (bucket_nodes T q) B" "hm_map T ?q k = None" using A u(1) by simp_all
    note L = link_entry_at [OF A' f(3), of m v, simplified, OF f(2)]
    have t: "hm_total_size ?r = hm_total_size q" by (simp add: link_entry_def Let_def)
    have "set (hm_all T ?r) = insert ptr (set (hm_all T q))"
      unfolding hm_entries_at [OF L(1)] hm_entries_at [OF A] t using hm_at_loc [OF A, of k] by (auto split: if_splits)
    then have "bound_new minv T q B k v ?r ptr"
      using L hm_invI [OF L(1)] u(1) f(3) False by (simp add: bound_new_def link_entry_def Let_def)
    then show ?thesis
      using False m em u(2) hm_atD(1) [OF A] by (simp add: bind_i_entry_def hm_malloc_def)
  qed
qed

lemma trybind_is_bind: "trybind_i_entry = bind_i_entry"
  by (simp add: fun_eq_iff trybind_i_entry_def bind_i_entry_def)

lemma hm_rebound:
  assumes "hm_inv minv T q B" "entry_of T q k a"
  shows "rebound minv T q B k v (upd_entry a (\<lambda>x. x\<lparr>ext_id := k, int_id := v\<rparr>) q)" (is "rebound _ _ _ _ _ _ ?q")
proof -
  note A = assms(1) [unfolded hm_inv_def]
  have e: "a \<in> set (hm_all T q)" "compare_keys T (hkey q a) k" using assms(2) by (auto simp: entry_of_def)
  obtain i where i: "i < hm_total_size q" "a \<in> set (bucket_nodes T q i)" using e(1) unfolding hm_entries_at [OF A] by blast
  have "hm_loc T q k = i" using compare_loc [OF e(2), of q] hm_atD(8) [OF A i] by simp
  then have a: "a \<in> set (bucket_nodes T q (hm_loc T q k))" using i(2) by simp
  note R = rebind_entry_at [OF A a e(2), of v]
  have "hm_all T ?q = hm_all T q" unfolding hm_all_at [OF R(1)] hm_all_at [OF A] by simp
  then show ?thesis using R hm_invI [OF R(1)] by (simp add: rebound_def)
qed

lemma hm_unbound:
  assumes "hm_inv minv T q B" "entry_of T q k a" "unbind_entry_i ops a q = (q', r)"
  shows "r = 0 \<and> hm_inv minv T q' (B(a := None)) \<and> hm_map T q' = map_unbind T (hm_map T q) k \<and>
    set (hm_all T q') = set (hm_all T q) - {a} \<and> Suc (hm_cur_size q') = hm_cur_size q"
proof -
  note A = assms(1) [unfolded hm_inv_def]
  have e: "a \<in> set (hm_all T q)" "compare_keys T (hkey q a) k" using assms(2) by (auto simp: entry_of_def)
  obtain i where i: "i < hm_total_size q" "a \<in> set (bucket_nodes T q i)" using e(1) unfolding hm_entries_at [OF A] by blast
  have q': "q' = fst (unbind_entry_i ops a q)" "r = 0" using assms(3) by (auto simp: unbind_entry_i_def Let_def)
  note U = unbind_entry_at [OF A i, folded q'(1)]
  have "map_unbind T (hm_map T q) (hkey q a) = map_unbind T (hm_map T q) k"
    using compare_iff [OF e(2)] by (simp add: map_unbind_def fun_eq_iff)
  moreover have "0 < hm_cur_size q" using hm_at_lengths [OF A i(1)] i(2) by (cases "bucket_nodes T q i") auto
  ultimately show ?thesis using U hm_invI [OF U(1)] q' by (auto simp: unbind_entry_i_def Let_def)
qed

text \<open>A failed search for a key sets \<open>errno\<close> before the key is bound.\<close>

lemma bound_new_errno [simp]:
  "bound_new minv T (hm_errno_update g q) B k v q' a \<longleftrightarrow> bound_new minv T q B k v q' a"
  "bind_failed minv T (hm_errno_update g q) B k q' \<longleftrightarrow> bind_failed minv T q B k q'"
  "entry_malloc ops T (hm_errno_update g q) = entry_malloc ops T q"
  by (simp_all add: bound_new_def bind_failed_def entry_malloc_def)

lemma rebind_i_old_entry_correct:
  assumes I: "hm_inv minv T q B"
  shows "(\<exists>q' a. entry_of T q k a \<and> rebind_i_old_entry ops T k v old e q = Some (q', hval q a, a, 1) \<and> rebound minv T q B k v q') \<or>
    (\<exists>q'. rebind_i_old_entry ops T k v old e q = Some (q', old, e, 0) \<and> bound_new minv T q B k v q' (snd (entry_malloc ops T q))) \<or>
    (\<exists>q'. snd (entry_malloc ops T q) = NULL \<and> rebind_i_old_entry ops T k v old e q = Some (q', old, e, -1) \<and> bind_failed minv T q B k q')"
  using shared_find_correct [OF I, of k e 0]
proof (elim disjE exE conjE)
  fix a assume "entry_of T q k a" "shared_find T k e 0 q = Some (q, a, hm_loc T q k, 0)"
  then show ?thesis using hm_rebound [OF I, of k a v] by (simp add: rebind_i_old_entry_def)
next
  let ?q = "q\<lparr>hm_errno := Some ENOENT\<rparr>"
  assume u: "hm_map T q k = None" "shared_find T k e 0 q = Some (?q, e, hm_loc T q k, -1)"
  have "hm_inv minv T ?q B" using I by simp
  from bind_i_entry_correct [OF this, of k v NULL] u show ?thesis
    by (auto simp: rebind_i_old_entry_def hm_bind_i_def entry_of_def)
qed

text \<open>The overloads of \<open>rebind_i\<close> differ only in the old values they pass out.\<close>

lemma rebind_overloads:
  "rebind_i_entry ops T k v e q = map_option (\<lambda>(q', _, a, r). (q', a, r)) (rebind_i_old_entry ops T k v old e q)"
  "rebind_i_old_entry ops T k v old e q =
     map_option (\<lambda>(q', _, old', a, r). (q', old', a, r)) (rebind_i_olds_entry ops T k v oldk old e q)"
  by (auto simp: rebind_i_entry_def rebind_i_old_entry_def rebind_i_olds_entry_def option.map_comp comp_def
      split: option.split intro!: option.map_cong0)

lemma hm_step_refines:
  assumes I: "hm_inv minv T q B"
  shows "\<exists>q' B' r mem. hm_step ops T d x q = Some (q', r) \<and> hm_inv minv T q' B' \<and>
    amap_step T d x mem (hm_map T q) = (hm_map T q', r)"
proof (cases x)
  case (Bind k v)
  from bind_i_entry_correct [OF I, of k v NULL] show ?thesis
  proof (elim disjE exE conjE)
    fix a assume "entry_of T q k a" "bind_i_entry ops T k v NULL q = Some (q, a, 1)"
    then show ?thesis using I by (auto simp: Bind hm_bind_i_def entry_of_def)
  next
    fix q' a assume "bind_i_entry ops T k v NULL q = Some (q', a, 0)" "bound_new minv T q B k v q' a"
    then show ?thesis by (auto simp: Bind hm_bind_i_def bound_new_def intro!: exI [of _ True])
  next
    fix q' assume "bind_i_entry ops T k v NULL q = Some (q', NULL, -1)" "bind_failed minv T q B k q'"
    then show ?thesis by (auto simp: Bind hm_bind_i_def bind_failed_def intro!: exI [of _ False])
  qed
next
  case (Trybind k v)
  from bind_i_entry_correct [OF I, of k v NULL] show ?thesis
  proof (elim disjE exE conjE)
    fix a assume "entry_of T q k a" "bind_i_entry ops T k v NULL q = Some (q, a, 1)"
    then show ?thesis using I by (auto simp: Trybind hm_trybind_i_def trybind_is_bind entry_of_def)
  next
    fix q' a assume "bind_i_entry ops T k v NULL q = Some (q', a, 0)" "bound_new minv T q B k v q' a"
    then show ?thesis by (auto simp: Trybind hm_trybind_i_def trybind_is_bind bound_new_def intro!: exI [of _ True])
  next
    fix q' assume "bind_i_entry ops T k v NULL q = Some (q', NULL, -1)" "bind_failed minv T q B k q'"
    then show ?thesis by (auto simp: Trybind hm_trybind_i_def trybind_is_bind bind_failed_def intro!: exI [of _ False])
  qed
next
  case (Rebind k v)
  from rebind_i_old_entry_correct [OF I, of k v d NULL] show ?thesis
  proof (elim disjE exE conjE)
    fix q' a assume "entry_of T q k a" "rebind_i_old_entry ops T k v d NULL q = Some (q', hval q a, a, 1)"
      "rebound minv T q B k v q'"
    then show ?thesis by (auto simp: Rebind hm_rebind_old_i_def entry_of_def rebound_def)
  next
    fix q' assume "rebind_i_old_entry ops T k v d NULL q = Some (q', d, NULL, 0)"
      "bound_new minv T q B k v q' (snd (entry_malloc ops T q))"
    then show ?thesis by (auto simp: Rebind hm_rebind_old_i_def bound_new_def intro!: exI [of _ True])
  next
    fix q' assume "rebind_i_old_entry ops T k v d NULL q = Some (q', d, NULL, -1)" "bind_failed minv T q B k q'"
    then show ?thesis by (auto simp: Rebind hm_rebind_old_i_def bind_failed_def intro!: exI [of _ False])
  qed
next
  case (Find k)
  from shared_find_correct [OF I, of k NULL 0] show ?thesis
  proof (elim disjE exE conjE)
    assume "hm_map T q k = None" "shared_find T k NULL 0 q = Some (q\<lparr>hm_errno := Some ENOENT\<rparr>, NULL, hm_loc T q k, -1)"
    then show ?thesis using I
      by (intro exI [of _ "q\<lparr>hm_errno := Some ENOENT\<rparr>"] exI [of _ B] exI [of _ "(-1, d)"]) (simp add: Find hm_find_i_def)
  qed (use I in \<open>auto simp: Find hm_find_i_def entry_of_def\<close>)
next
  case (Unbind k)
  from shared_find_correct [OF I, of k NULL 0] show ?thesis
  proof (elim disjE exE conjE)
    fix a assume a: "entry_of T q k a" "shared_find T k NULL 0 q = Some (q, a, hm_loc T q k, 0)"
    obtain q' r where "unbind_entry_i ops a q = (q', r)" by fastforce
    then show ?thesis using a hm_unbound [OF I a(1)] by (auto simp: Unbind hm_unbind_i_def entry_of_def)
  next
    assume "hm_map T q k = None" "shared_find T k NULL 0 q = Some (q\<lparr>hm_errno := Some ENOENT\<rparr>, NULL, hm_loc T q k, -1)"
    then show ?thesis using I
      by (intro exI [of _ "q\<lparr>hm_errno := Some ENOENT\<rparr>"] exI [of _ B] exI [of _ "(-1, d)"]) (simp add: Unbind hm_unbind_i_def)
  qed
qed

lemma hm_run_refines:
  assumes "hm_inv minv T q B"
  shows "\<exists>q' B' rs mems. hm_run ops T d xs q = Some (q', rs) \<and> hm_inv minv T q' B' \<and> length mems = length xs \<and>
    amap_run T d (zip xs mems) (hm_map T q) = (hm_map T q', rs)"
  using assms
proof (induction xs arbitrary: q B)
  case (Cons x xs)
  obtain q1 B1 r mem where S: "hm_step ops T d x q = Some (q1, r)" "hm_inv minv T q1 B1"
    "amap_step T d x mem (hm_map T q) = (hm_map T q1, r)" using hm_step_refines [OF Cons.prems] by blast
  obtain q' B' rs mems where R: "hm_run ops T d xs q1 = Some (q', rs)" "hm_inv minv T q' B'" "length mems = length xs"
    "amap_run T d (zip xs mems) (hm_map T q1) = (hm_map T q', rs)" using Cons.IH [OF S(2)] by blast
  show ?case using S R
    by (intro exI [of _ q'] exI [of _ B'] exI [of _ "r # rs"] exI [of _ "mem # mems"]) simp
qed auto

end

end
