(* ===== verification/ACE_Hash_Map_Life.thy ===== *)
theory ACE_Hash_Map_Life
  imports ACE_Hash_Map_Ops
begin

text \<open>
  The life of a hash map: creating the table, removing all entries, closing, and that closing gives
  back exactly the memory the map holds.
\<close>

section \<open>The memory of the map\<close>

text \<open>The blocks a map owns: its table and its entries.\<close>

definition hm_own :: "'k hm_traits \<Rightarrow> ('k, 'v, 'm) hash_map \<Rightarrow> addr set" where
  "hm_own T q = insert (hm_table q) (set (hm_all T q))"

context hash_table
begin

lemma free_bucket_seg:
  assumes "seg (hnxt q) (hprv q) p xs h" "h \<notin> set xs" "distinct xs" "minv (hm_mem q) B"
    and "\<forall>a \<in> set xs. B a = Some (hm_entry_allocator q, n)"
  shows "\<exists>m. free_bucket ops h (hnxt q p) q = Some (q\<lparr>hm_mem := m\<rparr>) \<and> minv m (B |` (- set xs))"
  using assms
proof (induction xs arbitrary: p q B)
  case Nil
  have "B |` UNIV = B" by (simp add: restrict_map_def fun_eq_iff)
  then show ?case using Nil by (subst free_bucket.simps) (auto intro!: exI [of _ "hm_mem q"])
next
  case (Cons x xs)
  let ?q = "hm_free ops (hm_entry_allocator q) x q"
  have m: "minv (hm_mem ?q) (B(x := None))" using free [OF Cons.prems(4), of x] Cons.prems(5) by simp
  have hd: "h \<notin> set xs" "distinct xs" using Cons.prems(2,3) by auto
  have s: "seg (hnxt ?q) (hprv ?q) x xs h" using Cons.prems(1) by simp
  have b: "\<forall>a \<in> set xs. (B(x := None)) a = Some (hm_entry_allocator ?q, n)" using Cons.prems(3,5) by auto
  obtain m' where IH: "free_bucket ops h (hnxt ?q x) ?q = Some (?q\<lparr>hm_mem := m'\<rparr>)" "minv m' ((B(x := None)) |` (- set xs))"
    using Cons.IH [OF s hd m b] by blast
  have "(B(x := None)) |` (- set xs) = B |` (- set (x # xs))" by (auto simp: restrict_map_def fun_eq_iff)
  moreover have "hnxt q p = x" "x \<noteq> h" using Cons.prems(1,2) by auto
  ultimately show ?case using IH by (subst free_bucket.simps) (auto simp: hm_free_def intro!: exI [of _ m'])
qed

text \<open>Emptying one bucket; the count is reset only when all are empty.\<close>

lemma empty_bucket_at:
  assumes A: "hm_at minv T (q\<lparr>hm_cur_size := n\<rparr>) X B" and i: "i < hm_total_size q"
    and m: "minv m (B |` (- set (X i)))"
  defines "h \<equiv> sentinel T q i"
  shows "\<exists>k. hm_at minv T ((set_hprev h h (set_hnext h h (q\<lparr>hm_mem := m\<rparr>)))\<lparr>hm_cur_size := k\<rparr>) (X(i := []))
    (B |` (- set (X i)))"
proof -
  let ?q = "q\<lparr>hm_cur_size := n\<rparr>"
  let ?r = "(set_hprev h h (set_hnext h h (q\<lparr>hm_mem := m\<rparr>)))\<lparr>hm_cur_size := n - length (X i)\<rparr>"
  have i': "i < hm_total_size ?q" using i by simp
  have h: "h = sentinel T ?q i" by (simp add: h_def)
  have "hm_at minv T ?r (X(i := [])) (B |` (- set (X i)))"
  proof (rule hm_at_bucket [OF A i'])
    show "(B |` (- set (X i))) (hm_table ?q) = B (hm_table ?q)"
      using hm_atD(6) [OF A i'] by (auto simp: restrict_map_def)
    show "hnxt ?r a = hnxt ?q a \<and> hprv ?r a = hprv ?q a"
      if "j < hm_total_size ?q" "j \<noteq> i" "a \<in> insert (sentinel T ?q j) (set (X j))" for j a
      using that sentinel_not_entry [OF A i' that(1)] by (auto simp: h)
    show "hkey ?r a = hkey ?q a \<and> (B |` (- set (X i))) a = B a" if "j < hm_total_size ?q" "j \<noteq> i" "a \<in> set (X j)" for j a
      using buckets_disjoint [OF A that(1) i' that(2)] that(3) by (auto simp: restrict_map_def)
    show "ring (hnxt ?r) (hprv ?r) (sentinel T ?q i) []" by (simp add: ring_def h)
    show "hm_cur_size ?r + length (X i) = hm_cur_size ?q + length []" using hm_at_lengths [OF A i'] by simp
  qed (use m in auto)
  then show ?thesis by blast
qed

lemma unbind_buckets_at:
  assumes "hm_at minv T (q\<lparr>hm_cur_size := n\<rparr>) X B" "set is \<subseteq> {..<hm_total_size q}"
  shows "\<exists>q' k. unbind_buckets ops T is q = Some q' \<and> hm_table q' = hm_table q \<and> hm_total_size q' = hm_total_size q \<and>
    hm_table_allocator q' = hm_table_allocator q \<and> hm_entry_allocator q' = hm_entry_allocator q \<and>
    hm_at minv T (q'\<lparr>hm_cur_size := k\<rparr>) (\<lambda>i. if i \<in> set is then [] else X i) (B |` (- (\<Union>i \<in> set is. set (X i))))"
  using assms
proof (induction "is" arbitrary: q n X B)
  case Nil
  have "B |` UNIV = B" by (simp add: restrict_map_def fun_eq_iff)
  with Nil show ?case by auto
next
  case (Cons i "is")
  let ?h = "sentinel T q i"
  have i: "i < hm_total_size q" using Cons.prems(2) by simp
  note A = Cons.prems(1)
  have i': "i < hm_total_size (q\<lparr>hm_cur_size := n\<rparr>)" using i by simp
  have r: "ring (hnxt q) (hprv q) ?h (X i)" using hm_atD(5) [OF A i'] by simp
  obtain m where m: "free_bucket ops ?h (hnxt q ?h) q = Some (q\<lparr>hm_mem := m\<rparr>)" "minv m (B |` (- set (X i)))"
    using free_bucket_seg [of q ?h "X i" ?h B "sizeof_entry T"] r hm_atD(3) [OF A] hm_atD(7) [OF A i'] by (auto simp: ring_def)
  obtain k where k: "hm_at minv T ((set_hprev ?h ?h (set_hnext ?h ?h (q\<lparr>hm_mem := m\<rparr>)))\<lparr>hm_cur_size := k\<rparr>) (X(i := []))
      (B |` (- set (X i)))" using empty_bucket_at [OF A i m(2)] by blast
  let ?X = "\<lambda>j. if j \<in> set is then [] else (X(i := [])) j"
  let ?B = "(B |` (- set (X i))) |` (- (\<Union>j \<in> set is. set ((X(i := [])) j)))"
  obtain q' k' where IH: "unbind_buckets ops T is (set_hprev ?h ?h (set_hnext ?h ?h (q\<lparr>hm_mem := m\<rparr>))) = Some q'"
    "hm_table q' = hm_table q" "hm_total_size q' = hm_total_size q" "hm_table_allocator q' = hm_table_allocator q"
    "hm_entry_allocator q' = hm_entry_allocator q" "hm_at minv T (q'\<lparr>hm_cur_size := k'\<rparr>) ?X ?B"
    using Cons.IH [OF k] Cons.prems(2) by auto
  have "?X = (\<lambda>j. if j \<in> set (i # is) then [] else X j)" by (auto simp: fun_eq_iff)
  moreover have "?B = B |` (- (\<Union>j \<in> set (i # is). set (X j)))"
    by (auto simp: restrict_map_def fun_eq_iff split: if_splits)
  ultimately show ?case using IH m(1) by (intro exI [of _ q'] exI [of _ k']) (simp add: Let_def)
qed

lemma unbind_all_at:
  assumes "hm_inv minv T q B"
  shows "\<exists>q'. unbind_all_i ops T q = Some (q', 0) \<and> hm_table q' = hm_table q \<and> hm_total_size q' = hm_total_size q \<and>
    hm_table_allocator q' = hm_table_allocator q \<and> hm_entry_allocator q' = hm_entry_allocator q \<and>
    hm_at minv T q' (\<lambda>_. []) (B |` (- set (hm_all T q)))"
proof -
  note A = assms [unfolded hm_inv_def]
  have A': "hm_at minv T (q\<lparr>hm_cur_size := hm_cur_size q\<rparr>) (bucket_nodes T q) B" using A by simp
  obtain q' k where U: "unbind_buckets ops T [0..<hm_total_size q] q = Some q'"
    "hm_table q' = hm_table q" "hm_total_size q' = hm_total_size q" "hm_table_allocator q' = hm_table_allocator q"
    "hm_entry_allocator q' = hm_entry_allocator q"
    "hm_at minv T (q'\<lparr>hm_cur_size := k\<rparr>) (\<lambda>i. if i \<in> {..<hm_total_size q} then [] else bucket_nodes T q i)
      (B |` (- (\<Union>i < hm_total_size q. set (bucket_nodes T q i))))"
    using unbind_buckets_at [OF A', of "[0..<hm_total_size q]"] by (auto simp: atLeast0LessThan)
  have "hm_at minv T (q'\<lparr>hm_cur_size := 0\<rparr>) (\<lambda>_. []) (B |` (- set (hm_all T q)))"
    using U(6) U(3) unfolding hm_at_def hm_entries_at [OF A] by simp
  then show ?thesis using U by (auto simp: unbind_all_i_def)
qed

lemma hm_close_i_correct:
  assumes "hm_inv minv T q B"
  shows "\<exists>q'. hm_close_i ops T q = Some (q', 0) \<and> hm_closed q' \<and> minv (hm_mem q') (B |` (- hm_own T q))"
proof -
  note A = assms [unfolded hm_inv_def]
  obtain q1 where U: "unbind_all_i ops T q = Some (q1, 0)" "hm_table q1 = hm_table q" "hm_total_size q1 = hm_total_size q"
    "hm_table_allocator q1 = hm_table_allocator q" "hm_at minv T q1 (\<lambda>_. []) (B |` (- set (hm_all T q)))"
    using unbind_all_at [OF assms] by blast
  have "hm_cur_size q1 = 0" using hm_atD(10) [OF U(5)] by simp
  moreover have "minv (al_free ops (hm_mem q1) (hm_table_allocator q1) (hm_table q1)) ((B |` (- set (hm_all T q)))(hm_table q1 := None))"
    by (rule free [OF hm_atD(3,4) [OF U(5)]])
  moreover have "(B |` (- set (hm_all T q)))(hm_table q1 := None) = B |` (- hm_own T q)"
    unfolding U(2) hm_own_def by (auto simp: restrict_map_def fun_eq_iff)
  ultimately show ?thesis
    using U(1) hm_atD(1) [OF A] by (auto simp: hm_close_i_def hm_closed_def hm_free_def)
qed

lemma init_sentinels_fields [simp]:
  "hm_mem (init_sentinels T is q) = hm_mem q" "hm_table (init_sentinels T is q) = hm_table q"
  "hm_total_size (init_sentinels T is q) = hm_total_size q" "hm_cur_size (init_sentinels T is q) = hm_cur_size q"
  "hm_table_allocator (init_sentinels T is q) = hm_table_allocator q"
  "hm_entry_allocator (init_sentinels T is q) = hm_entry_allocator q"
  "sentinel T (init_sentinels T is q) = sentinel T q"
  by (induction "is" arbitrary: q) simp_all

lemma init_sentinels_links:
  "hnxt (init_sentinels T is q) a = (if a \<in> sentinel T q ` set is then a else hnxt q a)"
  "hprv (init_sentinels T is q) a = (if a \<in> sentinel T q ` set is then a else hprv q a)"
  by (induction "is" arbitrary: q) auto

lemma create_buckets_correct:
  assumes c: "hm_closed q" and m: "minv (hm_mem q) B" and sz: "0 < unat sz" "unat sz * sizeof_entry T < 2 ^ 63"
  shows "(\<exists>q'. create_buckets ops T sz q = (q', -1) \<and> hm_closed q' \<and> minv (hm_mem q') B \<and> hm_errno q' = Some ENOMEM) \<or>
    (\<exists>q' p. create_buckets ops T sz q = (q', 0) \<and> hm_table q' = p \<and> B p = None \<and> hm_total_size q' = unat sz \<and>
       hm_at minv T q' (\<lambda>_. []) (B(p \<mapsto> (hm_table_allocator q, unat sz * sizeof_entry T))))"
proof -
  let ?n = "sz * of_nat (sizeof_entry T)"
  have n: "unat ?n = unat sz * sizeof_entry T"
    using sz(2) size_pos(2) by (subst unat_mult_lem [THEN iffD1]) simp_all
  obtain m' p where p: "al_malloc ops (hm_mem q) (hm_table_allocator q) ?n = (m', p)" by fastforce
  show ?thesis
  proof (cases "p = NULL")
    case True
    then show ?thesis
      using malloc_fails [OF m] p c by (simp add: create_buckets_def hm_malloc_def hm_closed_def)
  next
    case False
    let ?q = "init_sentinels T [0..<unat sz] (q\<lparr>hm_mem := m', hm_table := p, hm_total_size := unat sz\<rparr>)"
    have pos: "0 < unat ?n" "unat ?n < 2 ^ 63" using n sz size_pos(1) by simp_all
    have f: "B p = None" "minv m' (B(p \<mapsto> (hm_table_allocator q, unat sz * sizeof_entry T)))"
      using malloc_fresh [OF m pos p False] malloc [OF m pos p False] n by simp_all
    have "hm_at minv T ?q (\<lambda>_. []) (B(p \<mapsto> (hm_table_allocator q, unat sz * sizeof_entry T)))"
      using False sz(1) f c unfolding hm_at_def
      by (simp add: ring_def init_sentinels_links hm_closed_def)
    then show ?thesis using p False f by (auto simp: create_buckets_def hm_malloc_def)
  qed
qed

lemma empty_table:
  assumes "hm_at minv T q (\<lambda>_. []) B"
  shows "hm_inv minv T q B" "hm_all T q = []" "hm_map T q = Map.empty" "hm_cur_size q = 0"
proof -
  show all: "hm_all T q = []" using hm_all_at [OF assms] by simp
  show "hm_map T q = Map.empty" by (simp add: fun_eq_iff hm_map_def all)
  show "hm_inv minv T q B" "hm_cur_size q = 0" using hm_invI [OF assms] hm_atD(10) [OF assms] by simp_all
qed

text \<open>Opening, from a closed or an open map.\<close>

lemma hm_close_any:
  assumes "hm_closed q \<and> minv (hm_mem q) B0 \<or> hm_inv minv T q B \<and> B0 = B |` (- hm_own T q)"
  shows "\<exists>q'. hm_close_i ops T q = Some (q', 0) \<and> hm_closed q' \<and> minv (hm_mem q') B0"
  using assms hm_close_i_correct [of q B] by (auto simp: hm_close_i_def hm_closed_def)

lemma hm_open_correct:
  assumes "hm_closed q \<and> minv (hm_mem q) B0 \<or> hm_inv minv T q B \<and> B0 = B |` (- hm_own T q)"
    and "unat sz * sizeof_entry T < 2 ^ 63"
  shows "\<exists>q' r. hm_open ops T sz ta ea q = Some (q', r) \<and>
    (r = -1 \<and> hm_closed q' \<and> minv (hm_mem q') B0 \<or>
     r = 0 \<and> sz \<noteq> 0 \<and> hm_total_size q' = unat sz \<and> hm_map T q' = Map.empty \<and> hm_cur_size q' = 0 \<and>
     B0 (hm_table q') = None \<and> hm_own T q' = {hm_table q'} \<and>
     hm_inv minv T q' (B0(hm_table q' \<mapsto> (if ta = NULL then al_instance ops else ta, unat sz * sizeof_entry T))))"
proof -
  obtain q1 where q1: "hm_close_i ops T q = Some (q1, 0)" "hm_closed q1" "minv (hm_mem q1) B0"
    using hm_close_any [OF assms(1)] by blast
  let ?ta = "if ta = NULL then al_instance ops else ta"
  let ?q = "q1\<lparr>hm_table_allocator := ?ta, hm_entry_allocator := if ea = NULL then ?ta else ea\<rparr>"
  have c: "hm_closed ?q" "minv (hm_mem ?q) B0" using q1 by (simp_all add: hm_closed_def)
  have o: "hm_open ops T sz ta ea q = (if sz = 0 then Some (?q, -1) else Some (create_buckets ops T sz ?q))"
    using q1(1) by (simp add: hm_open_def Let_def)
  show ?thesis
  proof (cases "sz = 0")
    case True
    then show ?thesis using o c by simp
  next
    case False
    then have "0 < unat sz" by (simp add: unat_gt_0)
    from create_buckets_correct [OF c this assms(2)] show ?thesis
    proof (elim disjE exE conjE)
      fix q' assume "create_buckets ops T sz ?q = (q', -1)" "hm_closed q'" "minv (hm_mem q') B0"
      then show ?thesis using o False by simp
    next
      fix q' p assume q': "create_buckets ops T sz ?q = (q', 0)" "hm_table q' = p" "B0 p = None" "hm_total_size q' = unat sz"
        "hm_at minv T q' (\<lambda>_. []) (B0(p \<mapsto> (hm_table_allocator ?q, unat sz * sizeof_entry T)))"
      then show ?thesis using o False empty_table [OF q'(5)] by (simp add: hm_own_def)
    qed
  qed
qed

end

text \<open>Closing a closed map does nothing; binding in it steps through the null table once an entry is allocated.\<close>

lemma closed_find: "hm_closed q \<Longrightarrow> shared_find T k e l q = Some (q\<lparr>hm_errno := Some ENOENT\<rparr>, e, l, -1)"
  by (simp add: shared_find_def hm_closed_def)

lemma closed_bind:
  assumes "hm_closed q"
  shows "bind_i_entry ops T k v e q =
    (if snd (entry_malloc ops T q) = NULL
     then Some (q\<lparr>hm_mem := fst (entry_malloc ops T q), hm_errno := Some ENOMEM\<rparr>, e, -1) else None)"
proof -
  obtain m p where "entry_malloc ops T q = (m, p)" by fastforce
  then show ?thesis
    using assms by (auto simp: bind_i_entry_def closed_find entry_malloc_def hm_malloc_def hm_closed_def)
qed

end
