(* ===== verification/ACE_Hash_Map_Iter.thy ===== *)
theory ACE_Hash_Map_Iter
  imports ACE_Hash_Map_Life
begin

text \<open>
  The iterators of the hash map: a loop over the forward iterator visits every entry once, bucket by
  bucket; the reverse iterator visits them in the opposite order.
\<close>

section \<open>The loops of a client\<close>

text \<open>
  \<open>for (it = begin (); it.next (entry) != 0; it.advance ())\<close>, and the same with the reverse iterator.
\<close>

partial_function (option) visit_forward ::
  "'k hm_traits \<Rightarrow> ('k, 'v, 'm) hash_map \<Rightarrow> hm_iterator \<Rightarrow> addr list option" where
  "visit_forward T q it =
     (case hi_next_entry T q it of
        None \<Rightarrow> Some []
      | Some e \<Rightarrow> Option.bind (visit_forward T q (fst (forward_i T q it))) (\<lambda>es. Some (e # es)))"

partial_function (option) visit_reverse ::
  "'k hm_traits \<Rightarrow> ('k, 'v, 'm) hash_map \<Rightarrow> hm_iterator \<Rightarrow> addr list option" where
  "visit_reverse T q it =
     (case hi_next_entry T q it of
        None \<Rightarrow> Some []
      | Some e \<Rightarrow> Option.bind (visit_reverse T q (fst (reverse_i T q it))) (\<lambda>es. Some (e # es)))"

declare visit_forward.simps [code] visit_reverse.simps [code]

lemma ring_prev_before:
  assumes "ring nxt prv h (ys @ zs)"
  shows "prv (hd (zs @ [h])) = last (h # ys)"
proof (cases zs)
  case Nil
  then show ?thesis using ring_last [OF assms] by simp
next
  case (Cons b bs)
  then show ?thesis using ring_neighbours(1) [of nxt prv h ys b bs] assms by simp
qed

context hash_table
begin

section \<open>Looking for the next bucket\<close>

lemma forward_scan_at:
  assumes A: "hm_at minv T q X B"
  shows "j \<le> hm_total_size q \<Longrightarrow> hi_index it = int j - 1 \<Longrightarrow>
    (if concat (map X [j..<hm_total_size q]) = [] then hi_index (forward_scan T q it) = int (hm_total_size q)
     else \<exists>k. j \<le> k \<and> k < hm_total_size q \<and> X k \<noteq> [] \<and> forward_scan T q it = \<lparr>hi_index = int k, hi_next = hd (X k)\<rparr> \<and>
       concat (map X [j..<hm_total_size q]) = X k @ concat (map X [Suc k..<hm_total_size q]))"
proof (induction "hm_total_size q - j" arbitrary: j it)
  case 0
  then show ?case by (subst forward_scan.simps) simp
next
  case (Suc d)
  then have j: "j < hm_total_size q" by simp
  have u: "[j..<hm_total_size q] = j # [Suc j..<hm_total_size q]" using j by (rule upt_conv_Cons)
  note r = hm_atD(5) [OF A j]
  have nx: "hnxt q (sentinel T q j) = hd (X j @ [sentinel T q j])" by (rule ring_first [OF r])
  show ?case
  proof (cases "X j")
    case Nil
    let ?it = "\<lparr>hi_index = int j, hi_next = sentinel T q j\<rparr>"
    have "forward_scan T q it = forward_scan T q ?it"
      using Suc.prems(2) j nx Nil by (subst forward_scan.simps) (simp add: Let_def)
    moreover have "d = hm_total_size q - Suc j" "Suc j \<le> hm_total_size q" "hi_index ?it = int (Suc j) - 1"
      using Suc(2) j by simp_all
    note Suc.hyps(1) [OF this]
    ultimately show ?thesis using Nil u by (auto split: if_splits)
  next
    case (Cons b bs)
    have "sentinel T q j \<noteq> b" using r Cons by (auto simp: ring_def)
    then have "forward_scan T q it = \<lparr>hi_index = int j, hi_next = b\<rparr>"
      using Suc.prems(2) j nx Cons by (subst forward_scan.simps) (simp add: Let_def)
    then show ?thesis using Cons u j by auto
  qed
qed

lemma reverse_scan_at:
  assumes A: "hm_at minv T q X B"
  shows "j \<le> hm_total_size q \<Longrightarrow> hi_index it = int j \<Longrightarrow>
    (if concat (map X [0..<j]) = [] then hi_index (reverse_scan T q it) = -1
     else \<exists>k < j. X k \<noteq> [] \<and> reverse_scan T q it = \<lparr>hi_index = int k, hi_next = last (X k)\<rparr> \<and>
       concat (map X [0..<j]) = concat (map X [0..<k]) @ X k)"
proof (induction j arbitrary: it)
  case 0
  then show ?case by (subst reverse_scan.simps) simp
next
  case (Suc j)
  then have j: "j < hm_total_size q" by simp
  note r = hm_atD(5) [OF A j]
  have nx: "hprv q (sentinel T q j) = last (sentinel T q j # X j)" by (rule ring_last [OF r])
  show ?case
  proof (cases "X j = []")
    case True
    let ?it = "\<lparr>hi_index = int j, hi_next = sentinel T q j\<rparr>"
    have "reverse_scan T q it = reverse_scan T q ?it"
      using Suc.prems(2) nx True by (subst reverse_scan.simps) (simp add: Let_def)
    moreover have "j \<le> hm_total_size q" "hi_index ?it = int j" using j by simp_all
    note Suc.IH [OF this]
    ultimately show ?thesis using True by (auto split: if_splits intro: less_SucI)
  next
    case False
    then have l: "last (sentinel T q j # X j) = last (X j)" "last (X j) \<in> set (X j)" by simp_all
    then have "last (X j) \<noteq> sentinel T q j" using r by (auto simp: ring_def)
    then have "reverse_scan T q it = \<lparr>hi_index = int j, hi_next = last (X j)\<rparr>"
      using Suc.prems(2) nx l by (subst reverse_scan.simps) (simp add: Let_def)
    then show ?thesis using False by auto
  qed
qed

section \<open>Walking\<close>

lemma hi_next_entry_at:
  assumes A: "hm_at minv T q X B" and i: "i < hm_total_size q" "a \<in> set (X i)"
  shows "hi_next_entry T q \<lparr>hi_index = int i, hi_next = a\<rparr> = Some a"
  using hm_atD(1) [OF A] i sentinel_not_entry [OF A i(1) i(1)] by (auto simp: hi_next_entry_def)

lemma forward_i_inside:
  assumes "hm_at minv T q X B"
  shows "forward_i T q \<lparr>hi_index = int i, hi_next = a\<rparr> = forward_step T q \<lparr>hi_index = int i, hi_next = a\<rparr>"
  using hm_atD(1) [OF assms] by (simp add: forward_i_def)

lemma reverse_i_inside:
  assumes "hm_at minv T q X B" "i < hm_total_size q"
  shows "reverse_i T q \<lparr>hi_index = int i, hi_next = a\<rparr> = reverse_step T q \<lparr>hi_index = int i, hi_next = a\<rparr>"
  using hm_atD(1) [OF assms(1)] assms(2) by (simp add: reverse_i_def)

lemma visit_forward_from:
  assumes A: "hm_at minv T q X B"
  shows "i < hm_total_size q \<Longrightarrow> X i = ys @ zs \<Longrightarrow>
    visit_forward T q (fst (forward_step T q \<lparr>hi_index = int i, hi_next = last (sentinel T q i # ys)\<rparr>)) =
      Some (zs @ concat (map X [Suc i..<hm_total_size q]))"
proof (induction "length (zs @ concat (map X [Suc i..<hm_total_size q]))" arbitrary: i ys zs rule: less_induct)
  case less
  let ?it = "\<lparr>hi_index = int i, hi_next = last (sentinel T q i # ys)\<rparr>"
  let ?rest = "concat (map X [Suc i..<hm_total_size q])"
  note r = hm_atD(5) [OF A less.prems(1)]
  have nx: "hnxt q (last (sentinel T q i # ys)) = hd (zs @ [sentinel T q i])"
    using ring_next_after [of "hnxt q" "hprv q" "sentinel T q i" ys zs] r less.prems(2) by simp
  show ?case
  proof (cases zs)
    case (Cons b bs)
    have b: "b \<in> set (X i)" "b \<noteq> sentinel T q i" using Cons less.prems(2) r by (auto simp: ring_def)
    have s: "fst (forward_step T q ?it) = \<lparr>hi_index = int i, hi_next = b\<rparr>"
      using less.prems(1) nx Cons b(2) by (simp add: forward_step_def Let_def)
    have "visit_forward T q (fst (forward_step T q \<lparr>hi_index = int i, hi_next = b\<rparr>)) = Some (bs @ ?rest)"
      using less.hyps [of bs i "ys @ [b]"] Cons less.prems by simp
    then show ?thesis
      unfolding s using Cons
      by (subst visit_forward.simps) (simp add: hi_next_entry_at [OF A less.prems(1) b(1)] forward_i_inside [OF A])
  next
    case Nil
    let ?it1 = "\<lparr>hi_index = int i, hi_next = sentinel T q i\<rparr>"
    have s: "fst (forward_step T q ?it) = forward_scan T q ?it1"
      using less.prems(1) nx Nil by (simp add: forward_step_def Let_def)
    have j: "Suc i \<le> hm_total_size q" "hi_index ?it1 = int (Suc i) - 1" using less.prems(1) by simp_all
    note S = forward_scan_at [OF A j]
    show ?thesis
    proof (cases "?rest = []")
      case True
      then have "hi_next_entry T q (forward_scan T q ?it1) = None" using S by (simp add: hi_next_entry_def)
      then show ?thesis unfolding s using True Nil by (subst visit_forward.simps) simp
    next
      case False
      then obtain k where k: "k < hm_total_size q" "X k \<noteq> []" "forward_scan T q ?it1 = \<lparr>hi_index = int k, hi_next = hd (X k)\<rparr>"
        "?rest = X k @ concat (map X [Suc k..<hm_total_size q])" using S [unfolded if_not_P [OF False]] by blast
      have x: "X k = [hd (X k)] @ tl (X k)" using k(2) by simp
      have "visit_forward T q (fst (forward_step T q \<lparr>hi_index = int k, hi_next = last (sentinel T q k # [hd (X k)])\<rparr>)) =
          Some (tl (X k) @ concat (map X [Suc k..<hm_total_size q]))"
        using k(2,4) Nil by (intro less.hyps k(1) x) (cases "X k", auto)
      then show ?thesis
        using k Nil hi_next_entry_at [OF A k(1), of "hd (X k)"]
        unfolding s by (subst visit_forward.simps) (simp add: forward_i_inside [OF A])
    qed
  qed
qed

lemma visit_reverse_from:
  assumes A: "hm_at minv T q X B"
  shows "i < hm_total_size q \<Longrightarrow> X i = ys @ zs \<Longrightarrow>
    visit_reverse T q (fst (reverse_step T q \<lparr>hi_index = int i, hi_next = hd (zs @ [sentinel T q i])\<rparr>)) =
      Some (rev (concat (map X [0..<i]) @ ys))"
proof (induction "length (concat (map X [0..<i]) @ ys)" arbitrary: i ys zs rule: less_induct)
  case less
  let ?it = "\<lparr>hi_index = int i, hi_next = hd (zs @ [sentinel T q i])\<rparr>"
  let ?rest = "concat (map X [0..<i])"
  note r = hm_atD(5) [OF A less.prems(1)]
  have nx: "hprv q (hd (zs @ [sentinel T q i])) = last (sentinel T q i # ys)"
    using ring_prev_before [of "hnxt q" "hprv q" "sentinel T q i" ys zs] r less.prems(2) by simp
  show ?case
  proof (cases ys rule: rev_cases)
    case (snoc bs b)
    have b: "b \<in> set (X i)" "b \<noteq> sentinel T q i" using snoc less.prems(2) r by (auto simp: ring_def)
    have s: "fst (reverse_step T q ?it) = \<lparr>hi_index = int i, hi_next = b\<rparr>"
      using nx snoc b(2) by (simp add: reverse_step_def Let_def)
    have "visit_reverse T q (fst (reverse_step T q \<lparr>hi_index = int i, hi_next = hd ((b # zs) @ [sentinel T q i])\<rparr>)) =
        Some (rev (?rest @ bs))"
      using snoc less.prems by (intro less.hyps) auto
    then show ?thesis
      unfolding s using snoc by (subst visit_reverse.simps)
        (simp add: hi_next_entry_at [OF A less.prems(1) b(1)] reverse_i_inside [OF A less.prems(1)])
  next
    case Nil
    let ?it1 = "\<lparr>hi_index = int i, hi_next = sentinel T q i\<rparr>"
    have s: "fst (reverse_step T q ?it) = reverse_scan T q ?it1"
      using nx Nil by (simp add: reverse_step_def Let_def)
    have j: "i \<le> hm_total_size q" "hi_index ?it1 = int i" using less.prems(1) by simp_all
    note S = reverse_scan_at [OF A j]
    show ?thesis
    proof (cases "?rest = []")
      case True
      then have "hi_next_entry T q (reverse_scan T q ?it1) = None" using S by (simp add: hi_next_entry_def)
      then show ?thesis unfolding s using True Nil by (subst visit_reverse.simps) simp
    next
      case False
      then obtain k where k: "k < i" "X k \<noteq> []" "reverse_scan T q ?it1 = \<lparr>hi_index = int k, hi_next = last (X k)\<rparr>"
        "?rest = concat (map X [0..<k]) @ X k" using S [unfolded if_not_P [OF False]] by blast
      have kt: "k < hm_total_size q" using k(1) less.prems(1) by simp
      have x: "X k = butlast (X k) @ [last (X k)]" using k(2) by simp
      have "visit_reverse T q (fst (reverse_step T q \<lparr>hi_index = int k, hi_next = hd ([last (X k)] @ [sentinel T q k])\<rparr>)) =
          Some (rev (concat (map X [0..<k]) @ butlast (X k)))"
        using k(2,4) Nil by (intro less.hyps kt x) (cases "X k" rule: rev_cases, auto)
      moreover have "last (X k) # rev (butlast (X k)) = rev (X k)" using k(2) by (cases "X k" rule: rev_cases) auto
      ultimately show ?thesis
        using k Nil hi_next_entry_at [OF A kt, of "last (X k)"]
        unfolding s by (subst visit_reverse.simps) (simp add: reverse_i_inside [OF A kt])
    qed
  qed
qed

lemma visit_forward_all:
  assumes "hm_inv minv T q B"
  shows "visit_forward T q (hm_begin T q) = Some (hm_all T q)"
proof -
  note A = assms [unfolded hm_inv_def]
  have "visit_forward T q (fst (forward_step T q \<lparr>hi_index = int 0, hi_next = last (sentinel T q 0 # [])\<rparr>)) =
      Some (bucket_nodes T q 0 @ concat (map (bucket_nodes T q) [Suc 0..<hm_total_size q]))"
    using hm_atD(2) [OF A] by (intro visit_forward_from [OF A]) auto
  moreover have "hm_all T q = bucket_nodes T q 0 @ concat (map (bucket_nodes T q) [Suc 0..<hm_total_size q])"
    using hm_atD(2) [OF A] by (simp add: hm_all_def upt_conv_Cons)
  ultimately show ?thesis using hm_atD(1) [OF A] by (simp add: hm_begin_def forward_i_def hi_base_init_def)
qed

lemma visit_reverse_all:
  assumes "hm_inv minv T q B"
  shows "visit_reverse T q (hm_rbegin T q) = Some (rev (hm_all T q))"
proof -
  note A = assms [unfolded hm_inv_def]
  obtain n where n: "hm_total_size q = Suc n" using hm_atD(2) [OF A] by (cases "hm_total_size q") auto
  have "visit_reverse T q (fst (reverse_step T q \<lparr>hi_index = int n, hi_next = hd ([] @ [sentinel T q n])\<rparr>)) =
      Some (rev (concat (map (bucket_nodes T q) [0..<n]) @ bucket_nodes T q n))"
    using n by (intro visit_reverse_from [OF A]) auto
  then show ?thesis
    using hm_atD(1) [OF A] n by (simp add: hm_rbegin_def reverse_i_def hi_base_init_def hm_all_def)
qed

end

end
