(* ===== verification/ACE_Hash_Map_Props.thy ===== *)
theory ACE_Hash_Map_Props
  imports ACE_Hash_Map_Iter
begin

text \<open>
  The hash and comparison functors of the library (\<^verbatim>\<open>Functor.inl\<close>, \<^verbatim>\<open>ACE.cpp\<close>), the hash map on them and on the static
  allocator, and the properties of the hash map.
\<close>

section \<open>Functors\<close>

definition hash_uint32 :: "32 word \<Rightarrow> 64 word" where
  "hash_uint32 t = ucast t"

definition equal_uint32 :: "32 word \<Rightarrow> 32 word \<Rightarrow> bool" where
  "equal_uint32 lhs rhs \<longleftrightarrow> lhs = rhs"

text \<open>
  \<open>ACE::hash_pjw\<close>: a step for each character. A character is signed and widened before it is multiplied; \<open>u_long\<close> has 64
  bits, of which only the bits 28 to 31 are folded back.
\<close>

definition pjw_step :: "64 word \<Rightarrow> byte \<Rightarrow> 64 word" where
  "pjw_step hash temp =
     (let h1 = push_bit 4 hash + of_int (sint temp * 13);
          g = and h1 0xf0000000
      in if g \<noteq> 0 then xor (xor h1 (drop_bit 24 g)) g else h1)"

definition hash_pjw :: "byte list \<Rightarrow> 64 word" where
  "hash_pjw str = foldl pjw_step 0 str"

text \<open>\<open>strcmp\<close> on the characters in front of the terminating zero.\<close>

fun strcmp :: "byte list \<Rightarrow> byte list \<Rightarrow> int" where
  "strcmp [] [] = 0"
| "strcmp [] (b # bs) = -1"
| "strcmp (a # as) [] = 1"
| "strcmp (a # as) (b # bs) = (if a = b then strcmp as bs else if a < b then -1 else 1)"

definition equal_str :: "byte list \<Rightarrow> byte list \<Rightarrow> bool" where
  "equal_str lhs rhs \<longleftrightarrow> strcmp lhs rhs = 0"

definition uint32_traits :: "32 word hm_traits" where
  "uint32_traits = \<lparr>hash_key = hash_uint32, compare_keys = equal_uint32, sizeof_entry = 24\<rparr>"

definition string_traits :: "byte list hm_traits" where
  "string_traits = \<lparr>hash_key = hash_pjw, compare_keys = equal_str, sizeof_entry = 32\<rparr>"

lemma strcmp_0_iff: "strcmp a b = 0 \<longleftrightarrow> a = b"
  by (induction a b rule: strcmp.induct) auto

lemma uint32_traits_ok: "traits_ok uint32_traits"
  by (auto simp: traits_ok_def uint32_traits_def equal_uint32_def intro!: equivpI reflpI sympI transpI)

lemma string_traits_ok: "traits_ok string_traits"
  by (auto simp: traits_ok_def string_traits_def equal_str_def strcmp_0_iff intro!: equivpI reflpI sympI transpI)

interpretation hu: hash_table "static_ops inst" pool_inv uint32_traits for inst
  by unfold_locales (rule uint32_traits_ok)

interpretation hs: hash_table "static_ops inst" pool_inv string_traits for inst
  by unfold_locales (rule string_traits_ok)

lemma uint32_compare [simp]: "compare_keys uint32_traits a b \<longleftrightarrow> a = b"
  by (simp add: uint32_traits_def equal_uint32_def)

section \<open>A map on a static buffer\<close>

definition pools0 :: static_pools where
  "pools0 = (\<lambda>al. if al = 1 then static_init 1000 200 else static_init 0 0)"

definition hmap0 :: "(32 word, nat, static_pools) hash_map" where
  "hmap0 = \<lparr>hm_mem = pools0, hm_store = (\<lambda>_. \<lparr>ext_id = 0, int_id = 0, he_next = 0, he_prev = 0\<rparr>),
     hm_table_allocator = 0, hm_entry_allocator = 0, hm_table = NULL, hm_total_size = 0, hm_cur_size = 0, hm_errno = None\<rparr>"

definition hmap1 :: "(32 word, nat, static_pools) hash_map" where
  "hmap1 = fst (the (hm_open (static_ops 1) uint32_traits 2 NULL NULL hmap0))"

text \<open>Keys 5 and 9 share the second of two buckets.\<close>

definition hmap2 :: "(32 word, nat, static_pools) hash_map" where
  "hmap2 = fst (the (hm_run (static_ops 1) uint32_traits 0 [Bind 5 50, Bind 9 90] hmap1))"

lemma pools0_inv: "pool_inv pools0 Map.empty"
  by (simp add: pool_inv_def pools0_def static_init_def)

lemma hmap0_closed: "hm_closed hmap0" "pool_inv (hm_mem hmap0) Map.empty"
  using pools0_inv by (simp_all add: hmap0_def hm_closed_def)

lemma hmap1_inv: "hm_inv pool_inv uint32_traits hmap1 [1000 \<mapsto> (1, 48)]" "hm_map uint32_traits hmap1 = Map.empty"
proof -
  have s: "unat (2 :: 64 word) * sizeof_entry uint32_traits < 2 ^ 63" by (simp add: uint32_traits_def)
  have r: "map_option snd (hm_open (static_ops 1) uint32_traits 2 NULL NULL hmap0) = Some 0" "hm_table hmap1 = 1000"
    by code_simp+
  have c: "hm_closed hmap0 \<and> pool_inv (hm_mem hmap0) Map.empty \<or>
      hm_inv pool_inv uint32_traits hmap0 Map.empty \<and> Map.empty = Map.empty |` (- hm_own uint32_traits hmap0)"
    using hmap0_closed by simp
  obtain q' r where "hm_open (static_ops 1) uint32_traits 2 NULL NULL hmap0 = Some (q', r)"
    "r = -1 \<or> hm_map uint32_traits q' = Map.empty \<and> hm_inv pool_inv uint32_traits q'
      (Map.empty(hm_table q' \<mapsto> (al_instance (static_ops 1), unat (2 :: 64 word) * sizeof_entry uint32_traits)))"
    using hu.hm_open_correct [OF c s, of 1 NULL NULL] by auto
  then show "hm_inv pool_inv uint32_traits hmap1 [1000 \<mapsto> (1, 48)]" "hm_map uint32_traits hmap1 = Map.empty"
    using r by (auto simp: hmap1_def static_ops_def uint32_traits_def)
qed

lemma hmap2_inv: "\<exists>B. hm_inv pool_inv uint32_traits hmap2 B"
  using hu.hm_run_refines [OF hmap1_inv(1), of 1 0 "[Bind 5 50, Bind 9 90]"] by (auto simp: hmap2_def)

lemma hmap2_shape:
  "hm_total_size hmap2 = 2" "hm_cur_size hmap2 = 2" "hm_all uint32_traits hmap2 = [1072, 1048]"
  "map (hkey hmap2) [1072, 1048] = [9, 5]" "map (hval hmap2) [1072, 1048] = [90, 50]"
proof -
  have "(hm_total_size hmap2, hm_cur_size hmap2, hm_all uint32_traits hmap2,
      map (hkey hmap2) [1072, 1048], map (hval hmap2) [1072, 1048]) = (2, 2, [1072, 1048], [9, 5], [90, 50])"
    by code_simp
  then show "hm_total_size hmap2 = 2" "hm_cur_size hmap2 = 2" "hm_all uint32_traits hmap2 = [1072, 1048]"
    "map (hkey hmap2) [1072, 1048] = [9, 5]" "map (hval hmap2) [1072, 1048] = [90, 50]" by simp_all
qed

lemma hmap2_map: "hm_map uint32_traits hmap2 k = (if k = 9 then Some 90 else if k = 5 then Some 50 else None)"
  using hmap2_shape by (simp add: hm_map_def)

section \<open>Properties\<close>





text \<open>C30: rebinding, in the overload that passes out the old item and the entry. A bound key gets the new item, the old
  item and its entry are passed out and the result is 1. A key that is not bound is bound as by \<open>bind\<close>; the entry the
  caller passed in stays as it was, although the documentation promises the new entry.\<close>

theorem hash_map_rebind:
  assumes "allocator ops minv" "traits_ok T" "hm_inv minv T q B"
  shows "(\<exists>q' a. entry_of T q k a \<and> rebind_i_old_entry ops T k v old e q = Some (q', hval q a, a, 1) \<and>
       rebound minv T q B k v q') \<or>
    (\<exists>q' a. snd (entry_malloc ops T q) = a \<and> rebind_i_old_entry ops T k v old e q = Some (q', old, e, 0) \<and>
       bound_new minv T q B k v q' a) \<or>
    (\<exists>q'. snd (entry_malloc ops T q) = NULL \<and> rebind_i_old_entry ops T k v old e q = Some (q', old, e, -1) \<and>
       bind_failed minv T q B k q')"
proof -
  have H: "hash_table ops minv T" using assms(1,2) by (simp add: hash_table_def hash_table_axioms_def)
  show ?thesis using hash_table.rebind_i_old_entry_correct [OF H assms(3), of k v old e] by blast
qed

theorem hash_map_rebind_witness:
  "\<exists>q'. rebind_i_old_entry (static_ops 1) uint32_traits 5 51 0 NULL hmap2 = Some (q', 50, 1048, 1) \<and>
     hm_map uint32_traits q' 5 = Some 51 \<and> hm_map uint32_traits q' 9 = Some 90"
proof -
  obtain B where B: "hm_inv pool_inv uint32_traits hmap2 B" using hmap2_inv by blast
  have n: "\<not> bound_new pool_inv uint32_traits hmap2 B 5 51 q' a" "\<not> bind_failed pool_inv uint32_traits hmap2 B 5 q'" for q' a
    by (simp_all add: bound_new_def bind_failed_def hmap2_map)
  obtain q' a where r: "entry_of uint32_traits hmap2 5 a"
    "rebind_i_old_entry (static_ops 1) uint32_traits 5 51 0 NULL hmap2 = Some (q', hval hmap2 a, a, 1)"
    "rebound pool_inv uint32_traits hmap2 B 5 51 q'"
    using hash_map_rebind [OF sp.allocator_axioms [of 1] uint32_traits_ok B, of 5 51 0 NULL] n by blast
  have "a = 1048" using r(1) hmap2_shape by (auto simp: entry_of_def)
  then show ?thesis
    using r hmap2_shape by (auto simp: rebound_def map_bind_def hmap2_map)
qed

text \<open>Opening and closing. \<open>close\<close> returns and gives back exactly the table and the entries of the map; the blocks of
  others stay. \<open>open\<close>, on an open map as well as on a closed one, closes it first; it either leaves a closed map and
  returns -1, or an empty map of the size asked for whose only memory is its table.\<close>

theorem hash_map_open_close:
  assumes "allocator ops minv" "traits_ok T" "hm_inv minv T q B" "unat sz * sizeof_entry T < 2 ^ 63"
  shows "(\<exists>q'. hm_close_i ops T q = Some (q', 0) \<and> hm_closed q' \<and> minv (hm_mem q') (B |` (- hm_own T q))) \<and>
    (\<exists>q' r. hm_open ops T sz ta ea q = Some (q', r) \<and>
      (r = -1 \<and> hm_closed q' \<and> minv (hm_mem q') (B |` (- hm_own T q)) \<or>
       r = 0 \<and> sz \<noteq> 0 \<and> hm_total_size q' = unat sz \<and> hm_map T q' = Map.empty \<and> hm_cur_size q' = 0 \<and>
       hm_own T q' = {hm_table q'} \<and> hm_inv minv T q' ((B |` (- hm_own T q))(hm_table q' \<mapsto>
         (if ta = NULL then al_instance ops else ta, unat sz * sizeof_entry T)))))"
proof -
  have H: "hash_table ops minv T" using assms(1,2) by (simp add: hash_table_def hash_table_axioms_def)
  have "hm_closed q \<and> minv (hm_mem q) (B |` (- hm_own T q)) \<or> hm_inv minv T q B \<and> B |` (- hm_own T q) = B |` (- hm_own T q)"
    using assms(3) by simp
  from hash_table.hm_open_correct [OF H this assms(4), of ta ea] show ?thesis
    using hash_table.hm_close_i_correct [OF H assms(3)] by blast
qed

theorem hash_map_open_close_witness:
  "\<exists>q'. hm_close_i (static_ops 1) uint32_traits hmap2 = Some (q', 0) \<and> hm_closed q'"
proof -
  obtain B where B: "hm_inv pool_inv uint32_traits hmap2 B" using hmap2_inv by blast
  have "unat (1 :: 64 word) * sizeof_entry uint32_traits < 2 ^ 63" by (simp add: uint32_traits_def)
  from hash_map_open_close [OF sp.allocator_axioms [of 1] uint32_traits_ok B this] show ?thesis by blast
qed

text \<open>C31: loops over the iterators end. The forward iterator visits the entries bucket by bucket, each exactly once, and the
  reverse iterator the same entries in the opposite order; an entry is visited exactly when its key is bound to its
  item, and their number is \<open>current_size\<close>.\<close>

theorem hash_map_iterators:
  assumes "allocator ops minv" "traits_ok T" "hm_inv minv T q B"
  shows "visit_forward T q (hm_begin T q) = Some (hm_all T q) \<and>
    visit_reverse T q (hm_rbegin T q) = Some (rev (hm_all T q)) \<and>
    distinct (hm_all T q) \<and> length (hm_all T q) = hm_cur_size q \<and>
    (\<forall>k v. hm_map T q k = Some v \<longleftrightarrow> (\<exists>a \<in> set (hm_all T q). compare_keys T (hkey q a) k \<and> hval q a = v))"
proof -
  have H: "hash_table ops minv T" using assms(1,2) by (simp add: hash_table_def hash_table_axioms_def)
  note A = assms(3) [unfolded hm_inv_def]
  have "distinct (bucket_nodes T q i)" if "i < hm_total_size q" for i using hm_atD(5) [OF A that] by (simp add: ring_def)
  then have "distinct (hm_all T q)"
    unfolding hm_all_def using hash_table.buckets_disjoint [OF H A] by (intro distinct_concat_map) auto
  moreover have "length (hm_all T q) = hm_cur_size q"
    unfolding hm_atD(10) [OF A] hm_all_def by (simp add: length_concat comp_def interv_sum_list_conv_sum_set_nat atLeast0LessThan)
  ultimately show ?thesis
    using hash_table.visit_forward_all [OF H assms(3)] hash_table.visit_reverse_all [OF H assms(3)]
      hash_table.hm_map_Some [OF H A] by blast
qed

theorem hash_map_iterators_witness:
  "visit_forward uint32_traits hmap2 (hm_begin uint32_traits hmap2) = Some [1072, 1048] \<and>
   visit_reverse uint32_traits hmap2 (hm_rbegin uint32_traits hmap2) = Some [1048, 1072]"
proof -
  obtain B where B: "hm_inv pool_inv uint32_traits hmap2 B" using hmap2_inv by blast
  show ?thesis using hash_map_iterators [OF sp.allocator_axioms [of 1] uint32_traits_ok B] hmap2_shape(3) by simp
qed

text \<open>C32: a map that could not be opened is not safe to use. It finds nothing, but as soon as the allocator has memory for
  an entry, binding a key steps through the null pointer of its table.\<close>

theorem closed_hash_map_bind:
  assumes "hm_closed q" "snd (entry_malloc ops T q) \<noteq> NULL"
  shows "hm_find_key_i T k q = Some (q\<lparr>hm_errno := Some ENOENT\<rparr>, -1) \<and> hm_bind_i ops T k v q = None \<and>
    hm_rebind_i ops T k v q = None"
proof -
  let ?q = "q\<lparr>hm_errno := Some ENOENT\<rparr>"
  have "hm_closed ?q" "snd (entry_malloc ops T ?q) \<noteq> NULL" using assms by (simp_all add: hm_closed_def entry_malloc_def)
  then show ?thesis
    using assms by (simp add: hm_find_key_i_def hm_bind_i_def hm_rebind_i_def rebind_i_entry_def closed_find closed_bind)
qed

theorem closed_hash_map_bind_witness:
  "snd (the (hm_open (static_ops 1) uint32_traits 0 1 1 hmap0)) = -1 \<and>
   hm_bind_i (static_ops 1) uint32_traits 5 50 (fst (the (hm_open (static_ops 1) uint32_traits 0 1 1 hmap0))) = None"
proof -
  let ?q = "fst (the (hm_open (static_ops 1) uint32_traits 0 1 1 hmap0))"
  have r: "snd (the (hm_open (static_ops 1) uint32_traits 0 1 1 hmap0)) = -1"
    and c: "hm_table ?q = NULL" "hm_total_size ?q = 0" "hm_cur_size ?q = 0"
    and m: "snd (entry_malloc (static_ops 1) uint32_traits ?q) \<noteq> NULL" by code_simp+
  have "hm_closed ?q" using c by (simp add: hm_closed_def)
  from closed_hash_map_bind [OF this m] r show ?thesis by blast
qed

end
