(* ===== verification/ACE_CDR_Base.thy ===== *)
theory ACE_CDR_Base
  imports ACE_Allocator
begin

unbundle bit_operations_syntax

text \<open>
  The base of the CDR streams (\<^verbatim>\<open>CDR_Base.cpp\<close>, \<^verbatim>\<open>CDR_Base.inl\<close>, \<^verbatim>\<open>OS_Memory.h\<close>): memory as a function from
  addresses to bytes with loads and stores of either byte order, alignment of addresses, the byte
  swaps with masks and shifts, their unrolled versions for arrays, and the sizes to which buffers grow.
\<close>

section \<open>Memory\<close>

type_synonym memory = "addr \<Rightarrow> byte"

definition mem_read :: "memory \<Rightarrow> addr \<Rightarrow> nat \<Rightarrow> byte list" where
  "mem_read m p n = map m [p..<p + n]"

definition mem_write :: "memory \<Rightarrow> addr \<Rightarrow> byte list \<Rightarrow> memory" where
  "mem_write m p bs = (\<lambda>a. if p \<le> a \<and> a < p + length bs then bs ! (a - p) else m a)"

text \<open>The platform: its byte order and whether \<open>long\<close> has 64 bits.\<close>

record platform =
  little_endian :: bool
  sizeof_long_8 :: bool

text \<open>The bytes of a word, least significant first, and the word of such bytes.\<close>

definition bytes_le :: "nat \<Rightarrow> 'a :: len word \<Rightarrow> byte list" where
  "bytes_le n w = map (\<lambda>i. ucast (drop_bit (8 * i) w)) [0..<n]"

primrec word_of_le :: "byte list \<Rightarrow> 'a :: len word" where
  "word_of_le [] = 0"
| "word_of_le (b # bs) = ucast b OR push_bit 8 (word_of_le bs)"

text \<open>Dereferencing a pointer that has been cast to an integer of \<open>n\<close> bytes.\<close>

definition load :: "platform \<Rightarrow> nat \<Rightarrow> memory \<Rightarrow> addr \<Rightarrow> 'a :: len word" where
  "load pf n m p = word_of_le (if little_endian pf then mem_read m p n else rev (mem_read m p n))"

definition native :: "platform \<Rightarrow> nat \<Rightarrow> 'a :: len word \<Rightarrow> byte list" where
  "native pf n w = (if little_endian pf then bytes_le n w else rev (bytes_le n w))"

definition store :: "platform \<Rightarrow> nat \<Rightarrow> memory \<Rightarrow> addr \<Rightarrow> 'a :: len word \<Rightarrow> memory" where
  "store pf n m p w = mem_write m p (native pf n w)"

section \<open>Alignment\<close>

definition ACE_align_binary :: "64 word \<Rightarrow> 64 word \<Rightarrow> 64 word" where
  "ACE_align_binary ptr alignment = (let tmp = alignment - 1 in (ptr + tmp) AND NOT tmp)"

definition ACE_ptr_align_binary :: "addr \<Rightarrow> nat \<Rightarrow> addr" where
  "ACE_ptr_align_binary ptr alignment = unat (ACE_align_binary (of_nat ptr) (of_nat alignment))"

section \<open>Byte swaps\<close>

text \<open>
  The source of a swap may be a local variable, so it has a memory of its own; the array
  versions below run in one memory.
\<close>

definition swap_2_from :: "platform \<Rightarrow> memory \<Rightarrow> memory \<Rightarrow> addr \<Rightarrow> addr \<Rightarrow> memory" where
  "swap_2_from pf src m orig target =
     (let usrc = load pf 2 src orig :: 16 word
      in store pf 2 m target (push_bit 8 usrc OR drop_bit 8 usrc))"

definition bswap32 :: "32 word \<Rightarrow> 32 word" where
  "bswap32 x = push_bit 24 x OR push_bit 8 (x AND 0xff00) OR drop_bit 8 (x AND 0xff0000) OR drop_bit 24 x"

definition swap_4_from :: "platform \<Rightarrow> memory \<Rightarrow> memory \<Rightarrow> addr \<Rightarrow> addr \<Rightarrow> memory" where
  "swap_4_from pf src m orig target = store pf 4 m target (bswap32 (load pf 4 src orig))"

text \<open>The bytes of both halves of 64 bits reversed; \<open>swap_8\<close> then exchanges the halves.\<close>

definition bswap_halves :: "64 word \<Rightarrow> 64 word" where
  "bswap_halves x =
     (let x84 = push_bit 24 (x AND 0x000000ff000000ff);
          x73 = push_bit 8 (x AND 0x0000ff000000ff00);
          x62 = drop_bit 8 (x AND 0x00ff000000ff0000);
          x51 = drop_bit 24 (x AND 0xff000000ff000000)
      in x84 OR x73 OR x62 OR x51)"

definition swap_8_from :: "platform \<Rightarrow> memory \<Rightarrow> memory \<Rightarrow> addr \<Rightarrow> addr \<Rightarrow> memory" where
  "swap_8_from pf src m orig target =
     (if sizeof_long_8 pf
      then let x = bswap_halves (load pf 8 src orig)
           in store pf 8 m target (push_bit 32 x OR drop_bit 32 x)
      else let x = bswap32 (load pf 4 src orig); y = bswap32 (load pf 4 src (orig + 4))
           in store pf 4 (store pf 4 m target y) (target + 4) x)"

abbreviation (input) swap_2 :: "platform \<Rightarrow> memory \<Rightarrow> addr \<Rightarrow> addr \<Rightarrow> memory" where
  "swap_2 pf m \<equiv> swap_2_from pf m m"

abbreviation (input) swap_4 :: "platform \<Rightarrow> memory \<Rightarrow> addr \<Rightarrow> addr \<Rightarrow> memory" where
  "swap_4 pf m \<equiv> swap_4_from pf m m"

abbreviation (input) swap_8 :: "platform \<Rightarrow> memory \<Rightarrow> addr \<Rightarrow> addr \<Rightarrow> memory" where
  "swap_8 pf m \<equiv> swap_8_from pf m m"

definition swap_16 :: "platform \<Rightarrow> memory \<Rightarrow> addr \<Rightarrow> addr \<Rightarrow> memory" where
  "swap_16 pf m orig target = swap_8 pf (swap_8 pf m (orig + 8) target) orig (target + 8)"

definition swap_16_from :: "platform \<Rightarrow> memory \<Rightarrow> memory \<Rightarrow> addr \<Rightarrow> addr \<Rightarrow> memory" where
  "swap_16_from pf src m orig target = swap_8_from pf src (swap_8_from pf src m (orig + 8) target) orig (target + 8)"

section \<open>Byte swaps of arrays\<close>

text \<open>The loops \<open>while (orig < end)\<close>, which move both pointers by \<open>k\<close> bytes.\<close>

function chunk_loop ::
  "(memory \<Rightarrow> addr \<Rightarrow> addr \<Rightarrow> memory) \<Rightarrow> nat \<Rightarrow> addr \<Rightarrow> memory \<Rightarrow> addr \<Rightarrow> addr \<Rightarrow> memory \<times> addr \<times> addr" where
  "chunk_loop body k end m orig target =
     (if orig < end \<and> 0 < k then chunk_loop body k end (body m orig target) (orig + k) (target + k)
      else (m, orig, target))"
  by pat_completeness auto
termination by (relation "measure (\<lambda>(body, k, end, m, orig, target). end - orig)") auto

declare chunk_loop.simps [simp del]

text \<open>The remaining at most three elements: a \<open>switch\<close> whose cases fall through.\<close>

definition last_elements ::
  "(memory \<Rightarrow> addr \<Rightarrow> addr \<Rightarrow> memory) \<Rightarrow> nat \<Rightarrow> nat \<Rightarrow> memory \<Rightarrow> addr \<Rightarrow> addr \<Rightarrow> memory" where
  "last_elements swap k r m orig target =
     (let (m, orig, target) = (if r = 3 then (swap m orig target, orig + k, target + k) else (m, orig, target));
          (m, orig, target) = (if r = 3 \<or> r = 2 then (swap m orig target, orig + k, target + k) else (m, orig, target))
      in if r = 3 \<or> r = 2 \<or> r = 1 then swap m orig target else m)"

text \<open>The bytes of each half-word exchanged, in 64 and in 32 bits.\<close>

definition bswap_shorts64 :: "64 word \<Rightarrow> 64 word" where
  "bswap_shorts64 a =
     (let a1 = push_bit 8 (a AND 0x00ff00ff00ff00ff); a2 = drop_bit 8 (a AND 0xff00ff00ff00ff00) in a1 OR a2)"

definition bswap_shorts32 :: "32 word \<Rightarrow> 32 word" where
  "bswap_shorts32 a = (let a1 = push_bit 8 (a AND 0x00ff00ff); a2 = drop_bit 8 (a AND 0xff00ff00) in a1 OR a2)"

definition shorts_aligned :: "platform \<Rightarrow> memory \<Rightarrow> addr \<Rightarrow> addr \<Rightarrow> memory" where
  "shorts_aligned pf m orig target =
     (if sizeof_long_8 pf
      then store pf 8 m target (bswap_shorts64 (load pf 8 m orig))
      else let a = bswap_shorts32 (load pf 4 m orig); b = bswap_shorts32 (load pf 4 m (orig + 4))
           in store pf 4 (store pf 4 m target a) (target + 4) b)"

text \<open>The target is not aligned: the same words, stored as half-words.\<close>

definition store_shorts :: "platform \<Rightarrow> memory \<Rightarrow> addr \<Rightarrow> 16 word list \<Rightarrow> memory" where
  "store_shorts pf m target ws =
     fold (\<lambda>(i, w) m. store pf 2 m (target + 2 * i) w) (enumerate 0 ws) m"

definition shorts_unaligned :: "platform \<Rightarrow> memory \<Rightarrow> addr \<Rightarrow> addr \<Rightarrow> memory" where
  "shorts_unaligned pf m orig target =
     (if sizeof_long_8 pf
      then let a = bswap_shorts64 (load pf 8 m orig);
               b1 = ucast (drop_bit 48 a); b2 = ucast (drop_bit 32 a AND 0xffff);
               b3 = ucast (drop_bit 16 a AND 0xffff); b4 = ucast (a AND 0xffff)
           in store_shorts pf m target (if little_endian pf then [b4, b3, b2, b1] else [b1, b2, b3, b4])
      else let a = bswap_shorts32 (load pf 4 m orig); b = bswap_shorts32 (load pf 4 m (orig + 4));
               c1 = ucast (drop_bit 16 a); c2 = ucast (a AND 0xffff);
               c3 = ucast (drop_bit 16 b); c4 = ucast (b AND 0xffff)
           in store_shorts pf m target (if little_endian pf then [c2, c1, c4, c3] else [c1, c2, c3, c4]))"

text \<open>The elements before the first aligned address.\<close>

function swap_2_head ::
  "platform \<Rightarrow> addr \<Rightarrow> memory \<Rightarrow> addr \<Rightarrow> addr \<Rightarrow> nat \<Rightarrow> memory \<times> addr \<times> addr \<times> nat" where
  "swap_2_head pf o8 m orig target n =
     (if orig < o8 \<and> n > 0 then swap_2_head pf o8 (swap_2 pf m orig target) (orig + 2) (target + 2) (n - 1)
      else (m, orig, target, n))"
  by pat_completeness auto
termination by (relation "measure (\<lambda>(pf, o8, m, orig, target, n). n)") auto

declare swap_2_head.simps [simp del]

definition swap_2_array :: "platform \<Rightarrow> memory \<Rightarrow> addr \<Rightarrow> addr \<Rightarrow> nat \<Rightarrow> memory" where
  "swap_2_array pf m orig target n =
     (let (m, orig, target, n) =
            (if sizeof_long_8 pf then swap_2_head pf (ACE_ptr_align_binary orig 8) m orig target n
             else if orig \<noteq> ACE_ptr_align_binary orig 4 then (swap_2 pf m orig target, orig + 2, target + 2, n - 1)
             else (m, orig, target, n))
      in if n = 0 then m
         else let end = orig + 2 * (4 * (n div 4));
                  aligned = (target = ACE_ptr_align_binary target (if sizeof_long_8 pf then 8 else 4));
                  (m, orig, target) =
                    chunk_loop (if aligned then shorts_aligned pf else shorts_unaligned pf) 8 end m orig target
              in last_elements (\<lambda>m. swap_2 pf m) 2 (n mod 4) m orig target)"

definition longs_aligned :: "platform \<Rightarrow> memory \<Rightarrow> addr \<Rightarrow> addr \<Rightarrow> memory" where
  "longs_aligned pf m orig target =
     (let a = bswap_halves (load pf 8 m orig); b = bswap_halves (load pf 8 m (orig + 8))
      in store pf 8 (store pf 8 m target a) (target + 8) b)"

definition store_longs :: "platform \<Rightarrow> memory \<Rightarrow> addr \<Rightarrow> 32 word list \<Rightarrow> memory" where
  "store_longs pf m target ws =
     fold (\<lambda>(i, w) m. store pf 4 m (target + 4 * i) w) (enumerate 0 ws) m"

definition longs_unaligned :: "platform \<Rightarrow> memory \<Rightarrow> addr \<Rightarrow> addr \<Rightarrow> memory" where
  "longs_unaligned pf m orig target =
     (let a = bswap_halves (load pf 8 m orig); b = bswap_halves (load pf 8 m (orig + 8));
          c1 = ucast (drop_bit 32 a); c2 = ucast (a AND 0xffffffff);
          c3 = ucast (drop_bit 32 b); c4 = ucast (b AND 0xffffffff)
      in store_longs pf m target (if little_endian pf then [c2, c1, c4, c3] else [c1, c2, c3, c4]))"

text \<open>With a \<open>long\<close> of 32 bits four words are swapped one by one.\<close>

definition longs_32 :: "platform \<Rightarrow> memory \<Rightarrow> addr \<Rightarrow> addr \<Rightarrow> memory" where
  "longs_32 pf m orig target =
     (let a = load pf 4 m orig; b = load pf 4 m (orig + 4); c = load pf 4 m (orig + 8); d = load pf 4 m (orig + 12)
      in store_longs pf m target [bswap32 a, bswap32 b, bswap32 c, bswap32 d])"

definition swap_4_array :: "platform \<Rightarrow> memory \<Rightarrow> addr \<Rightarrow> addr \<Rightarrow> nat \<Rightarrow> memory" where
  "swap_4_array pf m orig target n =
     (let (m, orig, target, n) =
            (if sizeof_long_8 pf \<and> orig \<noteq> ACE_ptr_align_binary orig 8
             then (swap_4 pf m orig target, orig + 4, target + 4, n - 1)
             else (m, orig, target, n))
      in if n = 0 then m
         else let end = orig + 4 * (4 * (n div 4));
                  body = (if sizeof_long_8 pf
                          then if target = ACE_ptr_align_binary target 8 then longs_aligned pf else longs_unaligned pf
                          else longs_32 pf);
                  (m, orig, target) = chunk_loop body 16 end m orig target
              in last_elements (\<lambda>m. swap_4 pf m) 4 (n mod 4) m orig target)"

definition swap_8_array :: "platform \<Rightarrow> memory \<Rightarrow> addr \<Rightarrow> addr \<Rightarrow> nat \<Rightarrow> memory" where
  "swap_8_array pf m orig target n = fst (chunk_loop (\<lambda>m. swap_8 pf m) 8 (orig + 8 * n) m orig target)"

definition swap_16_array :: "platform \<Rightarrow> memory \<Rightarrow> addr \<Rightarrow> addr \<Rightarrow> nat \<Rightarrow> memory" where
  "swap_16_array pf m orig target n = fst (chunk_loop (swap_16 pf) 16 (orig + 16 * n) m orig target)"

section \<open>Buffer sizes\<close>

definition DEFAULT_BUFSIZE :: "64 word" where "DEFAULT_BUFSIZE = 512"
definition EXP_GROWTH_MAX :: "64 word" where "EXP_GROWTH_MAX = 65536"
definition LINEAR_GROWTH_CHUNK :: "64 word" where "LINEAR_GROWTH_CHUNK = 65536"
definition MAX_ALIGNMENT :: nat where "MAX_ALIGNMENT = 8"

definition grow_step :: "64 word \<Rightarrow> 64 word" where
  "grow_step newsize = (if newsize < EXP_GROWTH_MAX then push_bit 1 newsize else newsize + LINEAR_GROWTH_CHUNK)"

partial_function (option) size_loop :: "64 word \<Rightarrow> 64 word \<Rightarrow> 64 word option" where
  "size_loop minsize newsize = (if newsize < minsize then size_loop minsize (grow_step newsize) else Some newsize)"

declare size_loop.simps [code]

definition first_size :: "64 word \<Rightarrow> 64 word option" where
  "first_size minsize = (if minsize = 0 then Some DEFAULT_BUFSIZE else size_loop minsize DEFAULT_BUFSIZE)"

definition next_size :: "64 word \<Rightarrow> 64 word option" where
  "next_size minsize =
     (case first_size minsize of
        None \<Rightarrow> None
      | Some newsize \<Rightarrow> Some (if newsize = minsize then grow_step newsize else newsize))"

end
