(* ===== verification/ACE_CDR_Stream.thy ===== *)
theory ACE_CDR_Stream
  imports ACE_CDR_Base
begin

text \<open>
  The CDR streams (\<^verbatim>\<open>CDR_Stream.cpp\<close>, \<^verbatim>\<open>CDR_Stream.inl\<close>) and what they use of message blocks: an output
  stream that grows a chain of blocks, and an input stream over one block. Definitions only.
  All buffers lie in one memory; the streams take them from an allocator.
\<close>

section \<open>Message blocks\<close>

text \<open>
  A message block with its data block: the buffer with its capacity and current size, the read and
  write offsets, the \<open>DONT_DELETE\<close> flag of the data block and the allocator of the buffer.
\<close>

record mblk =
  bk_base :: addr
  bk_max_size :: nat
  bk_cur_size :: nat
  bk_rd :: nat
  bk_wr :: nat
  bk_dont_delete :: bool
  bk_allocator :: addr

definition bk_rd_ptr :: "mblk \<Rightarrow> addr" where "bk_rd_ptr b = bk_base b + bk_rd b"
definition bk_wr_ptr :: "mblk \<Rightarrow> addr" where "bk_wr_ptr b = bk_base b + bk_wr b"
definition bk_mark :: "mblk \<Rightarrow> addr" where "bk_mark b = bk_base b + bk_cur_size b"
definition bk_end :: "mblk \<Rightarrow> addr" where "bk_end b = bk_base b + bk_max_size b"
definition bk_length :: "mblk \<Rightarrow> nat" where "bk_length b = bk_wr b - bk_rd b"

text \<open>The difference of two pointers as an unsigned number, which wraps around.\<close>

definition bk_space :: "mblk \<Rightarrow> nat" where
  "bk_space b = (if bk_wr_ptr b \<le> bk_mark b then bk_mark b - bk_wr_ptr b else 2 ^ 64 - (bk_wr_ptr b - bk_mark b))"

text \<open>The constructor of a block with a new buffer; \<open>None\<close> when there is no memory for it.\<close>

definition new_block :: "'m allocator_ops \<Rightarrow> addr \<Rightarrow> 64 word \<Rightarrow> 'm \<Rightarrow> 'm \<times> mblk option" where
  "new_block ops al sz heap =
     (let (heap', p) = al_malloc ops heap al sz
      in (heap', if p = NULL then None
                 else Some \<lparr>bk_base = p, bk_max_size = unat sz, bk_cur_size = unat sz, bk_rd = 0, bk_wr = 0,
                            bk_dont_delete = False, bk_allocator = al\<rparr>))"

text \<open>\<open>release\<close> frees the buffer unless the block does not own it.\<close>

definition bk_release :: "'m allocator_ops \<Rightarrow> mblk \<Rightarrow> 'm \<Rightarrow> 'm" where
  "bk_release ops b heap = (if bk_dont_delete b then heap else al_free ops heap (bk_allocator b) (bk_base b))"

definition bk_copy :: "memory \<Rightarrow> addr \<Rightarrow> nat \<Rightarrow> mblk \<Rightarrow> memory \<times> mblk \<times> int" where
  "bk_copy m buf n b =
     (if bk_space b < n then (m, b, -1)
      else (mem_write m (bk_wr_ptr b) (mem_read m buf n), b\<lparr>bk_wr := bk_wr b + n\<rparr>, 0))"

text \<open>\<open>size\<close> moves a buffer that is too small; it copies the bytes up to the current size.\<close>

definition bk_set_size :: "'m allocator_ops \<Rightarrow> 64 word \<Rightarrow> mblk \<Rightarrow> memory \<Rightarrow> 'm \<Rightarrow> memory \<times> 'm \<times> mblk \<times> int" where
  "bk_set_size ops len b m heap =
     (if unat len \<le> bk_max_size b then (m, heap, b\<lparr>bk_cur_size := unat len\<rparr>, 0)
      else let (heap1, buf) = al_malloc ops heap (bk_allocator b) len
           in if buf = NULL then (m, heap1, b, -1)
              else let m1 = mem_write m buf (mem_read m (bk_base b) (bk_cur_size b));
                       heap2 = bk_release ops b heap1
                   in (m1, heap2, b\<lparr>bk_dont_delete := False, bk_max_size := unat len, bk_cur_size := unat len,
                                     bk_base := buf\<rparr>, 0))"

definition mb_align :: "mblk \<Rightarrow> mblk" where
  "mb_align b =
     (let start = ACE_ptr_align_binary (bk_base b) MAX_ALIGNMENT
      in b\<lparr>bk_rd := start - bk_base b, bk_wr := start - bk_base b\<rparr>)"

definition total_length :: "mblk list \<Rightarrow> nat" where
  "total_length bs = sum_list (map bk_length bs)"

text \<open>Copying a chain of blocks behind what a block holds; the results of \<open>copy\<close> are not looked at.\<close>

primrec copy_chain :: "mblk list \<Rightarrow> memory \<times> mblk \<Rightarrow> memory \<times> mblk" where
  "copy_chain [] s = s"
| "copy_chain (i # is) s =
     (let (m, dst) = s; (m1, dst1, _) = bk_copy m (bk_rd_ptr i) (bk_length i) dst in copy_chain is (m1, dst1))"

section \<open>The output stream\<close>

text \<open>
  The build options \<open>ACE_ENABLE_SWAP_ON_WRITE\<close> and \<open>ACE_DISABLE_SWAP_ON_READ\<close> (negated), and the process-wide
  \<open>wchar_maxbytes_\<close>. Wide characters have four bytes; the code set translators are absent.
\<close>

record cdr_config =
  cf_platform :: platform
  cf_swap_on_write :: bool
  cf_swap_on_read :: bool
  cf_wchar_maxbytes :: nat

text \<open>
  The chain of blocks is split at the current one: the blocks before it, starting with \<open>start_\<close>, the
  current one, and those behind it.
\<close>

record 'm output_cdr =
  oc_mem :: memory
  oc_heap :: 'm
  oc_before :: "mblk list"
  oc_current :: mblk
  oc_cont :: "mblk list"
  oc_alignment :: "64 word"
  oc_is_writable :: bool
  oc_do_byte_swap :: bool
  oc_good_bit :: bool
  oc_memcpy_tradeoff :: nat
  oc_major :: byte
  oc_minor :: byte

definition oc_begin_end :: "'m output_cdr \<Rightarrow> mblk list" where
  "oc_begin_end q = oc_before q @ [oc_current q]"

definition ptr_add :: "addr \<Rightarrow> nat \<Rightarrow> addr" where
  "ptr_add p n = (p + n) mod 2 ^ 64"

definition output_cdr_init ::
  "'m allocator_ops \<Rightarrow> addr \<Rightarrow> 64 word \<Rightarrow> bool \<Rightarrow> nat \<Rightarrow> byte \<Rightarrow> byte \<Rightarrow> memory \<Rightarrow> 'm \<Rightarrow> 'm output_cdr option" where
  "output_cdr_init ops al sz swap tradeoff major minor m heap =
     (let (heap1, b) = new_block ops al ((if sz \<noteq> 0 then sz else DEFAULT_BUFSIZE) + of_nat MAX_ALIGNMENT) heap
      in map_option (\<lambda>b. \<lparr>oc_mem = m, oc_heap = heap1, oc_before = [], oc_current = mb_align b, oc_cont = [],
           oc_alignment = 0, oc_is_writable = True, oc_do_byte_swap = swap, oc_good_bit = True,
           oc_memcpy_tradeoff = tradeoff, oc_major = major, oc_minor = minor\<rparr>) b)"

text \<open>\<open>adjust\<close> as far as it stays in the current block: \<open>None\<close> when there is no room.\<close>

definition adjust_current :: "64 word \<Rightarrow> 64 word \<Rightarrow> 'm output_cdr \<Rightarrow> ('m output_cdr \<times> addr) option" where
  "adjust_current sz align q =
     (if \<not> oc_is_writable q then None
      else let offset = ACE_align_binary (oc_alignment q) align - oc_alignment q;
               buf = ptr_add (bk_wr_ptr (oc_current q)) (unat offset);
               end = ptr_add buf (unat sz)
           in if end \<le> bk_end (oc_current q) \<and> end \<ge> buf
              then Some (q\<lparr>oc_alignment := oc_alignment q + (offset + sz),
                           oc_current := (oc_current q)\<lparr>bk_wr := end - bk_base (oc_current q)\<rparr>\<rparr>, buf)
              else None)"

text \<open>
  The part of \<open>grow_and_adjust\<close> before it calls \<open>adjust\<close> again: move on to the next block, or put a new
  one behind the current block. \<open>None\<close> when the computation of the size does not end.
\<close>

definition grow_chain :: "'m allocator_ops \<Rightarrow> 64 word \<Rightarrow> 'm output_cdr \<Rightarrow> ('m output_cdr \<times> int) option" where
  "grow_chain ops sz q =
     (let cur = oc_current q; cont = oc_cont q
      in if \<not> oc_is_writable q \<or> cont = [] \<or> of_nat (bk_cur_size (hd cont)) < sz + of_nat MAX_ALIGNMENT
         then let cursize = of_nat (if cont \<noteq> [] then bk_cur_size (hd cont) else bk_cur_size cur);
                  minsize = sz + of_nat MAX_ALIGNMENT;
                  minsize = (if minsize < cursize then cursize else minsize)
              in case next_size minsize of
                   None \<Rightarrow> None
                 | Some newsize \<Rightarrow>
                     let (heap1, tmp) = new_block ops (bk_allocator cur) newsize (oc_heap q); q1 = q\<lparr>oc_heap := heap1\<rparr>
                     in case tmp of
                          None \<Rightarrow> Some (q1\<lparr>oc_good_bit := False\<rparr>, -1)
                        | Some tmp \<Rightarrow>
                            let tmpalign = int (bk_rd_ptr tmp) mod int MAX_ALIGNMENT;
                                curalign = int (unat (oc_alignment q)) mod int MAX_ALIGNMENT;
                                offset = curalign - tmpalign;
                                offset = (if offset < 0 then offset + int MAX_ALIGNMENT else offset);
                                tmp1 = tmp\<lparr>bk_rd := nat offset, bk_wr := nat offset\<rparr>
                            in Some (q1\<lparr>oc_good_bit := True, oc_before := oc_before q @ [cur], oc_current := tmp1,
                                        oc_is_writable := True\<rparr>, 0)
         else Some (q\<lparr>oc_before := oc_before q @ [cur], oc_current := hd cont, oc_cont := tl cont,
                      oc_is_writable := True\<rparr>, 0))"

text \<open>\<open>adjust\<close>; the result is the address to write to, or \<open>None\<close> for the return value -1.\<close>

partial_function (option) oc_adjust ::
  "'m allocator_ops \<Rightarrow> 64 word \<Rightarrow> 64 word \<Rightarrow> 'm output_cdr \<Rightarrow> ('m output_cdr \<times> addr option) option" where
  "oc_adjust ops sz align q =
     (case adjust_current sz align q of
        Some (q1, buf) \<Rightarrow> Some (q1, Some buf)
      | None \<Rightarrow> Option.bind (grow_chain ops sz q)
          (\<lambda>(q1, r). if r = -1 then Some (q1, None) else oc_adjust ops sz align q1))"

declare oc_adjust.simps [code]

text \<open>The memory of a local variable, at address 0 of its own.\<close>

definition local_var :: "platform \<Rightarrow> nat \<Rightarrow> 'a :: len word \<Rightarrow> memory" where
  "local_var pf n x = mem_write (\<lambda>_. 0) 0 (native pf n x)"

definition put_value ::
  "'m output_cdr \<times> addr option \<Rightarrow> (memory \<Rightarrow> addr \<Rightarrow> memory) \<Rightarrow> 'm output_cdr \<times> bool" where
  "put_value r f = (case r of (q, Some buf) \<Rightarrow> (q\<lparr>oc_mem := f (oc_mem q) buf\<rparr>, True) | (q, None) \<Rightarrow> (q, False))"

definition write_swaps :: "cdr_config \<Rightarrow> 'm output_cdr \<Rightarrow> bool" where
  "write_swaps cf q \<longleftrightarrow> cf_swap_on_write cf \<and> oc_do_byte_swap q"

definition write_1 :: "'m allocator_ops \<Rightarrow> byte \<Rightarrow> 'm output_cdr \<Rightarrow> ('m output_cdr \<times> bool) option" where
  "write_1 ops x q = map_option (\<lambda>r. put_value r (\<lambda>m buf. mem_write m buf [x])) (oc_adjust ops 1 1 q)"

definition write_2 :: "'m allocator_ops \<Rightarrow> cdr_config \<Rightarrow> 16 word \<Rightarrow> 'm output_cdr \<Rightarrow> ('m output_cdr \<times> bool) option" where
  "write_2 ops cf x q =
     (let pf = cf_platform cf
      in map_option (\<lambda>r. put_value r (\<lambda>m buf. if \<not> write_swaps cf q then store pf 2 m buf x
           else swap_2_from pf (local_var pf 2 x) m 0 buf)) (oc_adjust ops 2 2 q))"

definition write_4 :: "'m allocator_ops \<Rightarrow> cdr_config \<Rightarrow> 32 word \<Rightarrow> 'm output_cdr \<Rightarrow> ('m output_cdr \<times> bool) option" where
  "write_4 ops cf x q =
     (let pf = cf_platform cf
      in map_option (\<lambda>r. put_value r (\<lambda>m buf. if \<not> write_swaps cf q then store pf 4 m buf x
           else swap_4_from pf (local_var pf 4 x) m 0 buf)) (oc_adjust ops 4 4 q))"

definition write_8 :: "'m allocator_ops \<Rightarrow> cdr_config \<Rightarrow> 64 word \<Rightarrow> 'm output_cdr \<Rightarrow> ('m output_cdr \<times> bool) option" where
  "write_8 ops cf x q =
     (let pf = cf_platform cf
      in map_option (\<lambda>r. put_value r (\<lambda>m buf. if \<not> write_swaps cf q then store pf 8 m buf x
           else swap_8_from pf (local_var pf 8 x) m 0 buf)) (oc_adjust ops 8 8 q))"

text \<open>A \<open>LongDouble\<close> is an object of 16 bytes; here its representation in memory.\<close>

definition write_16 :: "'m allocator_ops \<Rightarrow> cdr_config \<Rightarrow> 128 word \<Rightarrow> 'm output_cdr \<Rightarrow> ('m output_cdr \<times> bool) option" where
  "write_16 ops cf x q =
     (let pf = cf_platform cf
      in map_option (\<lambda>r. put_value r (\<lambda>m buf. if \<not> write_swaps cf q then store pf 16 m buf x
           else swap_16_from pf (local_var pf 16 x) m 0 buf)) (oc_adjust ops 16 8 q))"

text \<open>An array of \<open>length\<close> elements of \<open>size\<close> bytes at address \<open>x\<close>; sizes other than those of the basic types fail.\<close>

definition swap_array :: "platform \<Rightarrow> nat \<Rightarrow> memory \<Rightarrow> addr \<Rightarrow> addr \<Rightarrow> nat \<Rightarrow> memory option" where
  "swap_array pf sz m source target n =
     (if sz = 2 then Some (swap_2_array pf m source target n)
      else if sz = 4 then Some (swap_4_array pf m source target n)
      else if sz = 8 then Some (swap_8_array pf m source target n)
      else if sz = 16 then Some (swap_16_array pf m source target n)
      else None)"

definition write_array ::
  "'m allocator_ops \<Rightarrow> cdr_config \<Rightarrow> addr \<Rightarrow> nat \<Rightarrow> nat \<Rightarrow> nat \<Rightarrow> 'm output_cdr \<Rightarrow> ('m output_cdr \<times> bool) option" where
  "write_array ops cf x sz align len q =
     (if len = 0 then Some (q, True)
      else case oc_adjust ops (of_nat sz * of_nat len) (of_nat align) q of
             None \<Rightarrow> None
           | Some (q1, None) \<Rightarrow> Some (q1\<lparr>oc_good_bit := False\<rparr>, False)
           | Some (q1, Some buf) \<Rightarrow>
               if \<not> write_swaps cf q \<or> sz = 1
               then Some (q1\<lparr>oc_mem := mem_write (oc_mem q1) buf (mem_read (oc_mem q1) x (sz * len))\<rparr>, True)
               else (case swap_array (cf_platform cf) sz (oc_mem q1) x buf len of
                       None \<Rightarrow> Some (q1\<lparr>oc_good_bit := False\<rparr>, False)
                     | Some m \<Rightarrow> Some (q1\<lparr>oc_mem := m\<rparr>, True)))"

definition write_boolean :: "'m allocator_ops \<Rightarrow> bool \<Rightarrow> 'm output_cdr \<Rightarrow> ('m output_cdr \<times> bool) option" where
  "write_boolean ops x = write_1 ops (if x then 1 else 0)"

text \<open>\<open>write_string\<close> with a length; the text at \<open>x\<close> is followed by its null character.\<close>

definition write_string ::
  "'m allocator_ops \<Rightarrow> cdr_config \<Rightarrow> 32 word \<Rightarrow> addr \<Rightarrow> 'm output_cdr \<Rightarrow> ('m output_cdr \<times> bool) option" where
  "write_string ops cf len x q =
     (if len \<noteq> 0
      then case write_4 ops cf (len + 1) q of
             None \<Rightarrow> None
           | Some (q1, r) \<Rightarrow> if r then write_array ops cf x 1 1 (unat (len + 1)) q1
                             else Some (q1\<lparr>oc_good_bit := False\<rparr>, False)
      else case write_4 ops cf 1 q of
             None \<Rightarrow> None
           | Some (q1, r) \<Rightarrow> if r then write_1 ops 0 q1 else Some (q1\<lparr>oc_good_bit := False\<rparr>, False))"

text \<open>The loop over an array of booleans, which stops when the stream is no longer good.\<close>

primrec write_boolean_array ::
  "'m allocator_ops \<Rightarrow> bool list \<Rightarrow> 'm output_cdr \<Rightarrow> ('m output_cdr \<times> bool) option" where
  "write_boolean_array ops [] q = Some (q, oc_good_bit q)"
| "write_boolean_array ops (x # xs) q =
     (if oc_good_bit q
      then case write_boolean ops x q of None \<Rightarrow> None | Some (q1, _) \<Rightarrow> write_boolean_array ops xs q1
      else Some (q, False))"

text \<open>
  A chain of message blocks: a small one, or one that does not own its data, is copied; any other is put into the chain
  as it is, as another reference to its data block that does not free the buffer when it is released; the next write
  starts a new block.
\<close>

primrec write_octet_array_mb ::
  "'m allocator_ops \<Rightarrow> cdr_config \<Rightarrow> mblk list \<Rightarrow> 'm output_cdr \<Rightarrow> ('m output_cdr \<times> bool) option" where
  "write_octet_array_mb ops cf [] q = Some (q, True)"
| "write_octet_array_mb ops cf (i # is) q =
     (let len = bk_length i
      in if bk_dont_delete i \<or> (len < oc_memcpy_tradeoff q \<and> bk_wr_ptr (oc_current q) + len < bk_end (oc_current q))
         then case write_array ops cf (bk_rd_ptr i) 1 1 len q of
                None \<Rightarrow> None
              | Some (q1, r) \<Rightarrow> if r then write_octet_array_mb ops cf is q1
                                else Some (q1\<lparr>oc_good_bit := False\<rparr>, False)
         else write_octet_array_mb ops cf is
                (q\<lparr>oc_good_bit := True, oc_heap := fold (bk_release ops) (oc_cont q) (oc_heap q),
                   oc_before := oc_before q @ [oc_current q], oc_current := i\<lparr>bk_dont_delete := True\<rparr>, oc_cont := [],
                   oc_is_writable := False,
                   oc_alignment := of_nat ((unat (oc_alignment q) + len) mod MAX_ALIGNMENT)\<rparr>))"

definition oc_start :: "'m output_cdr \<Rightarrow> mblk" where
  "oc_start q = hd (oc_before q @ [oc_current q])"

definition oc_chain :: "'m output_cdr \<Rightarrow> mblk list" where
  "oc_chain q = oc_before q @ oc_current q # oc_cont q"

definition oc_reset :: "'m allocator_ops \<Rightarrow> 'm output_cdr \<Rightarrow> 'm output_cdr" where
  "oc_reset ops q =
     q\<lparr>oc_before := [], oc_current := mb_align (oc_start q), oc_cont := [], oc_is_writable := True, oc_alignment := 0,
       oc_heap := fold (bk_release ops) (tl (oc_chain q)) (oc_heap q)\<rparr>"

text \<open>\<open>consolidate\<close> copies the chain into its first block; -1 without a change of the chain when there is no memory.\<close>

definition oc_consolidate :: "'m allocator_ops \<Rightarrow> 'm output_cdr \<Rightarrow> ('m output_cdr \<times> int) option" where
  "oc_consolidate ops q =
     (if oc_before q = [] then Some (q, 0)
      else case first_size (of_nat (total_length (oc_begin_end q) + MAX_ALIGNMENT)) of
             None \<Rightarrow> None
           | Some newsize \<Rightarrow>
               let (m1, heap1, start1, r) = bk_set_size ops newsize (oc_start q) (oc_mem q) (oc_heap q)
               in if r < 0 then Some (q\<lparr>oc_heap := heap1\<rparr>, -1)
                  else let (m2, start2) = copy_chain (tl (oc_chain q)) (m1, start1)
                       in Some (q\<lparr>oc_mem := m2, oc_heap := fold (bk_release ops) (tl (oc_chain q)) heap1,
                                  oc_before := [], oc_current := start2, oc_cont := [], oc_is_writable := True\<rparr>, 0))"

text \<open>\<open>find\<close> and the overloads of \<open>replace\<close>, which overwrite a value at a place in the stream.\<close>

definition oc_find :: "addr \<Rightarrow> 'm output_cdr \<Rightarrow> mblk option" where
  "oc_find loc q = find (\<lambda>b. loc \<le> bk_wr_ptr b \<and> bk_rd_ptr b \<le> loc) (oc_chain q)"

definition replace_4 :: "cdr_config \<Rightarrow> 32 word \<Rightarrow> addr \<Rightarrow> 'm output_cdr \<Rightarrow> 'm output_cdr \<times> bool" where
  "replace_4 cf x loc q =
     (let pf = cf_platform cf
      in if oc_find loc q = None then (q, False)
         else (q\<lparr>oc_mem := (if \<not> write_swaps cf q then store pf 4 (oc_mem q) loc x
                            else swap_4_from pf (local_var pf 4 x) (oc_mem q) 0 loc)\<rparr>, True))"

definition replace_2 :: "cdr_config \<Rightarrow> 16 word \<Rightarrow> addr \<Rightarrow> 'm output_cdr \<Rightarrow> 'm output_cdr \<times> bool" where
  "replace_2 cf x loc q =
     (let pf = cf_platform cf
      in if oc_find loc q = None then (q, False)
         else (q\<lparr>oc_mem := (if \<not> write_swaps cf q then store pf 2 (oc_mem q) loc x
                            else swap_2_from pf (local_var pf 2 x) (oc_mem q) 0 loc)\<rparr>, True))"

text \<open>A place for a value that is written later; \<open>None\<close> for the null pointer.\<close>

definition write_long_placeholder :: "'m allocator_ops \<Rightarrow> cdr_config \<Rightarrow> 'm output_cdr \<Rightarrow> ('m output_cdr \<times> addr option) option" where
  "write_long_placeholder ops cf q =
     map_option (\<lambda>(q1, buf). (case buf of None \<Rightarrow> q1
       | Some p \<Rightarrow> q1\<lparr>oc_mem := store (cf_platform cf) 4 (oc_mem q1) p (0 :: 32 word)\<rparr>, buf)) (oc_adjust ops 4 4 q)"

section \<open>The input stream\<close>

record 'm input_cdr =
  ic_mem :: memory
  ic_heap :: 'm
  ic_start :: mblk
  ic_do_byte_swap :: bool
  ic_good_bit :: bool
  ic_major :: byte
  ic_minor :: byte

text \<open>The constructors on a buffer of the caller and on the contents of an output stream.\<close>

definition input_cdr_on_buffer :: "addr \<Rightarrow> nat \<Rightarrow> bool \<Rightarrow> byte \<Rightarrow> byte \<Rightarrow> addr \<Rightarrow> memory \<Rightarrow> 'm \<Rightarrow> 'm input_cdr" where
  "input_cdr_on_buffer buf bufsiz swap major minor al m heap =
     \<lparr>ic_mem = m, ic_heap = heap, ic_start = \<lparr>bk_base = buf, bk_max_size = bufsiz, bk_cur_size = bufsiz, bk_rd = 0,
        bk_wr = bufsiz, bk_dont_delete = True, bk_allocator = al\<rparr>,
      ic_do_byte_swap = swap, ic_good_bit = True, ic_major = major, ic_minor = minor\<rparr>"

definition input_cdr_from :: "'m allocator_ops \<Rightarrow> addr \<Rightarrow> 'm output_cdr \<Rightarrow> 'm input_cdr option" where
  "input_cdr_from ops al rhs =
     (let (heap1, b) = new_block ops al (of_nat (total_length (oc_begin_end rhs) + MAX_ALIGNMENT)) (oc_heap rhs)
      in case b of
           None \<Rightarrow> None
         | Some b \<Rightarrow>
             let (m1, start1) = copy_chain (oc_begin_end rhs) (oc_mem rhs, mb_align b)
             in Some \<lparr>ic_mem = m1, ic_heap = heap1, ic_start = start1, ic_do_byte_swap = oc_do_byte_swap rhs,
                      ic_good_bit = True, ic_major = oc_major rhs, ic_minor = oc_minor rhs\<rparr>)"

definition ic_rd_ptr :: "'m input_cdr \<Rightarrow> addr" where "ic_rd_ptr q = bk_rd_ptr (ic_start q)"
definition ic_wr_ptr :: "'m input_cdr \<Rightarrow> addr" where "ic_wr_ptr q = bk_wr_ptr (ic_start q)"
definition ic_length :: "'m input_cdr \<Rightarrow> nat" where "ic_length q = bk_length (ic_start q)"

definition ic_advance :: "nat \<Rightarrow> 'm input_cdr \<Rightarrow> 'm input_cdr" where
  "ic_advance n q = q\<lparr>ic_start := (ic_start q)\<lparr>bk_rd := bk_rd (ic_start q) + n\<rparr>\<rparr>"

definition ic_bad :: "'m input_cdr \<Rightarrow> 'm input_cdr" where
  "ic_bad q = q\<lparr>ic_good_bit := False\<rparr>"

definition ic_adjust :: "nat \<Rightarrow> nat \<Rightarrow> 'm input_cdr \<Rightarrow> 'm input_cdr \<times> addr option" where
  "ic_adjust sz align q =
     (let buf = ACE_ptr_align_binary (ic_rd_ptr q) align; end = ptr_add buf sz
      in if end \<le> ic_wr_ptr q
         then (q\<lparr>ic_start := (ic_start q)\<lparr>bk_rd := end - bk_base (ic_start q)\<rparr>\<rparr>, Some buf)
         else (ic_bad q, None))"

definition read_swaps :: "cdr_config \<Rightarrow> 'm input_cdr \<Rightarrow> bool" where
  "read_swaps cf q \<longleftrightarrow> cf_swap_on_read cf \<and> ic_do_byte_swap q"

text \<open>The variable that receives the value is \<open>x\<close>; it keeps its value when the read fails.\<close>

definition read_1 :: "byte \<Rightarrow> 'm input_cdr \<Rightarrow> 'm input_cdr \<times> byte \<times> bool" where
  "read_1 x q =
     (if ic_rd_ptr q < ic_wr_ptr q then (ic_advance 1 q, ic_mem q (ic_rd_ptr q), True)
      else (ic_bad q, x, False))"

definition read_2 :: "cdr_config \<Rightarrow> 16 word \<Rightarrow> 'm input_cdr \<Rightarrow> 'm input_cdr \<times> 16 word \<times> bool" where
  "read_2 cf x q =
     (let pf = cf_platform cf
      in case ic_adjust 2 2 q of
           (q1, None) \<Rightarrow> (ic_bad q1, x, False)
         | (q1, Some buf) \<Rightarrow>
             (q1, if \<not> read_swaps cf q then load pf 2 (ic_mem q1) buf
                  else load pf 2 (swap_2_from pf (ic_mem q1) (local_var pf 2 x) buf 0) 0, True))"

definition read_4 :: "cdr_config \<Rightarrow> 32 word \<Rightarrow> 'm input_cdr \<Rightarrow> 'm input_cdr \<times> 32 word \<times> bool" where
  "read_4 cf x q =
     (let pf = cf_platform cf
      in case ic_adjust 4 4 q of
           (q1, None) \<Rightarrow> (ic_bad q1, x, False)
         | (q1, Some buf) \<Rightarrow>
             (q1, if \<not> read_swaps cf q then load pf 4 (ic_mem q1) buf
                  else load pf 4 (swap_4_from pf (ic_mem q1) (local_var pf 4 x) buf 0) 0, True))"

definition read_8 :: "cdr_config \<Rightarrow> 64 word \<Rightarrow> 'm input_cdr \<Rightarrow> 'm input_cdr \<times> 64 word \<times> bool" where
  "read_8 cf x q =
     (let pf = cf_platform cf
      in case ic_adjust 8 8 q of
           (q1, None) \<Rightarrow> (ic_bad q1, x, False)
         | (q1, Some buf) \<Rightarrow>
             (q1, if \<not> read_swaps cf q then load pf 8 (ic_mem q1) buf
                  else load pf 8 (swap_8_from pf (ic_mem q1) (local_var pf 8 x) buf 0) 0, True))"

definition read_16 :: "cdr_config \<Rightarrow> 128 word \<Rightarrow> 'm input_cdr \<Rightarrow> 'm input_cdr \<times> 128 word \<times> bool" where
  "read_16 cf x q =
     (let pf = cf_platform cf
      in case ic_adjust 16 8 q of
           (q1, None) \<Rightarrow> (ic_bad q1, x, False)
         | (q1, Some buf) \<Rightarrow>
             (q1, if \<not> read_swaps cf q then load pf 16 (ic_mem q1) buf
                  else load pf 16 (swap_16_from pf (ic_mem q1) (local_var pf 16 x) buf 0) 0, True))"

text \<open>An array goes to the address \<open>x\<close> of the caller.\<close>

definition read_array :: "cdr_config \<Rightarrow> addr \<Rightarrow> nat \<Rightarrow> nat \<Rightarrow> nat \<Rightarrow> 'm input_cdr \<Rightarrow> 'm input_cdr \<times> bool" where
  "read_array cf x sz align len q =
     (if len = 0 then (q, True)
      else case ic_adjust (sz * len) align q of
             (q1, None) \<Rightarrow> (q1, False)
           | (q1, Some buf) \<Rightarrow>
               if \<not> read_swaps cf q \<or> sz = 1
               then (q1\<lparr>ic_mem := mem_write (ic_mem q1) x (mem_read (ic_mem q1) buf (sz * len))\<rparr>, ic_good_bit q1)
               else (case swap_array (cf_platform cf) sz (ic_mem q1) buf x len of
                       None \<Rightarrow> (ic_bad q1, False)
                     | Some m \<Rightarrow> (q1\<lparr>ic_mem := m\<rparr>, ic_good_bit q1)))"

text \<open>The typed arrays are checked against the length of the stream first.\<close>

definition read_typed_array :: "cdr_config \<Rightarrow> addr \<Rightarrow> nat \<Rightarrow> nat \<Rightarrow> nat \<Rightarrow> 'm input_cdr \<Rightarrow> 'm input_cdr \<times> bool" where
  "read_typed_array cf x sz align len q =
     (if len * sz > ic_length q then (ic_bad q, False) else read_array cf x sz align len q)"

definition read_boolean :: "'m input_cdr \<Rightarrow> 'm input_cdr \<times> bool \<times> bool" where
  "read_boolean q = (let (q1, tmp, _) = read_1 0 q in (q1, tmp \<noteq> 0, ic_good_bit q1))"

text \<open>A loop over the elements, which stops when the stream is no longer good.\<close>

fun read_booleans :: "nat \<Rightarrow> 'm input_cdr \<Rightarrow> 'm input_cdr \<times> bool list" where
  "read_booleans 0 q = (q, [])"
| "read_booleans (Suc n) q =
     (if ic_good_bit q
      then let (q1, x, _) = read_boolean q; (q2, xs) = read_booleans n q1 in (q2, x # xs)
      else (q, []))"

definition read_boolean_array :: "nat \<Rightarrow> 'm input_cdr \<Rightarrow> 'm input_cdr \<times> bool list \<times> bool" where
  "read_boolean_array len q =
     (if len > ic_length q then (ic_bad q, [], False)
      else let (q1, xs) = read_booleans len q in (q1, xs, ic_good_bit q1))"

text \<open>The array for the text comes from the default allocator; a null pointer is what the failures pass out.\<close>

definition read_string :: "'m allocator_ops \<Rightarrow> cdr_config \<Rightarrow> addr \<Rightarrow> 'm input_cdr \<Rightarrow> 'm input_cdr \<times> addr \<times> bool" where
  "read_string ops cf x q =
     (case read_4 cf 0 q of
        (q1, len, r) \<Rightarrow>
          if \<not> r then (q1, x, False)
          else if len > 0 \<and> unat len \<le> ic_length q1
          then let (heap1, p) = al_malloc ops (ic_heap q1) (al_instance ops) (of_nat (unat len));
                   q2 = q1\<lparr>ic_heap := heap1\<rparr>
               in if p = NULL then (q2, NULL, False)
                  else (case read_typed_array cf p 1 1 (unat len) q2 of
                          (q3, True) \<Rightarrow> (q3, p, True)
                        | (q3, False) \<Rightarrow>
                            (ic_bad (q3\<lparr>ic_heap := al_free ops (ic_heap q3) (al_instance ops) p\<rparr>), NULL, False))
          else if len = 0
          then let (heap1, p) = al_malloc ops (ic_heap q1) (al_instance ops) 1; q2 = q1\<lparr>ic_heap := heap1\<rparr>
               in if p = NULL then (q2, NULL, False)
                  else (q2\<lparr>ic_mem := mem_write (ic_mem q2) p [0]\<rparr>, p, True)
          else (ic_bad q1, NULL, False))"

definition skip_bytes :: "nat \<Rightarrow> 'm input_cdr \<Rightarrow> 'm input_cdr \<times> bool" where
  "skip_bytes len q =
     (if ptr_add (ic_rd_ptr q) len \<le> ic_wr_ptr q then (ic_advance len q, True) else (ic_bad q, False))"

text \<open>A length of all ones announces an indirection: the offset behind it is skipped.\<close>

definition skip_string :: "cdr_config \<Rightarrow> 'm input_cdr \<Rightarrow> 'm input_cdr \<times> bool" where
  "skip_string cf q =
     (case read_4 cf 0 q of
        (q1, len, r) \<Rightarrow>
          if \<not> r then (q1, False)
          else if len = - 1
          then (case read_4 cf 0 q1 of (q2, _, True) \<Rightarrow> (q2, True) | (q2, _, False) \<Rightarrow> (ic_bad q2, False))
          else skip_bytes (unat len) q1)"

section \<open>Wide characters\<close>

text \<open>
  A wide character at address \<open>x\<close>. GIOP 1.2 puts the number of bytes in front of it; the bytes go to
  \<open>x\<close> itself, or to the local variable at \<open>tmp\<close> when the wire format is narrower than the type.
\<close>

definition giop_1_2 :: "byte \<Rightarrow> byte \<Rightarrow> bool" where
  "giop_1_2 major minor \<longleftrightarrow> major = 1 \<and> minor = 2"

definition sizeof_wchar :: nat where "sizeof_wchar = 4"

definition write_octets :: "'m allocator_ops \<Rightarrow> byte list \<Rightarrow> 'm output_cdr \<Rightarrow> ('m output_cdr \<times> bool) option" where
  "write_octets ops bs q =
     (if bs = [] then Some (q, True)
      else case oc_adjust ops (of_nat (length bs)) 1 q of
             None \<Rightarrow> None
           | Some (q1, None) \<Rightarrow> Some (q1\<lparr>oc_good_bit := False\<rparr>, False)
           | Some (q1, Some buf) \<Rightarrow> Some (q1\<lparr>oc_mem := mem_write (oc_mem q1) buf bs\<rparr>, True))"

definition write_wchar_plain :: "'m allocator_ops \<Rightarrow> cdr_config \<Rightarrow> 32 word \<Rightarrow> 'm output_cdr \<Rightarrow> ('m output_cdr \<times> bool) option" where
  "write_wchar_plain ops cf x q =
     (if cf_wchar_maxbytes cf = sizeof_wchar then write_4 ops cf x q
      else if cf_wchar_maxbytes cf = 2 then write_2 ops cf (ucast x) q
      else write_1 ops (ucast x) q)"

definition write_wchar :: "'m allocator_ops \<Rightarrow> cdr_config \<Rightarrow> 32 word \<Rightarrow> 'm output_cdr \<Rightarrow> ('m output_cdr \<times> bool) option" where
  "write_wchar ops cf x q =
     (let pf = cf_platform cf
      in if cf_wchar_maxbytes cf = 0 then Some (q\<lparr>oc_good_bit := False\<rparr>, False)
         else if giop_1_2 (oc_major q) (oc_minor q)
         then (case write_1 ops (of_nat (cf_wchar_maxbytes cf)) q of
                 None \<Rightarrow> None
               | Some (q1, r) \<Rightarrow>
                   if r then write_octets ops (let n = unat (of_nat (cf_wchar_maxbytes cf) :: byte)
                               in if cf_wchar_maxbytes cf = sizeof_wchar then native pf 4 x
                                  else if cf_wchar_maxbytes cf = 2 then native pf 2 (ucast x :: 16 word)
                                  else take n (native pf 1 (ucast x :: byte))) q1
                   else write_wchar_plain ops cf x q1)
         else if oc_minor q = 0 then Some (q\<lparr>oc_good_bit := False\<rparr>, False)
         else write_wchar_plain ops cf x q)"

definition ic_store :: "'m input_cdr \<Rightarrow> addr \<Rightarrow> byte list \<Rightarrow> 'm input_cdr" where
  "ic_store q p bs = q\<lparr>ic_mem := mem_write (ic_mem q) p bs\<rparr>"

definition read_wchar :: "cdr_config \<Rightarrow> addr \<Rightarrow> addr \<Rightarrow> 'm input_cdr \<Rightarrow> 'm input_cdr \<times> bool" where
  "read_wchar cf x tmp q =
     (let pf = cf_platform cf; giop = giop_1_2 (ic_major q) (ic_minor q)
      in if cf_wchar_maxbytes cf = 0 then (ic_bad q, False)
         else if cf_wchar_maxbytes cf = sizeof_wchar
         then if giop
              then (case read_1 0 q of
                      (q1, len, True) \<Rightarrow> read_array cf x (unat len) 1 1 q1
                    | (q1, _, False) \<Rightarrow> (ic_bad q1, False))
              else (case read_4 cf 0 q of
                      (q1, v, True) \<Rightarrow> (ic_store q1 x (native pf 4 v), True)
                    | (q1, _, False) \<Rightarrow> (q1, False))
         else if giop
         then (case read_1 0 q of
                 (q1, len, True) \<Rightarrow>
                   (case read_array cf tmp (unat len) 1 1 q1 of
                      (q2, True) \<Rightarrow>
                        (ic_store q2 x (native pf 4 (if len = 2
                           then scast (load pf 2 (ic_mem q2) tmp :: 16 word) :: 32 word
                           else ucast (ic_mem q2 tmp))), True)
                    | (q2, False) \<Rightarrow> (ic_bad q2, False))
               | (q1, _, False) \<Rightarrow> (ic_bad q1, False))
         else if cf_wchar_maxbytes cf = 2
         then (case read_2 cf 0 q of
                 (q1, v, True) \<Rightarrow> (ic_store q1 x (native pf 4 (ucast v :: 32 word)), True)
               | (q1, _, False) \<Rightarrow> (ic_bad q1, False))
         else (case read_1 0 q of
                 (q1, v, True) \<Rightarrow> (ic_store q1 x (native pf 4 (ucast v :: 32 word)), True)
               | (q1, _, False) \<Rightarrow> (ic_bad q1, False)))"

section \<open>Growing and resetting an input stream\<close>

text \<open>
  \<open>ACE_CDR::grow\<close> and \<open>ACE_CDR::consolidate\<close> on one block; \<open>None\<close> when the computation of the size does not end. The
  source of \<open>consolidate\<close> is a chain of other blocks.
\<close>

definition cdr_grow ::
  "'m allocator_ops \<Rightarrow> 64 word \<Rightarrow> mblk \<Rightarrow> memory \<Rightarrow> 'm \<Rightarrow> (memory \<times> 'm \<times> mblk \<times> int) option" where
  "cdr_grow ops minsize b m heap =
     (case first_size (minsize + of_nat MAX_ALIGNMENT) of
        None \<Rightarrow> None
      | Some newsize \<Rightarrow>
          Some (if unat newsize \<le> bk_cur_size b then (m, heap, b, 0)
                else case new_block ops (bk_allocator b) newsize heap of
                       (heap1, None) \<Rightarrow> (m, heap1, b, -1)
                     | (heap1, Some db) \<Rightarrow>
                         let start = ACE_ptr_align_binary (bk_base db) MAX_ALIGNMENT; mb_len = bk_length b
                         in (mem_write m start (mem_read m (bk_rd_ptr b) mb_len), bk_release ops b heap1,
                             db\<lparr>bk_rd := start - bk_base db, bk_wr := start - bk_base db + mb_len\<rparr>, 0)))"

text \<open>The copying loop of \<open>consolidate\<close>, whose results are not looked at; \<open>rd_ptr (n)\<close> adds to the read pointer.\<close>

primrec consolidate_loop :: "mblk list \<Rightarrow> memory \<times> mblk \<Rightarrow> memory \<times> mblk" where
  "consolidate_loop [] s = s"
| "consolidate_loop (i # is) s =
     (let (m, dst) = s
      in if bk_wr_ptr dst \<noteq> bk_rd_ptr i
         then let (m1, dst1, _) = bk_copy m (bk_rd_ptr i) (bk_length i) dst in consolidate_loop is (m1, dst1)
         else consolidate_loop is (m, dst\<lparr>bk_wr := bk_wr dst + bk_length i\<rparr>))"

definition cdr_consolidate ::
  "'m allocator_ops \<Rightarrow> mblk list \<Rightarrow> mblk \<Rightarrow> memory \<Rightarrow> 'm \<Rightarrow> (memory \<times> 'm \<times> mblk \<times> int) option" where
  "cdr_consolidate ops src dst m heap =
     (if src = [] then Some (m, heap, dst, 0)
      else case first_size (of_nat (total_length src + MAX_ALIGNMENT)) of
             None \<Rightarrow> None
           | Some newsize \<Rightarrow>
               let (m1, heap1, dst1, r) = bk_set_size ops newsize dst m heap
               in if r = -1 then Some (m1, heap1, dst1, -1)
                  else let srcalign = int (bk_rd_ptr (hd src)) mod int MAX_ALIGNMENT;
                           dstalign = int (bk_rd_ptr dst1) mod int MAX_ALIGNMENT;
                           offset = srcalign - dstalign;
                           offset = (if offset < 0 then offset + int MAX_ALIGNMENT else offset);
                           dst2 = dst1\<lparr>bk_rd := bk_rd dst1 + nat offset, bk_wr := bk_rd dst1 + nat offset\<rparr>;
                           (m2, dst3) = consolidate_loop src (m1, dst2)
                       in Some (m2, heap1, dst3, 0))"

definition input_grow :: "'m allocator_ops \<Rightarrow> 64 word \<Rightarrow> 'm input_cdr \<Rightarrow> ('m input_cdr \<times> int) option" where
  "input_grow ops newsize q =
     map_option (\<lambda>(m, heap, b, r).
       if r = -1 then (q\<lparr>ic_mem := m, ic_heap := heap, ic_start := b\<rparr>, -1)
       else let b1 = mb_align b
            in (q\<lparr>ic_mem := m, ic_heap := heap, ic_start := b1\<lparr>bk_wr := bk_wr b1 + unat newsize\<rparr>\<rparr>, 0))
       (cdr_grow ops newsize (ic_start q) (ic_mem q) (ic_heap q))"

text \<open>\<open>reset\<close> does not look at the result of \<open>consolidate\<close>.\<close>

definition input_reset :: "'m allocator_ops \<Rightarrow> mblk list \<Rightarrow> bool \<Rightarrow> 'm input_cdr \<Rightarrow> 'm input_cdr option" where
  "input_reset ops src swap q =
     map_option (\<lambda>(m, heap, b, r). q\<lparr>ic_mem := m, ic_heap := heap, ic_start := b, ic_do_byte_swap := swap\<rparr>)
       (cdr_consolidate ops src (ic_start q) (ic_mem q) (ic_heap q))"

end
