(* ===== verification/ACE_CDR_Swap.thy ===== *)
theory ACE_CDR_Swap
  imports ACE_CDR_Base
begin

text \<open>
  What the byte swaps of \<open>ACE_CDR_Base\<close> compute: with masks and shifts in either byte order and with either
  size of \<open>long\<close>, aligned or not, they reverse the bytes of each element.
\<close>

unbundle bit_operations_syntax

section \<open>Bytes of words\<close>

lemma length_bytes_le [simp]: "length (bytes_le n w) = n"
  by (simp add: bytes_le_def)

lemma length_native [simp]: "length (native pf n w) = n"
  by (simp add: native_def)

lemma bytes_le_nth: "i < n \<Longrightarrow> bytes_le n w ! i = ucast (drop_bit (8 * i) w)"
  by (simp add: bytes_le_def)

lemma bytes_le_Suc: "bytes_le (Suc n) w = ucast w # bytes_le n (drop_bit 8 w)"
proof -
  have "[0..<Suc n] = 0 # map Suc [0..<n]" by (simp add: map_Suc_upt upt_conv_Cons del: upt_Suc)
  then show ?thesis by (simp add: bytes_le_def comp_def add.commute del: upt_Suc)
qed

lemma bytes_le_0 [simp]: "bytes_le 0 w = []"
  by (simp add: bytes_le_def)

lemma ucast_or_push_bit: "ucast ((ucast (b :: byte) :: 'a :: len word) OR push_bit 8 w) = b" if "8 \<le> LENGTH('a)"
  using that by (intro bit_word_eqI) (auto simp: bit_simps)

lemma drop_bit_or_push_bit:
  fixes w :: "'a :: len word"
  assumes "drop_bit (LENGTH('a) - 8) w = 0" "8 \<le> LENGTH('a)"
  shows "drop_bit 8 (ucast (b :: byte) OR push_bit 8 w) = w"
proof (rule bit_word_eqI)
  fix n assume n: "n < LENGTH('a)"
  have "\<not> bit w n" if "\<not> n + 8 < LENGTH('a)"
  proof -
    have "bit (drop_bit (LENGTH('a) - 8) w) (n - (LENGTH('a) - 8)) = bit w n" using that n assms(2) by (simp add: bit_simps)
    then show ?thesis using assms(1) by simp
  qed
  then show "bit (drop_bit 8 (ucast b OR push_bit 8 w)) n = bit w n" using n by (auto simp: bit_simps dest: bit_imp_le_length)
qed

lemma word_of_le_high: "8 * length bs \<le> k \<Longrightarrow> drop_bit k (word_of_le bs :: 'a :: len word) = 0"
proof (induction bs arbitrary: k)
  case (Cons b bs)
  have "drop_bit k (ucast b :: 'a word) = 0" using Cons.prems by (intro bit_word_eqI) (auto simp: bit_simps dest: bit_imp_le_length)
  moreover have "drop_bit k (push_bit 8 (word_of_le bs :: 'a word)) = 0"
  proof (rule bit_word_eqI)
    fix n assume "n < LENGTH('a)"
    have "bit (drop_bit (k - 8) (word_of_le bs :: 'a word)) n = False" using Cons.IH [of "k - 8"] Cons.prems by simp
    then show "bit (drop_bit k (push_bit 8 (word_of_le bs :: 'a word))) n = bit 0 n"
      using Cons.prems by (auto simp: bit_simps)
  qed
  ultimately show ?case by simp
qed simp

lemma bytes_of_word: "8 * length bs \<le> LENGTH('a) \<Longrightarrow> bytes_le (length bs) (word_of_le bs :: 'a :: len word) = bs"
proof (induction bs)
  case (Cons b bs)
  have "drop_bit (LENGTH('a) - 8) (word_of_le bs :: 'a word) = 0" using Cons.prems by (intro word_of_le_high) simp
  then have "drop_bit 8 (word_of_le (b # bs) :: 'a word) = word_of_le bs"
    using Cons.prems drop_bit_or_push_bit [where 'a = 'a] by simp
  then show ?case using Cons ucast_or_push_bit [where 'a = 'a, of b] by (simp add: bytes_le_Suc)
qed simp

lemma word_of_bytes_bit:
  "bit (word_of_le bs :: 'a :: len word) k \<longleftrightarrow> k < LENGTH('a) \<and> k div 8 < length bs \<and> bit (bs ! (k div 8)) (k mod 8)"
proof (induction bs arbitrary: k)
  case (Cons b bs)
  show ?case
  proof (cases "k < 8")
    case True
    then show ?thesis by (auto simp: bit_simps)
  next
    case False
    then have "k div 8 = Suc ((k - 8) div 8)" "k mod 8 = (k - 8) mod 8" by (auto simp: le_div_geq le_mod_geq)
    moreover have "\<not> bit b k" using False by (auto dest: bit_imp_le_length)
    ultimately show ?thesis using False Cons.IH [of "k - 8"] by (auto simp: bit_simps)
  qed
qed (simp add: bit_simps)

lemma word_of_bytes: "LENGTH('a) = 8 * n \<Longrightarrow> word_of_le (bytes_le n w) = (w :: 'a :: len word)"
  by (intro bit_word_eqI) (auto simp: word_of_bytes_bit bytes_le_nth bit_simps less_mult_imp_div_less mult.commute)

lemma native_load:
  assumes "8 * n \<le> LENGTH('a :: len)"
  shows "native pf n (load pf n m p :: 'a word) = mem_read m p n"
  using assms bytes_of_word [of "mem_read m p n", where 'a = 'a] bytes_of_word [of "rev (mem_read m p n)", where 'a = 'a]
  by (simp add: native_def load_def mem_read_def)

section \<open>Reading and writing memory\<close>

lemma length_mem_read [simp]: "length (mem_read m p n) = n"
  by (simp add: mem_read_def)

lemma mem_read_0 [simp]: "mem_read m p 0 = []"
  by (simp add: mem_read_def)

lemma mem_read_nth: "i < n \<Longrightarrow> mem_read m p n ! i = m (p + i)"
  by (simp add: mem_read_def)

lemma mem_read_add: "mem_read m p (a + b) = mem_read m p a @ mem_read m (p + a) b"
proof -
  have "[p..<p + (a + b)] = [p..<p + a] @ [p + a..<p + a + b]" using upt_add_eq_append [of p "p + a" b] by (simp add: add.assoc)
  then show ?thesis by (simp add: mem_read_def)
qed

lemma mem_write_Nil [simp]: "mem_write m p [] = m"
  by (auto simp: mem_write_def fun_eq_iff)

lemma mem_write_write: "mem_write (mem_write m p xs) (p + length xs) ys = mem_write m p (xs @ ys)"
  by (auto simp: mem_write_def fun_eq_iff nth_append)

lemma mem_write_over: "length xs = length ys \<Longrightarrow> mem_write (mem_write m p xs) p ys = mem_write m p ys"
  by (auto simp: mem_write_def fun_eq_iff)

lemma mem_read_write_same: "mem_read (mem_write m p xs) p (length xs) = xs"
  by (rule nth_equalityI) (simp_all add: mem_read_nth mem_write_def)

definition separate :: "addr \<Rightarrow> nat \<Rightarrow> addr \<Rightarrow> nat \<Rightarrow> bool" where
  "separate p n q k \<longleftrightarrow> p + n \<le> q \<or> q + k \<le> p \<or> n = 0 \<or> k = 0"

lemma mem_read_write_separate: "separate p n q (length xs) \<Longrightarrow> mem_read (mem_write m q xs) p n = mem_read m p n"
  by (auto simp: separate_def mem_read_def mem_write_def)

lemma separate_sub: "separate p n q k \<Longrightarrow> a + a' \<le> n \<Longrightarrow> b + b' \<le> k \<Longrightarrow> separate (p + a) a' (q + b) b'"
  by (auto simp: separate_def)

section \<open>The swapped elements of an array\<close>

text \<open>The reference: the bytes of each element reversed.\<close>

fun swapped :: "nat \<Rightarrow> byte list \<Rightarrow> byte list" where
  "swapped k bs = (if k = 0 \<or> length bs < k then [] else rev (take k bs) @ swapped k (drop k bs))"

declare swapped.simps [simp del]

lemma swapped_elem: "0 < k \<Longrightarrow> length bs = k \<Longrightarrow> swapped k bs = rev bs"
  by (simp add: swapped.simps [of k bs] swapped.simps [of k "[]"])

lemma swapped_Nil [simp]: "swapped k [] = []"
  by (simp add: swapped.simps)

lemma length_swapped: "0 < k \<Longrightarrow> length bs = k * j \<Longrightarrow> length (swapped k bs) = k * j"
proof (induction j arbitrary: bs)
  case (Suc j)
  then show ?case using Suc.IH [of "drop k bs"] by (simp add: swapped.simps [of k bs])
qed simp

lemma swapped_append: "0 < k \<Longrightarrow> length xs = k * j \<Longrightarrow> swapped k (xs @ ys) = swapped k xs @ swapped k ys"
proof (induction j arbitrary: xs)
  case (Suc j)
  then show ?case using Suc.IH [of "drop k xs"] by (simp add: swapped.simps [of k "xs @ ys"] swapped.simps [of k xs])
qed simp

lemma swapped_involution: "0 < k \<Longrightarrow> length bs = k * j \<Longrightarrow> swapped k (swapped k bs) = bs"
proof (induction j arbitrary: bs)
  case (Suc j)
  have "swapped k bs = rev (take k bs) @ swapped k (drop k bs)" using Suc.prems by (simp add: swapped.simps [of k bs])
  moreover have "swapped k (rev (take k bs) @ swapped k (drop k bs)) =
      swapped k (rev (take k bs)) @ swapped k (swapped k (drop k bs))"
    using Suc.prems by (intro swapped_append [where j = 1]) auto
  ultimately show ?case using Suc.IH [of "drop k bs"] Suc.prems by (simp add: swapped_elem)
qed simp

lemma swapped_read_add:
  "0 < k \<Longrightarrow> swapped k (mem_read m p (k * a + b)) = swapped k (mem_read m p (k * a)) @ swapped k (mem_read m (p + k * a) b)"
  unfolding mem_read_add by (rule swapped_append) simp_all

section \<open>The masks and shifts reverse bytes\<close>

lemma bytes_le_2: "bytes_le 2 w = [ucast w, ucast (drop_bit 8 w)]"
  by (simp add: bytes_le_def upt_rec)

lemma bytes_le_4: "bytes_le 4 w = [ucast w, ucast (drop_bit 8 w), ucast (drop_bit 16 w), ucast (drop_bit 24 w)]"
  by (simp add: bytes_le_def upt_rec)

lemma bytes_le_8: "bytes_le 8 w = [ucast w, ucast (drop_bit 8 w), ucast (drop_bit 16 w), ucast (drop_bit 24 w),
    ucast (drop_bit 32 w), ucast (drop_bit 40 w), ucast (drop_bit 48 w), ucast (drop_bit 56 w)]"
  by (simp add: bytes_le_def upt_rec)

lemma less_8: "n < (8 :: nat) \<longleftrightarrow> n = 0 \<or> n = 1 \<or> n = 2 \<or> n = 3 \<or> n = 4 \<or> n = 5 \<or> n = 6 \<or> n = 7"
  by auto

lemma byte_eqI: "(\<And>n. n < 8 \<Longrightarrow> bit a n = bit b n) \<Longrightarrow> a = (b :: byte)"
  by (rule bit_word_eqI) simp

lemma bytes_swap16: "bytes_le 2 (push_bit 8 w OR drop_bit 8 w) = rev (bytes_le 2 (w :: 16 word))"
  unfolding bytes_le_2 by (auto intro!: byte_eqI simp: bit_simps dest: bit_imp_le_length)

lemma bytes_bswap32: "bytes_le 4 (bswap32 w) = rev (bytes_le 4 w)"
  unfolding bytes_le_4 bswap32_def
  by (auto intro!: byte_eqI simp: bit_simps less_8 dest: bit_imp_le_length)

lemma bytes_bswap_halves: "bytes_le 8 (bswap_halves w) = swapped 4 (bytes_le 8 w)"
proof -
  have "bytes_le 8 (bswap_halves w) = rev (take 4 (bytes_le 8 w)) @ rev (drop 4 (bytes_le 8 w))"
    unfolding bytes_le_8 bswap_halves_def
    by (auto intro!: byte_eqI simp: bit_simps less_8 Let_def dest: bit_imp_le_length)
  then show ?thesis by (simp add: swapped.simps [of 4 "bytes_le 8 w"] swapped_elem)
qed

lemma bytes_rotate_halves: "bytes_le 8 (push_bit 32 w OR drop_bit 32 w) = drop 4 (bytes_le 8 w) @ take 4 (bytes_le 8 (w :: 64 word))"
  unfolding bytes_le_8 by (auto intro!: byte_eqI simp: bit_simps dest: bit_imp_le_length)

lemma bytes_bswap_shorts64: "bytes_le 8 (bswap_shorts64 w) = swapped 2 (bytes_le 8 w)"
proof -
  have "bytes_le 8 (bswap_shorts64 w) = (case bytes_le 8 w of [a, b, c, d, e, f, g, h] \<Rightarrow> [b, a, d, c, f, e, h, g])"
    unfolding bytes_le_8 bswap_shorts64_def
    by (auto intro!: byte_eqI simp: bit_simps less_8 Let_def dest: bit_imp_le_length)
  then show ?thesis unfolding bytes_le_8 by (simp add: swapped.simps)
qed

lemma bytes_bswap_shorts32: "bytes_le 4 (bswap_shorts32 w) = swapped 2 (bytes_le 4 w)"
proof -
  have "bytes_le 4 (bswap_shorts32 w) = (case bytes_le 4 w of [a, b, c, d] \<Rightarrow> [b, a, d, c])"
    unfolding bytes_le_4 bswap_shorts32_def
    by (auto intro!: byte_eqI simp: bit_simps less_8 Let_def dest: bit_imp_le_length)
  then show ?thesis unfolding bytes_le_4 by (simp add: swapped.simps)
qed

lemma bytes_split_16:
  "bytes_le 8 (w :: 64 word) = bytes_le 2 (ucast (w AND 0xffff) :: 16 word) @ bytes_le 2 (ucast (drop_bit 16 w AND 0xffff) :: 16 word) @
     bytes_le 2 (ucast (drop_bit 32 w AND 0xffff) :: 16 word) @ bytes_le 2 (ucast (drop_bit 48 w) :: 16 word)"
  unfolding bytes_le_8 bytes_le_2 by (auto intro!: byte_eqI simp: bit_simps less_8)

lemma bytes_split_32_16:
  "bytes_le 4 (w :: 32 word) = bytes_le 2 (ucast (w AND 0xffff) :: 16 word) @ bytes_le 2 (ucast (drop_bit 16 w) :: 16 word)"
  unfolding bytes_le_4 bytes_le_2 by (auto intro!: byte_eqI simp: bit_simps less_8)

lemma bytes_split_32:
  "bytes_le 8 (w :: 64 word) = bytes_le 4 (ucast (w AND 0xffffffff) :: 32 word) @ bytes_le 4 (ucast (drop_bit 32 w) :: 32 word)"
  unfolding bytes_le_8 bytes_le_4 by (auto intro!: byte_eqI simp: bit_simps less_8)

lemma swapped_rev: "0 < k \<Longrightarrow> length bs = k * j \<Longrightarrow> swapped k (rev bs) = rev (swapped k bs)"
proof (induction j arbitrary: bs)
  case (Suc j)
  have "bs = take k bs @ drop k bs" by simp
  then have "swapped k (rev bs) = swapped k (rev (drop k bs) @ rev (take k bs))" by (metis rev_append)
  also have "\<dots> = swapped k (rev (drop k bs)) @ swapped k (rev (take k bs))"
    using Suc.prems by (intro swapped_append) auto
  finally show ?case using Suc.IH [of "drop k bs"] Suc.prems by (simp add: swapped_elem swapped.simps [of k bs])
qed simp

text \<open>On the bytes as they lie in memory the byte order no longer matters.\<close>

lemma native_swap16: "native pf 2 (push_bit 8 w OR drop_bit 8 w) = rev (native pf 2 (w :: 16 word))"
  by (simp add: native_def bytes_swap16)

lemma native_bswap32: "native pf 4 (bswap32 w) = rev (native pf 4 w)"
  by (simp add: native_def bytes_bswap32)

lemma native_bswap_halves: "native pf 8 (bswap_halves w) = swapped 4 (native pf 8 w)"
  by (simp add: native_def bytes_bswap_halves swapped_rev [where j = 2])

lemma native_bswap_shorts64: "native pf 8 (bswap_shorts64 w) = swapped 2 (native pf 8 w)"
  by (simp add: native_def bytes_bswap_shorts64 swapped_rev [where j = 4])

lemma native_bswap_shorts32: "native pf 4 (bswap_shorts32 w) = swapped 2 (native pf 4 w)"
  by (simp add: native_def bytes_bswap_shorts32 swapped_rev [where j = 2])

lemma native_rotate_halves:
  "native pf 8 (push_bit 32 w OR drop_bit 32 w) = drop 4 (native pf 8 w) @ take 4 (native pf 8 (w :: 64 word))"
  unfolding native_def bytes_rotate_halves by (simp add: rev_drop rev_take)

lemmas native_swaps = native_swap16 native_bswap32 native_bswap_halves native_bswap_shorts64 native_bswap_shorts32
  native_rotate_halves native_load

lemma store_store: "q = p + n \<Longrightarrow> store pf k (mem_write m p xs) q w = mem_write m p (xs @ native pf k w)" if "length xs = n"
  using that mem_write_write [of m p xs] by (simp add: store_def)

lemma swap_2_mem: "swap_2_from pf src m orig target = mem_write m target (rev (mem_read src orig 2))"
  by (simp add: swap_2_from_def store_def native_swaps)

lemma swap_4_mem: "swap_4_from pf src m orig target = mem_write m target (rev (mem_read src orig 4))"
  by (simp add: swap_4_from_def store_def native_swaps)

lemma swap_8_mem: "swap_8_from pf src m orig target = mem_write m target (rev (mem_read src orig 8))"
proof -
  have r: "mem_read src orig 8 = mem_read src orig 4 @ mem_read src (orig + 4) 4" using mem_read_add [of src orig 4 4] by simp
  show ?thesis
  proof (cases "sizeof_long_8 pf")
    case True
    have "swapped 4 (mem_read src orig 4 @ mem_read src (orig + 4) 4) = rev (mem_read src orig 4) @ rev (mem_read src (orig + 4) 4)"
      using swapped_append [of 4 "mem_read src orig 4" 1] by (simp add: swapped_elem)
    then show ?thesis
      using True r by (simp add: swap_8_from_def store_def native_swaps)
  next
    case False
    then show ?thesis
      using r by (simp add: swap_8_from_def store_def [of _ _ m] store_store native_swaps)
  qed
qed

lemma swap_16_mem:
  assumes "separate orig 16 target 16"
  shows "swap_16 pf m orig target = mem_write m target (rev (mem_read m orig 16))"
proof -
  let ?m = "mem_write m target (rev (mem_read m (orig + 8) 8))"
  have "mem_read m orig 16 = mem_read m orig 8 @ mem_read m (orig + 8) 8" using mem_read_add [of m orig 8 8] by simp
  moreover have "mem_read ?m orig 8 = mem_read m orig 8"
    using separate_sub [OF assms, of 0 8 0 8] by (intro mem_read_write_separate) simp
  ultimately show ?thesis
    using mem_write_write [of m target "rev (mem_read m (orig + 8) 8)"] by (simp add: swap_16_def swap_8_mem)
qed

lemma swap_16_from_mem: "swap_16_from pf src m orig target = mem_write m target (rev (mem_read src orig 16))"
proof -
  have "mem_read src orig 16 = mem_read src orig 8 @ mem_read src (orig + 8) 8" using mem_read_add [of src orig 8 8] by simp
  then show ?thesis
    using mem_write_write [of m target "rev (mem_read src (orig + 8) 8)"] by (simp add: swap_16_from_def swap_8_mem)
qed

section \<open>One round of the unrolled loops\<close>

lemma store_shorts_4:
  "store_shorts pf m t [a, b, c, d] = mem_write m t (native pf 2 a @ native pf 2 b @ native pf 2 c @ native pf 2 d)"
  by (simp add: store_shorts_def store_def [of _ _ m] store_store)

lemma store_longs_4:
  "store_longs pf m t [a, b, c, d] = mem_write m t (native pf 4 a @ native pf 4 b @ native pf 4 c @ native pf 4 d)"
  by (simp add: store_longs_def store_def [of _ _ m] store_store)

lemma swapped_halves:
  "swapped 2 (mem_read m p 8) = swapped 2 (mem_read m p 4) @ swapped 2 (mem_read m (p + 4) 4)"
  "swapped 4 (mem_read m p 16) = swapped 4 (mem_read m p 8) @ swapped 4 (mem_read m (p + 8) 8)"
  "swapped 4 (mem_read m p 8) = rev (mem_read m p 4) @ rev (mem_read m (p + 4) 4)"
  using swapped_read_add [of 2 m p 2 4] swapped_read_add [of 4 m p 2 8] swapped_read_add [of 4 m p 1 4]
  by (simp_all add: swapped_elem)

lemma shorts_aligned_mem: "shorts_aligned pf m orig target = mem_write m target (swapped 2 (mem_read m orig 8))"
  by (simp add: shorts_aligned_def store_def [of _ _ m] store_store native_swaps swapped_halves length_swapped [where j = 2])

lemma shorts_unaligned_mem: "shorts_unaligned pf m orig target = mem_write m target (swapped 2 (mem_read m orig 8))"
proof -
  have n64: "native pf 8 a = (if little_endian pf
      then native pf 2 (ucast (a AND 0xffff) :: 16 word) @ native pf 2 (ucast (drop_bit 16 a AND 0xffff) :: 16 word) @
        native pf 2 (ucast (drop_bit 32 a AND 0xffff) :: 16 word) @ native pf 2 (ucast (drop_bit 48 a) :: 16 word)
      else native pf 2 (ucast (drop_bit 48 a) :: 16 word) @ native pf 2 (ucast (drop_bit 32 a AND 0xffff) :: 16 word) @
        native pf 2 (ucast (drop_bit 16 a AND 0xffff) :: 16 word) @ native pf 2 (ucast (a AND 0xffff) :: 16 word))"
    for a :: "64 word" unfolding native_def bytes_split_16 by simp
  have n32: "native pf 4 a = (if little_endian pf
      then native pf 2 (ucast (a AND 0xffff) :: 16 word) @ native pf 2 (ucast (drop_bit 16 a) :: 16 word)
      else native pf 2 (ucast (drop_bit 16 a) :: 16 word) @ native pf 2 (ucast (a AND 0xffff) :: 16 word))"
    for a :: "32 word" unfolding native_def bytes_split_32_16 by simp
  have "shorts_unaligned pf m orig target = mem_write m target
      (if sizeof_long_8 pf then native pf 8 (bswap_shorts64 (load pf 8 m orig))
       else native pf 4 (bswap_shorts32 (load pf 4 m orig)) @ native pf 4 (bswap_shorts32 (load pf 4 m (orig + 4))))"
    unfolding n64 n32 by (simp add: shorts_unaligned_def store_shorts_4 Let_def)
  then show ?thesis by (simp add: native_swaps swapped_halves)
qed

lemma longs_aligned_mem: "longs_aligned pf m orig target = mem_write m target (swapped 4 (mem_read m orig 16))"
  by (simp add: longs_aligned_def store_def [of _ _ m] store_store native_swaps swapped_halves length_swapped [where j = 2])

lemma longs_unaligned_mem: "longs_unaligned pf m orig target = mem_write m target (swapped 4 (mem_read m orig 16))"
proof -
  have n64: "native pf 8 a = (if little_endian pf
      then native pf 4 (ucast (a AND 0xffffffff) :: 32 word) @ native pf 4 (ucast (drop_bit 32 a) :: 32 word)
      else native pf 4 (ucast (drop_bit 32 a) :: 32 word) @ native pf 4 (ucast (a AND 0xffffffff) :: 32 word))"
    for a :: "64 word" unfolding native_def bytes_split_32 by simp
  have "longs_unaligned pf m orig target = mem_write m target
      (native pf 8 (bswap_halves (load pf 8 m orig)) @ native pf 8 (bswap_halves (load pf 8 m (orig + 8))))"
    unfolding n64 by (simp add: longs_unaligned_def store_longs_4 Let_def)
  then show ?thesis by (simp add: native_bswap_halves native_load swapped_halves(2))
qed

lemma longs_32_mem: "longs_32 pf m orig target = mem_write m target (swapped 4 (mem_read m orig 16))"
  by (simp add: longs_32_def store_longs_4 native_swaps swapped_halves add.commute)

section \<open>The loops\<close>

lemma write_swapped_add:
  assumes "0 < k" "separate orig (k * a + b) target (k * a + b)"
  shows "mem_write (mem_write m target (swapped k (mem_read m orig (k * a)))) (target + k * a)
      (swapped k (mem_read (mem_write m target (swapped k (mem_read m orig (k * a)))) (orig + k * a) b)) =
    mem_write m target (swapped k (mem_read m orig (k * a + b)))"
proof -
  have l: "length (swapped k (mem_read m orig (k * a))) = k * a" using assms(1) by (simp add: length_swapped)
  have "separate (orig + k * a) b target (k * a)" using separate_sub [OF assms(2), of "k * a" b 0 "k * a"] by simp
  then have "mem_read (mem_write m target (swapped k (mem_read m orig (k * a)))) (orig + k * a) b = mem_read m (orig + k * a) b"
    using l by (intro mem_read_write_separate) simp
  then show ?thesis
    using mem_write_write [of m target "swapped k (mem_read m orig (k * a))"] l assms(1) by (simp add: swapped_read_add)
qed

lemma chunk_loop_swapped:
  assumes "0 < k" "0 < c"
    and "\<And>m p q. separate p (k * c) q (k * c) \<Longrightarrow> body m p q = mem_write m q (swapped k (mem_read m p (k * c)))"
    and "separate orig (k * c * j) target (k * c * j)"
  shows "chunk_loop body (k * c) (orig + k * c * j) m orig target =
    (mem_write m target (swapped k (mem_read m orig (k * c * j))), orig + k * c * j, target + k * c * j)"
  using assms(4)
proof (induction j arbitrary: m orig target)
  case 0
  then show ?case by (simp add: chunk_loop.simps)
next
  case (Suc j)
  let ?m = "mem_write m target (swapped k (mem_read m orig (k * c)))"
  have "body m orig target = ?m" using assms(3) separate_sub [OF Suc.prems, of 0 "k * c" 0 "k * c"] by simp
  then have "chunk_loop body (k * c) (orig + k * c * Suc j) m orig target =
      chunk_loop body (k * c) (orig + k * c + k * c * j) ?m (orig + k * c) (target + k * c)"
    using assms(1,2) by (simp add: chunk_loop.simps [of body "k * c" _ m] add.assoc)
  also have "\<dots> = (mem_write ?m (target + k * c) (swapped k (mem_read ?m (orig + k * c) (k * c * j))),
      orig + k * c + k * c * j, target + k * c + k * c * j)"
    using separate_sub [OF Suc.prems, of "k * c" "k * c * j" "k * c" "k * c * j"] by (intro Suc.IH) simp
  also have "mem_write ?m (target + k * c) (swapped k (mem_read ?m (orig + k * c) (k * c * j))) =
      mem_write m target (swapped k (mem_read m orig (k * c + k * c * j)))"
    using assms(1) Suc.prems by (intro write_swapped_add) simp_all
  finally show ?case by (simp add: add.assoc)
qed

lemma last_elements_swapped:
  assumes "0 < k" "r < 4" "\<And>m p q. swap m p q = mem_write m q (rev (mem_read m p k))" "separate orig (k * r) target (k * r)"
  shows "last_elements swap k r m orig target = mem_write m target (swapped k (mem_read m orig (k * r)))"
proof -
  have s: "swap m p q = mem_write m q (swapped k (mem_read m p k))" for m p q using assms(1,3) by (simp add: swapped_elem)
  note W = write_swapped_add [OF assms(1), of orig _ _ target m]
  consider "r = 0" | "r = 1" | "r = 2" | "r = 3" using assms(2) by linarith
  then show ?thesis
  proof cases
    case 3
    then show ?thesis using W [of 1 k] assms(4) by (simp add: last_elements_def s numeral_2_eq_2)
  next
    case 4
    have 2: "separate orig (k * 1 + k) target (k * 1 + k)" "separate orig (k * 2 + k) target (k * 2 + k)"
      using assms(4) 4 by (auto simp: separate_def)
    have k3: "k * 3 = k + (k + k)" by simp
    show ?thesis using 4 W [of 1 k, OF 2(1)] W [of 2 k, OF 2(2)]
      by (simp add: last_elements_def s k3 algebra_simps mult_2_right)
  qed (simp_all add: last_elements_def s)
qed

lemma swap_2_head_swapped:
  assumes "separate orig (2 * n) target (2 * n)"
  shows "\<exists>j \<le> n. swap_2_head pf o8 m orig target n =
    (mem_write m target (swapped 2 (mem_read m orig (2 * j))), orig + 2 * j, target + 2 * j, n - j)"
  using assms
proof (induction n arbitrary: m orig target)
  case (Suc n)
  show ?case
  proof (cases "orig < o8")
    case True
    let ?m = "mem_write m target (swapped 2 (mem_read m orig (2 * 1)))"
    have "swap_2_head pf o8 m orig target (Suc n) = swap_2_head pf o8 ?m (orig + 2) (target + 2) n"
      using True by (simp add: swap_2_head.simps [of _ _ m] swap_2_mem swapped_elem)
    moreover obtain j where "j \<le> n" "swap_2_head pf o8 ?m (orig + 2) (target + 2) n =
        (mem_write ?m (target + 2) (swapped 2 (mem_read ?m (orig + 2) (2 * j))), orig + 2 + 2 * j, target + 2 + 2 * j, n - j)"
      using Suc.IH [of "orig + 2" "target + 2" ?m] separate_sub [OF Suc.prems, of 2 "2 * n" 2 "2 * n"] by auto
    moreover have "mem_write ?m (target + 2) (swapped 2 (mem_read ?m (orig + 2) (2 * j))) =
        mem_write m target (swapped 2 (mem_read m orig (2 * Suc j)))" if "j \<le> n" for j
      using write_swapped_add [of 2 orig 1 "2 * j" target m] separate_sub [OF Suc.prems, of 0 "2 * Suc j" 0 "2 * Suc j"] that
      by simp
    ultimately show ?thesis by (intro exI [of _ "Suc j"]) simp
  qed (intro exI [of _ 0], simp add: swap_2_head.simps)
qed (simp add: swap_2_head.simps)

section \<open>Arrays\<close>

lemma chunks_then_rest:
  assumes "0 < k" "0 < n" "separate orig (k * n) target (k * n)"
    and "\<And>m p q. body m p q = mem_write m q (swapped k (mem_read m p (k * 4)))"
    and "\<And>m p q. swap m p q = mem_write m q (rev (mem_read m p k))"
  shows "(let (m, orig, target) = chunk_loop body (k * 4) (orig + k * (4 * (n div 4))) m orig target
     in last_elements swap k (n mod 4) m orig target) = mem_write m target (swapped k (mem_read m orig (k * n)))"
proof -
  let ?c = "k * 4 * (n div 4)"
  have n: "k * n = ?c + k * (n mod 4)" by (simp add: algebra_simps flip: distrib_left)
  have "chunk_loop body (k * 4) (orig + ?c) m orig target =
      (mem_write m target (swapped k (mem_read m orig ?c)), orig + ?c, target + ?c)"
    using assms(1,4) separate_sub [OF assms(3), of 0 ?c 0 ?c] n by (intro chunk_loop_swapped) simp_all
  moreover have "last_elements swap k (n mod 4) (mem_write m target (swapped k (mem_read m orig ?c))) (orig + ?c) (target + ?c) =
      mem_write m target (swapped k (mem_read m orig (?c + k * (n mod 4))))"
    using write_swapped_add [of k orig "4 * (n div 4)" "k * (n mod 4)" target m] assms(1,3,5) n
      separate_sub [OF assms(3), of ?c "k * (n mod 4)" ?c "k * (n mod 4)"]
    by (simp add: last_elements_swapped mult.assoc)
  ultimately show ?thesis using n by (simp add: mult.assoc)
qed

lemma after_head:
  assumes "0 < k" "j \<le> n" "separate orig (k * n) target (k * n)"
    and "\<And>m p q. separate p (k * (n - j)) q (k * (n - j)) \<Longrightarrow> rest m p q = mem_write m q (swapped k (mem_read m p (k * (n - j))))"
  shows "rest (mem_write m target (swapped k (mem_read m orig (k * j)))) (orig + k * j) (target + k * j) =
    mem_write m target (swapped k (mem_read m orig (k * n)))"
proof -
  have n: "k * n = k * j + k * (n - j)" using assms(2) by (simp flip: distrib_left)
  then have "separate (orig + k * j) (k * (n - j)) (target + k * j) (k * (n - j))"
    using separate_sub [OF assms(3), of "k * j" "k * (n - j)" "k * j" "k * (n - j)"] by simp
  from assms(4) [OF this] show ?thesis
    using write_swapped_add [of k orig j "k * (n - j)" target m] assms(1,3) n by simp
qed

lemma swap_2_array_correct:
  assumes "0 < n" "separate orig (2 * n) target (2 * n)"
  shows "swap_2_array pf m orig target n = mem_write m target (swapped 2 (mem_read m orig (2 * n)))"
proof -
  define rest where "rest n m p q = (if n = 0 then m else
    (let (m, orig, target) = chunk_loop (if q = ACE_ptr_align_binary q (if sizeof_long_8 pf then 8 else 4)
           then shorts_aligned pf else shorts_unaligned pf) (2 * 4) (p + 2 * (4 * (n div 4))) m p q
     in last_elements (\<lambda>m. swap_2 pf m) 2 (n mod 4) m orig target))" for n m p q
  have rest: "rest i m p q = mem_write m q (swapped 2 (mem_read m p (2 * i)))" if "separate p (2 * i) q (2 * i)" for i m p q
  proof (cases "i = 0")
    case False
    then show ?thesis unfolding rest_def if_not_P [OF False] using that
      by (intro chunks_then_rest) (simp_all add: shorts_aligned_mem shorts_unaligned_mem swap_2_mem)
  qed (simp add: rest_def)
  obtain j where j: "j \<le> n" "(if sizeof_long_8 pf then swap_2_head pf (ACE_ptr_align_binary orig 8) m orig target n
             else if orig \<noteq> ACE_ptr_align_binary orig 4 then (swap_2 pf m orig target, orig + 2, target + 2, n - 1)
             else (m, orig, target, n)) =
      (mem_write m target (swapped 2 (mem_read m orig (2 * j))), orig + 2 * j, target + 2 * j, n - j)"
  proof (cases "sizeof_long_8 pf")
    case True
    then show ?thesis using swap_2_head_swapped [OF assms(2)] that by auto
  next
    case False
    then show ?thesis
      using that [of 0] that [of 1] assms(1) by (cases "orig = ACE_ptr_align_binary orig 4") (simp_all add: swap_2_mem swapped_elem)
  qed
  have "swap_2_array pf m orig target n =
      rest (n - j) (mem_write m target (swapped 2 (mem_read m orig (2 * j)))) (orig + 2 * j) (target + 2 * j)"
    unfolding swap_2_array_def j(2) rest_def by (simp only: Let_def split_conv mult_numeral_left_semiring_numeral semiring_norm)
  also have "\<dots> = mem_write m target (swapped 2 (mem_read m orig (2 * n)))"
    using after_head [OF _ j(1) assms(2), of "rest (n - j)"] rest by simp
  finally show ?thesis .
qed

lemma swap_4_array_correct:
  assumes "0 < n" "separate orig (4 * n) target (4 * n)"
  shows "swap_4_array pf m orig target n = mem_write m target (swapped 4 (mem_read m orig (4 * n)))"
proof -
  define rest where "rest n m p q = (if n = 0 then m else
    (let (m, orig, target) = chunk_loop (if sizeof_long_8 pf
           then if q = ACE_ptr_align_binary q 8 then longs_aligned pf else longs_unaligned pf else longs_32 pf)
           (4 * 4) (p + 4 * (4 * (n div 4))) m p q
     in last_elements (\<lambda>m. swap_4 pf m) 4 (n mod 4) m orig target))" for n m p q
  have rest: "rest i m p q = mem_write m q (swapped 4 (mem_read m p (4 * i)))" if "separate p (4 * i) q (4 * i)" for i m p q
  proof (cases "i = 0")
    case False
    then show ?thesis unfolding rest_def if_not_P [OF False] using that
      by (intro chunks_then_rest) (simp_all add: longs_aligned_mem longs_unaligned_mem longs_32_mem swap_4_mem)
  qed (simp add: rest_def)
  obtain j where j: "j \<le> n" "(if sizeof_long_8 pf \<and> orig \<noteq> ACE_ptr_align_binary orig 8
             then (swap_4 pf m orig target, orig + 4, target + 4, n - 1) else (m, orig, target, n)) =
      (mem_write m target (swapped 4 (mem_read m orig (4 * j))), orig + 4 * j, target + 4 * j, n - j)"
  proof (cases "sizeof_long_8 pf \<and> orig \<noteq> ACE_ptr_align_binary orig 8")
    case True
    show ?thesis using that [of 1] assms(1) unfolding if_P [OF True] by (simp add: swap_4_mem swapped_elem)
  next
    case False
    show ?thesis using that [of 0] unfolding if_not_P [OF False] by simp
  qed
  have "swap_4_array pf m orig target n =
      rest (n - j) (mem_write m target (swapped 4 (mem_read m orig (4 * j)))) (orig + 4 * j) (target + 4 * j)"
    unfolding swap_4_array_def j(2) rest_def by (simp only: Let_def split_conv mult_numeral_left_semiring_numeral semiring_norm)
  also have "\<dots> = mem_write m target (swapped 4 (mem_read m orig (4 * n)))"
    using after_head [OF _ j(1) assms(2), of "rest (n - j)"] rest by simp
  finally show ?thesis .
qed

lemma swap_8_array_correct:
  assumes "separate orig (8 * n) target (8 * n)"
  shows "swap_8_array pf m orig target n = mem_write m target (swapped 8 (mem_read m orig (8 * n)))"
  unfolding swap_8_array_def using chunk_loop_swapped [of 8 1 "\<lambda>m. swap_8 pf m" orig n target m] assms
  by (simp add: swap_8_mem swapped_elem)

lemma swap_16_array_correct:
  assumes "separate orig (16 * n) target (16 * n)"
  shows "swap_16_array pf m orig target n = mem_write m target (swapped 16 (mem_read m orig (16 * n)))"
  unfolding swap_16_array_def using chunk_loop_swapped [of 16 1 "swap_16 pf" orig n target m] assms
  by (simp add: swap_16_mem swapped_elem)

end
