(* ===== verification/ACE_CDR_Sizes.thy ===== *)
theory ACE_CDR_Sizes
  imports ACE_CDR_Base
begin

unbundle bit_operations_syntax

text \<open>
  Alignment of addresses and the growth of buffer sizes: what the bit masks of \<open>ACE_align_binary\<close>
  compute, and that \<open>first_size\<close> and \<open>next_size\<close> return, in which range, and with which bounds.
\<close>

section \<open>Alignment\<close>

definition align_up :: "nat \<Rightarrow> nat \<Rightarrow> nat" where
  "align_up a p = (p + a - 1) div a * a"

definition alignments :: "nat set" where
  "alignments = {1, 2, 4, 8}"

lemma align_upD:
  assumes "0 < a"
  shows "p \<le> align_up a p" "align_up a p < p + a" "a dvd align_up a p"
proof -
  have "(p + a - 1) div a * a + (p + a - 1) mod a = p + a - 1" "(p + a - 1) mod a < a" using assms by simp_all
  then show "p \<le> align_up a p" "align_up a p < p + a" unfolding align_up_def using assms by linarith+
  show "a dvd align_up a p" by (simp add: align_up_def)
qed

lemma align_up_unique:
  assumes "0 < a" "p \<le> q" "q < p + a" "a dvd q"
  shows "align_up a p = q"
proof -
  obtain c where c: "q = a * c" using assms(4) by (rule dvdE)
  have "(p + a - 1) div a = c"
    using assms c by (intro div_nat_eqI) (auto simp: algebra_simps)
  then show ?thesis using c by (simp add: align_up_def mult.commute)
qed

lemma align_up_same: "0 < a \<Longrightarrow> a dvd p \<Longrightarrow> align_up a p = p"
  by (rule align_up_unique) simp_all

lemma and_not_mask_unat: "unat ((w :: 64 word) AND NOT (mask k)) = unat w div 2 ^ k * 2 ^ k"
proof -
  have "w AND NOT (mask k) = push_bit k (drop_bit k w)"
    by (intro bit_word_eqI) (auto simp: bit_simps)
  moreover have "unat (push_bit k (drop_bit k w)) = take_bit 64 (unat w div 2 ^ k * 2 ^ k)"
  proof -
    have "unat (push_bit k (drop_bit k w)) = take_bit 64 (push_bit k (unat (drop_bit k w)))"
      by (subst unsigned_push_bit_eq) simp
    also have "unat (drop_bit k w) = drop_bit k (unat w)" by (simp only: unat_drop_bit_eq)
    finally show ?thesis by (simp only: push_bit_eq_mult drop_bit_eq_div)
  qed
  moreover have "unat w div 2 ^ k * 2 ^ k < 2 ^ 64"
  proof -
    have "unat w < 2 ^ LENGTH(64)" by (rule unsigned_less)
    with div_times_less_eq_dividend [of "unat w" "2 ^ k"] have "unat w div 2 ^ k * 2 ^ k < 2 ^ LENGTH(64)" by (rule le_less_trans)
    then show ?thesis by simp
  qed
  ultimately show ?thesis by (simp add: take_bit_nat_eq_self)
qed

lemma ACE_align_binary_unat:
  assumes "a \<in> alignments" "unat p + a \<le> 2 ^ 64"
  shows "unat (ACE_align_binary p (of_nat a)) = align_up a (unat p)"
proof -
  obtain k where k: "a = 2 ^ k" "(of_nat a :: 64 word) - 1 = mask k" "unat (mask k :: 64 word) = a - 1" "0 < a"
  proof -
    have "(1 :: 64 word) = mask 1" "(3 :: 64 word) = mask 2" "(7 :: 64 word) = mask 3" by (simp_all add: mask_eq_exp_minus_1)
    then show ?thesis using assms(1) that [of 0] that [of 1] that [of 2] that [of 3]
      by (auto simp: alignments_def mask_eq_exp_minus_1)
  qed
  have "unat (p + mask k) = unat p + (a - 1)"
    using assms(2) k(3,4) by (simp add: unat_add_lem [THEN iffD1])
  then show ?thesis
    using k by (simp add: ACE_align_binary_def Let_def and_not_mask_unat align_up_def)
qed

lemma ACE_ptr_align_binary_eq:
  assumes "a \<in> alignments" "p + a \<le> 2 ^ 64"
  shows "ACE_ptr_align_binary p a = align_up a p"
proof -
  have "unat (of_nat p :: 64 word) = p" using assms by (auto simp: alignments_def unat_of_nat)
  then show ?thesis using ACE_align_binary_unat [OF assms(1), of "of_nat p"] assms(2) by (simp add: ACE_ptr_align_binary_def)
qed

section \<open>Sizes\<close>

lemma size_loop_not_0:
  assumes "size_loop m n = Some r"
  shows "n = 0 \<longrightarrow> m = 0"
proof (rule size_loop.raw_induct [of "\<lambda>m n r. n = 0 \<longrightarrow> m = 0", OF _ assms], goal_cases)
  case (1 f m n r)
  show ?case
  proof
    assume n: "n = 0"
    show "m = 0"
    proof (rule ccontr)
      assume "m \<noteq> 0"
      then have "f m (grow_step 0) = Some r" using 1(2) n by (simp add: word_gt_0)
      then show False using 1(1) [of m "grow_step 0" r] \<open>m \<noteq> 0\<close> by (simp add: grow_step_def EXP_GROWTH_MAX_def)
    qed
  qed
qed

lemma size_loop_stuck: "0 < m \<Longrightarrow> size_loop m 0 = None"
  using size_loop_not_0 [of m 0] by (cases "size_loop m 0") (auto simp: word_gt_0)

lemma size_loop_linear:
  assumes "0 < j" "j < 2 ^ 48"
  shows "size_loop m (of_nat (65536 * j)) =
    (if unat m \<le> 2 ^ 64 - 65536 then Some (of_nat (max (65536 * j) (align_up 65536 (unat m)))) else None)"
  using assms
proof (induction "2 ^ 48 - j" arbitrary: j)
  case (Suc d)
  let ?k = "65536 * j"
  have k: "?k < 2 ^ 64" "unat (of_nat ?k :: 64 word) = ?k" using Suc.prems by (simp_all add: unat_of_nat del: of_nat_mult)
  have g: "grow_step (of_nat ?k) = of_nat (65536 * Suc j)"
    using k(2) Suc.prems by (simp add: grow_step_def EXP_GROWTH_MAX_def LINEAR_GROWTH_CHUNK_def word_less_nat_alt)
  show ?case
  proof (cases "?k < unat m")
    case True
    then have s: "size_loop m (of_nat ?k) = size_loop m (of_nat (65536 * Suc j))"
      using k(2) g by (subst size_loop.simps) (simp add: word_less_nat_alt)
    show ?thesis
    proof (cases "Suc j < 2 ^ 48")
      case T: True
      have "65536 * Suc j \<le> align_up 65536 (unat m)"
      proof -
        have "65536 dvd align_up 65536 (unat m)" "unat m \<le> align_up 65536 (unat m)" by (simp_all add: align_upD)
        then obtain c where "align_up 65536 (unat m) = 65536 * c" by (auto elim: dvdE)
        moreover from this have "j < c" using True \<open>unat m \<le> align_up 65536 (unat m)\<close> by simp
        ultimately show ?thesis by simp
      qed
      then show ?thesis using s Suc.hyps(1) [of "Suc j"] Suc.hyps(2) T by (simp add: max_def)
    next
      case False
      then have j: "Suc j = 2 ^ 48" using Suc.prems by simp
      then have "(of_nat (65536 * Suc j) :: 64 word) = 0" by simp
      moreover have "\<not> unat m \<le> 2 ^ 64 - 65536" using True j by simp
      moreover have "0 < m" using True by (simp add: word_less_nat_alt)
      ultimately show ?thesis using s size_loop_stuck by simp
    qed
  next
    case False
    moreover have "align_up 65536 (unat m) \<le> ?k" if "unat m \<le> ?k"
    proof -
      have "(unat m + 65536 - 1) div 65536 \<le> j" using that by (simp add: less_Suc_eq_le [symmetric] div_less_iff_less_mult)
      then show ?thesis by (simp add: align_up_def mult.commute)
    qed
    moreover have "unat m \<le> 2 ^ 64 - 65536" using False Suc.prems by simp
    ultimately show ?thesis using k(2) by (subst size_loop.simps) (simp add: word_less_nat_alt max_def)
  qed
qed simp

lemma size_loop_step:
  "size_loop m n = (if n < m then size_loop m (grow_step n) else Some n)"
  by (rule size_loop.simps)

lemma first_size_eq:
  "first_size m = (if m \<le> 512 then Some 512 else if m \<le> 1024 then Some 1024 else if m \<le> 2048 then Some 2048
     else if m \<le> 4096 then Some 4096 else if m \<le> 8192 then Some 8192 else if m \<le> 16384 then Some 16384
     else if m \<le> 32768 then Some 32768
     else if unat m \<le> 2 ^ 64 - 65536 then Some (of_nat (align_up 65536 (unat m))) else None)"
proof -
  have "size_loop m 65536 =
      (if unat m \<le> 2 ^ 64 - 65536 then Some (of_nat (max 65536 (align_up 65536 (unat m)))) else None)"
    using size_loop_linear [of 1 m] by simp
  moreover have "65536 \<le> align_up 65536 (unat m)" if "32768 < m"
  proof -
    have "0 < unat m" using that by (simp add: word_less_nat_alt)
    then have "0 < (unat m + 65536 - 1) div 65536" by (simp add: div_greater_zero_iff)
    then show ?thesis by (simp add: align_up_def)
  qed
  ultimately have l: "size_loop m 65536 =
      (if unat m \<le> 2 ^ 64 - 65536 then Some (of_nat (align_up 65536 (unat m))) else None)" if "32768 < m"
    using that by (simp add: max_def)
  note S = size_loop_step [of m 512] size_loop_step [of m 1024] size_loop_step [of m 2048] size_loop_step [of m 4096]
    size_loop_step [of m 8192] size_loop_step [of m 16384] size_loop_step [of m 32768]
  have g: "grow_step 512 = 1024" "grow_step 1024 = 2048" "grow_step 2048 = 4096" "grow_step 4096 = 8192" "grow_step 8192 = 16384"
    "grow_step 16384 = 32768" "grow_step 32768 = 65536"
    by (simp_all add: grow_step_def EXP_GROWTH_MAX_def)
  have "first_size m = size_loop m 512" by (simp add: first_size_def DEFAULT_BUFSIZE_def S(1))
  also have "\<dots> = (if m \<le> 512 then Some 512 else if m \<le> 1024 then Some 1024 else if m \<le> 2048 then Some 2048
     else if m \<le> 4096 then Some 4096 else if m \<le> 8192 then Some 8192 else if m \<le> 16384 then Some 16384
     else if m \<le> 32768 then Some 32768 else size_loop m 65536)"
    unfolding S g by (simp add: not_less [symmetric])
  also have "(if m \<le> 32768 then Some 32768 else size_loop m 65536) = (if m \<le> 32768 then Some 32768
     else if unat m \<le> 2 ^ 64 - 65536 then Some (of_nat (align_up 65536 (unat m))) else None)"
  proof (cases "m \<le> 32768")
    case False
    then have "32768 < m" by simp
    then show ?thesis using l False by simp
  qed simp
  finally show ?thesis .
qed

lemma first_size_bounds:
  assumes "first_size m = Some s"
  shows "m \<le> s" "512 dvd unat s" "512 \<le> unat s" "unat s < max 513 (2 * unat m)" "65536 \<le> m \<Longrightarrow> unat s < unat m + 65536"
proof -
  note B = align_upD [of 65536 "unat m"]
  have u: "unat m \<le> 512 \<longleftrightarrow> m \<le> 512" "unat m \<le> 1024 \<longleftrightarrow> m \<le> 1024" "unat m \<le> 2048 \<longleftrightarrow> m \<le> 2048" "unat m \<le> 4096 \<longleftrightarrow> m \<le> 4096"
    "unat m \<le> 8192 \<longleftrightarrow> m \<le> 8192" "unat m \<le> 16384 \<longleftrightarrow> m \<le> 16384" "unat m \<le> 32768 \<longleftrightarrow> m \<le> 32768" "65536 \<le> m \<longleftrightarrow> 65536 \<le> unat m"
    by (simp_all add: word_le_nat_alt)
  have big: "unat (of_nat (align_up 65536 (unat m)) :: 64 word) = align_up 65536 (unat m)" if "unat m \<le> 2 ^ 64 - 65536"
  proof -
    obtain c where c: "align_up 65536 (unat m) = 65536 * c" using B(3) by (auto elim: dvdE)
    then have "65536 * c < 2 ^ 64" using B(2) that by simp
    then show ?thesis using c by (simp add: unat_of_nat del: of_nat_mult)
  qed
  have d: "512 dvd align_up 65536 (unat m)" using dvd_trans [of 512 65536, OF _ B(3)] by simp
  have two: "align_up 65536 (unat m) < 2 * unat m" if "\<not> unat m \<le> 32768"
    using that B(2) align_up_unique [of 65536 "unat m" 65536] by (cases "unat m \<le> 65536") simp_all
  have "unat m \<le> unat s \<and> 512 dvd unat s \<and> 512 \<le> unat s \<and> unat s < max 513 (2 * unat m) \<and> (65536 \<le> unat m \<longrightarrow> unat s < unat m + 65536)"
    using assms unfolding first_size_eq u(1-7) [symmetric] using B d big two by (auto split: if_splits)
  then show "m \<le> s" "512 dvd unat s" "512 \<le> unat s" "unat s < max 513 (2 * unat m)" "65536 \<le> m \<Longrightarrow> unat s < unat m + 65536"
    using u(8) by (auto simp: word_le_nat_alt)
qed

end
