(* ===== verification/ACE_CDR_Output.thy ===== *)
theory ACE_CDR_Output
  imports ACE_CDR_Stream ACE_CDR_Swap ACE_CDR_Sizes
begin

unbundle bit_operations_syntax

text \<open>
  The output stream. Its contents are the bytes between the read and the write pointers of its blocks;
  the invariant says which buffers it owns and that the current alignment is the position in the
  stream. Every write appends padding and then its bytes, however the chain has to grow for it.
\<close>

section \<open>Padding\<close>

definition pad :: "nat \<Rightarrow> nat \<Rightarrow> nat" where
  "pad a p = align_up a p - p"

lemma pad_less: "0 < a \<Longrightarrow> pad a p < a"
  using align_upD(1,2) [of a p] by (simp add: pad_def)

lemma align_up_pad: "0 < a \<Longrightarrow> align_up a p = p + pad a p"
  using align_upD(1) [of a p] by (simp add: pad_def)

lemma pad_dvd: "0 < a \<Longrightarrow> a dvd p + pad a p"
  using align_upD(3) [of a p] by (simp add: align_up_pad)

lemma pad_unique: "0 < a \<Longrightarrow> k < a \<Longrightarrow> a dvd p + k \<Longrightarrow> pad a p = k"
  using align_up_unique [of a p "p + k"] by (simp add: pad_def)

lemma pad_mod: "a dvd b \<Longrightarrow> 0 < a \<Longrightarrow> p mod b = q mod b \<Longrightarrow> pad a p = pad a q"
proof (rule pad_unique)
  assume a: "a dvd b" "0 < a" "p mod b = q mod b"
  have "p mod a = q mod a" using a(1,3) by (metis mod_mod_cancel)
  then show "a dvd p + pad a q" using pad_dvd [OF a(2), of q] by (metis dvd_eq_mod_eq_0 mod_add_left_eq)
qed (simp_all add: pad_less)

lemma alignments_dvd: "a \<in> alignments \<Longrightarrow> a dvd 8 \<and> 0 < a \<and> a \<le> 8"
  by (auto simp: alignments_def)

text \<open>The subtraction in \<open>adjust\<close> gives the padding, also where the alignment wraps around.\<close>

lemma offset_is_pad:
  assumes "a \<in> alignments"
  shows "unat (ACE_align_binary A (of_nat a) - A) = pad a (unat A)"
proof (cases "unat A + a \<le> 2 ^ 64")
  case True
  have p: "0 < a" "a < 2 ^ 64" using assms by (auto simp: alignments_def)
  have u: "unat (ACE_align_binary A (of_nat a)) = unat A + pad a (unat A)"
    using ACE_align_binary_unat [OF assms True] align_up_pad [OF p(1)] by simp
  then have "A \<le> ACE_align_binary A (of_nat a)" by (simp add: word_le_nat_alt)
  then show ?thesis using u by (simp add: unat_sub)
next
  case False
  have A: "unat A < 2 ^ 64"
  proof -
    have "unat A < 2 ^ LENGTH(64)" by (rule unsigned_less)
    then show ?thesis by simp
  qed
  define k where "k = 2 ^ 64 - unat A"
  have k: "0 < k" "k < a" "a dvd unat A + k" "unat (- A) = k"
  proof -
    show "0 < k" "k < a" using A False by (simp_all add: k_def)
    have "a dvd 2 ^ 64" using assms by (auto simp: alignments_def)
    then show "a dvd unat A + k" using A by (simp add: k_def)
    have "unat A + k = 2 ^ 64" using A by (simp add: k_def)
    then have "of_nat (unat A + k) = (0 :: 64 word)" by simp
    then have "- A = of_nat k" by (intro minus_unique) simp
    then show "unat (- A) = k" using \<open>k < a\<close> assms by (auto simp: alignments_def unat_of_nat)
  qed
  obtain j where j: "a = 2 ^ j" "(of_nat a :: 64 word) - 1 = mask j" "unat (mask j :: 64 word) = a - 1"
  proof -
    have "(1 :: 64 word) = mask 1" "(3 :: 64 word) = mask 2" "(7 :: 64 word) = mask 3" by (simp_all add: mask_eq_exp_minus_1)
    then show ?thesis using assms that [of 0] that [of 1] that [of 2] that [of 3]
      by (auto simp: alignments_def mask_eq_exp_minus_1)
  qed
  have "unat (A + mask j) = unat A + (a - 1) - 2 ^ 64"
  proof -
    have "unat (A + mask j) = (unat A + (a - 1)) mod 2 ^ 64" using j(3) by (simp add: unat_word_ariths)
    also have "\<dots> = unat A + (a - 1) - 2 ^ 64"
    proof -
      have "a \<le> 8" using assms by (auto simp: alignments_def)
      then have "2 ^ 64 \<le> unat A + (a - 1)" "unat A + (a - 1) - 2 ^ 64 < 2 ^ 64" using k(1,2) A by (simp_all add: k_def)
      then show ?thesis by (metis le_mod_geq mod_less)
    qed
    finally show ?thesis .
  qed
  then have "unat (A + mask j) div 2 ^ j = 0" using A j(1) k(2) by (simp add: k_def)
  then have "ACE_align_binary A (of_nat a) = 0"
    using j and_not_mask_unat [of "A + mask j" j] by (simp add: ACE_align_binary_def Let_def unat_eq_0 [symmetric])
  then show ?thesis using k pad_unique [of a k "unat A"] by simp
qed

section \<open>The invariant\<close>

definition mem_contents :: "memory \<Rightarrow> mblk list \<Rightarrow> byte list" where
  "mem_contents m bs = concat (map (\<lambda>b. mem_read m (bk_rd_ptr b) (bk_length b)) bs)"

definition oc_contents :: "'m output_cdr \<Rightarrow> byte list" where
  "oc_contents q = mem_contents (oc_mem q) (oc_begin_end q)"

lemma length_mem_contents: "length (mem_contents m bs) = total_length bs"
  by (simp add: mem_contents_def total_length_def length_concat comp_def)

lemma length_oc_contents: "length (oc_contents q) = total_length (oc_begin_end q)"
  by (simp add: oc_contents_def length_mem_contents)

lemma mem_contents_append [simp]: "mem_contents m (bs @ cs) = mem_contents m bs @ mem_contents m cs"
  by (simp add: mem_contents_def)

lemma mem_contents_single [simp]: "mem_contents m [b] = mem_read m (bk_rd_ptr b) (bk_length b)"
  by (simp add: mem_contents_def)

text \<open>The buffers the stream owns, and regions inside blocks that it does not own.\<close>

definition own :: "mblk list \<Rightarrow> addr set" where
  "own bs = bk_base ` {b \<in> set bs. \<not> bk_dont_delete b}"

lemma own_snoc [simp]: "own (bs @ [b]) = own bs \<union> (if bk_dont_delete b then {} else {bk_base b})"
  by (auto simp: own_def)

definition foreign :: "blocks \<Rightarrow> addr set \<Rightarrow> addr \<Rightarrow> nat \<Rightarrow> bool" where
  "foreign B Own p n \<longleftrightarrow> n = 0 \<or> (\<exists>s al k. B s = Some (al, k) \<and> s \<notin> Own \<and> s \<le> p \<and> p + n \<le> s + k)"

definition blk_ok :: "blocks \<Rightarrow> addr set \<Rightarrow> mblk \<Rightarrow> bool" where
  "blk_ok B Own b \<longleftrightarrow> bk_rd b \<le> bk_wr b \<and>
     (if bk_dont_delete b then foreign B Own (bk_rd_ptr b) (bk_length b)
      else bk_wr b \<le> bk_max_size b \<and> B (bk_base b) = Some (bk_allocator b, bk_max_size b))"

definition oc_inv :: "('m \<Rightarrow> blocks \<Rightarrow> bool) \<Rightarrow> 'm output_cdr \<Rightarrow> blocks \<Rightarrow> bool" where
  "oc_inv minv q B \<longleftrightarrow> minv (oc_heap q) B \<and> oc_cont q = [] \<and>
     distinct (map bk_base (filter (\<lambda>b. \<not> bk_dont_delete b) (oc_begin_end q))) \<and>
     (\<forall>b \<in> set (oc_begin_end q). blk_ok B (own (oc_begin_end q)) b) \<and>
     (oc_is_writable q \<longrightarrow> \<not> bk_dont_delete (oc_current q) \<and>
        bk_wr_ptr (oc_current q) mod 8 = unat (oc_alignment q) mod 8) \<and>
     unat (oc_alignment q) mod 8 = total_length (oc_begin_end q) mod 8"

lemma oc_invD:
  assumes "oc_inv minv q B"
  shows "minv (oc_heap q) B" "oc_cont q = []"
    "distinct (map bk_base (filter (\<lambda>b. \<not> bk_dont_delete b) (oc_begin_end q)))"
    "b \<in> set (oc_begin_end q) \<Longrightarrow> blk_ok B (own (oc_begin_end q)) b"
    "oc_is_writable q \<Longrightarrow> \<not> bk_dont_delete (oc_current q)"
    "oc_is_writable q \<Longrightarrow> bk_wr_ptr (oc_current q) mod 8 = unat (oc_alignment q) mod 8"
    "unat (oc_alignment q) mod 8 = total_length (oc_begin_end q) mod 8"
  using assms by (auto simp: oc_inv_def)

section \<open>Adjusting\<close>

text \<open>What operations leave alone: all fields but the chain, the memory, the alignment and the good bit.\<close>

definition same_config :: "'m output_cdr \<Rightarrow> 'm output_cdr \<Rightarrow> bool" where
  "same_config q q' \<longleftrightarrow> oc_do_byte_swap q' = oc_do_byte_swap q \<and> oc_memcpy_tradeoff q' = oc_memcpy_tradeoff q \<and>
     oc_major q' = oc_major q \<and> oc_minor q' = oc_minor q"

text \<open>Regions of others stay regions of others, and the current block grows by a bounded amount.\<close>

definition keeps :: "nat \<Rightarrow> 'm output_cdr \<Rightarrow> blocks \<Rightarrow> 'm output_cdr \<Rightarrow> blocks \<Rightarrow> bool" where
  "keeps k q B q' B' \<longleftrightarrow> same_config q q' \<and>
     bk_cur_size (oc_current q') \<le> k \<and>
     (\<forall>x n. foreign B (own (oc_begin_end q)) x n \<longrightarrow> foreign B' (own (oc_begin_end q')) x n)"

lemma next_size_bounds:
  assumes "unat m < 2 ^ 63"
  obtains s where "next_size m = Some s" "unat m < unat s" "unat s \<le> unat m + 131072" "512 dvd unat s"
proof -
  have "unat m \<le> 2 ^ 64 - 65536" using assms by simp
  then have "first_size m \<noteq> None" by (simp add: first_size_eq)
  then obtain s where s: "first_size m = Some s" by blast
  note B = first_size_bounds [OF s]
  have small: "unat s \<le> 65536" if "unat m < 65536"
  proof -
    have "\<not> 2 ^ 64 - 65536 < unat m" using that by simp
    have "align_up 65536 (unat m) = 65536" if "32768 < unat m"
      using \<open>unat m < 65536\<close> that by (intro align_up_unique) simp_all
    then show ?thesis using s that by (auto simp: first_size_eq word_le_nat_alt split: if_splits)
  qed
  have le: "unat s \<le> unat m + 65536" using B(5) small by (cases "65536 \<le> unat m") (auto simp: word_le_nat_alt)
  show ?thesis
  proof (cases "s = m")
    case True
    have "unat (grow_step m) = (if unat m < 65536 then 2 * unat m else unat m + 65536)"
      using assms by (simp add: grow_step_def EXP_GROWTH_MAX_def LINEAR_GROWTH_CHUNK_def word_less_nat_alt unat_word_ariths
        push_bit_eq_mult)
    moreover have "512 dvd 2 * unat m" "512 dvd unat m + 65536" "512 \<le> unat m" using B(2,3) True by simp_all
    ultimately show ?thesis
      using that [of "grow_step m"] s True le by (simp add: next_size_def split: if_splits)
  next
    case False
    then have "m < s" using B(1) by (simp add: order_le_less eq_commute)
    then have "unat m < unat s" by (simp add: word_less_nat_alt)
    then show ?thesis using that [of s] s False le B(2) by (simp add: next_size_def)
  qed
qed

lemma mod_offset:
  fixes a p :: nat
  defines "d \<equiv> int a mod 8 - int p mod 8"
  shows "nat (if d < 0 then d + 8 else d) < 8" "(p + nat (if d < 0 then d + 8 else d)) mod 8 = a mod 8"
proof -
  have r: "0 \<le> int a mod 8" "int a mod 8 < 8" "0 \<le> int p mod 8" "int p mod 8 < 8" by simp_all
  define e where "e = (if d < 0 then d + 8 else d)"
  have e: "0 \<le> e" "e < 8" using r by (auto simp: e_def d_def)
  have "(int p + e) mod 8 = int a mod 8"
    unfolding e_def d_def by (auto simp: mod_simps) (simp_all add: algebra_simps mod_simps)
  then have "int ((p + nat e) mod 8) = int (a mod 8)" using e by (simp add: zmod_int)
  then show "nat (if d < 0 then d + 8 else d) < 8" "(p + nat (if d < 0 then d + 8 else d)) mod 8 = a mod 8"
    using e unfolding e_def [symmetric] by simp_all
qed

text \<open>A new block behind the chain.\<close>

definition grown :: "nat \<Rightarrow> 'm output_cdr \<Rightarrow> blocks \<Rightarrow> 'm output_cdr \<Rightarrow> blocks \<Rightarrow> bool" where
  "grown n q B q' B' \<longleftrightarrow> oc_is_writable q' \<and> oc_mem q' = oc_mem q \<and> oc_alignment q' = oc_alignment q \<and> same_config q q' \<and>
     oc_before q' = oc_before q @ [oc_current q] \<and>
     (let c = oc_current q'; s = bk_max_size c; s0 = bk_cur_size (oc_current q)
      in bk_rd c = bk_wr c \<and> bk_wr c < 8 \<and> bk_cur_size c = s \<and> n + 8 < s \<and> s0 < s \<and> 512 dvd s \<and> s \<le> max s0 (n + 8) + 131072) \<and>
     (\<forall>x k. foreign B (own (oc_begin_end q)) x k \<longrightarrow> foreign B' (own (oc_begin_end q')) x k)"

lemma foreign_fresh: "B p = None \<Longrightarrow> foreign B Own x k \<Longrightarrow> foreign (B(p \<mapsto> v)) (insert p Own) x k"
  unfolding foreign_def by (metis fun_upd_apply insert_iff option.distinct(1))

lemma total_length_append [simp]: "total_length (bs @ cs) = total_length bs + total_length cs"
  by (simp add: total_length_def)

text \<open>
  \<open>buf\<close> is where the next \<open>n\<close> bytes of the stream go: aligned, outside everybody else's memory, and what is stored
  there becomes the end of the contents, behind the padding.
\<close>

definition room_for :: "nat \<Rightarrow> nat \<Rightarrow> 'm output_cdr \<Rightarrow> 'm output_cdr \<Rightarrow> blocks \<Rightarrow> addr \<Rightarrow> bool" where
  "room_for n al q q' B' buf \<longleftrightarrow> al dvd buf \<and>
     (\<forall>bs. length bs = n \<longrightarrow> (\<exists>pd. length pd = pad al (length (oc_contents q)) \<and>
        mem_contents (mem_write (oc_mem q) buf bs) (oc_begin_end q') = oc_contents q @ pd @ bs)) \<and>
     (\<forall>x k. foreign B' (own (oc_begin_end q')) x k \<longrightarrow> separate x k buf n)"

lemma keeps_refl: "bk_cur_size (oc_current q) \<le> k \<Longrightarrow> keeps k q B q B"
  by (simp add: keeps_def same_config_def)

lemma keeps_mono: "keeps j q B q' B' \<Longrightarrow> j \<le> k \<Longrightarrow> keeps k q B q' B'"
  by (auto simp: keeps_def)

lemma grown_contents: "grown n q B q' B' \<Longrightarrow> oc_contents q' = oc_contents q"
  by (simp add: grown_def oc_contents_def oc_begin_end_def bk_length_def Let_def mem_contents_def)

text \<open>The heap is what a request for at most \<open>k\<close> bytes has just left that got no memory.\<close>

definition out_of_memory :: "'m allocator_ops \<Rightarrow> nat \<Rightarrow> 'm \<Rightarrow> bool" where
  "out_of_memory ops k heap \<longleftrightarrow> (\<exists>h al n. n \<noteq> 0 \<and> unat n \<le> k \<and> al_malloc ops h al n = (heap, NULL))"

lemma out_of_memory_mono: "out_of_memory ops j h \<Longrightarrow> j \<le> k \<Longrightarrow> out_of_memory ops k h"
  unfolding out_of_memory_def by (meson order_trans)

text \<open>An address space that ends at \<open>2 ^ 63\<close>, so that sums of an address and a size do not wrap around.\<close>

locale cdr_memory = allocator ops minv for ops :: "'m allocator_ops" and minv +
  assumes address_space: "minv m B \<Longrightarrow> B p = Some (al, n) \<Longrightarrow> p + n \<le> 2 ^ 63"
begin

lemma block_apart:
  assumes "minv m B" "B p = Some (al, n)" "B q = Some (al', k)" "p \<noteq> q"
  shows "separate p n q k"
proof -
  have "(B(p := None)) q = Some (al', k)" using assms(3,4) by simp
  then show ?thesis using disjoint [OF assms(1,2)] unfolding apart_def separate_def by blast
qed

text \<open>The free part of an owned block does not meet what the other blocks hold, nor a foreign region.\<close>

lemma free_part_foreign:
  assumes "minv m B" "B p = Some (al, n)" "p \<in> Own" "foreign B Own x k" "p \<le> a" "a + j \<le> p + n"
  shows "separate x k a j"
proof (cases "k = 0")
  case False
  then obtain s al' k' where s: "B s = Some (al', k')" "s \<notin> Own" "s \<le> x" "x + k \<le> s + k'"
    using assms(4) by (auto simp: foreign_def)
  have "separate s k' p n" using assms(3) s(2) block_apart [OF assms(1) s(1) assms(2)] by auto
  then show ?thesis
    using separate_sub [of s k' p n "x - s" k "a - p" j] s(3,4) assms(5,6) by simp
qed (simp add: separate_def)

lemma free_part_chain:
  assumes I: "oc_inv minv q B" and w: "oc_is_writable q" and b: "b \<in> set (oc_before q)"
    and a: "bk_base (oc_current q) \<le> a" "a + j \<le> bk_end (oc_current q)"
  shows "separate (bk_rd_ptr b) (bk_length b) a j"
proof -
  let ?c = "oc_current q"
  have c: "\<not> bk_dont_delete ?c" "B (bk_base ?c) = Some (bk_allocator ?c, bk_max_size ?c)" "bk_base ?c \<in> own (oc_begin_end q)"
    using oc_invD(5) [OF I w] oc_invD(4) [OF I, of ?c] by (auto simp: blk_ok_def oc_begin_end_def own_def)
  have k: "blk_ok B (own (oc_begin_end q)) b" using oc_invD(4) [OF I, of b] b by (simp add: oc_begin_end_def)
  show ?thesis
  proof (cases "bk_dont_delete b")
    case True
    then show ?thesis
      using k c a free_part_foreign [OF oc_invD(1) [OF I] c(2,3)] by (simp add: blk_ok_def bk_end_def)
  next
    case False
    then have o: "B (bk_base b) = Some (bk_allocator b, bk_max_size b)" "bk_rd b \<le> bk_wr b" "bk_wr b \<le> bk_max_size b"
      using k by (auto simp: blk_ok_def)
    have "bk_base b \<noteq> bk_base ?c" using oc_invD(3) [OF I] b False c(1) by (auto simp: oc_begin_end_def image_iff)
    from block_apart [OF oc_invD(1) [OF I] o(1) c(2) this]
    show ?thesis
      using separate_sub [of "bk_base b" "bk_max_size b" "bk_base ?c" "bk_max_size ?c" "bk_rd b" "bk_length b" "a - bk_base ?c" j]
        o(2,3) a by (simp add: bk_rd_ptr_def bk_length_def bk_end_def)
  qed
qed

lemma contents_before:
  assumes "oc_inv minv q B" "oc_is_writable q" "bk_base (oc_current q) \<le> a" "a + length bs \<le> bk_end (oc_current q)"
  shows "mem_contents (mem_write (oc_mem q) a bs) (oc_before q) = mem_contents (oc_mem q) (oc_before q)"
  using free_part_chain [OF assms(1,2) _ assms(3,4)]
  by (auto simp: mem_contents_def mem_read_write_separate intro!: arg_cong [of _ _ concat])

lemma own_writable:
  assumes "oc_inv minv q B" "oc_is_writable q"
  shows "B (bk_base (oc_current q)) = Some (bk_allocator (oc_current q), bk_max_size (oc_current q))"
    "bk_base (oc_current q) \<in> own (oc_begin_end q)" "bk_rd (oc_current q) \<le> bk_wr (oc_current q)"
    "bk_wr (oc_current q) \<le> bk_max_size (oc_current q)" "bk_end (oc_current q) \<le> 2 ^ 63"
proof -
  have k: "blk_ok B (own (oc_begin_end q)) (oc_current q)" "\<not> bk_dont_delete (oc_current q)"
    using oc_invD(4) [OF assms(1), of "oc_current q"] oc_invD(5) [OF assms] by (simp_all add: oc_begin_end_def)
  then show B: "B (bk_base (oc_current q)) = Some (bk_allocator (oc_current q), bk_max_size (oc_current q))"
    and "bk_rd (oc_current q) \<le> bk_wr (oc_current q)" "bk_wr (oc_current q) \<le> bk_max_size (oc_current q)"
    by (simp_all add: blk_ok_def)
  show "bk_base (oc_current q) \<in> own (oc_begin_end q)" using k(2) by (auto simp: own_def oc_begin_end_def)
  show "bk_end (oc_current q) \<le> 2 ^ 63" using address_space [OF oc_invD(1) [OF assms(1)] B] by (simp add: bk_end_def)
qed

text \<open>What \<open>adjust\<close> does when it stays in the current block.\<close>

definition adjusted :: "nat \<Rightarrow> nat \<Rightarrow> 'm output_cdr \<Rightarrow> 'm output_cdr" where
  "adjusted n al q =
     (let c = oc_current q; k = pad al (bk_wr_ptr c)
      in q\<lparr>oc_alignment := oc_alignment q + (of_nat k + of_nat n), oc_current := c\<lparr>bk_wr := bk_wr c + k + n\<rparr>\<rparr>)"

lemma adjust_current_eq:
  assumes I: "oc_inv minv q B" and w: "oc_is_writable q" and al: "al \<in> alignments" and sz: "unat sz < 2 ^ 62"
  defines "c \<equiv> oc_current q"
  defines "buf \<equiv> bk_wr_ptr c + pad al (bk_wr_ptr c)"
  shows "adjust_current sz (of_nat al) q =
    (if buf + unat sz \<le> bk_end c then Some (adjusted (unat sz) al q, buf) else None)"
proof -
  note W = own_writable [OF I w]
  have a: "al dvd 8" "0 < al" "al \<le> 8" using alignments_dvd [OF al] by auto
  let ?off = "ACE_align_binary (oc_alignment q) (of_nat al) - oc_alignment q"
  have off: "unat ?off = pad al (bk_wr_ptr c)"
    using offset_is_pad [OF al] pad_mod [OF a(1,2), of "bk_wr_ptr c" "unat (oc_alignment q)"] oc_invD(6) [OF I w]
    by (simp add: c_def)
  then have off': "?off = of_nat (pad al (bk_wr_ptr c))" by (simp flip: off)
  have lt: "bk_wr_ptr c + pad al (bk_wr_ptr c) + unat sz < 2 ^ 64"
    using W(4,5) sz pad_less [OF a(2), of "bk_wr_ptr c"] a(3) by (simp add: c_def bk_wr_ptr_def bk_end_def)
  then have p: "ptr_add (bk_wr_ptr c) (unat ?off) = buf" "ptr_add buf (unat sz) = buf + unat sz"
    by (simp_all add: ptr_add_def off buf_def)
  have "buf + unat sz - bk_base c = bk_wr c + pad al (bk_wr_ptr c) + unat sz" by (simp add: buf_def bk_wr_ptr_def)
  then show ?thesis
    using w p by (simp add: adjust_current_def Let_def c_def [symmetric] adjusted_def off')
qed

lemma unat_mod8: "unat (a + b :: 64 word) mod 8 = (unat a + unat b) mod 8"
  by (simp add: unat_word_ariths mod_mod_cancel)

lemma unat_of_nat_mod8: "unat (of_nat n :: 64 word) mod 8 = n mod 8"
  by (simp add: unat_of_nat mod_mod_cancel)

lemma adjusted_inv:
  assumes I: "oc_inv minv q B" and w: "oc_is_writable q"
    and f: "bk_wr_ptr (oc_current q) + pad al (bk_wr_ptr (oc_current q)) + n \<le> bk_end (oc_current q)"
  shows "oc_inv minv (adjusted n al q) B" "own (oc_begin_end (adjusted n al q)) = own (oc_begin_end q)"
    "oc_is_writable (adjusted n al q)"
proof -
  let ?c = "oc_current q" and ?q = "adjusted n al q"
  let ?k = "pad al (bk_wr_ptr ?c)"
  note W = own_writable [OF I w]
  have e: "oc_begin_end ?q = oc_before q @ [?c\<lparr>bk_wr := bk_wr ?c + ?k + n\<rparr>]"
    by (simp add: oc_begin_end_def adjusted_def Let_def)
  have own: "own (oc_begin_end ?q) = own (oc_begin_end q)"
    unfolding e by (simp add: oc_begin_end_def)
  have d: "\<not> bk_dont_delete ?c" using oc_invD(5) [OF I w] .
  have len: "total_length (oc_begin_end ?q) = total_length (oc_begin_end q) + ?k + n"
    unfolding e using W(3) by (simp add: total_length_def oc_begin_end_def bk_length_def)
  have al: "unat (oc_alignment ?q) mod 8 = (unat (oc_alignment q) + (?k + n)) mod 8"
  proof -
    have "oc_alignment ?q = oc_alignment q + of_nat (?k + n)" by (simp add: adjusted_def Let_def)
    then show ?thesis by (metis mod_add_right_eq unat_mod8 unat_of_nat_mod8)
  qed
  have "bk_wr_ptr (oc_current ?q) = bk_wr_ptr ?c + (?k + n)" by (simp add: adjusted_def Let_def bk_wr_ptr_def)
  then have wr: "bk_wr_ptr (oc_current ?q) mod 8 = unat (oc_alignment ?q) mod 8"
    unfolding al using oc_invD(6) [OF I w] by (metis mod_add_left_eq)
  have tl: "unat (oc_alignment ?q) mod 8 = total_length (oc_begin_end ?q) mod 8"
    unfolding al len using oc_invD(7) [OF I] by (metis add.assoc mod_add_left_eq)
  have "\<forall>b \<in> set (oc_begin_end ?q). blk_ok B (own (oc_begin_end q)) b"
    using I W f d unfolding e oc_inv_def
    by (auto simp: blk_ok_def oc_begin_end_def bk_wr_ptr_def bk_end_def)
  moreover have "map bk_base (filter (\<lambda>b. \<not> bk_dont_delete b) (oc_begin_end ?q)) =
      map bk_base (filter (\<lambda>b. \<not> bk_dont_delete b) (oc_begin_end q))"
    unfolding e using d by (simp add: oc_begin_end_def)
  ultimately show "oc_inv minv ?q B"
    using I w d wr tl own unfolding oc_inv_def by (simp add: adjusted_def Let_def)
  show "own (oc_begin_end ?q) = own (oc_begin_end q)" by (rule own)
  show "oc_is_writable ?q" using w by (simp add: adjusted_def Let_def)
qed

lemma grow_chain_correct:
  assumes I: "oc_inv minv q B" and sz: "unat sz < 2 ^ 40" and cs: "bk_cur_size (oc_current q) < 2 ^ 62"
  obtains (fails) h where "grow_chain ops sz q = Some (q\<lparr>oc_heap := h, oc_good_bit := False\<rparr>, -1)"
      "oc_inv minv (q\<lparr>oc_heap := h, oc_good_bit := False\<rparr>) B"
      "out_of_memory ops (max (bk_cur_size (oc_current q)) (unat sz + 8) + 131072) h"
  | (grows) q' B' where "grow_chain ops sz q = Some (q', 0)" "oc_inv minv q' B'" "grown (unat sz) q B q' B'"
proof -
  let ?c = "oc_current q"
  define m :: "64 word" where "m = (if sz + 8 < of_nat (bk_cur_size ?c) then of_nat (bk_cur_size ?c) else sz + 8)"
  have u: "unat (sz + 8) = unat sz + 8" "unat (of_nat (bk_cur_size ?c) :: 64 word) = bk_cur_size ?c"
    using sz cs by (simp_all add: unat_word_ariths unat_of_nat)
  then have m: "unat m = max (bk_cur_size ?c) (unat sz + 8)" by (simp add: m_def word_less_nat_alt max_def)
  then have "unat m < 2 ^ 63" using sz cs by simp
  then obtain s where s: "next_size m = Some s" "unat m < unat s" "unat s \<le> unat m + 131072" "512 dvd unat s"
    by (rule next_size_bounds)
  have s63: "unat s < 2 ^ 63" "0 < unat s" using s(2,3) m sz cs by simp_all
  obtain h p where al: "al_malloc ops (oc_heap q) (bk_allocator ?c) s = (h, p)" by fastforce
  define d where "d = int (unat (oc_alignment q)) mod 8 - int p mod 8"
  define off where "off = nat (if d < 0 then d + 8 else d)"
  define b where "b = \<lparr>bk_base = p, bk_max_size = unat s, bk_cur_size = unat s, bk_rd = off, bk_wr = off,
    bk_dont_delete = False, bk_allocator = bk_allocator ?c\<rparr>"
  let ?q1 = "q\<lparr>oc_heap := h, oc_good_bit := True, oc_before := oc_before q @ [?c], oc_current := b, oc_is_writable := True\<rparr>"
  have g: "grow_chain ops sz q =
      (if p = NULL then Some (q\<lparr>oc_heap := h, oc_good_bit := False\<rparr>, -1) else Some (?q1, 0))"
    unfolding grow_chain_def using oc_invD(2) [OF I] s(1) al
    by (simp add: Let_def m_def [symmetric] MAX_ALIGNMENT_def new_block_def bk_rd_ptr_def d_def off_def b_def)
  show ?thesis
  proof (cases "p = NULL")
    case True
    have "minv h B" using malloc_fails [OF oc_invD(1) [OF I]] al True by simp
    then have "oc_inv minv (q\<lparr>oc_heap := h, oc_good_bit := False\<rparr>) B"
      using I by (simp add: oc_inv_def oc_begin_end_def)
    moreover have "out_of_memory ops (max (bk_cur_size ?c) (unat sz + 8) + 131072) h"
      unfolding out_of_memory_def using al True s(3) s63(2) m
      by (intro exI [of _ "oc_heap q"] exI [of _ "bk_allocator ?c"] exI [of _ s]) auto
    ultimately show ?thesis using fails g True by simp
  next
    case False
    let ?B = "B(p \<mapsto> (bk_allocator ?c, unat s))"
    have new: "minv h ?B" using malloc [OF oc_invD(1) [OF I] s63(2,1) al False] by simp
    have fresh: "B p = None" using malloc_fresh [OF oc_invD(1) [OF I] s63(2,1) al False] .
    have e: "oc_begin_end ?q1 = oc_begin_end q @ [b]" by (simp add: oc_begin_end_def)
    have o: "own (oc_begin_end ?q1) = insert p (own (oc_begin_end q))" unfolding e by (simp add: b_def)
    have off8: "off < 8" "(p + off) mod 8 = unat (oc_alignment q) mod 8"
      unfolding off_def d_def by (rule mod_offset)+
    have "p \<notin> own (oc_begin_end q)"
    proof
      assume "p \<in> own (oc_begin_end q)"
      then obtain a where "a \<in> set (oc_begin_end q)" "\<not> bk_dont_delete a" "bk_base a = p" by (auto simp: own_def)
      then show False using oc_invD(4) [OF I, of a] fresh by (simp add: blk_ok_def)
    qed
    then have dist: "distinct (map bk_base (filter (\<lambda>b. \<not> bk_dont_delete b) (oc_begin_end ?q1)))"
      unfolding e using oc_invD(3) [OF I] by (auto simp: b_def own_def image_iff)
    have ok: "\<forall>a \<in> set (oc_begin_end ?q1). blk_ok ?B (own (oc_begin_end ?q1)) a"
      unfolding o e using oc_invD(4) [OF I] off8(1) s(2) m fresh
      by (auto simp: blk_ok_def b_def intro: foreign_fresh)
    have "oc_inv minv ?q1 ?B"
      using new dist ok off8 oc_invD(2,7) [OF I] unfolding oc_inv_def
      by (simp add: e) (simp add: b_def bk_wr_ptr_def total_length_def bk_length_def)
    moreover have "grown (unat sz) q B ?q1 ?B"
      using off8 s m fresh unfolding grown_def o
      by (auto simp: same_config_def b_def Let_def intro: foreign_fresh)
    ultimately show ?thesis using grows g False by simp
  qed
qed

lemma adjusted_room:
  assumes I: "oc_inv minv q B" and w: "oc_is_writable q" and al: "al \<in> alignments"
  defines "buf \<equiv> bk_wr_ptr (oc_current q) + pad al (bk_wr_ptr (oc_current q))"
  assumes f: "buf + n \<le> bk_end (oc_current q)"
  shows "room_for n al q (adjusted n al q) B buf"
proof -
  let ?c = "oc_current q" and ?q = "adjusted n al q"
  let ?k = "pad al (bk_wr_ptr ?c)"
  note W = own_writable [OF I w]
  have a: "al dvd 8" "0 < al" using alignments_dvd [OF al] by auto
  have k: "?k = pad al (length (oc_contents q))"
    unfolding length_oc_contents by (rule pad_mod [OF a]) (simp only: oc_invD(6) [OF I w] oc_invD(7) [OF I])
  have e: "oc_begin_end ?q = oc_before q @ [?c\<lparr>bk_wr := bk_wr ?c + ?k + n\<rparr>]"
    by (simp add: oc_begin_end_def adjusted_def Let_def)
  have c: "mem_contents (mem_write (oc_mem q) buf bs) (oc_begin_end ?q) =
      oc_contents q @ mem_read (oc_mem q) (bk_wr_ptr ?c) ?k @ bs" if n: "length bs = n" for bs
  proof -
    let ?m = "mem_write (oc_mem q) buf bs"
    have "mem_contents ?m (oc_before q) = mem_contents (oc_mem q) (oc_before q)"
      using f n by (intro contents_before [OF I w]) (simp_all add: buf_def bk_wr_ptr_def)
    moreover have "mem_read ?m (bk_rd_ptr ?c) (bk_length ?c + (?k + n)) =
        mem_read ?m (bk_rd_ptr ?c) (bk_length ?c) @ mem_read ?m (bk_wr_ptr ?c) ?k @ mem_read ?m buf n"
    proof -
      have "bk_rd_ptr ?c + bk_length ?c = bk_wr_ptr ?c" using W(3) by (simp add: bk_length_def bk_rd_ptr_def bk_wr_ptr_def)
      then show ?thesis by (simp only: mem_read_add buf_def)
    qed
    moreover have "mem_read ?m (bk_rd_ptr ?c) (bk_length ?c) = mem_read (oc_mem q) (bk_rd_ptr ?c) (bk_length ?c)"
      "mem_read ?m (bk_wr_ptr ?c) ?k = mem_read (oc_mem q) (bk_wr_ptr ?c) ?k"
      using W(3) by (intro mem_read_write_separate; simp add: separate_def bk_length_def bk_rd_ptr_def bk_wr_ptr_def buf_def)+
    moreover have "bk_length (?c\<lparr>bk_wr := bk_wr ?c + ?k + n\<rparr>) = bk_length ?c + (?k + n)"
      using W(3) by (simp add: bk_length_def)
    moreover have "bk_rd_ptr (?c\<lparr>bk_wr := bk_wr ?c + ?k + n\<rparr>) = bk_rd_ptr ?c" by (simp add: bk_rd_ptr_def)
    moreover have "mem_read ?m buf n = bs" using mem_read_write_same [of "oc_mem q" buf bs] n by simp
    ultimately show ?thesis unfolding e by (simp add: oc_contents_def oc_begin_end_def)
  qed
  moreover have "separate x j buf n" if "foreign B (own (oc_begin_end q)) x j" for x j
    using that f by (intro free_part_foreign [OF oc_invD(1) [OF I] W(1,2)]) (auto simp: buf_def bk_wr_ptr_def bk_end_def)
  ultimately show ?thesis
    using k pad_dvd [OF a(2), of "bk_wr_ptr ?c"] adjusted_inv(2) [OF I w, of al n] f
    unfolding room_for_def buf_def by (auto intro!: exI [of _ "mem_read (oc_mem q) (bk_wr_ptr ?c) ?k"])
qed

lemma oc_adjust_step:
  "oc_adjust ops sz al q = (case adjust_current sz al q of
     Some (q1, buf) \<Rightarrow> Some (q1, Some buf)
   | None \<Rightarrow> (case grow_chain ops sz q of None \<Rightarrow> None
       | Some (q1, r) \<Rightarrow> if r = -1 then Some (q1, None) else oc_adjust ops sz al q1))"
  by (subst oc_adjust.simps) (auto split: option.splits)

definition adjust_result ::
  "nat \<Rightarrow> nat \<Rightarrow> nat \<Rightarrow> 'm output_cdr \<Rightarrow> blocks \<Rightarrow> 'm output_cdr \<times> addr option \<Rightarrow> bool" where
  "adjust_result k n al q B r \<longleftrightarrow> (\<exists>q' B'. oc_inv minv q' B' \<and> keeps k q B q' B' \<and> oc_mem q' = oc_mem q \<and>
     (r = (q', None) \<and> \<not> oc_good_bit q' \<and> out_of_memory ops k (oc_heap q') \<and> oc_contents q' = oc_contents q \<or>
      (\<exists>buf. r = (q', Some buf) \<and> room_for n al q q' B' buf)))"

lemma adjust_result_mono:
  assumes "adjust_result j n al q B r" "j \<le> k"
  shows "adjust_result k n al q B r"
  using assms(1) keeps_mono [OF _ assms(2)] out_of_memory_mono [OF _ assms(2)] unfolding adjust_result_def by metis

lemma adjust_in_current:
  assumes "oc_inv minv q B" "oc_is_writable q" "al \<in> alignments" "unat sz < 2 ^ 62"
    and "bk_wr_ptr (oc_current q) + pad al (bk_wr_ptr (oc_current q)) + unat sz \<le> bk_end (oc_current q)"
  shows "\<exists>r. oc_adjust ops sz (of_nat al) q = Some r \<and> adjust_result (bk_cur_size (oc_current q)) (unat sz) al q B r"
proof -
  note a = adjust_current_eq [OF assms(1-4)] adjusted_inv [OF assms(1,2,5)] adjusted_room [OF assms(1-3,5)]
  have "oc_adjust ops sz (of_nat al) q = Some (adjusted (unat sz) al q,
      Some (bk_wr_ptr (oc_current q) + pad al (bk_wr_ptr (oc_current q))))"
    using a(1) assms(5) by (simp add: oc_adjust_step)
  moreover have "keeps (bk_cur_size (oc_current q)) q B (adjusted (unat sz) al q) B"
    using a(3) unfolding keeps_def by (simp add: adjusted_def same_config_def Let_def)
  ultimately show ?thesis
    using a(2,5) unfolding adjust_result_def
    by (intro exI [of _ "(adjusted (unat sz) al q, Some (bk_wr_ptr (oc_current q) + pad al (bk_wr_ptr (oc_current q))))"])
      (auto simp: adjusted_def Let_def intro!: exI [of _ "adjusted (unat sz) al q"] exI [of _ B])
qed

lemma adjust_result_grown:
  assumes "grown n q B q1 B1" "adjust_result k n al q1 B1 r"
  shows "adjust_result k n al q B r"
proof -
  have "keeps k q B q' B'" if "keeps k q1 B1 q' B'" for q' B'
    using assms(1) that by (auto simp: keeps_def grown_def same_config_def)
  moreover have "oc_mem q1 = oc_mem q" using assms(1) by (simp add: grown_def)
  ultimately show ?thesis
    using assms(2) grown_contents [OF assms(1)] unfolding adjust_result_def room_for_def by metis
qed

lemma adjust_fails:
  assumes "oc_inv minv (q\<lparr>oc_heap := h, oc_good_bit := False\<rparr>) B" "bk_cur_size (oc_current q) \<le> k" "out_of_memory ops k h"
  shows "adjust_result k n al q B (q\<lparr>oc_heap := h, oc_good_bit := False\<rparr>, None)"
  unfolding adjust_result_def
  using assms by (intro exI [of _ "q\<lparr>oc_heap := h, oc_good_bit := False\<rparr>"] exI [of _ B])
    (simp add: keeps_def same_config_def oc_begin_end_def oc_contents_def)

text \<open>A block that was grown a second time has room, wherever its buffer starts.\<close>

lemma fits_fresh:
  assumes I: "oc_inv minv q B" and w: "oc_is_writable q" and al: "al \<in> alignments"
    and f: "bk_wr (oc_current q) < 8" "n + 16 \<le> bk_max_size (oc_current q)"
  shows "bk_wr_ptr (oc_current q) + pad al (bk_wr_ptr (oc_current q)) + n \<le> bk_end (oc_current q)"
  using alignments_dvd [OF al] pad_less [of al "bk_wr_ptr (oc_current q)"] f by (simp add: bk_wr_ptr_def bk_end_def)

lemma oc_adjust_correct:
  assumes I: "oc_inv minv q B" and al: "al \<in> alignments" and sz: "unat sz < 2 ^ 40" and cs: "bk_cur_size (oc_current q) < 2 ^ 61"
  defines "k \<equiv> max (bk_cur_size (oc_current q)) (unat sz + 8) + 262144"
  shows "\<exists>r. oc_adjust ops sz (of_nat al) q = Some r \<and> adjust_result k (unat sz) al q B r"
proof -
  let ?fits = "\<lambda>q. bk_wr_ptr (oc_current q) + pad al (bk_wr_ptr (oc_current q)) + unat sz \<le> bk_end (oc_current q)"
  have sz': "unat sz < 2 ^ 62" using sz by simp
  have mono: "adjust_result (bk_cur_size (oc_current q')) (unat sz) al q' B' r \<Longrightarrow> bk_cur_size (oc_current q') \<le> k \<Longrightarrow>
      adjust_result k (unat sz) al q' B' r" for q' B' r
    by (rule adjust_result_mono)
  have here: "\<exists>r. oc_adjust ops sz (of_nat al) q' = Some r \<and> adjust_result k (unat sz) al q' B' r"
    if "oc_inv minv q' B'" "oc_is_writable q'" "?fits q'" "bk_cur_size (oc_current q') \<le> k" for q' B'
    using adjust_in_current [OF that(1,2) al sz' that(3)] mono [OF _ that(4)] by blast
  have stuck: "adjust_current sz (of_nat al) q' = None" if "oc_inv minv q' B'" "\<not> (oc_is_writable q' \<and> ?fits q')" for q' B'
    using adjust_current_eq [OF that(1) _ al sz'] that(2) by (cases "oc_is_writable q'") (auto simp: adjust_current_def)
  have again: "\<exists>r. oc_adjust ops sz (of_nat al) q' = Some r \<and> adjust_result k (unat sz) al q' B' r"
    if i: "oc_inv minv q' B'" and n: "\<not> (oc_is_writable q' \<and> ?fits q')" and c: "max (bk_cur_size (oc_current q')) (unat sz + 8) + 131072 \<le> k" "bk_cur_size (oc_current q') < 2 ^ 62"
      and rest: "\<And>q'' B''. oc_inv minv q'' B'' \<Longrightarrow> grown (unat sz) q' B' q'' B'' \<Longrightarrow>
        \<exists>r. oc_adjust ops sz (of_nat al) q'' = Some r \<and> adjust_result k (unat sz) al q'' B'' r" for q' B'
  proof (cases rule: grow_chain_correct [OF i sz c(2)])
    case (1 h)
    have "bk_cur_size (oc_current q') \<le> k" using c(1) by simp
    from 1(1) stuck [OF i n] adjust_fails [OF 1(2) this out_of_memory_mono [OF 1(3) c(1)]] show ?thesis by (simp add: oc_adjust_step [of _ _ q'])
  next
    case (2 q'' B'')
    from rest [OF 2(2,3)] obtain r where "oc_adjust ops sz (of_nat al) q'' = Some r" "adjust_result k (unat sz) al q'' B'' r" by blast
    then show ?thesis using stuck [OF i n] 2(1) adjust_result_grown [OF 2(3)] by (simp add: oc_adjust_step [of _ _ q'])
  qed
  show ?thesis
  proof (cases "oc_is_writable q \<and> ?fits q")
    case True
    then show ?thesis using here [OF I] by (simp add: k_def)
  next
    case False
    show ?thesis
    proof (rule again [OF I False])
      fix q1 B1
      assume 1: "oc_inv minv q1 B1" "grown (unat sz) q B q1 B1"
      define s1 where "s1 = bk_max_size (oc_current q1)"
      have g1: "oc_is_writable q1" "bk_cur_size (oc_current q1) = s1" "unat sz + 8 < s1" "512 dvd s1"
        "s1 \<le> max (bk_cur_size (oc_current q)) (unat sz + 8) + 131072"
        using 1(2) by (simp_all add: grown_def Let_def s1_def)
      show "\<exists>r. oc_adjust ops sz (of_nat al) q1 = Some r \<and> adjust_result k (unat sz) al q1 B1 r"
      proof (cases "?fits q1")
        case True
        then show ?thesis using here [OF 1(1) g1(1)] g1(2,5) by (simp add: k_def)
      next
        case False
        show ?thesis
        proof (rule again [OF 1(1)])
          fix q2 B2
          assume 2: "oc_inv minv q2 B2" "grown (unat sz) q1 B1 q2 B2"
          define s2 where "s2 = bk_max_size (oc_current q2)"
          have g2: "oc_is_writable q2" "bk_cur_size (oc_current q2) = s2" "s1 < s2" "512 dvd s2" "bk_wr (oc_current q2) < 8"
            "s2 \<le> s1 + 131072"
            using 2(2) g1(2,3) by (simp_all add: grown_def Let_def s2_def)
          have "s1 + 512 \<le> s2"
          proof -
            obtain i j where "s1 = 512 * i" "s2 = 512 * j" using g1(4) g2(4) by (auto elim!: dvdE)
            then show ?thesis using g2(3) by simp
          qed
          then have "?fits q2" using fits_fresh [OF 2(1) g2(1) al g2(5), of "unat sz"] g1(3) by (simp add: s2_def)
          then show "\<exists>r. oc_adjust ops sz (of_nat al) q2 = Some r \<and> adjust_result k (unat sz) al q2 B2 r"
            using here [OF 2(1) g2(1)] g1(5) g2(2,6) by (simp add: k_def)
        qed (use False g1 sz cs in \<open>auto simp: k_def\<close>)
      qed
    qed (use cs in \<open>auto simp: k_def\<close>)
  qed
qed

end

end
