(* ===== verification/ACE_CDR_Write.thy ===== *)
theory ACE_CDR_Write
  imports ACE_CDR_Output
begin

text \<open>
  What the write operations put into the stream. A stream is a sequence of chunks, each at the next
  multiple of its alignment; a script of writes lays out the chunks of its items.
\<close>

section \<open>Chunks\<close>

type_synonym chunk = "nat \<times> byte list"

fun laid :: "nat \<Rightarrow> chunk list \<Rightarrow> byte list \<Rightarrow> bool" where
  "laid pos [] c \<longleftrightarrow> c = []"
| "laid pos ((al, bs) # cs) c \<longleftrightarrow>
     (\<exists>pd rest. c = pd @ bs @ rest \<and> length pd = pad al pos \<and> laid (pos + pad al pos + length bs) cs rest)"

lemma laid_append: "laid pos cs c \<Longrightarrow> laid (pos + length c) ds d \<Longrightarrow> laid pos (cs @ ds) (c @ d)"
proof (induction pos cs c rule: laid.induct)
  case (2 pos al bs cs c)
  then obtain pd rest where r: "c = pd @ bs @ rest" "length pd = pad al pos" "laid (pos + pad al pos + length bs) cs rest" by auto
  then have "laid (pos + pad al pos + length bs) (cs @ ds) (rest @ d)"
    using 2(1) [of rest] 2(3) by (simp add: add.assoc)
  moreover have "c @ d = pd @ bs @ (rest @ d)" using r(1) by simp
  ultimately show ?case using r(2) by (simp only: append_Cons laid.simps) blast
qed simp

definition chunks_length :: "chunk list \<Rightarrow> nat" where
  "chunks_length cs = sum_list (map (\<lambda>(al, bs). length bs + 8) cs)"

text \<open>The bytes of a value of \<open>n\<close> bytes, in the byte order of the machine or in the other one.\<close>

definition wire :: "platform \<Rightarrow> bool \<Rightarrow> nat \<Rightarrow> 'a :: len word \<Rightarrow> byte list" where
  "wire pf swap n w = (if swap then rev (native pf n w) else native pf n w)"

lemma length_wire [simp]: "length (wire pf swap n w) = n"
  by (simp add: wire_def)

lemma mem_read_local: "mem_read (local_var pf n x) 0 n = native pf n x"
  using mem_read_write_same [of "\<lambda>_. 0" 0 "native pf n x"] by (simp add: local_var_def)

lemma store_wire:
  "(if \<not> sw then store pf 2 m buf x else swap_2_from pf (local_var pf 2 x) m 0 buf) = mem_write m buf (wire pf sw 2 (x :: 16 word))"
  "(if \<not> sw then store pf 4 m buf y else swap_4_from pf (local_var pf 4 y) m 0 buf) = mem_write m buf (wire pf sw 4 (y :: 32 word))"
  "(if \<not> sw then store pf 8 m buf z else swap_8_from pf (local_var pf 8 z) m 0 buf) = mem_write m buf (wire pf sw 8 (z :: 64 word))"
  "(if \<not> sw then store pf 16 m buf w else swap_16_from pf (local_var pf 16 w) m 0 buf) = mem_write m buf (wire pf sw 16 (w :: 128 word))"
  by (simp_all add: store_def wire_def swap_2_mem swap_4_mem swap_8_mem swap_16_from_mem mem_read_local)

section \<open>Scripts\<close>

datatype cdr_item =
    C_octet byte | C_boolean bool | C_ushort "16 word" | C_ulong "32 word" | C_ulonglong "64 word" | C_longdouble "128 word"
  | C_string "32 word" addr
  | C_array nat nat nat addr

primrec write_item :: "'m allocator_ops \<Rightarrow> cdr_config \<Rightarrow> cdr_item \<Rightarrow> 'm output_cdr \<Rightarrow> ('m output_cdr \<times> bool) option" where
  "write_item ops cf (C_octet x) q = write_1 ops x q"
| "write_item ops cf (C_boolean x) q = write_boolean ops x q"
| "write_item ops cf (C_ushort x) q = write_2 ops cf x q"
| "write_item ops cf (C_ulong x) q = write_4 ops cf x q"
| "write_item ops cf (C_ulonglong x) q = write_8 ops cf x q"
| "write_item ops cf (C_longdouble x) q = write_16 ops cf x q"
| "write_item ops cf (C_string len x) q = write_string ops cf len x q"
| "write_item ops cf (C_array sz al len x) q = write_array ops cf x sz al len q"

text \<open>A caller gives up at the first write that fails.\<close>

primrec write_items :: "'m allocator_ops \<Rightarrow> cdr_config \<Rightarrow> cdr_item list \<Rightarrow> 'm output_cdr \<Rightarrow> ('m output_cdr \<times> bool) option" where
  "write_items ops cf [] q = Some (q, True)"
| "write_items ops cf (i # is) q =
     (case write_item ops cf i q of
        None \<Rightarrow> None
      | Some (q1, r) \<Rightarrow> if r then write_items ops cf is q1 else Some (q1, False))"

text \<open>The chunks of an item; text and arrays are in the memory of the caller.\<close>

definition array_wire :: "bool \<Rightarrow> nat \<Rightarrow> byte list \<Rightarrow> byte list" where
  "array_wire swap sz bs = (if swap \<and> sz \<noteq> 1 then swapped sz bs else bs)"

primrec item_chunks :: "platform \<Rightarrow> bool \<Rightarrow> memory \<Rightarrow> cdr_item \<Rightarrow> chunk list" where
  "item_chunks pf sw m (C_octet x) = [(1, [x])]"
| "item_chunks pf sw m (C_boolean x) = [(1, [if x then 1 else 0])]"
| "item_chunks pf sw m (C_ushort x) = [(2, wire pf sw 2 x)]"
| "item_chunks pf sw m (C_ulong x) = [(4, wire pf sw 4 x)]"
| "item_chunks pf sw m (C_ulonglong x) = [(8, wire pf sw 8 x)]"
| "item_chunks pf sw m (C_longdouble x) = [(8, wire pf sw 16 x)]"
| "item_chunks pf sw m (C_string len x) =
     [(4, wire pf sw 4 (len + 1)), (1, if len = 0 then [0] else mem_read m x (unat (len + 1)))]"
| "item_chunks pf sw m (C_array sz al len x) =
     (if len = 0 then [] else [(al, array_wire sw sz (mem_read m x (sz * len)))])"

text \<open>Arrays have the element sizes of the basic types, and lie outside the buffers of the stream.\<close>

primrec item_ok :: "blocks \<Rightarrow> addr set \<Rightarrow> cdr_item \<Rightarrow> bool" where
  "item_ok B Own (C_octet x) = True"
| "item_ok B Own (C_boolean x) = True"
| "item_ok B Own (C_ushort x) = True"
| "item_ok B Own (C_ulong x) = True"
| "item_ok B Own (C_ulonglong x) = True"
| "item_ok B Own (C_longdouble x) = True"
| "item_ok B Own (C_string len x) = foreign B Own x (unat (len + 1))"
| "item_ok B Own (C_array sz al len x) =
     (sz \<in> {1, 2, 4, 8, 16} \<and> al \<in> alignments \<and> len < 2 ^ 32 \<and> foreign B Own x (sz * len))"

text \<open>A bound on how much larger than the last block a block can be that is put into the chain for an item.\<close>

definition item_cost :: "cdr_item \<Rightarrow> nat" where
  "item_cost i = (case i of C_string len x \<Rightarrow> unat (len + 1) | C_array sz al len x \<Rightarrow> sz * len | _ \<Rightarrow> 0) + 700000"

section \<open>One write\<close>

text \<open>
  The outcome of a write: the invariant is kept, nothing of what others have in memory changes, and the
  contents grow by the chunks. When the write fails, for lack of memory, they grow by some bytes, those of the part
  that was written.
\<close>

definition wrote ::
  "'m allocator_ops \<Rightarrow> ('m \<Rightarrow> blocks \<Rightarrow> bool) \<Rightarrow> nat \<Rightarrow> chunk list \<Rightarrow> 'm output_cdr \<Rightarrow> blocks \<Rightarrow> 'm output_cdr \<Rightarrow> bool \<Rightarrow> bool" where
  "wrote ops minv k cs q B q' r \<longleftrightarrow> (\<exists>B'. oc_inv minv q' B' \<and> keeps k q B q' B' \<and>
     (\<forall>x n. foreign B (own (oc_begin_end q)) x n \<longrightarrow> mem_read (oc_mem q') x n = mem_read (oc_mem q) x n) \<and>
     (\<not> r \<longrightarrow> \<not> oc_good_bit q' \<and> out_of_memory ops k (oc_heap q')) \<and>
     (\<exists>bs. oc_contents q' = oc_contents q @ bs \<and> (r \<longrightarrow> laid (length (oc_contents q)) cs bs)))"

lemma same_config_trans: "same_config q q1 \<Longrightarrow> same_config q1 q2 \<Longrightarrow> same_config q q2"
  by (simp add: same_config_def)

lemma oc_inv_mem [simp]:
  "oc_inv minv (q\<lparr>oc_mem := m\<rparr>) B = oc_inv minv q B" "oc_inv minv (q\<lparr>oc_good_bit := g\<rparr>) B = oc_inv minv q B"
  by (simp_all add: oc_inv_def oc_begin_end_def)

lemma keeps_mem [simp]:
  "keeps k q B (q'\<lparr>oc_mem := m\<rparr>) B' = keeps k q B q' B'" "keeps k q B (q'\<lparr>oc_good_bit := g\<rparr>) B' = keeps k q B q' B'"
  by (simp_all add: keeps_def same_config_def oc_begin_end_def)

lemma keeps_trans: "keeps j q B q1 B1 \<Longrightarrow> keeps k q1 B1 q2 B2 \<Longrightarrow> keeps k q B q2 B2"
  unfolding keeps_def by (meson same_config_trans)

lemma wrote_done:
  assumes "oc_inv minv q' B'" "keeps k q B q' B'" "oc_mem q' = oc_mem q" "room_for n al q q' B' buf" "length bs = n"
  shows "wrote ops minv k [(al, bs)] q B (q'\<lparr>oc_mem := mem_write (oc_mem q') buf bs\<rparr>) True"
proof -
  obtain pd where "length pd = pad al (length (oc_contents q))"
    "mem_contents (mem_write (oc_mem q) buf bs) (oc_begin_end q') = oc_contents q @ pd @ bs"
    using assms(4,5) unfolding room_for_def by blast
  then have "\<exists>ys. oc_contents (q'\<lparr>oc_mem := mem_write (oc_mem q') buf bs\<rparr>) = oc_contents q @ ys \<and>
      laid (length (oc_contents q)) [(al, bs)] ys"
    using assms(3) by (intro exI [of _ "pd @ bs"]) (simp add: oc_contents_def oc_begin_end_def)
  moreover have "mem_read (mem_write (oc_mem q') buf bs) x j = mem_read (oc_mem q) x j"
    if "foreign B (own (oc_begin_end q)) x j" for x j
    using assms(2-5) that unfolding keeps_def room_for_def by (simp add: mem_read_write_separate)
  ultimately show ?thesis using assms(1,2) unfolding wrote_def by (intro exI [of _ B']) simp
qed

lemma wrote_failed:
  assumes "oc_inv minv q' B'" "keeps k q B q' B'" "oc_mem q' = oc_mem q" "\<not> oc_good_bit q'" "oc_contents q' = oc_contents q"
    "out_of_memory ops k (oc_heap q')"
  shows "wrote ops minv k cs q B q' False"
  using assms unfolding wrote_def by (intro exI [of _ B']) simp

lemma wrote_mono:
  assumes "wrote ops minv j cs q B q' r" "j \<le> k"
  shows "wrote ops minv k cs q B q' r"
proof -
  obtain B' where B': "oc_inv minv q' B'" "keeps j q B q' B'"
    "\<forall>x n. foreign B (own (oc_begin_end q)) x n \<longrightarrow> mem_read (oc_mem q') x n = mem_read (oc_mem q) x n"
    "\<not> r \<longrightarrow> \<not> oc_good_bit q' \<and> out_of_memory ops j (oc_heap q')"
    "\<exists>bs. oc_contents q' = oc_contents q @ bs \<and> (r \<longrightarrow> laid (length (oc_contents q)) cs bs)"
    using assms(1) unfolding wrote_def by blast
  have "\<not> r \<longrightarrow> \<not> oc_good_bit q' \<and> out_of_memory ops k (oc_heap q')"
    using B'(4) out_of_memory_mono [of ops j "oc_heap q'" k] assms(2) by (cases r) simp_all
  then show ?thesis
    unfolding wrote_def using B'(1,3,5) keeps_mono [OF B'(2) assms(2)] by (intro exI [of _ B'] conjI)
qed

lemma wrote_less: "wrote ops minv k cs q B q' False \<Longrightarrow> wrote ops minv k ds q B q' False"
  unfolding wrote_def by simp

lemma wrote_bad: "wrote ops minv k cs q B q' False \<Longrightarrow> wrote ops minv k ds q B (q'\<lparr>oc_good_bit := False\<rparr>) False"
  unfolding wrote_def by (auto simp: oc_contents_def oc_begin_end_def)

lemma wrote_nothing:
  assumes "oc_inv minv q B" "bk_cur_size (oc_current q) \<le> k"
  shows "wrote ops minv k [] q B q True"
  using assms unfolding wrote_def by (intro exI [of _ B]) (simp add: keeps_refl)

context cdr_memory
begin

lemma put_value_correct:
  assumes I: "oc_inv minv q B" and al: "al \<in> alignments" and bs: "length bs = n" "n < 2 ^ 40"
    and cs: "bk_cur_size (oc_current q) < 2 ^ 61" and f: "\<And>m buf. f m buf = mem_write m buf bs"
    and k: "bk_cur_size (oc_current q) + n + 262152 \<le> k"
  shows "\<exists>q' r. map_option (\<lambda>s. put_value s f) (oc_adjust ops (of_nat n) (of_nat al) q) = Some (q', r) \<and>
    wrote ops minv k [(al, bs)] q B q' r"
proof -
  have u: "unat (of_nat n :: 64 word) = n" using bs(2) by (simp add: unat_of_nat)
  let ?k = "max (bk_cur_size (oc_current q)) (n + 8) + 262144"
  obtain s q' B' where s: "oc_adjust ops (of_nat n) (of_nat al) q = Some s" "oc_inv minv q' B'" "keeps ?k q B q' B'"
    "oc_mem q' = oc_mem q" "s = (q', None) \<and> \<not> oc_good_bit q' \<and> out_of_memory ops ?k (oc_heap q') \<and> oc_contents q' = oc_contents q \<or>
      (\<exists>buf. s = (q', Some buf) \<and> room_for n al q q' B' buf)"
    using oc_adjust_correct [OF I al, of "of_nat n"] bs(2) cs unfolding u adjust_result_def by blast
  have kk: "keeps k q B q' B'" using keeps_mono [OF s(3)] k by simp
  have oom: "out_of_memory ops ?k h \<Longrightarrow> out_of_memory ops k h" for h using out_of_memory_mono [of ops ?k h k] k by simp
  from s(5) show ?thesis
  proof (elim disjE exE conjE)
    assume "s = (q', None)" "\<not> oc_good_bit q'" "oc_contents q' = oc_contents q" "out_of_memory ops ?k (oc_heap q')"
    then show ?thesis using s(1) wrote_failed [OF s(2) kk s(4)] oom
      by (intro exI [of _ q'] exI [of _ False]) (simp add: put_value_def)
  next
    fix buf
    assume "s = (q', Some buf)" "room_for n al q q' B' buf"
    then show ?thesis using s(1) wrote_done [OF s(2) kk s(4) _ bs(1)]
      by (intro exI [of _ "q'\<lparr>oc_mem := mem_write (oc_mem q') buf bs\<rparr>"] exI [of _ True]) (simp add: put_value_def f)
  qed
qed

lemma wrote_then:
  assumes 1: "wrote ops minv j cs q B q1 True" and jk: "j \<le> k" and P: "\<And>x n. P x n \<Longrightarrow> foreign B (own (oc_begin_end q)) x n"
    and 2: "\<And>B1. oc_inv minv q1 B1 \<Longrightarrow> same_config q q1 \<Longrightarrow> bk_cur_size (oc_current q1) \<le> j \<Longrightarrow>
      (\<And>x n. P x n \<Longrightarrow> foreign B1 (own (oc_begin_end q1)) x n \<and> mem_read (oc_mem q1) x n = mem_read (oc_mem q) x n) \<Longrightarrow>
      \<exists>q2 r. g q1 = Some (q2, r) \<and> wrote ops minv k ds q1 B1 q2 r"
  shows "\<exists>q2 r. g q1 = Some (q2, r) \<and> wrote ops minv k (cs @ ds) q B q2 r"
proof -
  obtain B1 bs where w: "oc_inv minv q1 B1" "keeps j q B q1 B1"
    "\<forall>x n. foreign B (own (oc_begin_end q)) x n \<longrightarrow> mem_read (oc_mem q1) x n = mem_read (oc_mem q) x n"
    "oc_contents q1 = oc_contents q @ bs" "laid (length (oc_contents q)) cs bs"
    using 1 unfolding wrote_def by blast
  have fk: "foreign B (own (oc_begin_end q)) x n \<Longrightarrow> foreign B1 (own (oc_begin_end q1)) x n" for x n
    using w(2) by (simp add: keeps_def)
  obtain q2 r where g: "g q1 = Some (q2, r)" "wrote ops minv k ds q1 B1 q2 r"
    using 2 [OF w(1)] w(2,3) fk P unfolding keeps_def by blast
  then obtain B2 cs2 where x: "oc_inv minv q2 B2" "keeps k q1 B1 q2 B2"
    "\<forall>x n. foreign B1 (own (oc_begin_end q1)) x n \<longrightarrow> mem_read (oc_mem q2) x n = mem_read (oc_mem q1) x n"
    "\<not> r \<longrightarrow> \<not> oc_good_bit q2 \<and> out_of_memory ops k (oc_heap q2)" "oc_contents q2 = oc_contents q1 @ cs2" "r \<longrightarrow> laid (length (oc_contents q1)) ds cs2"
    unfolding wrote_def by blast
  have "r \<longrightarrow> laid (length (oc_contents q)) (cs @ ds) (bs @ cs2)"
    using x(6) laid_append [OF w(5)] w(4) by simp
  moreover have "oc_contents q2 = oc_contents q @ (bs @ cs2)" using x(5) w(4) by simp
  moreover have "\<forall>x n. foreign B (own (oc_begin_end q)) x n \<longrightarrow> mem_read (oc_mem q2) x n = mem_read (oc_mem q) x n"
    using w(3) x(3) fk by metis
  ultimately have "wrote ops minv k (cs @ ds) q B q2 r"
    using x(1,4) keeps_trans [OF w(2) x(2)] unfolding wrote_def by blast
  then show ?thesis using g(1) by blast
qed

lemma swap_array_correct:
  assumes "sz \<in> {2, 4, 8, 16}" "0 < n" "separate x (sz * n) buf (sz * n)"
  shows "swap_array pf sz m x buf n = Some (mem_write m buf (swapped sz (mem_read m x (sz * n))))"
  using assms by (auto simp: swap_array_def swap_2_array_correct swap_4_array_correct swap_8_array_correct swap_16_array_correct)

lemma write_array_correct:
  assumes I: "oc_inv minv q B" and ok: "item_ok B (own (oc_begin_end q)) (C_array sz al len x)"
    and cs: "bk_cur_size (oc_current q) < 2 ^ 61" and k: "bk_cur_size (oc_current q) + sz * len + 262152 \<le> k"
  shows "\<exists>q' r. write_array ops cf x sz al len q = Some (q', r) \<and>
    wrote ops minv k (item_chunks pf (write_swaps cf q) (oc_mem q) (C_array sz al len x)) q B q' r"
proof (cases "len = 0")
  case True
  then show ?thesis using wrote_nothing [OF I, of k] k
    by (intro exI [of _ q] exI [of _ True]) (simp add: write_array_def)
next
  case False
  let ?n = "sz * len" and ?bs = "array_wire (write_swaps cf q) sz (mem_read (oc_mem q) x (sz * len))"
  have o: "sz \<in> {1, 2, 4, 8, 16}" "al \<in> alignments" "len < 2 ^ 32" "foreign B (own (oc_begin_end q)) x ?n"
    using ok by simp_all
  have n: "?n < 2 ^ 40" "0 < sz"
  proof -
    have "sz \<le> 16" using o(1) by auto
    then have "?n \<le> 16 * len" by simp
    moreover have "16 * len < 2 ^ 40" using o(3) by simp
    ultimately show "?n < 2 ^ 40" by (rule le_less_trans)
    show "0 < sz" using o(1) by auto
  qed
  have u: "(of_nat sz * of_nat len :: 64 word) = of_nat ?n" "unat (of_nat ?n :: 64 word) = ?n"
    using n(1) by (simp_all add: unat_of_nat del: of_nat_mult) simp
  have len: "length ?bs = ?n" using n(2) by (auto simp: array_wire_def length_swapped [where j = len])
  let ?k = "max (bk_cur_size (oc_current q)) (?n + 8) + 262144"
  obtain s q' B' where s: "oc_adjust ops (of_nat ?n) (of_nat al) q = Some s" "oc_inv minv q' B'" "keeps ?k q B q' B'"
    "oc_mem q' = oc_mem q" "s = (q', None) \<and> \<not> oc_good_bit q' \<and> out_of_memory ops ?k (oc_heap q') \<and> oc_contents q' = oc_contents q \<or>
      (\<exists>buf. s = (q', Some buf) \<and> room_for ?n al q q' B' buf)"
    using oc_adjust_correct [OF I o(2), of "of_nat ?n"] n(1) cs unfolding u(2) adjust_result_def by blast
  have kk: "keeps k q B q' B'" using keeps_mono [OF s(3)] k by simp
  have oom: "out_of_memory ops ?k h \<Longrightarrow> out_of_memory ops k h" for h using out_of_memory_mono [of ops ?k h k] k by simp
  have s1: "oc_adjust ops (of_nat sz * of_nat len) (of_nat al) q = Some s" using s(1) by simp
  from s(5) show ?thesis
  proof (elim disjE exE conjE)
    assume r: "s = (q', None)" "\<not> oc_good_bit q'" "oc_contents q' = oc_contents q" "out_of_memory ops ?k (oc_heap q')"
    have "q'\<lparr>oc_good_bit := False\<rparr> = q'" using r(2) by (cases q') simp
    then have "write_array ops cf x sz al len q = Some (q', False)" using s1 r(1) False by (simp add: write_array_def)
    then show ?thesis using wrote_failed [OF s(2) kk s(4) r(2,3) oom [OF r(4)]] by blast
  next
    fix buf
    assume r: "s = (q', Some buf)" "room_for ?n al q q' B' buf"
    have sep: "separate x ?n buf ?n" using o(4) kk r(2) by (simp add: keeps_def room_for_def)
    have "write_array ops cf x sz al len q = Some (q'\<lparr>oc_mem := mem_write (oc_mem q') buf ?bs\<rparr>, True)"
    proof (cases "\<not> write_swaps cf q \<or> sz = 1")
      case True
      then have "?bs = mem_read (oc_mem q) x ?n" by (auto simp: array_wire_def)
      then show ?thesis using s1 s(4) r(1) False True by (simp add: write_array_def)
    next
      case F: False
      then have "?bs = swapped sz (mem_read (oc_mem q) x ?n)" by (auto simp: array_wire_def)
      moreover have "sz \<in> {2, 4, 8, 16}" using o(1) F by auto
      note swap_array_correct [OF this _ sep, of "cf_platform cf" "oc_mem q"]
      ultimately show ?thesis using s1 s(4) r(1) False F by (simp add: write_array_def)
    qed
    then show ?thesis using wrote_done [OF s(2) kk s(4) r(2) len] False by auto
  qed
qed

lemma write_scalars:
  assumes "oc_inv minv q B" "bk_cur_size (oc_current q) < 2 ^ 61" "bk_cur_size (oc_current q) + 262168 \<le> k"
  shows "\<exists>q' r. write_1 ops a q = Some (q', r) \<and> wrote ops minv k [(1, [a])] q B q' r"
    "\<exists>q' r. write_2 ops cf b q = Some (q', r) \<and> wrote ops minv k [(2, wire (cf_platform cf) (write_swaps cf q) 2 b)] q B q' r"
    "\<exists>q' r. write_4 ops cf c q = Some (q', r) \<and> wrote ops minv k [(4, wire (cf_platform cf) (write_swaps cf q) 4 c)] q B q' r"
    "\<exists>q' r. write_8 ops cf d q = Some (q', r) \<and> wrote ops minv k [(8, wire (cf_platform cf) (write_swaps cf q) 8 d)] q B q' r"
    "\<exists>q' r. write_16 ops cf e q = Some (q', r) \<and> wrote ops minv k [(8, wire (cf_platform cf) (write_swaps cf q) 16 e)] q B q' r"
proof -
  have al: "1 \<in> alignments" "2 \<in> alignments" "4 \<in> alignments" "8 \<in> alignments" by (simp_all add: alignments_def)
  note P = put_value_correct [OF assms(1) _ _ _ assms(2)]
  show "\<exists>q' r. write_1 ops a q = Some (q', r) \<and> wrote ops minv k [(1, [a])] q B q' r"
    using P [OF al(1), of "[a]" 1 "\<lambda>m buf. mem_write m buf [a]" k] assms(3) by (simp add: write_1_def)
  show "\<exists>q' r. write_2 ops cf b q = Some (q', r) \<and> wrote ops minv k [(2, wire (cf_platform cf) (write_swaps cf q) 2 b)] q B q' r"
    using P [OF al(2) length_wire _ store_wire(1), of k] assms(3) by (simp add: write_2_def Let_def)
  show "\<exists>q' r. write_4 ops cf c q = Some (q', r) \<and> wrote ops minv k [(4, wire (cf_platform cf) (write_swaps cf q) 4 c)] q B q' r"
    using P [OF al(3) length_wire _ store_wire(2), of k] assms(3) by (simp add: write_4_def Let_def)
  show "\<exists>q' r. write_8 ops cf d q = Some (q', r) \<and> wrote ops minv k [(8, wire (cf_platform cf) (write_swaps cf q) 8 d)] q B q' r"
    using P [OF al(4) length_wire _ store_wire(3), of k] assms(3) by (simp add: write_8_def Let_def)
  show "\<exists>q' r. write_16 ops cf e q = Some (q', r) \<and> wrote ops minv k [(8, wire (cf_platform cf) (write_swaps cf q) 16 e)] q B q' r"
    using P [OF al(4) length_wire _ store_wire(4), of k] assms(3) by (simp add: write_16_def Let_def)
qed

lemma item_chunks_cong:
  assumes "\<And>x n. foreign B Own x n \<Longrightarrow> mem_read m' x n = mem_read m x n" "item_ok B Own i"
  shows "item_chunks pf sw m' i = item_chunks pf sw m i"
  using assms by (cases i) auto

lemma item_ok_mono:
  assumes "\<And>x n. foreign B Own x n \<Longrightarrow> foreign B' Own' x n" "item_ok B Own i"
  shows "item_ok B' Own' i"
  using assms by (cases i) auto

lemma write_string_correct:
  fixes cf :: cdr_config
  assumes I: "oc_inv minv q B" and ok: "item_ok B (own (oc_begin_end q)) (C_string len x)"
  defines "cs \<equiv> item_chunks (cf_platform cf) (write_swaps cf q) (oc_mem q) (C_string len x)"
  assumes k: "bk_cur_size (oc_current q) + chunks_length cs + 600000 \<le> k" "k < 2 ^ 61"
  shows "\<exists>q' r. write_string ops cf len x q = Some (q', r) \<and> wrote ops minv k cs q B q' r"
proof -
  let ?j = "bk_cur_size (oc_current q) + 262168"
  have j: "bk_cur_size (oc_current q) < 2 ^ 61" "?j \<le> k" using k by simp_all
  let ?c4 = "[(4, wire (cf_platform cf) (write_swaps cf q) 4 (len + 1))]"
  obtain q1 r1 where 1: "write_4 ops cf (len + 1) q = Some (q1, r1)" "wrote ops minv ?j ?c4 q B q1 r1"
    using write_scalars(3) [OF I j(1) order_refl] by blast
  have k1: "wrote ops minv k ds q B (q1\<lparr>oc_good_bit := False\<rparr>) False" if "\<not> r1" for ds
  proof -
    have "wrote ops minv k ?c4 q B q1 False"
      using 1(2) that wrote_mono [OF _ j(2)] by simp
    then show ?thesis by (rule wrote_bad)
  qed
  show ?thesis
  proof (cases r1)
    case False
    then have "write_string ops cf len x q = Some (q1\<lparr>oc_good_bit := False\<rparr>, False)"
      using 1(1) by (cases "len = 0") (simp_all add: write_string_def)
    then show ?thesis using k1 [OF False] by blast
  next
    case True
    let ?P = "\<lambda>y n. y = x \<and> n = unat (len + 1)"
    let ?g = "\<lambda>q1. if len \<noteq> 0 then write_array ops cf x 1 1 (unat (len + 1)) q1 else write_1 ops 0 q1"
    let ?c1 = "[(1, if len = 0 then [0] else mem_read (oc_mem q) x (unat (len + 1)))]"
    have "\<exists>q2 r. ?g q1 = Some (q2, r) \<and> wrote ops minv k (?c4 @ ?c1) q B q2 r"
    proof (rule wrote_then [OF _ j(2), where P = ?P])
      show "wrote ops minv ?j ?c4 q B q1 True" using 1(2) True by simp
      show "foreign B (own (oc_begin_end q)) y n" if "?P y n" for y n using ok that by simp
    next
      fix B1
      assume b: "oc_inv minv q1 B1" "same_config q q1" "bk_cur_size (oc_current q1) \<le> ?j"
        "\<And>y n. ?P y n \<Longrightarrow> foreign B1 (own (oc_begin_end q1)) y n \<and> mem_read (oc_mem q1) y n = mem_read (oc_mem q) y n"
      have s: "bk_cur_size (oc_current q1) < 2 ^ 61" using b(3) k by simp
      show "\<exists>q2 r. ?g q1 = Some (q2, r) \<and> wrote ops minv k ?c1 q1 B1 q2 r"
      proof (cases "len = 0")
        case True
        have "bk_cur_size (oc_current q1) + 262168 \<le> k" using b(3) k by simp
        from write_scalars(1) [OF b(1) s this, of 0] True show ?thesis by simp
      next
        case False
        have l: "unat (len + 1) < 2 ^ 32"
        proof -
          have "unat (len + 1) < 2 ^ LENGTH(32)" by (rule unsigned_less)
          then show ?thesis by simp
        qed
        have ok1: "item_ok B1 (own (oc_begin_end q1)) (C_array 1 1 (unat (len + 1)) x)"
          using b(4) [of x "unat (len + 1)"] l by (simp add: alignments_def)
        have kk: "bk_cur_size (oc_current q1) + 1 * unat (len + 1) + 262152 \<le> k"
          using b(3) k False by (simp add: cs_def chunks_length_def)
        obtain q2 r where w: "write_array ops cf x 1 1 (unat (len + 1)) q1 = Some (q2, r)"
          "wrote ops minv k (item_chunks (cf_platform cf) (write_swaps cf q1) (oc_mem q1) (C_array 1 1 (unat (len + 1)) x)) q1 B1 q2 r"
          using write_array_correct [OF b(1) ok1 s kk] by blast
        have "wrote ops minv k ?c1 q1 B1 q2 r"
        proof (cases "unat (len + 1) = 0")
          case True
          then have e: "?c1 = [(1, [])]" using False by simp
          have "wrote ops minv k [] q1 B1 q2 r" using w(2) True by simp
          moreover have "laid p [(1, [])] []" for p using pad_less [of 1 p] by simp
          ultimately show ?thesis unfolding e wrote_def by auto
        next
          case F: False
          then have "item_chunks (cf_platform cf) (write_swaps cf q1) (oc_mem q1) (C_array 1 1 (unat (len + 1)) x) = ?c1"
            using False b(4) [of x "unat (len + 1)"] by (simp add: array_wire_def)
          then show ?thesis using w(2) by metis
        qed
        then show ?thesis using w(1) False by simp
      qed
    qed
    moreover have "write_string ops cf len x q = ?g q1"
      using 1(1) True by (cases "len = 0") (simp_all add: write_string_def)
    ultimately show ?thesis by (simp add: cs_def)
  qed
qed

lemma write_item_correct:
  fixes cf :: cdr_config
  assumes I: "oc_inv minv q B" and ok: "item_ok B (own (oc_begin_end q)) i"
    and k: "bk_cur_size (oc_current q) + item_cost i \<le> k" "k < 2 ^ 61"
  shows "\<exists>q' r. write_item ops cf i q = Some (q', r) \<and>
    wrote ops minv k (item_chunks (cf_platform cf) (write_swaps cf q) (oc_mem q) i) q B q' r"
proof -
  have j: "bk_cur_size (oc_current q) < 2 ^ 61" using k by simp
  have c: "bk_cur_size (oc_current q) + 262168 \<le> k" using k(1) by (simp add: item_cost_def)
  note S = write_scalars [OF I j c]
  show ?thesis
  proof (cases i)
    case (C_boolean x)
    then show ?thesis using S(1) by (auto simp: write_boolean_def)
  next
    case (C_string len x)
    have "bk_cur_size (oc_current q) +
        chunks_length (item_chunks (cf_platform cf) (write_swaps cf q) (oc_mem q) (C_string len x)) + 600000 \<le> k"
      using k(1) C_string by (simp add: item_cost_def chunks_length_def)
    then show ?thesis using write_string_correct [OF I, of len x cf k] ok k(2) C_string by simp
  next
    case (C_array sz al len x)
    then have "bk_cur_size (oc_current q) + sz * len + 262152 \<le> k" using k(1) by (simp add: item_cost_def)
    then show ?thesis using write_array_correct [OF I _ j, of sz al len x k cf "cf_platform cf"] ok C_array by simp
  qed (use S in simp_all)
qed

lemma write_items_correct:
  fixes cf :: cdr_config
  assumes "oc_inv minv q B" "\<forall>i \<in> set is. item_ok B (own (oc_begin_end q)) i"
    "bk_cur_size (oc_current q) + sum_list (map item_cost is) \<le> k" "k < 2 ^ 61"
  shows "\<exists>q' r. write_items ops cf is q = Some (q', r) \<and>
    wrote ops minv k (concat (map (item_chunks (cf_platform cf) (write_swaps cf q) (oc_mem q)) is)) q B q' r"
  using assms
proof (induction "is" arbitrary: q B)
  case Nil
  then show ?case using wrote_nothing [OF Nil(1), of k] by (intro exI [of _ q] exI [of _ True]) simp
next
  case (Cons i "is")
  let ?j = "bk_cur_size (oc_current q) + item_cost i"
  let ?C = "item_chunks (cf_platform cf) (write_swaps cf q) (oc_mem q)"
  have j: "?j < 2 ^ 61" "?j \<le> k" using Cons.prems(3,4) by simp_all
  have "item_ok B (own (oc_begin_end q)) i" using Cons.prems(2) by simp
  then obtain q1 r1 where 1: "write_item ops cf i q = Some (q1, r1)" "wrote ops minv ?j (?C i) q B q1 r1"
    using write_item_correct [OF Cons.prems(1) _ order_refl j(1), of cf] by blast
  show ?case
  proof (cases r1)
    case False
    then have "wrote ops minv k (concat (map ?C (i # is))) q B q1 False"
      using 1(2) wrote_less [OF wrote_mono [OF _ j(2)]] by simp
    then show ?thesis using 1(1) False by (intro exI [of _ q1] exI [of _ False]) simp
  next
    case True
    let ?P = "\<lambda>x n. foreign B (own (oc_begin_end q)) x n"
    have "\<exists>q2 r. write_items ops cf is q1 = Some (q2, r) \<and> wrote ops minv k (?C i @ concat (map ?C is)) q B q2 r"
    proof (rule wrote_then [OF _ j(2), where P = ?P])
      show "wrote ops minv ?j (?C i) q B q1 True" using 1(2) True by simp
    next
      fix B1
      assume b: "oc_inv minv q1 B1" "same_config q q1" "bk_cur_size (oc_current q1) \<le> ?j"
        "\<And>x n. ?P x n \<Longrightarrow> foreign B1 (own (oc_begin_end q1)) x n \<and> mem_read (oc_mem q1) x n = mem_read (oc_mem q) x n"
      have ok: "\<forall>i \<in> set is. item_ok B1 (own (oc_begin_end q1)) i"
        using Cons.prems(2) b(4) item_ok_mono [of B "own (oc_begin_end q)" B1 "own (oc_begin_end q1)"] by auto
      have "item_chunks (cf_platform cf) (write_swaps cf q1) (oc_mem q1) a = ?C a" if "a \<in> set is" for a
        using item_chunks_cong [of B "own (oc_begin_end q)" "oc_mem q1" "oc_mem q" a] b(2,4) Cons.prems(2) that
        by (simp add: write_swaps_def same_config_def)
      then have e: "map (item_chunks (cf_platform cf) (write_swaps cf q1) (oc_mem q1)) is = map ?C is" by simp
      have "bk_cur_size (oc_current q1) + sum_list (map item_cost is) \<le> k" using b(3) Cons.prems(3) by simp
      from Cons.IH [OF b(1) ok this Cons.prems(4)]
      show "\<exists>q2 r. write_items ops cf is q1 = Some (q2, r) \<and> wrote ops minv k (concat (map ?C is)) q1 B1 q2 r"
        unfolding e .
    qed
    then show ?thesis using 1(1) True by simp
  qed
qed

end

end
