(* ===== verification/ACE_CDR_Read.thy ===== *)
theory ACE_CDR_Read
  imports ACE_CDR_Write
begin

text \<open>
  The input stream reads back what a script of writes has laid out, in either byte order: every
  read finds its chunk behind the padding. No read goes past the write pointer.
\<close>

section \<open>Reading back single values\<close>

definition ic_rest :: "'m input_cdr \<Rightarrow> byte list" where
  "ic_rest q = mem_read (ic_mem q) (ic_rd_ptr q) (ic_length q)"

text \<open>The unread bytes lie in the block that starts at \<open>s\<close>.\<close>

definition ic_inv :: "('m \<Rightarrow> blocks \<Rightarrow> bool) \<Rightarrow> 'm input_cdr \<Rightarrow> blocks \<Rightarrow> addr \<Rightarrow> bool" where
  "ic_inv minv q B s \<longleftrightarrow> minv (ic_heap q) B \<and> bk_rd (ic_start q) \<le> bk_wr (ic_start q) \<and>
     (\<exists>al k. B s = Some (al, k) \<and> s \<le> ic_rd_ptr q \<and> ic_wr_ptr q \<le> s + k)"

lemma length_ic_rest [simp]: "length (ic_rest q) = ic_length q"
  by (simp add: ic_rest_def)

lemma load_native:
  assumes "mem_read m p n = native pf n x" "LENGTH('a) = 8 * n"
  shows "load pf n m p = (x :: 'a :: len word)"
  using assms word_of_bytes [of n x] by (simp add: load_def native_def)

lemma mem_read_here: "length bs = n \<Longrightarrow> mem_read (mem_write m p bs) p n = bs"
  using mem_read_write_same by blast

lemma read_wire:
  assumes "mem_read m buf n = wire pf sw n x" "LENGTH('a) = 8 * n" "n \<in> {2, 4, 8, 16}"
  shows "\<not> sw \<Longrightarrow> load pf n m buf = (x :: 'a :: len word)"
    "sw \<Longrightarrow> load pf n (mem_write l 0 (rev (mem_read m buf n))) 0 = (x :: 'a :: len word)"
  using assms by (auto simp: wire_def intro!: load_native mem_read_here)

lemma advance_simps [simp]:
  "ic_mem (ic_advance n q) = ic_mem q" "ic_heap (ic_advance n q) = ic_heap q" "ic_wr_ptr (ic_advance n q) = ic_wr_ptr q"
  "ic_rd_ptr (ic_advance n q) = ic_rd_ptr q + n" "ic_length (ic_advance n q) = ic_length q - n"
  "ic_do_byte_swap (ic_advance n q) = ic_do_byte_swap q" "ic_good_bit (ic_advance n q) = ic_good_bit q"
  by (simp_all add: ic_advance_def ic_wr_ptr_def ic_rd_ptr_def ic_length_def bk_wr_ptr_def bk_rd_ptr_def bk_length_def)

lemma rest_advance:
  assumes "ic_rest q = xs @ rest"
  shows "ic_rest (ic_advance (length xs) q) = rest" "mem_read (ic_mem q) (ic_rd_ptr q) (length xs) = xs" "length xs \<le> ic_length q"
proof -
  have l: "ic_length q = length xs + length rest" using arg_cong [OF assms, of length] by simp
  have "mem_read (ic_mem q) (ic_rd_ptr q) (length xs) @ mem_read (ic_mem q) (ic_rd_ptr q + length xs) (length rest) = xs @ rest"
    using assms l by (simp add: ic_rest_def mem_read_add)
  then show "ic_rest (ic_advance (length xs) q) = rest" "mem_read (ic_mem q) (ic_rd_ptr q) (length xs) = xs"
    using l by (simp_all add: ic_rest_def)
  show "length xs \<le> ic_length q" using l by simp
qed

lemma wr_ptr_length: "bk_rd (ic_start q) \<le> bk_wr (ic_start q) \<Longrightarrow> ic_wr_ptr q = ic_rd_ptr q + ic_length q"
  by (simp add: ic_wr_ptr_def ic_rd_ptr_def ic_length_def bk_wr_ptr_def bk_rd_ptr_def bk_length_def)

lemma ic_inv_advance:
  assumes "ic_inv minv q B s" "n \<le> ic_length q"
  shows "ic_inv minv (ic_advance n q) B s"
  using assms unfolding ic_inv_def by (auto simp: ic_length_def bk_length_def ic_advance_def ic_rd_ptr_def ic_wr_ptr_def bk_rd_ptr_def bk_wr_ptr_def)

lemma ptr_add_small: "p + n < 2 ^ 64 \<Longrightarrow> ptr_add p n = p + n"
  by (simp add: ptr_add_def)

section \<open>Scripts of reads\<close>

datatype cdr_value =
    V_octet byte | V_boolean bool | V_ushort "16 word" | V_ulong "32 word" | V_ulonglong "64 word" | V_longdouble "128 word"
  | V_bytes "byte list"

text \<open>The value of an item, where the caller's memory is \<open>m\<close>.\<close>

primrec item_value :: "memory \<Rightarrow> cdr_item \<Rightarrow> cdr_value" where
  "item_value m (C_octet x) = V_octet x"
| "item_value m (C_boolean x) = V_boolean x"
| "item_value m (C_ushort x) = V_ushort x"
| "item_value m (C_ulong x) = V_ulong x"
| "item_value m (C_ulonglong x) = V_ulonglong x"
| "item_value m (C_longdouble x) = V_longdouble x"
| "item_value m (C_string len x) = V_bytes (if len = 0 then [0] else mem_read m x (unat (len + 1)))"
| "item_value m (C_array sz al len x) = V_bytes (mem_read m x (sz * len))"

text \<open>Reading something of the kind of an item; an array goes to \<open>tgt\<close>.\<close>

primrec read_item :: "'m allocator_ops \<Rightarrow> cdr_config \<Rightarrow> addr \<Rightarrow> cdr_item \<Rightarrow> 'm input_cdr \<Rightarrow> 'm input_cdr \<times> cdr_value \<times> bool" where
  "read_item ops cf tgt (C_octet _) q = (let (q1, x, r) = read_1 0 q in (q1, V_octet x, r))"
| "read_item ops cf tgt (C_boolean _) q = (let (q1, x, r) = read_boolean q in (q1, V_boolean x, r))"
| "read_item ops cf tgt (C_ushort _) q = (let (q1, x, r) = read_2 cf 0 q in (q1, V_ushort x, r))"
| "read_item ops cf tgt (C_ulong _) q = (let (q1, x, r) = read_4 cf 0 q in (q1, V_ulong x, r))"
| "read_item ops cf tgt (C_ulonglong _) q = (let (q1, x, r) = read_8 cf 0 q in (q1, V_ulonglong x, r))"
| "read_item ops cf tgt (C_longdouble _) q = (let (q1, x, r) = read_16 cf 0 q in (q1, V_longdouble x, r))"
| "read_item ops cf tgt (C_string len _) q =
     (let (q1, p, r) = read_string ops cf tgt q in (q1, V_bytes (mem_read (ic_mem q1) p (unat (len + 1))), r))"
| "read_item ops cf tgt (C_array sz al len _) q =
     (let (q1, r) = read_typed_array cf tgt sz al len q in (q1, V_bytes (mem_read (ic_mem q1) tgt (sz * len)), r))"

primrec read_items ::
  "'m allocator_ops \<Rightarrow> cdr_config \<Rightarrow> (cdr_item \<times> addr) list \<Rightarrow> 'm input_cdr \<Rightarrow> 'm input_cdr \<times> cdr_value list \<times> bool" where
  "read_items ops cf [] q = (q, [], True)"
| "read_items ops cf (i # is) q =
     (case read_item ops cf (snd i) (fst i) q of
        (q1, v, r) \<Rightarrow> if r then let (q2, vs, r2) = read_items ops cf is q1 in (q2, v # vs, r2) else (q1, [v], False))"

text \<open>The place an array is read to is outside the block of the stream.\<close>

definition target_ok :: "blocks \<Rightarrow> addr set \<Rightarrow> cdr_item \<times> addr \<Rightarrow> bool" where
  "target_ok B Own it \<longleftrightarrow> (case it of (C_array sz al len x, tgt) \<Rightarrow> foreign B Own tgt (sz * len) | _ \<Rightarrow> True)"

text \<open>What a read that finds its chunk leaves: the rest of the stream and the invariant.\<close>

definition after_read ::
  "('m \<Rightarrow> blocks \<Rightarrow> bool) \<Rightarrow> 'm input_cdr \<Rightarrow> blocks \<Rightarrow> addr \<Rightarrow> nat \<Rightarrow> byte list \<Rightarrow> 'm input_cdr \<Rightarrow> bool" where
  "after_read minv q B s pos rest q' \<longleftrightarrow> (\<exists>B'. ic_inv minv q' B' s \<and> ic_rest q' = rest \<and>
     ic_rd_ptr q' mod 8 = pos mod 8 \<and> ic_do_byte_swap q' = ic_do_byte_swap q \<and> ic_good_bit q' = ic_good_bit q \<and>
     (\<forall>x n. foreign B {s} x n \<longrightarrow> foreign B' {s} x n))"

text \<open>A read of laid out chunks only fails when there is no memory for a string, which is no longer than the stream.\<close>

definition no_memory :: "'m allocator_ops \<Rightarrow> 'm input_cdr \<Rightarrow> bool" where
  "no_memory ops q \<longleftrightarrow> (\<exists>h n. n \<noteq> 0 \<and> unat n \<le> max 1 (ic_length q) \<and> al_malloc ops h (al_instance ops) n = (ic_heap q, NULL))"

text \<open>Items without the conditions on where they lie.\<close>

definition item_shape :: "cdr_item \<Rightarrow> bool" where
  "item_shape i \<longleftrightarrow> (case i of C_array sz al len x \<Rightarrow> sz \<in> {1, 2, 4, 8, 16} \<and> al \<in> alignments | _ \<Rightarrow> True)"

definition found ::
  "('m \<Rightarrow> blocks \<Rightarrow> bool) \<Rightarrow> 'm allocator_ops \<Rightarrow> chunk list \<Rightarrow> 'v \<Rightarrow> 'm input_cdr \<Rightarrow> blocks \<Rightarrow> addr \<Rightarrow>
   'm input_cdr \<times> 'v \<times> bool \<Rightarrow> bool" where
  "found minv ops cs v q B s res \<longleftrightarrow> (case res of (q', v', r) \<Rightarrow>
     if r then v' = v \<and> (\<exists>pos rest. laid pos cs rest \<and> after_read minv q B s pos rest q') else no_memory ops q')"

lemma foundI:
  "v' = v \<Longrightarrow> laid pos cs rest \<Longrightarrow> after_read minv q B s pos rest q' \<Longrightarrow> found minv ops cs v q B s (q', v', True)"
  by (auto simp: found_def)

lemma swaps_of_wire:
  assumes "mem_read m buf 2 = wire pf sw 2 b"
  shows "(if \<not> sw then load pf 2 m buf else load pf 2 (swap_2_from pf m (local_var pf 2 y) buf 0) 0) = (b :: 16 word)"
  using read_wire [OF assms] by (simp add: swap_2_mem)

lemma swaps_of_wire4:
  assumes "mem_read m buf 4 = wire pf sw 4 b"
  shows "(if \<not> sw then load pf 4 m buf else load pf 4 (swap_4_from pf m (local_var pf 4 y) buf 0) 0) = (b :: 32 word)"
  using read_wire [OF assms] by (simp add: swap_4_mem)

lemma swaps_of_wire8:
  assumes "mem_read m buf 8 = wire pf sw 8 b"
  shows "(if \<not> sw then load pf 8 m buf else load pf 8 (swap_8_from pf m (local_var pf 8 y) buf 0) 0) = (b :: 64 word)"
  using read_wire [OF assms] by (simp add: swap_8_mem)

lemma swaps_of_wire16:
  assumes "mem_read m buf 16 = wire pf sw 16 b"
  shows "(if \<not> sw then load pf 16 m buf else load pf 16 (swap_16_from pf m (local_var pf 16 y) buf 0) 0) = (b :: 128 word)"
  using read_wire [OF assms] by (simp add: swap_16_from_mem)

lemma pad_1 [simp]: "pad (Suc 0) p = 0" "pad 1 p = 0"
  using pad_less [of 1 p] by simp_all

lemma read_1_chunk:
  assumes "ic_inv minv q B s" "ic_rest q = a # rest"
  shows "read_1 x q = (ic_advance 1 q, a, True)"
proof -
  have r: "ic_rest q = [a] @ rest" using assms(2) by simp
  have "ic_rd_ptr q < ic_wr_ptr q"
    using rest_advance(3) [OF r] wr_ptr_length [of q] assms(1) by (simp add: ic_inv_def)
  moreover have "ic_mem q (ic_rd_ptr q) = a" using rest_advance(2) [OF r] by (simp add: mem_read_def)
  ultimately show ?thesis by (simp add: read_1_def)
qed

lemma array_wire_wire: "0 < sz \<Longrightarrow> length bs = sz * n \<Longrightarrow> array_wire sw sz (array_wire sw sz bs) = bs"
  using swapped_involution [of sz bs n] by (auto simp: array_wire_def)

lemma length_array_wire: "0 < sz \<Longrightarrow> length bs = sz * n \<Longrightarrow> length (array_wire sw sz bs) = sz * n"
  using length_swapped [of sz bs n] by (auto simp: array_wire_def)

context cdr_memory
begin

text \<open>\<open>adjust\<close> finds the next chunk.\<close>

lemma ic_adjust_chunk:
  assumes I: "ic_inv minv q B s" and al: "al \<in> alignments" and r: "ic_rest q = pd @ bs @ rest"
    and p: "length pd = pad al pos" "ic_rd_ptr q mod 8 = pos mod 8"
  defines "q' \<equiv> ic_advance (length pd + length bs) q"
  shows "ic_adjust (length bs) al q = (q', Some (ic_rd_ptr q + length pd))"
    "mem_read (ic_mem q) (ic_rd_ptr q + length pd) (length bs) = bs"
    "ic_rest q' = rest" "ic_inv minv q' B s" "ic_rd_ptr q' mod 8 = (pos + pad al pos + length bs) mod 8"
proof -
  have a: "al dvd 8" "0 < al" "al \<le> 8" using alignments_dvd [OF al] by auto
  have n: "ic_rest q = (pd @ bs) @ rest" using r by simp
  note R = rest_advance [OF n] rest_advance [OF r]
  obtain al' k where b: "minv (ic_heap q) B" "B s = Some (al', k)" "ic_wr_ptr q \<le> s + k" "bk_rd (ic_start q) \<le> bk_wr (ic_start q)"
    using I by (auto simp: ic_inv_def)
  have w: "ic_wr_ptr q \<le> 2 ^ 63" using address_space [OF b(1,2)] b(3) by simp
  have wr: "ic_wr_ptr q = ic_rd_ptr q + ic_length q" using b(4) by (rule wr_ptr_length)
  have pp: "pad al (ic_rd_ptr q) = length pd" using pad_mod [OF a(1,2) p(2)] p(1) by simp
  have "ic_rd_ptr q + al \<le> 2 ^ 64" using w wr a(3) by simp
  then have buf: "ACE_ptr_align_binary (ic_rd_ptr q) al = ic_rd_ptr q + length pd"
    using ACE_ptr_align_binary_eq [OF al] align_up_pad [OF a(2)] pp by simp
  have e: "ptr_add (ic_rd_ptr q + length pd) (length bs) = ic_rd_ptr q + (length pd + length bs)"
    using ptr_add_small [of "ic_rd_ptr q + length pd" "length bs"] w wr R(3) by simp
  have "q\<lparr>ic_start := (ic_start q)\<lparr>bk_rd := ic_rd_ptr q + (length pd + length bs) - bk_base (ic_start q)\<rparr>\<rparr> = q'"
    by (simp add: q'_def ic_advance_def ic_rd_ptr_def bk_rd_ptr_def)
  then show "ic_adjust (length bs) al q = (q', Some (ic_rd_ptr q + length pd))"
    using buf e wr R(3) by (simp add: ic_adjust_def)
  show "mem_read (ic_mem q) (ic_rd_ptr q + length pd) (length bs) = bs"
    using R(2) R(5) by (simp add: mem_read_add)
  show "ic_rest q' = rest" using R(1) by (simp add: q'_def)
  show "ic_inv minv q' B s" unfolding q'_def using I R(3) by (intro ic_inv_advance) simp_all
  have "ic_rd_ptr q' mod 8 = (ic_rd_ptr q + (length pd + length bs)) mod 8" by (simp add: q'_def)
  also have "\<dots> = (pos + (length pd + length bs)) mod 8" using p(2) by (rule mod_add_cong) simp
  finally show "ic_rd_ptr q' mod 8 = (pos + pad al pos + length bs) mod 8" using p(1) by (simp add: add.assoc)
qed

lemma after_adjust:
  assumes "ic_inv minv q B s" "al \<in> alignments" "ic_rest q = pd @ bs @ rest" "length pd = pad al pos" "ic_rd_ptr q mod 8 = pos mod 8"
  shows "after_read minv q B s (pos + pad al pos + length bs) rest (ic_advance (length pd + length bs) q)"
  using ic_adjust_chunk [OF assms] unfolding after_read_def by (intro exI [of _ B]) simp

text \<open>The scalars, read in the order in which they were written.\<close>

lemma read_scalars:
  assumes I: "ic_inv minv q B s" and p: "length pd = pad al pos" "ic_rd_ptr q mod 8 = pos mod 8"
    and sw: "read_swaps cf q = sw"
  shows "al = 1 \<Longrightarrow> ic_rest q = pd @ [a] @ rest \<Longrightarrow>
      \<exists>q'. read_1 0 q = (q', a, True) \<and> after_read minv q B s (pos + pad al pos + 1) rest q'"
    "al = 2 \<Longrightarrow> ic_rest q = pd @ wire (cf_platform cf) sw 2 b @ rest \<Longrightarrow>
      \<exists>q'. read_2 cf 0 q = (q', b, True) \<and> after_read minv q B s (pos + pad al pos + 2) rest q'"
    "al = 4 \<Longrightarrow> ic_rest q = pd @ wire (cf_platform cf) sw 4 c @ rest \<Longrightarrow>
      \<exists>q'. read_4 cf 0 q = (q', c, True) \<and> after_read minv q B s (pos + pad al pos + 4) rest q'"
    "al = 8 \<Longrightarrow> ic_rest q = pd @ wire (cf_platform cf) sw 8 d @ rest \<Longrightarrow>
      \<exists>q'. read_8 cf 0 q = (q', d, True) \<and> after_read minv q B s (pos + pad al pos + 8) rest q'"
    "al = 8 \<Longrightarrow> ic_rest q = pd @ wire (cf_platform cf) sw 16 e @ rest \<Longrightarrow>
      \<exists>q'. read_16 cf 0 q = (q', e, True) \<and> after_read minv q B s (pos + pad al pos + 16) rest q'"
proof -
  have al: "1 \<in> alignments" "2 \<in> alignments" "4 \<in> alignments" "8 \<in> alignments" by (simp_all add: alignments_def)
  show "\<exists>q'. read_1 0 q = (q', a, True) \<and> after_read minv q B s (pos + pad al pos + 1) rest q'"
    if "al = 1" "ic_rest q = pd @ [a] @ rest"
    using after_adjust [OF I al(1), of pd "[a]"] read_1_chunk [OF I, of a rest 0] that p by simp
  show "\<exists>q'. read_2 cf 0 q = (q', b, True) \<and> after_read minv q B s (pos + pad al pos + 2) rest q'"
    if "al = 2" "ic_rest q = pd @ wire (cf_platform cf) sw 2 b @ rest"
    using that p ic_adjust_chunk [OF I al(2) that(2)] after_adjust [OF I al(2) that(2)] sw
    by (simp add: read_2_def Let_def swaps_of_wire)
  show "\<exists>q'. read_4 cf 0 q = (q', c, True) \<and> after_read minv q B s (pos + pad al pos + 4) rest q'"
    if "al = 4" "ic_rest q = pd @ wire (cf_platform cf) sw 4 c @ rest"
    using that p ic_adjust_chunk [OF I al(3) that(2)] after_adjust [OF I al(3) that(2)] sw
    by (simp add: read_4_def Let_def swaps_of_wire4)
  show "\<exists>q'. read_8 cf 0 q = (q', d, True) \<and> after_read minv q B s (pos + pad al pos + 8) rest q'"
    if "al = 8" "ic_rest q = pd @ wire (cf_platform cf) sw 8 d @ rest"
    using that p ic_adjust_chunk [OF I al(4) that(2)] after_adjust [OF I al(4) that(2)] sw
    by (simp add: read_8_def Let_def swaps_of_wire8)
  show "\<exists>q'. read_16 cf 0 q = (q', e, True) \<and> after_read minv q B s (pos + pad al pos + 16) rest q'"
    if "al = 8" "ic_rest q = pd @ wire (cf_platform cf) sw 16 e @ rest"
    using that p ic_adjust_chunk [OF I al(4) that(2)] after_adjust [OF I al(4) that(2)] sw
    by (simp add: read_16_def Let_def swaps_of_wire16)
qed

lemma rest_foreign_write:
  assumes I: "ic_inv minv q B s" and f: "foreign B {s} p (length bs)"
  shows "ic_rest (q\<lparr>ic_mem := mem_write (ic_mem q) p bs\<rparr>) = ic_rest q"
    "separate (ic_rd_ptr q) (ic_length q) p (length bs)"
proof -
  obtain al k where b: "minv (ic_heap q) B" "B s = Some (al, k)" "s \<le> ic_rd_ptr q" "ic_wr_ptr q \<le> s + k"
    "bk_rd (ic_start q) \<le> bk_wr (ic_start q)"
    using I by (auto simp: ic_inv_def)
  have "separate p (length bs) (ic_rd_ptr q) (ic_length q)"
    using b(3,4) wr_ptr_length [OF b(5)] by (intro free_part_foreign [OF b(1,2) _ f]) simp_all
  then show "separate (ic_rd_ptr q) (ic_length q) p (length bs)" by (auto simp: separate_def)
  then show "ic_rest (q\<lparr>ic_mem := mem_write (ic_mem q) p bs\<rparr>) = ic_rest q"
    by (simp add: ic_rest_def mem_read_write_separate ic_rd_ptr_def ic_length_def)
qed

lemma ic_inv_mem [simp]: "ic_inv minv (q\<lparr>ic_mem := m\<rparr>) B s = ic_inv minv q B s"
  by (simp add: ic_inv_def ic_rd_ptr_def ic_wr_ptr_def)

lemma after_read_trans:
  assumes "after_read minv q B s pos rest q1"
    and "\<And>B1. ic_inv minv q1 B1 s \<Longrightarrow> ic_rest q1 = rest \<Longrightarrow> ic_rd_ptr q1 mod 8 = pos mod 8 \<Longrightarrow>
      (\<And>x n. foreign B {s} x n \<Longrightarrow> foreign B1 {s} x n) \<Longrightarrow> after_read minv q1 B1 s pos' rest' q2"
  shows "after_read minv q B s pos' rest' q2"
proof -
  obtain B1 where 1: "ic_inv minv q1 B1 s" "ic_rest q1 = rest" "ic_rd_ptr q1 mod 8 = pos mod 8"
    "ic_do_byte_swap q1 = ic_do_byte_swap q" "ic_good_bit q1 = ic_good_bit q"
    "\<forall>x n. foreign B {s} x n \<longrightarrow> foreign B1 {s} x n"
    using assms(1) unfolding after_read_def by blast
  then have "after_read minv q1 B1 s pos' rest' q2" using assms(2) by blast
  then show ?thesis using 1(4-6) unfolding after_read_def by metis
qed

lemma after_read_write:
  assumes "after_read minv q B s pos rest q1" "foreign B {s} p (length bs)"
  shows "after_read minv q B s pos rest (q1\<lparr>ic_mem := mem_write (ic_mem q1) p bs\<rparr>)"
proof (rule after_read_trans [OF assms(1)])
  fix B1
  assume 1: "ic_inv minv q1 B1 s" "ic_rest q1 = rest" "ic_rd_ptr q1 mod 8 = pos mod 8"
    "\<And>x n. foreign B {s} x n \<Longrightarrow> foreign B1 {s} x n"
  have "ic_rest (q1\<lparr>ic_mem := mem_write (ic_mem q1) p bs\<rparr>) = rest"
    using rest_foreign_write(1) [OF 1(1)] 1(2,4) assms(2) by simp
  then show "after_read minv q1 B1 s pos rest (q1\<lparr>ic_mem := mem_write (ic_mem q1) p bs\<rparr>)"
    unfolding after_read_def using 1(1,3) by (intro exI [of _ B1]) (simp add: ic_rd_ptr_def)
qed

lemma read_array_chunk:
  assumes I: "ic_inv minv q B s" and sz: "sz \<in> {1, 2, 4, 8, 16}" and al: "al \<in> alignments" and len: "0 < len" "length bs = sz * len"
    and r: "ic_rest q = pd @ array_wire (read_swaps cf q) sz bs @ rest" and p: "length pd = pad al pos" "ic_rd_ptr q mod 8 = pos mod 8"
    and g: "ic_good_bit q" and t: "foreign B {s} tgt (sz * len)"
  shows "\<exists>q'. read_typed_array cf tgt sz al len q = (q', True) \<and> mem_read (ic_mem q') tgt (sz * len) = bs \<and>
    after_read minv q B s (pos + pad al pos + sz * len) rest q'"
proof -
  let ?sw = "read_swaps cf q" and ?n = "sz * len"
  let ?w = "array_wire ?sw sz bs"
  let ?q = "ic_advance (length pd + ?n) q" and ?buf = "ic_rd_ptr q + length pd"
  have s0: "0 < sz" using sz by auto
  have lw: "length ?w = ?n" using length_array_wire [OF s0 len(2)] .
  note A = ic_adjust_chunk [OF I al r p, unfolded lw] and F = after_adjust [OF I al r p, unfolded lw]
  have l: "?n \<le> ic_length q" using arg_cong [OF r, of length] lw by simp
  have sep: "separate ?buf ?n tgt ?n"
  proof -
    have "separate (ic_rd_ptr q) (ic_length q) tgt ?n" using rest_foreign_write(2) [OF I, of tgt bs] t len(2) by simp
    then show ?thesis using separate_sub [of "ic_rd_ptr q" "ic_length q" tgt ?n "length pd" ?n 0 ?n] arg_cong [OF r, of length] lw by simp
  qed
  let ?q' = "?q\<lparr>ic_mem := mem_write (ic_mem q) tgt bs\<rparr>"
  have "read_array cf tgt sz al len q = (?q', True)"
  proof (cases "\<not> ?sw \<or> sz = 1")
    case True
    then have "?w = bs" by (auto simp: array_wire_def)
    then show ?thesis using A(1,2) True g len(1) by (simp add: read_array_def)
  next
    case False
    then have w: "?w = swapped sz bs" "sz \<in> {2, 4, 8, 16}" using sz by (auto simp: array_wire_def)
    have "swapped sz (mem_read (ic_mem q) ?buf ?n) = bs"
      using A(2) w(1) swapped_involution [OF s0 len(2)] by simp
    then show ?thesis
      using A(1) False g len(1) swap_array_correct [OF w(2) len(1) sep, of "cf_platform cf" "ic_mem q"]
      by (simp add: read_array_def)
  qed
  then have "read_typed_array cf tgt sz al len q = (?q', True)" using l by (simp add: read_typed_array_def mult.commute)
  moreover have "mem_read (ic_mem ?q') tgt ?n = bs" using mem_read_here [OF len(2)] by simp
  moreover have "after_read minv q B s (pos + pad al pos + ?n) rest ?q'"
    using after_read_write [OF F, of tgt bs] t len(2) by simp
  ultimately show ?thesis by blast
qed

text \<open>
  A string: its length, then its bytes. The array for it comes from the allocator, so it is outside the
  block of the stream.
\<close>

lemma read_string_chunks:
  fixes n :: "32 word"
  assumes I: "ic_inv minv q B s"
    and r: "laid pos ((4, wire (cf_platform cf) (read_swaps cf q) 4 n) # (1, bs) # cs) (ic_rest q)"
    and p: "ic_rd_ptr q mod 8 = pos mod 8" and g: "ic_good_bit q" and n: "length bs = unat n"
  shows "found minv ops cs bs q B s
    (let (q1, p, r) = read_string ops cf x q in (q1, mem_read (ic_mem q1) p (unat n), r))"
proof -
  from r obtain pd rest where l: "ic_rest q = pd @ wire (cf_platform cf) (read_swaps cf q) 4 n @ rest" "length pd = pad 4 pos"
    "laid (pos + pad 4 pos + 4) ((1, bs) # cs) rest" by auto
  obtain q1 where q1: "read_4 cf 0 q = (q1, n, True)" "after_read minv q B s (pos + pad 4 pos + 4) rest q1"
    using read_scalars(3) [OF I l(2) p refl refl l(1)] by blast
  define pos1 where "pos1 = pos + pad 4 pos + 4"
  obtain rest1 where l1: "rest = bs @ rest1" "laid (pos1 + unat n) cs rest1"
    using l(3) n by (auto simp: pos1_def)
  obtain B1 where B1: "ic_inv minv q1 B1 s" "ic_rest q1 = rest" "ic_rd_ptr q1 mod 8 = pos1 mod 8"
    "ic_do_byte_swap q1 = ic_do_byte_swap q" "ic_good_bit q1" "\<forall>x n. foreign B {s} x n \<longrightarrow> foreign B1 {s} x n"
    using q1(2) g unfolding after_read_def pos1_def by blast
  have inv1: "minv (ic_heap q1) B1" using B1(1) by (simp add: ic_inv_def)
  have le: "unat n \<le> ic_length q1" using arg_cong [OF B1(2), of length] l1(1) n by simp
  define sz :: "64 word" where "sz = (if n = 0 then 1 else of_nat (unat n))"
  have n32: "unat n < 2 ^ LENGTH(32)" by (rule unsigned_less)
  have "unat (of_nat j :: 64 word) = j" if "j < 2 ^ LENGTH(32)" for j
    using that by (simp add: unat_of_nat)
  note u = this [OF n32]
  have sz: "0 < unat sz" "unat sz < 2 ^ 63" "n \<noteq> 0 \<Longrightarrow> unat sz = unat n"
    using unat_gt_0 [of n] n32 u by (auto simp: sz_def)
  obtain h p where al: "al_malloc ops (ic_heap q1) (al_instance ops) sz = (h, p)" by fastforce
  let ?q2 = "q1\<lparr>ic_heap := h\<rparr>"
  show ?thesis
  proof (cases "p = NULL")
    case True
    have "sz \<noteq> 0" using sz(1) by auto
    moreover have "unat sz \<le> max 1 (ic_length q1)" using le sz(3) by (cases "n = 0") (simp_all add: sz_def)
    ultimately have "no_memory ops ?q2"
      using al True unfolding no_memory_def by (intro exI [of _ "ic_heap q1"] exI [of _ sz]) (simp add: ic_length_def)
    moreover have "read_string ops cf x q = (?q2, NULL, False)"
      using q1(1) le al True by (cases "n = 0") (simp_all add: read_string_def sz_def word_gt_0)
    ultimately show ?thesis by (simp add: found_def)
  next
    case False
    let ?B2 = "B1(p \<mapsto> (al_instance ops, unat sz))"
    have new: "minv h ?B2" "B1 p = None"
      using malloc [OF inv1 sz(1,2) al False] malloc_fresh [OF inv1 sz(1,2) al False] by simp_all
    have sp: "s \<noteq> p" using B1(1) new(2) by (auto simp: ic_inv_def)
    have I2: "ic_inv minv ?q2 ?B2 s"
      using B1(1) new sp by (auto simp: ic_inv_def ic_rd_ptr_def ic_wr_ptr_def)
    have f2: "foreign ?B2 {s} y k" if "foreign B {s} y k" for y k
    proof -
      have "foreign B1 {s} y k" using B1(6) that by blast
      then show ?thesis using new(2) sp unfolding foreign_def by (metis fun_upd_apply option.distinct(1))
    qed
    have tgt: "foreign ?B2 {s} p (unat sz)" using sp by (auto simp: foreign_def)
    have rest2: "ic_rest ?q2 = rest" "ic_rd_ptr ?q2 mod 8 = pos1 mod 8" "ic_good_bit ?q2" "read_swaps cf ?q2 = read_swaps cf q"
      using B1(2-5) by (simp_all add: ic_rest_def ic_rd_ptr_def ic_length_def read_swaps_def)
    have later: "after_read minv q B s i xs q3" if "after_read minv ?q2 ?B2 s i xs q3" for i xs q3
      using that B1(4,5) g f2 unfolding after_read_def by (auto simp: ic_rd_ptr_def)
    show ?thesis
    proof (cases "n = 0")
      case True
      let ?q3 = "?q2\<lparr>ic_mem := mem_write (ic_mem ?q2) p [0]\<rparr>"
      have "read_string ops cf x q = (?q3, p, True)"
        using q1(1) al False True by (simp add: read_string_def sz_def)
      moreover have "after_read minv ?q2 ?B2 s pos1 rest ?q3"
      proof (rule after_read_write)
        show "after_read minv ?q2 ?B2 s pos1 rest ?q2" using I2 rest2 unfolding after_read_def by blast
        show "foreign ?B2 {s} p (length [0 :: byte])" using tgt True by (simp add: sz_def)
      qed
      ultimately show ?thesis
        using later l1 n True by (auto intro!: foundI [of _ _ pos1 _ rest])
    next
      case n0: False
      have len: "0 < unat n" "length bs = 1 * unat n" using n0 n by (simp_all add: unat_gt_0)
      have "ic_rest ?q2 = [] @ array_wire (read_swaps cf ?q2) 1 bs @ rest1"
        using rest2(1) l1(1) by (simp add: array_wire_def)
      from read_array_chunk [OF I2 _ _ len this _ rest2(2,3), of 1 p] tgt sz(3) [OF n0]
      obtain q3 where q3: "read_typed_array cf p 1 1 (unat n) ?q2 = (q3, True)" "mem_read (ic_mem q3) p (unat n) = bs"
        "after_read minv ?q2 ?B2 s (pos1 + unat n) rest1 q3" by (auto simp: alignments_def)
      have "read_string ops cf x q = (q3, p, True)"
        using q1(1) le al False n0 q3(1) by (simp add: read_string_def sz_def word_gt_0)
      then show ?thesis using q3(2) later [OF q3(3)] l1(2) by (auto intro!: foundI)
    qed
  qed
qed

lemma read_item_correct:
  assumes I: "ic_inv minv q B s" and sh: "item_shape i" and t: "target_ok B {s} (i, tgt)"
    and r: "laid pos (item_chunks (cf_platform cf) (read_swaps cf q) m i @ cs) (ic_rest q)"
    and p: "ic_rd_ptr q mod 8 = pos mod 8" and g: "ic_good_bit q"
  shows "found minv ops cs (item_value m i) q B s (read_item ops cf tgt i q)"
proof -
  note R = read_scalars [OF I _ p refl]
  show ?thesis
  proof (cases i)
    case (C_octet a)
    then obtain rest where l: "ic_rest q = [] @ [a] @ rest" "laid (pos + 1) cs rest" using r by auto
    obtain q1 where "read_1 0 q = (q1, a, True)" "after_read minv q B s (pos + pad 1 pos + 1) rest q1"
      using R(1) [of "[]", OF _ refl l(1)] by auto
    then show ?thesis using C_octet l(2) by (auto intro!: foundI)
  next
    case (C_boolean a)
    let ?a = "if a then 1 else 0 :: byte"
    obtain rest where l: "ic_rest q = [] @ [?a] @ rest" "laid (pos + 1) cs rest" using r C_boolean by auto
    obtain q1 where q1: "read_1 0 q = (q1, ?a, True)" "after_read minv q B s (pos + pad 1 pos + 1) rest q1"
      using R(1) [of "[]", OF _ refl l(1)] by auto
    moreover have "ic_good_bit q1" using q1(2) g by (auto simp: after_read_def)
    ultimately show ?thesis using C_boolean l(2) by (auto simp: read_boolean_def intro!: foundI)
  next
    case (C_ushort b)
    then obtain pd rest where l: "ic_rest q = pd @ wire (cf_platform cf) (read_swaps cf q) 2 b @ rest" "length pd = pad 2 pos"
      "laid (pos + pad 2 pos + 2) cs rest" using r by auto
    show ?thesis using R(2) [OF l(2) refl l(1)] l(3) C_ushort by (auto intro!: foundI)
  next
    case (C_ulong b)
    then obtain pd rest where l: "ic_rest q = pd @ wire (cf_platform cf) (read_swaps cf q) 4 b @ rest" "length pd = pad 4 pos"
      "laid (pos + pad 4 pos + 4) cs rest" using r by auto
    show ?thesis using R(3) [OF l(2) refl l(1)] l(3) C_ulong by (auto intro!: foundI)
  next
    case (C_ulonglong b)
    then obtain pd rest where l: "ic_rest q = pd @ wire (cf_platform cf) (read_swaps cf q) 8 b @ rest" "length pd = pad 8 pos"
      "laid (pos + pad 8 pos + 8) cs rest" using r by auto
    show ?thesis using R(4) [OF l(2) refl l(1)] l(3) C_ulonglong by (auto intro!: foundI)
  next
    case (C_longdouble b)
    then obtain pd rest where l: "ic_rest q = pd @ wire (cf_platform cf) (read_swaps cf q) 16 b @ rest" "length pd = pad 8 pos"
      "laid (pos + pad 8 pos + 16) cs rest" using r by auto
    show ?thesis using R(5) [OF l(2) refl l(1)] l(3) C_longdouble by (auto intro!: foundI)
  next
    case (C_string len x)
    let ?bs = "if len = 0 then [0] else mem_read m x (unat (len + 1))"
    have "found minv ops cs ?bs q B s
        (let (q1, p, r) = read_string ops cf tgt q in (q1, mem_read (ic_mem q1) p (unat (len + 1)), r))"
      using r C_string by (intro read_string_chunks [OF I _ p g]) simp_all
    then show ?thesis using C_string by (auto simp: found_def split: prod.splits if_splits)
  next
    case (C_array sz al len x)
    have s: "sz \<in> {1, 2, 4, 8, 16}" "al \<in> alignments" "foreign B {s} tgt (sz * len)"
      using sh t C_array by (simp_all add: item_shape_def target_ok_def)
    show ?thesis
    proof (cases "len = 0")
      case True
      have "after_read minv q B s pos (ic_rest q) q" using I p unfolding after_read_def by auto
      then show ?thesis using r C_array True
        by (auto simp: read_typed_array_def read_array_def intro!: foundI)
    next
      case False
      let ?bs = "mem_read m x (sz * len)"
      have "0 < sz" using s(1) by auto
      then have lw: "length (array_wire (read_swaps cf q) sz ?bs) = sz * len" by (rule length_array_wire) simp
      then obtain pd rest where l: "ic_rest q = pd @ array_wire (read_swaps cf q) sz ?bs @ rest" "length pd = pad al pos"
        "laid (pos + pad al pos + sz * len) cs rest" using r C_array False by auto
      have "0 < len" "length ?bs = sz * len" using False by simp_all
      from read_array_chunk [OF I s(1,2) this l(1,2) p g s(3)] show ?thesis
        using C_array l(3) by (auto intro!: foundI)
    qed
  qed
qed

lemma read_items_correct:
  assumes "ic_inv minv q B s" "\<forall>it \<in> set its. item_shape (fst it) \<and> target_ok B {s} it"
    and "laid pos (concat (map (\<lambda>it. item_chunks (cf_platform cf) (read_swaps cf q) (M (fst it)) (fst it)) its) @ cs) (ic_rest q)"
    and "ic_rd_ptr q mod 8 = pos mod 8" "ic_good_bit q"
  shows "found minv ops cs (map (\<lambda>it. item_value (M (fst it)) (fst it)) its) q B s (read_items ops cf its q)"
  using assms
proof (induction its arbitrary: q B pos)
  case Nil
  then have "after_read minv q B s pos (ic_rest q) q" unfolding after_read_def by auto
  then show ?case using Nil by (auto intro!: foundI)
next
  case (Cons it its)
  let ?ds = "concat (map (\<lambda>it. item_chunks (cf_platform cf) (read_swaps cf q) (M (fst it)) (fst it)) its) @ cs"
  obtain q1 v r where 1: "read_item ops cf (snd it) (fst it) q = (q1, v, r)" by (metis prod_cases3)
  have F: "found minv ops ?ds (item_value (M (fst it)) (fst it)) q B s (q1, v, r)"
    using read_item_correct [OF Cons.prems(1), of "fst it" "snd it" pos cf "M (fst it)" ?ds] Cons.prems(2-5) 1 by simp
  show ?case
  proof (cases r)
    case False
    then show ?thesis using F 1 by (simp add: found_def)
  next
    case True
    then obtain pos1 rest where v: "v = item_value (M (fst it)) (fst it)" "laid pos1 ?ds rest" "after_read minv q B s pos1 rest q1"
      using F by (auto simp: found_def)
    then obtain B1 where B1: "ic_inv minv q1 B1 s" "ic_rest q1 = rest" "ic_rd_ptr q1 mod 8 = pos1 mod 8"
      "ic_do_byte_swap q1 = ic_do_byte_swap q" "ic_good_bit q1 = ic_good_bit q" "\<forall>x n. foreign B {s} x n \<longrightarrow> foreign B1 {s} x n"
      unfolding after_read_def by blast
    have sw: "read_swaps cf q1 = read_swaps cf q" using B1(4) by (simp add: read_swaps_def)
    have "\<forall>it \<in> set its. item_shape (fst it) \<and> target_ok B1 {s} it"
      using Cons.prems(2) B1(6) by (auto simp: target_ok_def split: cdr_item.splits)
    then have IH: "found minv ops cs (map (\<lambda>it. item_value (M (fst it)) (fst it)) its) q1 B1 s (read_items ops cf its q1)"
      using Cons.IH [OF B1(1)] v(2) B1(2,3,5) Cons.prems(5) sw by simp
    obtain q2 vs r2 where 2: "read_items ops cf its q1 = (q2, vs, r2)" by (metis prod_cases3)
    have "after_read minv q B s pos2 rest2 q2" if "after_read minv q1 B1 s pos2 rest2 q2" for pos2 rest2
      using that B1(4-6) unfolding after_read_def by metis
    then show ?thesis using 1 2 IH True v(1) by (cases r2) (auto simp: found_def)
  qed
qed

end

end
