(* ===== verification/ACE_CDR_Copy.thy ===== *)
theory ACE_CDR_Copy
  imports ACE_CDR_Read
begin

text \<open>
  Copying the blocks of an output stream: into the block of an input stream, and with \<open>consolidate\<close>
  into the first block of the chain itself. Both keep the contents.
\<close>

lemma copy_chain_correct:
  assumes "\<forall>b \<in> set bs. separate (bk_rd_ptr b) (bk_length b) (bk_wr_ptr dst) (total_length bs)"
    and "total_length bs \<le> bk_space dst" "bk_wr dst \<le> bk_cur_size dst"
  shows "copy_chain bs (m, dst) =
    (mem_write m (bk_wr_ptr dst) (mem_contents m bs), dst\<lparr>bk_wr := bk_wr dst + total_length bs\<rparr>)"
  using assms
proof (induction bs arbitrary: m dst)
  case Nil
  then show ?case by (simp add: mem_contents_def total_length_def)
next
  case (Cons b bs)
  let ?n = "bk_length b" and ?w = "mem_read m (bk_rd_ptr b) (bk_length b)"
  let ?m = "mem_write m (bk_wr_ptr dst) ?w" and ?d = "dst\<lparr>bk_wr := bk_wr dst + ?n\<rparr>"
  have t: "total_length (b # bs) = ?n + total_length bs" by (simp add: total_length_def)
  have sp: "bk_space dst = bk_cur_size dst - bk_wr dst" using Cons.prems(3) by (simp add: bk_space_def bk_mark_def bk_wr_ptr_def)
  have d: "bk_wr_ptr ?d = bk_wr_ptr dst + ?n" "bk_space ?d = bk_space dst - ?n" "bk_cur_size ?d = bk_cur_size dst"
    using Cons.prems(2,3) t sp by (simp_all add: bk_wr_ptr_def bk_space_def bk_mark_def)
  have sep: "separate (bk_rd_ptr c) (bk_length c) (bk_wr_ptr dst + i) j" if "c \<in> set (b # bs)" "i + j \<le> ?n + total_length bs" for c i j
    using bspec [OF Cons.prems(1) that(1)] that(2)
      separate_sub [of "bk_rd_ptr c" "bk_length c" "bk_wr_ptr dst" "total_length (b # bs)" 0 "bk_length c" i j] by (simp add: t)
  have "copy_chain (b # bs) (m, dst) = copy_chain bs (?m, ?d)"
    using Cons.prems(2) by (simp add: bk_copy_def t)
  also have "\<dots> = (mem_write ?m (bk_wr_ptr ?d) (mem_contents ?m bs), ?d\<lparr>bk_wr := bk_wr ?d + total_length bs\<rparr>)"
  proof (rule Cons.IH)
    show "\<forall>c \<in> set bs. separate (bk_rd_ptr c) (bk_length c) (bk_wr_ptr ?d) (total_length bs)"
      using sep [of _ ?n "total_length bs"] by (simp add: d)
    show "total_length bs \<le> bk_space ?d" "bk_wr ?d \<le> bk_cur_size ?d" using Cons.prems(2,3) sp by (simp_all add: d t)
  qed
  also have "mem_contents ?m bs = mem_contents m bs"
    using sep [of _ 0 ?n] by (auto simp: mem_contents_def mem_read_write_separate intro!: arg_cong [of _ _ concat])
  also have "mem_write ?m (bk_wr_ptr ?d) (mem_contents m bs) = mem_write m (bk_wr_ptr dst) (mem_contents m (b # bs))"
    using mem_write_write [of m "bk_wr_ptr dst" ?w "mem_contents m bs"] d(1) by (simp add: mem_contents_def)
  finally show ?case using t by simp
qed

lemma mb_align_correct:
  assumes "bk_base b + 8 \<le> 2 ^ 64"
  shows "bk_rd_ptr (mb_align b) = align_up 8 (bk_base b)" "bk_wr (mb_align b) = bk_rd (mb_align b)" "bk_rd (mb_align b) < 8"
    "bk_rd_ptr (mb_align b) mod 8 = 0"
proof -
  have a: "ACE_ptr_align_binary (bk_base b) MAX_ALIGNMENT = align_up 8 (bk_base b)"
    using ACE_ptr_align_binary_eq [of 8] assms by (simp add: MAX_ALIGNMENT_def alignments_def)
  note U = align_upD [of 8 "bk_base b"]
  show r: "bk_rd_ptr (mb_align b) = align_up 8 (bk_base b)" "bk_wr (mb_align b) = bk_rd (mb_align b)"
    using U(1) by (simp_all add: mb_align_def Let_def bk_rd_ptr_def a)
  show "bk_rd (mb_align b) < 8" using U(1,2) by (simp add: mb_align_def Let_def a)
  show "bk_rd_ptr (mb_align b) mod 8 = 0" unfolding r(1) using U(3) by (simp add: mod_eq_0_iff_dvd)
qed

lemma mb_align_fields [simp]:
  "bk_base (mb_align b) = bk_base b" "bk_max_size (mb_align b) = bk_max_size b" "bk_cur_size (mb_align b) = bk_cur_size b"
  "bk_dont_delete (mb_align b) = bk_dont_delete b" "bk_allocator (mb_align b) = bk_allocator b"
  by (simp_all add: mb_align_def Let_def)

context cdr_memory
begin

lemma new_block_cases:
  assumes "minv heap B" "0 < unat sz" "unat sz < 2 ^ 62"
  obtains (none) h where "new_block ops al sz heap = (h, None)" "minv h B"
  | (some) h b where "new_block ops al sz heap = (h, Some b)" "minv h (B(bk_base b \<mapsto> (al, unat sz)))" "B (bk_base b) = None"
      "bk_max_size b = unat sz" "bk_cur_size b = unat sz" "bk_rd b = 0" "bk_wr b = 0" "\<not> bk_dont_delete b" "bk_allocator b = al"
      "bk_base b + unat sz \<le> 2 ^ 63"
proof -
  obtain h p where a: "al_malloc ops heap al sz = (h, p)" by fastforce
  have s: "unat sz < 2 ^ 63" using assms(3) by simp
  show ?thesis
  proof (cases "p = NULL")
    case True
    then show ?thesis using none [of h] malloc_fails [OF assms(1)] a by (simp add: new_block_def)
  next
    case False
    let ?b = "\<lparr>bk_base = p, bk_max_size = unat sz, bk_cur_size = unat sz, bk_rd = 0, bk_wr = 0, bk_dont_delete = False, bk_allocator = al\<rparr>"
    have m: "minv h (B(p \<mapsto> (al, unat sz)))" using malloc [OF assms(1,2) s a False] by simp
    show ?thesis
      using some [of h ?b] a False m malloc_fresh [OF assms(1,2) s a False] address_space [OF m, of p]
      by (simp add: new_block_def)
  qed
qed

lemma output_cdr_init_correct:
  assumes "minv heap B" "unat sz < 2 ^ 61" "output_cdr_init ops al sz swap tradeoff major minor m heap = Some q"
  shows "\<exists>B'. oc_inv minv q B' \<and> oc_contents q = [] \<and> oc_mem q = m \<and> bk_cur_size (oc_current q) = (if sz = 0 then 520 else unat sz + 8) \<and>
    oc_do_byte_swap q = swap \<and> oc_good_bit q \<and>
    (\<forall>x n. foreign B {} x n \<longrightarrow> foreign B' (own (oc_begin_end q)) x n)"
proof -
  define s where "s = (if sz \<noteq> 0 then sz else DEFAULT_BUFSIZE) + of_nat MAX_ALIGNMENT"
  have u: "unat s = (if sz = 0 then 520 else unat sz + 8)"
    using assms(2) by (auto simp: s_def DEFAULT_BUFSIZE_def MAX_ALIGNMENT_def unat_word_ariths)
  then have s: "0 < unat s" "unat s < 2 ^ 62" "8 \<le> unat s" using assms(2) by (auto split: if_splits)
  from assms(1) s(1,2) show ?thesis
  proof (cases rule: new_block_cases [of heap B s al])
    case (none h)
    then show ?thesis using assms(3) by (simp add: output_cdr_init_def s_def)
  next
    case (some h b)
    have q: "q = \<lparr>oc_mem = m, oc_heap = h, oc_before = [], oc_current = mb_align b, oc_cont = [],
           oc_alignment = 0, oc_is_writable = True, oc_do_byte_swap = swap, oc_good_bit = True,
           oc_memcpy_tradeoff = tradeoff, oc_major = major, oc_minor = minor\<rparr>"
      using assms(3) some(1) by (simp add: output_cdr_init_def s_def)
    have "bk_base b + 8 \<le> 2 ^ 64" using some(10) s(3) by simp
    note M = mb_align_correct [OF this]
    let ?B = "B(bk_base b \<mapsto> (al, unat s))"
    have wr: "bk_wr_ptr (mb_align b) mod 8 = 0" using M(2,4) by (simp add: bk_wr_ptr_def bk_rd_ptr_def)
    have "oc_inv minv q ?B"
      using some M s(3) wr unfolding oc_inv_def q
      by (simp add: oc_begin_end_def blk_ok_def total_length_def bk_length_def)
    moreover have "foreign ?B {bk_base b} x n" if "foreign B {} x n" for x n
      using that some(3) unfolding foreign_def by (metis empty_iff fun_upd_apply insert_iff option.distinct(1))
    moreover have "own (oc_begin_end q) = {bk_base b}" using some(8) by (auto simp: q oc_begin_end_def own_def)
    ultimately show ?thesis
      using u M(2) some(5) by (intro exI [of _ ?B]) (auto simp: q oc_contents_def oc_begin_end_def mem_contents_def bk_length_def)
  qed
qed

text \<open>The input stream on the contents of an output stream.\<close>

lemma chain_separate:
  assumes I: "oc_inv minv q B" and b: "b \<in> set (oc_begin_end q)" and m: "minv h (B(p \<mapsto> (al, k)))" "B p = None"
    and a: "p \<le> a" "a + j \<le> p + k"
  shows "separate (bk_rd_ptr b) (bk_length b) a j"
proof -
  let ?B = "B(p \<mapsto> (al, k))"
  have ok: "blk_ok B (own (oc_begin_end q)) b" using oc_invD(4) [OF I b] .
  have "foreign ?B {p} (bk_rd_ptr b) (bk_length b)"
  proof (cases "bk_dont_delete b")
    case True
    then have "foreign B (own (oc_begin_end q)) (bk_rd_ptr b) (bk_length b)" using ok by (simp add: blk_ok_def)
    then show ?thesis using m(2) unfolding foreign_def by (metis fun_upd_apply option.distinct(1) singletonD)
  next
    case False
    then have "B (bk_base b) = Some (bk_allocator b, bk_max_size b)" "bk_rd b \<le> bk_wr b" "bk_wr b \<le> bk_max_size b"
      using ok by (simp_all add: blk_ok_def)
    then show ?thesis
      using m(2) unfolding foreign_def
      by (intro disjI2 exI [of _ "bk_base b"] exI [of _ "bk_allocator b"] exI [of _ "bk_max_size b"])
        (auto simp: bk_rd_ptr_def bk_length_def)
  qed
  then show ?thesis using a by (intro free_part_foreign [OF m(1), of p al k "{p}"]) simp_all
qed

lemma input_cdr_from_correct:
  assumes I: "oc_inv minv q B" and l: "length (oc_contents q) < 2 ^ 61" and f: "input_cdr_from ops al q = Some p"
  shows "\<exists>B' s. ic_inv minv p B' s \<and> ic_rest p = oc_contents q \<and> ic_rd_ptr p mod 8 = 0 \<and>
    ic_do_byte_swap p = oc_do_byte_swap q \<and> ic_good_bit p \<and>
    (\<forall>x n. foreign B (own (oc_begin_end q)) x n \<longrightarrow> foreign B' {s} x n)"
proof -
  let ?n = "total_length (oc_begin_end q)"
  define s :: "64 word" where "s = of_nat (?n + MAX_ALIGNMENT)"
  have n: "?n < 2 ^ 61" using l by (simp add: length_oc_contents)
  have u: "unat s = ?n + 8" using n by (simp add: s_def MAX_ALIGNMENT_def unat_of_nat del: of_nat_add)
  then have s: "0 < unat s" "unat s < 2 ^ 62" using n by simp_all
  from oc_invD(1) [OF I] s show ?thesis
  proof (cases rule: new_block_cases [of "oc_heap q" B s al])
    case (none h)
    then show ?thesis using f by (simp add: input_cdr_from_def s_def)
  next
    case (some h b)
    have "bk_base b + 8 \<le> 2 ^ 64" using some(10) u by simp
    note M = mb_align_correct [OF this]
    let ?B = "B(bk_base b \<mapsto> (al, unat s))" and ?d = "mb_align b"
    have wr: "bk_wr_ptr ?d = bk_rd_ptr ?d" using M(2) by (simp add: bk_wr_ptr_def bk_rd_ptr_def)
    have at: "bk_base b \<le> bk_wr_ptr ?d" "bk_wr_ptr ?d + ?n \<le> bk_base b + unat s"
      using M(2,3) u by (simp_all add: bk_wr_ptr_def)
    have c: "copy_chain (oc_begin_end q) (oc_mem q, ?d) =
        (mem_write (oc_mem q) (bk_wr_ptr ?d) (oc_contents q), ?d\<lparr>bk_wr := bk_wr ?d + ?n\<rparr>)"
      unfolding oc_contents_def
    proof (rule copy_chain_correct)
      show "\<forall>c \<in> set (oc_begin_end q). separate (bk_rd_ptr c) (bk_length c) (bk_wr_ptr ?d) ?n"
        using chain_separate [OF I _ some(2,3) at] by blast
      show "?n \<le> bk_space ?d" "bk_wr ?d \<le> bk_cur_size ?d"
        using M(2,3) u some(5) by (simp_all add: bk_space_def bk_mark_def bk_wr_ptr_def)
    qed
    have p: "p = \<lparr>ic_mem = mem_write (oc_mem q) (bk_wr_ptr ?d) (oc_contents q), ic_heap = h,
        ic_start = ?d\<lparr>bk_wr := bk_wr ?d + ?n\<rparr>, ic_do_byte_swap = oc_do_byte_swap q, ic_good_bit = True,
        ic_major = oc_major q, ic_minor = oc_minor q\<rparr>"
      using f some(1) c by (simp add: input_cdr_from_def s_def)
    have ptr: "ic_rd_ptr p = bk_rd_ptr ?d" "ic_length p = ?n" "ic_wr_ptr p = bk_wr_ptr ?d + ?n"
      using M(2) by (simp_all add: p ic_rd_ptr_def ic_length_def ic_wr_ptr_def bk_rd_ptr_def bk_length_def bk_wr_ptr_def)
    have "ic_inv minv p ?B (bk_base b)"
      using some(2) at ptr wr M(2) unfolding ic_inv_def by (simp add: p)
    moreover have "ic_rest p = oc_contents q"
      unfolding ic_rest_def ptr using wr mem_read_here [OF length_oc_contents] by (simp add: p)
    moreover have "foreign ?B {bk_base b} x k" if "foreign B (own (oc_begin_end q)) x k" for x k
      using that some(3) unfolding foreign_def by (metis fun_upd_apply option.distinct(1) singletonD)
    ultimately show ?thesis using ptr(1) M(4) by (intro exI [of _ ?B] exI [of _ "bk_base b"]) (simp add: p)
  qed
qed

section \<open>Consolidating the chain\<close>

text \<open>A part of the buffer of a block of the chain does not meet what another block holds.\<close>

lemma block_chain_separate:
  assumes I: "oc_inv minv q B" and c: "c \<in> set (oc_begin_end q)" "\<not> bk_dont_delete c"
    and b: "b \<in> set (oc_begin_end q)" "\<not> bk_dont_delete b \<longrightarrow> bk_base b \<noteq> bk_base c"
    and a: "bk_base c \<le> a" "a + j \<le> bk_end c"
  shows "separate (bk_rd_ptr b) (bk_length b) a j"
proof -
  have C: "B (bk_base c) = Some (bk_allocator c, bk_max_size c)" "bk_base c \<in> own (oc_begin_end q)"
    using oc_invD(4) [OF I c(1)] c by (auto simp: blk_ok_def own_def)
  have k: "blk_ok B (own (oc_begin_end q)) b" using oc_invD(4) [OF I b(1)] .
  show ?thesis
  proof (cases "bk_dont_delete b")
    case True
    then show ?thesis
      using k a free_part_foreign [OF oc_invD(1) [OF I] C] by (simp add: blk_ok_def bk_end_def)
  next
    case False
    then have "B (bk_base b) = Some (bk_allocator b, bk_max_size b)" "bk_rd b \<le> bk_wr b" "bk_wr b \<le> bk_max_size b"
      using k by (simp_all add: blk_ok_def)
    then have "separate (bk_base b) (bk_max_size b) (bk_base c) (bk_max_size c)" "bk_rd b + bk_length b \<le> bk_max_size b"
      using block_apart [OF oc_invD(1) [OF I] _ C(1)] b(2) False by (auto simp: bk_length_def)
    then show ?thesis
      using separate_sub [of "bk_base b" "bk_max_size b" "bk_base c" "bk_max_size c" "bk_rd b" "bk_length b" "a - bk_base c" j] a
      by (simp add: bk_rd_ptr_def bk_end_def)
  qed
qed

text \<open>
  \<open>size\<close> on the first block: where the buffer is moved, only the bytes below the current size go along. The new place
  has room for everything, and does not meet what the rest of the chain holds.
\<close>

lemma bk_set_size_start:
  assumes I: "oc_inv minv q B" and bs: "oc_begin_end q = s # bs" and s: "\<not> bk_dont_delete s" "bk_rd s < 8" "bk_rd s \<le> bk_cur_size s"
      "bk_cur_size s \<le> bk_max_size s"
    and n: "total_length (s # bs) + 8 \<le> unat n" "unat n < 2 ^ 62"
  defines "k \<equiv> min (bk_cur_size s) (bk_wr s) - bk_rd s"
  obtains (fails) h where "bk_set_size ops n s (oc_mem q) (oc_heap q) = (oc_mem q, h, s, -1)" "out_of_memory ops (unat n) h"
  | (sized) m h t where "bk_set_size ops n s (oc_mem q) (oc_heap q) = (m, h, t, 0)" "bk_rd t = bk_rd s" "bk_wr t = bk_wr s"
      "bk_cur_size t = unat n" "\<forall>b \<in> set bs. separate (bk_rd_ptr b) (bk_length b) (bk_wr_ptr t) (total_length bs)"
      "mem_contents m bs = mem_contents (oc_mem q) bs"
      "mem_read m (bk_rd_ptr t) (bk_length t) =
         mem_read (oc_mem q) (bk_rd_ptr s) k @ mem_read (oc_mem q) (bk_rd_ptr t + k) (bk_length s - k)"
      "\<not> bk_dont_delete t" "unat n \<le> bk_max_size s \<Longrightarrow> bk_base t = bk_base s"
proof -
  have o: "bk_rd s \<le> bk_wr s" "bk_wr s \<le> bk_max_size s"
    using oc_invD(4) [OF I, of s] s(1) bs by (simp_all add: blk_ok_def)
  have k: "k \<le> bk_length s" by (simp add: k_def bk_length_def)
  have tot: "bk_wr s + total_length bs \<le> unat n"
    using n(1) s(2) o(1) by (simp add: total_length_def bk_length_def)
  show ?thesis
  proof (cases "unat n \<le> bk_max_size s")
    case True
    let ?t = "s\<lparr>bk_cur_size := unat n\<rparr>"
    have r: "bk_set_size ops n s (oc_mem q) (oc_heap q) = (oc_mem q, oc_heap q, ?t, 0)" using True by (simp add: bk_set_size_def)
    have p: "bk_rd_ptr ?t = bk_rd_ptr s" "bk_length ?t = bk_length s" "bk_wr_ptr ?t = bk_wr_ptr s"
      by (simp_all add: bk_rd_ptr_def bk_length_def bk_wr_ptr_def)
    have "separate (bk_rd_ptr b) (bk_length b) (bk_wr_ptr ?t) (total_length bs)" if b: "b \<in> set bs" for b
    proof (rule block_chain_separate [OF I])
      show "\<not> bk_dont_delete b \<longrightarrow> bk_base b \<noteq> bk_base s"
        using oc_invD(3) [OF I] b s(1) bs by (auto simp: image_iff)
      show "bk_base s \<le> bk_wr_ptr ?t" "bk_wr_ptr ?t + total_length bs \<le> bk_end s"
        using tot True by (simp_all add: bk_wr_ptr_def bk_end_def)
    qed (use b bs s(1) in auto)
    moreover have "mem_read (oc_mem q) (bk_rd_ptr s) (bk_length s) =
        mem_read (oc_mem q) (bk_rd_ptr s) k @ mem_read (oc_mem q) (bk_rd_ptr s + k) (bk_length s - k)"
      using mem_read_add [of "oc_mem q" "bk_rd_ptr s" k "bk_length s - k"] k by simp
    ultimately show ?thesis using sized [OF r] s(1) by (simp add: p)
  next
    case False
    obtain h p where al: "al_malloc ops (oc_heap q) (bk_allocator s) n = (h, p)" by fastforce
    have n0: "0 < unat n" "unat n < 2 ^ 63" "n \<noteq> 0" using n by (simp, simp, auto)
    show ?thesis
    proof (cases "p = NULL")
      case True
      have "out_of_memory ops (unat n) h"
        unfolding out_of_memory_def using al True n0(3)
        by (intro exI [of _ "oc_heap q"] exI [of _ "bk_allocator s"] exI [of _ n]) simp
      then show ?thesis using fails False al True by (simp add: bk_set_size_def)
    next
      case N: False
      let ?w = "mem_read (oc_mem q) (bk_base s) (bk_cur_size s)" and ?t = "s\<lparr>bk_dont_delete := False, bk_max_size := unat n,
        bk_cur_size := unat n, bk_base := p\<rparr>"
      let ?m = "mem_write (oc_mem q) p ?w"
      note M = malloc [OF oc_invD(1) [OF I] n0(1,2) al N, THEN conjunct2] malloc_fresh [OF oc_invD(1) [OF I] n0(1,2) al N]
      note sep = chain_separate [OF I _ M]
      have r: "bk_set_size ops n s (oc_mem q) (oc_heap q) = (?m, bk_release ops s h, ?t, 0)"
        using False al N by (simp add: bk_set_size_def)
      have "\<forall>b \<in> set bs. separate (bk_rd_ptr b) (bk_length b) (bk_wr_ptr ?t) (total_length bs)"
        using sep [of _ "bk_wr_ptr ?t" "total_length bs"] tot bs by (simp add: bk_wr_ptr_def)
      moreover have "mem_contents ?m bs = mem_contents (oc_mem q) bs"
        using sep [of _ p "bk_cur_size s"] False s(4) bs
        by (auto simp: mem_contents_def mem_read_write_separate intro!: arg_cong [of _ _ concat])
      moreover have "mem_read ?m (bk_rd_ptr ?t) (bk_length ?t) =
          mem_read (oc_mem q) (bk_rd_ptr s) k @ mem_read (oc_mem q) (bk_rd_ptr ?t + k) (bk_length s - k)"
        using s(3) o(1) k
        by (intro nth_equalityI)
          (auto simp: mem_read_nth nth_append mem_write_def bk_rd_ptr_def bk_length_def k_def min_def ac_simps split: if_splits)
      ultimately show ?thesis using sized [OF r] False by simp
    qed
  qed
qed

lemma oc_consolidate_correct:
  assumes I: "oc_inv minv q B" and bs: "oc_begin_end q = s # bs" "bs \<noteq> []" and s: "\<not> bk_dont_delete s" "bk_rd s < 8"
      "bk_rd s \<le> bk_cur_size s" "bk_cur_size s \<le> bk_max_size s"
    and l: "length (oc_contents q) < 2 ^ 60"
  defines "k \<equiv> min (bk_cur_size s) (bk_wr s) - bk_rd s"
  shows "\<exists>q' r. oc_consolidate ops q = Some (q', r) \<and>
    (r = -1 \<and> oc_begin_end q' = oc_begin_end q \<and> oc_contents q' = oc_contents q \<and>
       out_of_memory ops (2 * length (oc_contents q) + 65600) (oc_heap q') \<or>
     r = 0 \<and> oc_begin_end q' = [oc_current q'] \<and> oc_is_writable q' \<and> oc_alignment q' = oc_alignment q \<and>
       oc_contents q' = mem_read (oc_mem q) (bk_rd_ptr s) k @
         mem_read (oc_mem q) (bk_rd_ptr (oc_current q') + k) (bk_length s - k) @ mem_contents (oc_mem q) bs)"
proof -
  let ?n = "total_length (s # bs)"
  have n: "?n < 2 ^ 60" "length (oc_contents q) = ?n" using l bs(1) by (simp_all add: length_oc_contents)
  have before: "oc_before q \<noteq> []" "oc_start q = s" "oc_chain q = s # bs"
    using bs oc_invD(2) [OF I] by (auto simp: oc_begin_end_def oc_start_def oc_chain_def Cons_eq_append_conv)
  define a :: "64 word" where "a = of_nat (?n + MAX_ALIGNMENT)"
  have a: "unat a = ?n + 8" using n(1) by (simp add: a_def MAX_ALIGNMENT_def unat_of_nat del: of_nat_add)
  then have "first_size a \<noteq> None" using n(1) by (simp add: first_size_eq)
  then obtain sz where sz: "first_size a = Some sz" by blast
  note F = first_size_bounds [OF sz]
  have sz1: "?n + 8 \<le> unat sz" using F(1) a by (simp add: word_le_nat_alt)
  have sz3: "unat sz \<le> 2 * ?n + 65600" using F(4) a by simp
  then have sz2: "unat sz < 2 ^ 62" using n(1) by simp
  have step: "oc_consolidate ops q =
      (let (m1, heap1, start1, r) = bk_set_size ops sz s (oc_mem q) (oc_heap q)
               in if r < 0 then Some (q\<lparr>oc_heap := heap1\<rparr>, -1)
                  else let (m2, start2) = copy_chain bs (m1, start1)
                       in Some (q\<lparr>oc_mem := m2, oc_heap := fold (bk_release ops) bs heap1,
                                  oc_before := [], oc_current := start2, oc_cont := [], oc_is_writable := True\<rparr>, 0))"
    using before(1) sz unfolding oc_consolidate_def bs(1) before(2,3) list.sel a_def by (simp del: of_nat_add)
  from I bs(1) s sz1 sz2 show ?thesis
  proof (cases rule: bk_set_size_start)
    case (fails h)
    then show ?thesis using step out_of_memory_mono [OF fails(2) sz3] n(2)
      by (simp add: oc_begin_end_def oc_contents_def)
  next
    case (sized m h t)
    have len: "bk_length t = bk_length s" "bk_wr_ptr t = bk_rd_ptr t + bk_length t"
      using sized(2,3) oc_invD(4) [OF I, of s] bs(1) by (simp_all add: bk_length_def bk_wr_ptr_def bk_rd_ptr_def blk_ok_def)
    have wr: "bk_wr t + total_length bs \<le> unat sz"
      using sz1 s(2) sized(2,3) len(2) by (simp add: total_length_def bk_length_def bk_wr_ptr_def bk_rd_ptr_def)
    have c: "copy_chain bs (m, t) = (mem_write m (bk_wr_ptr t) (mem_contents m bs), t\<lparr>bk_wr := bk_wr t + total_length bs\<rparr>)"
      using sized(4,5) wr by (intro copy_chain_correct) (simp_all add: bk_space_def bk_mark_def bk_wr_ptr_def)
    let ?t = "t\<lparr>bk_wr := bk_wr t + total_length bs\<rparr>"
    let ?q = "q\<lparr>oc_mem := mem_write m (bk_wr_ptr t) (mem_contents m bs), oc_heap := fold (bk_release ops) bs h,
                oc_before := [], oc_current := ?t, oc_cont := [], oc_is_writable := True\<rparr>"
    have r: "oc_consolidate ops q = Some (?q, 0)" using step sized(1) c by simp
    have p: "bk_rd_ptr ?t = bk_rd_ptr t" "bk_length ?t = bk_length t + total_length bs"
      using len(2) by (simp_all add: bk_rd_ptr_def bk_length_def bk_wr_ptr_def)
    have "oc_contents ?q = mem_read (mem_write m (bk_wr_ptr t) (mem_contents m bs)) (bk_rd_ptr t) (bk_length t + total_length bs)"
      by (simp add: oc_contents_def oc_begin_end_def p)
    also have "\<dots> = mem_read m (bk_rd_ptr t) (bk_length t) @ mem_contents m bs"
      unfolding mem_read_add len(2) [symmetric] using len(2)
      by (simp add: mem_read_write_separate separate_def mem_read_here length_mem_contents)
    finally have "oc_contents ?q = mem_read (oc_mem q) (bk_rd_ptr s) k @
         mem_read (oc_mem q) (bk_rd_ptr (oc_current ?q) + k) (bk_length s - k) @ mem_contents (oc_mem q) bs"
      using sized(6,7) by (simp add: p k_def)
    then show ?thesis using r by (intro exI [of _ ?q] exI [of _ 0]) (simp add: oc_begin_end_def)
  qed
qed

end

end
