(* ===== verification/ACE_CDR_Bounds.thy ===== *)
theory ACE_CDR_Bounds
  imports ACE_CDR_Read
begin

text \<open>
  Reading from any input, well formed or not. No read leaves the part of the buffer between the read and the write
  pointer, and only the caller's array or a new block for a string is written to.
\<close>

section \<open>The window of an input stream\<close>

definition window :: "'m input_cdr \<Rightarrow> bool" where
  "window p \<longleftrightarrow> bk_rd (ic_start p) \<le> bk_wr (ic_start p) \<and> ic_wr_ptr p \<le> 2 ^ 63"

text \<open>What every read leaves: the end of the window, and a read pointer that has not moved back or past the end.\<close>

definition moved :: "'m input_cdr \<Rightarrow> 'm input_cdr \<Rightarrow> bool" where
  "moved p p' \<longleftrightarrow> window p' \<and> ic_wr_ptr p' = ic_wr_ptr p \<and> ic_rd_ptr p \<le> ic_rd_ptr p' \<and> ic_do_byte_swap p' = ic_do_byte_swap p"

lemma window_length: "window p \<Longrightarrow> ic_wr_ptr p = ic_rd_ptr p + ic_length p"
  by (simp add: window_def wr_ptr_length)

lemma moved_refl: "window p \<Longrightarrow> moved p p" "window p \<Longrightarrow> moved p (ic_bad p)"
  by (simp_all add: moved_def window_def ic_bad_def ic_wr_ptr_def ic_rd_ptr_def)

lemma moved_trans: "moved p p' \<Longrightarrow> moved p' p'' \<Longrightarrow> moved p p''"
  by (simp add: moved_def)

lemma moved_simps [simp]:
  "moved p (p'\<lparr>ic_mem := m\<rparr>) = moved p p'" "moved p (p'\<lparr>ic_heap := h\<rparr>) = moved p p'" "moved p (ic_bad p') = moved p p'"
  "moved p (p'\<lparr>ic_good_bit := g\<rparr>) = moved p p'"
  "moved (p\<lparr>ic_mem := m\<rparr>) p' = moved p p'" "moved (p\<lparr>ic_heap := h\<rparr>) p' = moved p p'"
  by (simp_all add: moved_def window_def ic_bad_def ic_wr_ptr_def ic_rd_ptr_def)

lemma window_simps [simp]:
  "window (p\<lparr>ic_mem := m\<rparr>) = window p" "window (p\<lparr>ic_heap := h\<rparr>) = window p"
  by (simp_all add: window_def ic_wr_ptr_def)

lemma ptr_simps [simp]:
  "ic_rd_ptr (p\<lparr>ic_mem := m\<rparr>) = ic_rd_ptr p" "ic_wr_ptr (p\<lparr>ic_mem := m\<rparr>) = ic_wr_ptr p" "ic_length (p\<lparr>ic_mem := m\<rparr>) = ic_length p"
  "ic_rd_ptr (p\<lparr>ic_heap := h\<rparr>) = ic_rd_ptr p" "ic_wr_ptr (p\<lparr>ic_heap := h\<rparr>) = ic_wr_ptr p" "ic_length (p\<lparr>ic_heap := h\<rparr>) = ic_length p"
  "read_swaps cf (p\<lparr>ic_mem := m\<rparr>) = read_swaps cf p" "read_swaps cf (p\<lparr>ic_heap := h\<rparr>) = read_swaps cf p"
  "ic_bad (p\<lparr>ic_mem := m\<rparr>) = (ic_bad p)\<lparr>ic_mem := m\<rparr>" "ic_mem (ic_bad p) = ic_mem p"
  "ic_advance k (p\<lparr>ic_mem := m\<rparr>) = (ic_advance k p)\<lparr>ic_mem := m\<rparr>"
  by (simp_all add: ic_rd_ptr_def ic_wr_ptr_def ic_length_def read_swaps_def ic_bad_def ic_advance_def)

lemma moved_advance: "window p \<Longrightarrow> k \<le> ic_length p \<Longrightarrow> moved p (ic_advance k p)"
  unfolding moved_def window_def
  by (auto simp: ic_advance_def ic_rd_ptr_def ic_wr_ptr_def ic_length_def bk_rd_ptr_def bk_wr_ptr_def bk_length_def)

lemma ic_adjust_mem: "ic_adjust n al (p\<lparr>ic_mem := m\<rparr>) = (case ic_adjust n al p of (p', b) \<Rightarrow> (p'\<lparr>ic_mem := m\<rparr>, b))"
  by (simp add: ic_adjust_def Let_def)

text \<open>\<open>adjust\<close> finds a place inside the window, or fails.\<close>

lemma ic_adjust_cases:
  assumes w: "window p" and al: "al \<in> alignments" and n: "n < 2 ^ 62"
  obtains (bad) "ic_adjust n al p = (ic_bad p, None)"
  | (good) p' buf where "ic_adjust n al p = (p', Some buf)" "moved p p'" "ic_mem p' = ic_mem p" "ic_heap p' = ic_heap p"
      "ic_good_bit p' = ic_good_bit p" "ic_rd_ptr p \<le> buf" "buf + n \<le> ic_wr_ptr p"
proof -
  let ?b = "align_up al (ic_rd_ptr p)"
  note a = alignments_dvd [OF al]
  have r: "ic_rd_ptr p \<le> 2 ^ 63" using window_length [OF w] w by (simp add: window_def)
  note U = align_upD [of al "ic_rd_ptr p"]
  have b: "ACE_ptr_align_binary (ic_rd_ptr p) al = ?b" using a r by (intro ACE_ptr_align_binary_eq [OF al]) simp
  have e: "ptr_add ?b n = ?b + n" using U(2) a r n by (intro ptr_add_small) simp
  show ?thesis
  proof (cases "?b + n \<le> ic_wr_ptr p")
    case True
    let ?p = "p\<lparr>ic_start := (ic_start p)\<lparr>bk_rd := ?b + n - bk_base (ic_start p)\<rparr>\<rparr>"
    have "bk_base (ic_start p) \<le> ?b" using U(1) a by (simp add: ic_rd_ptr_def bk_rd_ptr_def)
    then have "ic_rd_ptr ?p = ?b + n" "ic_wr_ptr ?p = ic_wr_ptr p"
      by (simp_all add: ic_rd_ptr_def bk_rd_ptr_def ic_wr_ptr_def bk_wr_ptr_def)
    moreover have "bk_rd (ic_start ?p) \<le> bk_wr (ic_start ?p)" using True by (simp add: ic_wr_ptr_def bk_wr_ptr_def)
    ultimately have "moved p ?p" using w U(1) a by (simp add: moved_def window_def)
    moreover have "ic_adjust n al p = (?p, Some ?b)" using True by (simp add: ic_adjust_def b e Let_def)
    ultimately show ?thesis using good U(1) a True by simp
  next
    case False
    then show ?thesis using bad by (simp add: ic_adjust_def b e Let_def)
  qed
qed

section \<open>Single values\<close>

text \<open>A value made from the bytes that are read.\<close>

definition decode :: "platform \<Rightarrow> bool \<Rightarrow> byte list \<Rightarrow> 'a :: len word" where
  "decode pf sw bs = word_of_le (if little_endian pf = sw then rev bs else bs)"

definition scalar_read :: "nat \<Rightarrow> nat \<Rightarrow> (byte list \<Rightarrow> 'a :: len word) \<Rightarrow> 'm input_cdr \<Rightarrow> 'm input_cdr \<times> 'a word \<times> bool" where
  "scalar_read n al dec p = (case ic_adjust n al p of
     (p', None) \<Rightarrow> (ic_bad p', 0, False) | (p', Some buf) \<Rightarrow> (p', dec (mem_read (ic_mem p') buf n), True))"

lemma decode_load:
  "(if \<not> sw then load pf 2 m buf else load pf 2 (swap_2_from pf m m' buf 0) 0) = decode pf sw (mem_read m buf 2)"
  "(if \<not> sw then load pf 4 m buf else load pf 4 (swap_4_from pf m m' buf 0) 0) = decode pf sw (mem_read m buf 4)"
  "(if \<not> sw then load pf 8 m buf else load pf 8 (swap_8_from pf m m' buf 0) 0) = decode pf sw (mem_read m buf 8)"
  "(if \<not> sw then load pf 16 m buf else load pf 16 (swap_16_from pf m m' buf 0) 0) = decode pf sw (mem_read m buf 16)"
  by (simp_all add: load_def decode_def swap_2_mem swap_4_mem swap_8_mem swap_16_from_mem mem_read_here)

lemma read_as_scalar:
  "read_2 cf 0 p = scalar_read 2 2 (decode (cf_platform cf) (read_swaps cf p)) p"
  "read_4 cf 0 p = scalar_read 4 4 (decode (cf_platform cf) (read_swaps cf p)) p"
  "read_8 cf 0 p = scalar_read 8 8 (decode (cf_platform cf) (read_swaps cf p)) p"
  "read_16 cf 0 p = scalar_read 16 8 (decode (cf_platform cf) (read_swaps cf p)) p"
  unfolding read_2_def read_4_def read_8_def read_16_def scalar_read_def Let_def decode_load by (rule refl)+

definition same_window :: "'m input_cdr \<Rightarrow> memory \<Rightarrow> bool" where
  "same_window p m \<longleftrightarrow> (\<forall>a. ic_rd_ptr p \<le> a \<and> a < ic_wr_ptr p \<longrightarrow> m a = ic_mem p a)"

lemma same_window_read:
  "same_window p m \<Longrightarrow> ic_rd_ptr p \<le> buf \<Longrightarrow> buf + n \<le> ic_wr_ptr p \<Longrightarrow> mem_read m buf n = mem_read (ic_mem p) buf n"
  by (auto simp: same_window_def mem_read_def)

lemma scalar_read_window:
  assumes "window p" "al \<in> alignments" "n < 2 ^ 62"
  shows "\<exists>p' v r. scalar_read n al dec p = (p', v, r) \<and> moved p p' \<and> ic_mem p' = ic_mem p \<and> ic_heap p' = ic_heap p \<and>
    (\<not> r \<longrightarrow> \<not> ic_good_bit p') \<and> (\<forall>m. same_window p m \<longrightarrow> scalar_read n al dec (p\<lparr>ic_mem := m\<rparr>) = (p'\<lparr>ic_mem := m\<rparr>, v, r))"
proof (cases rule: ic_adjust_cases [OF assms])
  case 1
  then show ?thesis
    using moved_refl(2) [OF assms(1)]
    by (intro exI [of _ "ic_bad p"] exI [of _ 0] exI [of _ False]) (simp add: scalar_read_def ic_adjust_mem ic_bad_def)
next
  case (2 p' buf)
  then show ?thesis
    using same_window_read [of p _ buf n]
    by (intro exI [of _ p'] exI [of _ "dec (mem_read (ic_mem p) buf n)"] exI [of _ True]) (simp add: scalar_read_def ic_adjust_mem)
qed

lemma read_1_window:
  assumes "window p"
  shows "\<exists>p' v r. read_1 0 p = (p', v, r) \<and> moved p p' \<and> ic_mem p' = ic_mem p \<and> ic_heap p' = ic_heap p \<and>
    (\<not> r \<longrightarrow> \<not> ic_good_bit p') \<and> (\<forall>m. same_window p m \<longrightarrow> read_1 0 (p\<lparr>ic_mem := m\<rparr>) = (p'\<lparr>ic_mem := m\<rparr>, v, r))"
proof (cases "ic_rd_ptr p < ic_wr_ptr p")
  case True
  then have "moved p (ic_advance 1 p)" using window_length [OF assms] by (intro moved_advance [OF assms]) simp
  then show ?thesis
    using True by (intro exI [of _ "ic_advance 1 p"] exI [of _ "ic_mem p (ic_rd_ptr p)"] exI [of _ True])
      (auto simp: read_1_def same_window_def ic_advance_def)
next
  case False
  then show ?thesis
    using moved_refl(2) [OF assms]
    by (intro exI [of _ "ic_bad p"] exI [of _ 0] exI [of _ False]) (simp add: read_1_def ic_bad_def)
qed

section \<open>Arrays and strings\<close>

lemma read_array_window:
  assumes w: "window p" and s: "sz \<in> {1, 2, 4, 8, 16}" "al \<in> alignments" "sz * len < 2 ^ 62"
    and sep: "sz = 1 \<or> separate (ic_rd_ptr p) (ic_length p) x (sz * len)"
  shows "\<exists>p' bs r. moved p p' \<and> ic_heap p' = ic_heap p \<and> length bs \<le> sz * len \<and> (\<not> r \<longrightarrow> \<not> ic_good_bit p') \<and>
    (\<forall>m. same_window p m \<longrightarrow> read_array cf x sz al len (p\<lparr>ic_mem := m\<rparr>) = (p'\<lparr>ic_mem := mem_write m x bs\<rparr>, r))"
proof (cases "len = 0")
  case True
  then show ?thesis
    using moved_refl(1) [OF w] by (intro exI [of _ p] exI [of _ "[]"] exI [of _ True]) (simp add: read_array_def)
next
  case False
  show ?thesis
  proof (cases rule: ic_adjust_cases [OF w s(2,3)])
    case 1
    then show ?thesis
      using moved_refl(2) [OF w] False
      by (intro exI [of _ "ic_bad p"] exI [of _ "[]"] exI [of _ False]) (simp add: read_array_def ic_adjust_mem ic_bad_def)
  next
    case (2 p' buf)
    let ?sw = "read_swaps cf p" and ?n = "sz * len"
    let ?bs = "array_wire ?sw sz (mem_read (ic_mem p) buf ?n)"
    have "read_array cf x sz al len (p\<lparr>ic_mem := m\<rparr>) = (p'\<lparr>ic_mem := mem_write m x ?bs\<rparr>, ic_good_bit p')"
      if m: "same_window p m" for m
    proof (cases "\<not> ?sw \<or> sz = 1")
      case True
      then have "?bs = mem_read m buf ?n" using same_window_read [OF m 2(6,7)] by (auto simp: array_wire_def)
      then show ?thesis using 2(1) True False by (simp add: read_array_def ic_adjust_mem)
    next
      case F: False
      then have "?bs = swapped sz (mem_read m buf ?n)" using same_window_read [OF m 2(6,7)] by (auto simp: array_wire_def)
      moreover have "separate buf ?n x ?n"
        using sep F separate_sub [of "ic_rd_ptr p" "ic_length p" x ?n "buf - ic_rd_ptr p" ?n 0 ?n] 2(6,7) window_length [OF w] by simp
      ultimately have "swap_array (cf_platform cf) sz m buf x len = Some (mem_write m x ?bs)"
        using s(1) F False swap_2_array_correct [of len buf x] swap_4_array_correct [of len buf x]
          swap_8_array_correct [of buf len x] swap_16_array_correct [of buf len x]
        by (auto simp: swap_array_def)
      then show ?thesis using 2(1) F False by (simp add: read_array_def ic_adjust_mem)
    qed
    moreover have "length ?bs = ?n" using s(1) by (auto intro!: length_array_wire)
    ultimately show ?thesis using 2 by (intro exI [of _ p'] exI [of _ ?bs] exI [of _ "ic_good_bit p'"]) simp
  qed
qed

lemma read_typed_array_window:
  assumes w: "window p" and s: "sz \<in> {1, 2, 4, 8, 16}" "al \<in> alignments" "sz * len < 2 ^ 62"
    and sep: "sz = 1 \<or> separate (ic_rd_ptr p) (ic_length p) x (sz * len)"
  shows "\<exists>p' bs r. moved p p' \<and> ic_heap p' = ic_heap p \<and> length bs \<le> sz * len \<and> (\<not> r \<longrightarrow> \<not> ic_good_bit p') \<and>
    (\<forall>m. same_window p m \<longrightarrow> read_typed_array cf x sz al len (p\<lparr>ic_mem := m\<rparr>) = (p'\<lparr>ic_mem := mem_write m x bs\<rparr>, r))"
proof (cases "len * sz > ic_length p")
  case True
  then show ?thesis
    using moved_refl(2) [OF w]
    by (intro exI [of _ "ic_bad p"] exI [of _ "[]"] exI [of _ False]) (simp add: read_typed_array_def ic_bad_def)
next
  case False
  then show ?thesis using read_array_window [OF assms] by (simp add: read_typed_array_def)
qed

text \<open>Bytes that go to a place which the default allocator hands out for at least as many bytes.\<close>

definition in_new_block :: "'m allocator_ops \<Rightarrow> 'm \<Rightarrow> addr \<Rightarrow> byte list \<Rightarrow> bool" where
  "in_new_block ops heap a bs \<longleftrightarrow> bs = [] \<or>
     (\<exists>h n. al_malloc ops heap (al_instance ops) n = (h, a) \<and> a \<noteq> NULL \<and> length bs \<le> unat n)"

definition refused :: "'m allocator_ops \<Rightarrow> 'm \<Rightarrow> bool" where
  "refused ops heap \<longleftrightarrow> (\<exists>h n. n \<noteq> 0 \<and> al_malloc ops heap (al_instance ops) n = (h, NULL))"

lemma read_string_window:
  assumes w: "window p"
  shows "\<exists>p' a bs v r. moved p p' \<and> in_new_block ops (ic_heap p) a bs \<and> (\<not> r \<longrightarrow> \<not> ic_good_bit p' \<or> refused ops (ic_heap p)) \<and>
    (\<forall>m. same_window p m \<longrightarrow> read_string ops cf x (p\<lparr>ic_mem := m\<rparr>) = (p'\<lparr>ic_mem := mem_write m a bs\<rparr>, v, r))"
proof -
  obtain q1 len r1 where 1: "moved p q1" "ic_mem q1 = ic_mem p" "ic_heap q1 = ic_heap p" "\<not> r1 \<longrightarrow> \<not> ic_good_bit q1"
    "\<And>m. same_window p m \<Longrightarrow> read_4 cf 0 (p\<lparr>ic_mem := m\<rparr>) = (q1\<lparr>ic_mem := m\<rparr>, len, r1)"
    using scalar_read_window [OF w, of 4 4 "decode (cf_platform cf) (read_swaps cf p)"]
    unfolding read_as_scalar by (auto simp: alignments_def)
  have w1: "window q1" using 1(1) by (simp add: moved_def)
  have sw1: "same_window q1 m" if "same_window p m" for m
    using that 1(1,2) by (auto simp: same_window_def moved_def)
  define n :: "64 word" where "n = (if len = 0 then 1 else of_nat (unat len))"
  obtain h a where al: "al_malloc ops (ic_heap p) (al_instance ops) n = (h, a)" by fastforce
  have len: "unat len < 2 ^ LENGTH(32)" by (rule unsigned_less)
  have "unat (of_nat j :: 64 word) = j" if "j < 2 ^ LENGTH(32)" for j
    using that by (simp add: unat_of_nat)
  note u = this [OF len]
  have n: "unat n = (if len = 0 then 1 else unat len)" using u by (simp add: n_def)
  then have "0 < unat n" by (simp add: unat_gt_0)
  then have "n \<noteq> 0" by auto
  note n = n this
  let ?q2 = "q1\<lparr>ic_heap := h\<rparr>"
  consider (no) "\<not> r1" | (long) "r1" "len \<noteq> 0" "ic_length q1 < unat len" | (null) r1 "len = 0 \<or> unat len \<le> ic_length q1" "a = NULL"
    | (empty) r1 "len = 0" "a \<noteq> NULL" | (full) r1 "len \<noteq> 0" "unat len \<le> ic_length q1" "a \<noteq> NULL" by fastforce
  then show ?thesis
  proof cases
    case no
    then show ?thesis
      using 1 by (intro exI [of _ q1] exI [of _ 0] exI [of _ "[]"] exI [of _ x] exI [of _ False]) (simp add: read_string_def in_new_block_def)
  next
    case long
    have "word_of_nat (unat len) \<noteq> (0 :: 64 word)" using n long by (simp add: n_def)
    then show ?thesis
      using 1 long by (intro exI [of _ "ic_bad q1"] exI [of _ 0] exI [of _ "[]"] exI [of _ NULL] exI [of _ False])
        (simp add: read_string_def in_new_block_def ic_bad_def)
  next
    case null
    have "refused ops (ic_heap p)" unfolding refused_def using al null(3) n(2) by blast
    then show ?thesis
      using 1 null al by (intro exI [of _ ?q2] exI [of _ 0] exI [of _ "[]"] exI [of _ NULL] exI [of _ False])
        (auto simp: read_string_def in_new_block_def n_def word_gt_0)
  next
    case empty
    have "in_new_block ops (ic_heap p) a [0]"
      unfolding in_new_block_def using al empty n by (intro disjI2 exI [of _ h] exI [of _ n]) simp
    then show ?thesis
      using 1 empty al by (intro exI [of _ ?q2] exI [of _ a] exI [of _ "[0]"] exI [of _ a] exI [of _ True])
        (simp add: read_string_def n_def)
  next
    case full
    have "1 * unat len < 2 ^ 62" using len by simp
    then obtain q3 bs r3 where 3: "moved ?q2 q3" "ic_heap q3 = h" "length bs \<le> unat len" "\<not> r3 \<longrightarrow> \<not> ic_good_bit q3"
      "\<And>m. same_window ?q2 m \<Longrightarrow> read_typed_array cf a 1 1 (unat len) (?q2\<lparr>ic_mem := m\<rparr>) = (q3\<lparr>ic_mem := mem_write m a bs\<rparr>, r3)"
      using read_typed_array_window [of ?q2 1 1 "unat len" a cf] w1 by (auto simp: alignments_def)
    have sw2: "same_window ?q2 m" if "same_window p m" for m
      using sw1 [OF that] by (simp add: same_window_def)
    have swap: "q1\<lparr>ic_mem := m, ic_heap := h\<rparr> = ?q2\<lparr>ic_mem := m\<rparr>" for m by simp
    have rd: "read_string ops cf x (p\<lparr>ic_mem := m\<rparr>) = (if r3 then (q3\<lparr>ic_mem := mem_write m a bs\<rparr>, a, True)
        else (ic_bad (q3\<lparr>ic_heap := al_free ops h (al_instance ops) a\<rparr>)\<lparr>ic_mem := mem_write m a bs\<rparr>, NULL, False))"
      if m: "same_window p m" for m
      using 1(3) 1(5) [OF m] 3(5) [OF sw2 [OF m]] 3(2) full al
      by (cases r3) (simp_all add: read_string_def n_def word_gt_0 ic_bad_def swap)
    have "in_new_block ops (ic_heap p) a bs"
      unfolding in_new_block_def using al full n 3(3) by (intro disjI2 exI [of _ h] exI [of _ n]) simp
    moreover have "moved p q3" using 1(1) 3(1) by (auto intro: moved_trans)
    ultimately show ?thesis
    proof (cases r3)
      case True
      then show ?thesis
        using rd \<open>moved p q3\<close> \<open>in_new_block ops (ic_heap p) a bs\<close>
        by (intro exI [of _ q3] exI [of _ a] exI [of _ bs] exI [of _ a] exI [of _ True]) simp
    next
      case False
      let ?q = "ic_bad (q3\<lparr>ic_heap := al_free ops h (al_instance ops) a\<rparr>)"
      have "\<not> ic_good_bit ?q" by (simp add: ic_bad_def)
      then show ?thesis
        using rd False \<open>moved p q3\<close> \<open>in_new_block ops (ic_heap p) a bs\<close>
        by (intro exI [of _ ?q] exI [of _ a] exI [of _ bs] exI [of _ NULL] exI [of _ False]) simp
    qed
  qed
qed

section \<open>Any item\<close>

definition is_scalar :: "cdr_item \<Rightarrow> bool" where
  "is_scalar i \<longleftrightarrow> (case i of C_string _ _ \<Rightarrow> False | C_array _ _ _ _ \<Rightarrow> False | _ \<Rightarrow> True)"

text \<open>Where the bytes of an item go.\<close>

definition confined :: "'m allocator_ops \<Rightarrow> 'm \<Rightarrow> cdr_item \<Rightarrow> addr \<Rightarrow> addr \<Rightarrow> byte list \<Rightarrow> bool" where
  "confined ops heap i tgt a bs \<longleftrightarrow> (case i of C_string _ _ \<Rightarrow> in_new_block ops heap a bs
     | C_array sz al len _ \<Rightarrow> a = tgt \<and> length bs \<le> sz * len | _ \<Rightarrow> bs = [])"

lemma read_item_scalar_window:
  fixes p :: "'m input_cdr"
  assumes w: "window p" and s: "is_scalar i"
  shows "\<exists>p' v r. moved p p' \<and> ic_mem p' = ic_mem p \<and> (\<not> r \<longrightarrow> \<not> ic_good_bit p') \<and>
    (\<forall>m. same_window p m \<longrightarrow> read_item ops cf tgt i (p\<lparr>ic_mem := m\<rparr>) = (p'\<lparr>ic_mem := m\<rparr>, v, r))"
proof -
  have al: "2 \<in> alignments" "4 \<in> alignments" "8 \<in> alignments" by (simp_all add: alignments_def)
  have I: "\<exists>p' w r. moved p p' \<and> ic_mem p' = ic_mem p \<and> (\<not> r \<longrightarrow> \<not> ic_good_bit p') \<and>
      (\<forall>m. same_window p m \<longrightarrow> read_item ops cf tgt i (p\<lparr>ic_mem := m\<rparr>) = (p'\<lparr>ic_mem := m\<rparr>, w, r))"
    if "\<exists>p' v r. f p = (p', v, r) \<and> moved p p' \<and> ic_mem p' = ic_mem p \<and> ic_heap p' = ic_heap p \<and> (\<not> r \<longrightarrow> \<not> ic_good_bit p') \<and>
        (\<forall>m. same_window p m \<longrightarrow> f (p\<lparr>ic_mem := m\<rparr>) = (p'\<lparr>ic_mem := m\<rparr>, v, r))"
      and "\<And>m. read_item ops cf tgt i (p\<lparr>ic_mem := m\<rparr>) = (let (q1, x, r) = f (p\<lparr>ic_mem := m\<rparr>) in (q1, V x, r))"
    for f :: "'m input_cdr \<Rightarrow> 'm input_cdr \<times> 'v \<times> bool" and V
    using that by fastforce
  let ?d = "decode (cf_platform cf) (read_swaps cf p)"
  show ?thesis
  proof (cases i)
    case (C_octet x)
    then show ?thesis using I [OF read_1_window [OF w], where V = V_octet] by simp
  next
    case (C_boolean x)
    obtain p' v r where r: "moved p p'" "ic_mem p' = ic_mem p" "\<not> r \<longrightarrow> \<not> ic_good_bit p'"
      "\<forall>m. same_window p m \<longrightarrow> read_1 0 (p\<lparr>ic_mem := m\<rparr>) = (p'\<lparr>ic_mem := m\<rparr>, v, r)"
      using read_1_window [OF w] by blast
    then show ?thesis
      using C_boolean by (intro exI [of _ p'] exI [of _ "V_boolean (v \<noteq> 0)"] exI [of _ "ic_good_bit p'"]) (simp add: read_boolean_def)
  next
    case (C_ushort x)
    then show ?thesis using I [OF scalar_read_window [OF w al(1), of 2 ?d], where V = V_ushort] by (simp add: read_as_scalar)
  next
    case (C_ulong x)
    then show ?thesis using I [OF scalar_read_window [OF w al(2), of 4 ?d], where V = V_ulong] by (simp add: read_as_scalar)
  next
    case (C_ulonglong x)
    then show ?thesis using I [OF scalar_read_window [OF w al(3), of 8 ?d], where V = V_ulonglong] by (simp add: read_as_scalar)
  next
    case (C_longdouble x)
    then show ?thesis using I [OF scalar_read_window [OF w al(3), of 16 ?d], where V = V_longdouble] by (simp add: read_as_scalar)
  qed (use s in \<open>simp_all add: is_scalar_def\<close>)
qed

text \<open>The array of the caller is not in the window.\<close>

definition array_apart :: "'m input_cdr \<Rightarrow> cdr_item \<Rightarrow> addr \<Rightarrow> bool" where
  "array_apart p i tgt \<longleftrightarrow> (case i of
     C_array sz al len _ \<Rightarrow> len < 2 ^ 32 \<and> separate (ic_rd_ptr p) (ic_length p) tgt (sz * len) | _ \<Rightarrow> True)"

lemma read_item_window:
  fixes p :: "'m input_cdr"
  assumes w: "window p" and sh: "item_shape i"
    and apart: "array_apart p i tgt"
  shows "\<exists>p' a bs r v. moved p p' \<and> confined ops (ic_heap p) i tgt a bs \<and> (\<not> r \<longrightarrow> \<not> ic_good_bit p' \<or> refused ops (ic_heap p)) \<and>
    (\<forall>m. same_window p m \<longrightarrow> (\<exists>v'. read_item ops cf tgt i (p\<lparr>ic_mem := m\<rparr>) = (p'\<lparr>ic_mem := mem_write m a bs\<rparr>, v', r) \<and>
       (is_scalar i \<longrightarrow> v' = v)))"
proof (cases "is_scalar i")
  case True
  obtain p' v r where r: "moved p p'" "\<not> r \<longrightarrow> \<not> ic_good_bit p'"
    "\<forall>m. same_window p m \<longrightarrow> read_item ops cf tgt i (p\<lparr>ic_mem := m\<rparr>) = (p'\<lparr>ic_mem := m\<rparr>, v, r)"
    using read_item_scalar_window [OF w True] by blast
  moreover have "confined ops (ic_heap p) i tgt 0 []"
    using True by (auto simp: confined_def is_scalar_def split: cdr_item.splits)
  ultimately show ?thesis
    by (intro exI [of _ p'] exI [of _ 0] exI [of _ "[]"] exI [of _ r] exI [of _ v]) simp
next
  case False
  then consider (str) len x where "i = C_string len x" | (arr) sz al len x where "i = C_array sz al len x"
    by (cases i) (auto simp: is_scalar_def)
  then show ?thesis
  proof cases
    case str
    obtain p' a bs v r where r: "moved p p'" "in_new_block ops (ic_heap p) a bs" "\<not> r \<longrightarrow> \<not> ic_good_bit p' \<or> refused ops (ic_heap p)"
      "\<forall>m. same_window p m \<longrightarrow> read_string ops cf tgt (p\<lparr>ic_mem := m\<rparr>) = (p'\<lparr>ic_mem := mem_write m a bs\<rparr>, v, r)"
      using read_string_window [OF w, of ops cf tgt] by blast
    then show ?thesis
      using False by (intro exI [of _ p'] exI [of _ a] exI [of _ bs] exI [of _ r] exI [of _ "V_bytes []"]) (simp add: str confined_def)
  next
    case arr: (arr sz al len x)
    have ap: "len < 2 ^ 32" "separate (ic_rd_ptr p) (ic_length p) tgt (sz * len)"
      using apart arr by (simp_all add: array_apart_def)
    have s: "sz \<in> {1, 2, 4, 8, 16}" "al \<in> alignments" "sz * len < 2 ^ 62" "separate (ic_rd_ptr p) (ic_length p) tgt (sz * len)"
    proof -
      show "sz \<in> {1, 2, 4, 8, 16}" "al \<in> alignments" using sh arr by (simp_all add: item_shape_def)
      show "separate (ic_rd_ptr p) (ic_length p) tgt (sz * len)" using ap by simp
      have "sz \<le> 16" using \<open>sz \<in> {1, 2, 4, 8, 16}\<close> by auto
      then have "sz * len \<le> 16 * 2 ^ 32" using ap by (intro mult_le_mono) simp_all
      then show "sz * len < 2 ^ 62" by simp
    qed
    obtain p' bs r where r: "moved p p'" "length bs \<le> sz * len" "\<not> r \<longrightarrow> \<not> ic_good_bit p'"
      "\<forall>m. same_window p m \<longrightarrow> read_typed_array cf tgt sz al len (p\<lparr>ic_mem := m\<rparr>) = (p'\<lparr>ic_mem := mem_write m tgt bs\<rparr>, r)"
      using read_typed_array_window [OF w s(1-3)] s(4) by blast
    then show ?thesis
      using False by (intro exI [of _ p'] exI [of _ tgt] exI [of _ bs] exI [of _ r] exI [of _ "V_bytes []"]) (simp add: arr confined_def)
  qed
qed

end
