(* ===== verification/ACE_CDR_Props.thy ===== *)
theory ACE_CDR_Props
  imports ACE_CDR_Copy ACE_CDR_Bounds
begin

text \<open>
  Properties of the CDR streams: what is written can be read back, in the same process and on a machine of the other
  byte order; the optimised byte swaps; the growth of buffers. The static allocator of \<open>ACE_Allocator\<close> is the memory
  on which the theorems are instantiated.
\<close>

section \<open>The static allocator as the memory of streams\<close>

definition low_pools :: "static_pools \<Rightarrow> blocks \<Rightarrow> bool" where
  "low_pools w B \<longleftrightarrow> pool_inv w B \<and> (\<forall>al. sa_buffer (w al) + unat (sa_size (w al)) \<le> 2 ^ 63)"

lemma static_ops_malloc:
  assumes "al_malloc (static_ops inst) w al n = (w', p)"
  shows "sa_buffer (w' x) = sa_buffer (w x)" "sa_size (w' x) = sa_size (w x)"
  using assms by (auto simp: static_ops_def static_malloc_def split: if_splits)

interpretation cp: cdr_memory "static_ops inst" low_pools for inst
proof (unfold_locales, goal_cases)
  case (1 m B p al n)
  then show ?case using sp.block [of m B p al n] by (simp add: low_pools_def)
next
  case (2 m B p al n)
  then show ?case using sp.disjoint [of m B p al n] by (simp add: low_pools_def)
next
  case (3 m B nb al m' p)
  then show ?case using sp.malloc [of m B nb inst al m' p] static_ops_malloc [OF 3(4)] by (simp add: low_pools_def)
next
  case (4 m B al nb m')
  then show ?case using sp.malloc_fails [of m B inst al nb m'] static_ops_malloc [OF 4(2)] by (simp add: low_pools_def)
next
  case (5 m B p al n)
  then show ?case using sp.free [of m B p al n inst] by (simp add: low_pools_def static_ops_def)
next
  case (6 m B p al n)
  then have "pool_inv m B" "sa_buffer (m al) + unat (sa_size (m al)) \<le> 2 ^ 63" by (simp_all add: low_pools_def)
  then show ?case using pool_block_end(1) [of m B p al n] 6(2) by linarith
qed

section \<open>What a receiver gets\<close>

text \<open>
  The value of an item on a machine of another byte order: the elements of an array have their bytes in the order
  of that machine.
\<close>

definition received :: "platform \<Rightarrow> platform \<Rightarrow> memory \<Rightarrow> cdr_item \<Rightarrow> cdr_value" where
  "received pf pf' m i = (case i of
     C_array sz al len x \<Rightarrow> V_bytes (array_wire (little_endian pf \<noteq> little_endian pf') sz (mem_read m x (sz * len)))
   | _ \<Rightarrow> item_value m i)"

lemma received_same: "received pf pf m = item_value m"
  by (rule ext) (simp add: received_def array_wire_def split: cdr_item.splits)

text \<open>The memory in which a receiver would see its values.\<close>

definition received_mem :: "platform \<Rightarrow> platform \<Rightarrow> memory \<Rightarrow> cdr_item \<Rightarrow> memory" where
  "received_mem pf pf' m i = (case i of
     C_array sz al len x \<Rightarrow> mem_write m x (array_wire (little_endian pf \<noteq> little_endian pf') sz (mem_read m x (sz * len)))
   | _ \<Rightarrow> m)"

lemma wire_other:
  assumes "(sw \<noteq> sw') = (little_endian pf \<noteq> little_endian pf')"
  shows "wire pf' sw' n w = wire pf sw n w"
  using assms by (auto simp: wire_def native_def)

lemma received_mem_value:
  assumes "item_shape i"
  shows "item_value (received_mem pf pf' m i) i = received pf pf' m i"
proof (cases i)
  case (C_array sz al len x)
  then have "0 < sz" using assms by (auto simp: item_shape_def)
  then have "length (array_wire (little_endian pf \<noteq> little_endian pf') sz (mem_read m x (sz * len))) = sz * len"
    by (simp add: length_array_wire [where n = len])
  then show ?thesis using C_array by (simp add: received_def received_mem_def mem_read_here)
qed (simp_all add: received_def received_mem_def)

lemma received_mem_chunks:
  assumes "item_shape i" "(sw \<noteq> sw') = (little_endian pf \<noteq> little_endian pf')"
  shows "item_chunks pf' sw' (received_mem pf pf' m i) i = item_chunks pf sw m i"
proof (cases i)
  case (C_array sz al len x)
  let ?w = "array_wire (little_endian pf \<noteq> little_endian pf') sz (mem_read m x (sz * len))"
  have sz: "0 < sz" using assms(1) C_array by (auto simp: item_shape_def)
  then have "length ?w = sz * len" by (simp add: length_array_wire [where n = len])
  moreover have "array_wire sw' sz ?w = array_wire sw sz (mem_read m x (sz * len))"
    using assms(2) array_wire_wire [OF sz, of "mem_read m x (sz * len)" len True]
    by (cases sw; cases sw') (auto simp: array_wire_def)
  ultimately show ?thesis using C_array by (simp add: received_mem_def mem_read_here)
qed (simp_all add: received_mem_def wire_other [OF assms(2)])

lemma laid_length:
  assumes "laid pos cs c" "\<forall>(al, bs) \<in> set cs. al \<in> alignments"
  shows "length c \<le> chunks_length cs"
  using assms
proof (induction pos cs c rule: laid.induct)
  case (2 pos al bs cs c)
  then obtain pd rest where r: "c = pd @ bs @ rest" "length pd = pad al pos" "laid (pos + pad al pos + length bs) cs rest" by auto
  have "pad al pos < 8" using alignments_dvd [of al] pad_less [of al pos] 2(3) by auto
  then show ?case using 2(1) [OF r(3)] 2(3) r(1,2) by (simp add: chunks_length_def)
qed (simp add: chunks_length_def)

lemma item_chunks_length:
  assumes "item_ok B Own i"
  shows "\<forall>(al, bs) \<in> set (item_chunks pf sw m i). al \<in> alignments" "chunks_length (item_chunks pf sw m i) \<le> item_cost i"
    "item_shape i"
proof -
  show "\<forall>(al, bs) \<in> set (item_chunks pf sw m i). al \<in> alignments"
    using assms by (cases i) (auto simp: alignments_def)
  show "chunks_length (item_chunks pf sw m i) \<le> item_cost i"
    using assms by (cases i) (auto simp: chunks_length_def item_cost_def length_array_wire [where n = "_ :: nat"])
  show "item_shape i" using assms by (cases i) (auto simp: item_shape_def)
qed

lemma items_length:
  assumes "\<forall>i \<in> set is. item_ok B Own i" "laid pos (concat (map (item_chunks pf sw m) is)) bs"
  shows "length bs \<le> sum_list (map item_cost is)"
proof -
  have "chunks_length (concat (map (item_chunks pf sw m) is)) \<le> sum_list (map item_cost is)"
    using assms(1)
  proof (induction "is")
    case (Cons i "is")
    then show ?case using item_chunks_length(2) [of B Own i pf sw m] by (simp add: chunks_length_def)
  qed (simp add: chunks_length_def)
  moreover have "\<forall>(al, bs) \<in> set (concat (map (item_chunks pf sw m) is)). al \<in> alignments"
    using assms(1) item_chunks_length(1) [of B Own _ pf sw m] by fastforce
  ultimately show ?thesis using laid_length [OF assms(2)] by linarith
qed

text \<open>The chunks of a script of writes are those that the script of reads looks for.\<close>

lemma read_back:
  fixes cf cf' :: cdr_config and p :: "'n input_cdr"
  defines "pf \<equiv> cf_platform cf" and "pf' \<equiv> cf_platform cf'"
  assumes "cdr_memory ops minv" "ic_inv minv p B s" "ic_rd_ptr p mod 8 = 0" "ic_good_bit p"
    and "\<forall>it \<in> set its. item_shape (fst it) \<and> target_ok B {s} it"
    and "laid 0 (concat (map (item_chunks pf sw m) (map fst its))) (ic_rest p)"
    and sw: "(sw \<noteq> read_swaps cf' p) = (little_endian pf \<noteq> little_endian pf')"
  shows "\<exists>p' vs r. read_items ops cf' its p = (p', vs, r) \<and>
    (if r then vs = map (received pf pf' m \<circ> fst) its \<and> ic_rest p' = [] else no_memory ops p')"
proof -
  let ?M = "received_mem pf pf' m"
  have e: "map (\<lambda>it. item_chunks pf' (read_swaps cf' p) (?M (fst it)) (fst it)) its = map (item_chunks pf sw m) (map fst its)"
    using assms(7) received_mem_chunks [OF _ sw] by simp
  then have l: "laid 0 (concat (map (\<lambda>it. item_chunks pf' (read_swaps cf' p) (?M (fst it)) (fst it)) its) @ []) (ic_rest p)"
    unfolding e using assms(8) by simp
  have v: "map (\<lambda>it. item_value (?M (fst it)) (fst it)) its = map (received pf pf' m \<circ> fst) its"
    using assms(7) received_mem_value [of _ pf pf' m] by simp
  obtain p' vs r where r: "read_items ops cf' its p = (p', vs, r)" by (metis prod_cases3)
  have "found minv ops [] (map (received pf pf' m \<circ> fst) its) p B s (p', vs, r)"
    unfolding v [symmetric] r [symmetric] unfolding pf'_def
    by (rule cdr_memory.read_items_correct [OF assms(3,4,7) l [unfolded pf'_def] _ assms(6)]) (simp add: assms(5))
  then show ?thesis using r by (auto simp: found_def after_read_def split: if_splits)
qed

section \<open>Properties\<close>

text \<open>C15: writing. Any script of writes on an output stream returns, however often the chain of blocks has to grow. On
  success the contents are what they were, followed by the values one after the other, each at the next multiple of its
  alignment and in the byte order of the stream; a write only fails, with the good bit cleared, when the allocator has
  just refused a request of bounded size. The memory of others is left alone, and the invariant of the stream is kept.\<close>

theorem cdr_write_correct:
  fixes cf :: cdr_config
  assumes "cdr_memory ops minv" "oc_inv minv q B" "\<forall>i \<in> set is. item_ok B (own (oc_begin_end q)) i"
    and "bk_cur_size (oc_current q) + sum_list (map item_cost is) \<le> k" "k < 2 ^ 61"
  shows "\<exists>q' r B' bs. write_items ops cf is q = Some (q', r) \<and> oc_inv minv q' B' \<and> oc_contents q' = oc_contents q @ bs \<and>
    (if r then laid (length (oc_contents q)) (concat (map (item_chunks (cf_platform cf) (write_swaps cf q) (oc_mem q)) is)) bs
     else \<not> oc_good_bit q' \<and> out_of_memory ops k (oc_heap q')) \<and>
    (\<forall>x n. foreign B (own (oc_begin_end q)) x n \<longrightarrow>
      mem_read (oc_mem q') x n = mem_read (oc_mem q) x n \<and> foreign B' (own (oc_begin_end q')) x n)"
proof -
  obtain q' r where w: "write_items ops cf is q = Some (q', r)"
    "wrote ops minv k (concat (map (item_chunks (cf_platform cf) (write_swaps cf q) (oc_mem q)) is)) q B q' r"
    using cdr_memory.write_items_correct [OF assms] by blast
  obtain B' bs where "oc_inv minv q' B'" "keeps k q B q' B'"
    "\<forall>x n. foreign B (own (oc_begin_end q)) x n \<longrightarrow> mem_read (oc_mem q') x n = mem_read (oc_mem q) x n"
    "\<not> r \<longrightarrow> \<not> oc_good_bit q' \<and> out_of_memory ops k (oc_heap q')" "oc_contents q' = oc_contents q @ bs"
    "r \<longrightarrow> laid (length (oc_contents q)) (concat (map (item_chunks (cf_platform cf) (write_swaps cf q) (oc_mem q)) is)) bs"
    using w(2) unfolding wrote_def by blast
  then show ?thesis using w(1) unfolding keeps_def
    by (intro exI [of _ q'] exI [of _ r] exI [of _ B'] exI [of _ bs]) simp
qed

text \<open>C3: the round trip. Whatever a script of writes puts into an empty output stream, an input stream made from it gives
  back in the same order, and nothing is left over. This holds with the bytes swapped or not, provided that both
  directions swap alike; a read only fails when there is no memory for a string.\<close>

theorem cdr_round_trip:
  fixes cf :: cdr_config
  assumes M: "cdr_memory ops minv" "oc_inv minv q B" and e: "oc_contents q = []"
    and ok: "\<forall>it \<in> set its. item_ok B (own (oc_begin_end q)) (fst it) \<and> target_ok B (own (oc_begin_end q)) it"
    and k: "bk_cur_size (oc_current q) + sum_list (map (item_cost \<circ> fst) its) < 2 ^ 61"
    and sw: "cf_swap_on_write cf = cf_swap_on_read cf \<or> \<not> oc_do_byte_swap q"
  shows "\<exists>q' r. write_items ops cf (map fst its) q = Some (q', r) \<and>
    (r \<longrightarrow> (\<forall>al p. input_cdr_from ops al q' = Some p \<longrightarrow> (\<exists>p' vs s. read_items ops cf its p = (p', vs, s) \<and>
       (if s then vs = map (item_value (oc_mem q) \<circ> fst) its \<and> ic_rest p' = [] else no_memory ops p'))))"
proof -
  let ?is = "map fst its" and ?pf = "cf_platform cf"
  have ok1: "\<forall>i \<in> set ?is. item_ok B (own (oc_begin_end q)) i" using ok by simp
  obtain q' r where w: "write_items ops cf ?is q = Some (q', r)"
    "wrote ops minv (bk_cur_size (oc_current q) + sum_list (map item_cost ?is))
      (concat (map (item_chunks ?pf (write_swaps cf q) (oc_mem q)) ?is)) q B q' r"
    using cdr_memory.write_items_correct [OF M ok1 order_refl, of cf] k by (auto simp: comp_def)
  have "\<exists>p' vs s. read_items ops cf its p = (p', vs, s) \<and>
       (if s then vs = map (item_value (oc_mem q) \<circ> fst) its \<and> ic_rest p' = [] else no_memory ops p')"
    if r: r and p: "input_cdr_from ops al q' = Some p" for al p
  proof -
    obtain B' where B': "oc_inv minv q' B'" "same_config q q'"
      "\<forall>x n. foreign B (own (oc_begin_end q)) x n \<longrightarrow> foreign B' (own (oc_begin_end q')) x n"
      "laid 0 (concat (map (item_chunks ?pf (write_swaps cf q) (oc_mem q)) ?is)) (oc_contents q')"
      using w(2) r e unfolding wrote_def keeps_def by auto
    have "length (oc_contents q') < 2 ^ 61" using items_length [OF ok1 B'(4)] k by (simp add: comp_def)
    from cdr_memory.input_cdr_from_correct [OF M(1) B'(1) this p]
    obtain C s where C: "ic_inv minv p C s" "ic_rest p = oc_contents q'" "ic_rd_ptr p mod 8 = 0"
      "ic_do_byte_swap p = oc_do_byte_swap q'" "ic_good_bit p"
      "\<forall>x n. foreign B' (own (oc_begin_end q')) x n \<longrightarrow> foreign C {s} x n"
      by (elim exE conjE)
    have t: "\<forall>it \<in> set its. item_shape (fst it) \<and> target_ok C {s} it"
      using ok C(6) B'(3) item_chunks_length(3) [of B "own (oc_begin_end q)"]
      by (auto simp: target_ok_def split: cdr_item.splits)
    have "(write_swaps cf q \<noteq> read_swaps cf p) = (little_endian ?pf \<noteq> little_endian ?pf)"
      using sw C(4) B'(2) by (auto simp: write_swaps_def read_swaps_def same_config_def)
    from read_back [OF M(1) C(1,3,5) t _ this, of "oc_mem q"] show ?thesis
      using B'(4) C(2) unfolding received_same by simp
  qed
  then show ?thesis using w(1) by blast
qed

text \<open>C4: exchange between machines. What a script of writes puts into an empty output stream is read back by an input stream
  of any platform that holds the same bytes, when exactly one of the two sides swaps in case the byte orders differ, and
  both or none if they are the same. Numbers arrive unchanged, arrays with the bytes of each element in the order of the
  receiver.\<close>

theorem cdr_interchange:
  fixes cf cf' :: cdr_config and p :: "'n input_cdr"
  assumes "cdr_memory ops minv" "oc_inv minv q B" "oc_contents q = []"
    and ok: "\<forall>it \<in> set its. item_ok B (own (oc_begin_end q)) (fst it)"
    and k: "bk_cur_size (oc_current q) + sum_list (map (item_cost \<circ> fst) its) < 2 ^ 61"
    and w: "write_items ops cf (map fst its) q = Some (q', True)"
    and M: "cdr_memory ops' minv'" "ic_inv minv' p B' s" "ic_rest p = oc_contents q'" "ic_rd_ptr p mod 8 = 0" "ic_good_bit p"
    and t: "\<forall>it \<in> set its. target_ok B' {s} it"
    and sw: "(write_swaps cf q \<noteq> read_swaps cf' p) = (little_endian (cf_platform cf) \<noteq> little_endian (cf_platform cf'))"
  shows "\<exists>p' vs r. read_items ops' cf' its p = (p', vs, r) \<and>
    (if r then vs = map (received (cf_platform cf) (cf_platform cf') (oc_mem q) \<circ> fst) its \<and> ic_rest p' = []
     else no_memory ops' p')"
proof -
  let ?is = "map fst its" and ?pf = "cf_platform cf"
  have ok1: "\<forall>i \<in> set ?is. item_ok B (own (oc_begin_end q)) i" using ok by simp
  have "wrote ops minv (bk_cur_size (oc_current q) + sum_list (map item_cost ?is))
      (concat (map (item_chunks ?pf (write_swaps cf q) (oc_mem q)) ?is)) q B q' True"
    using cdr_memory.write_items_correct [OF assms(1,2) ok1 order_refl, of cf] k w by auto
  then have l: "laid 0 (concat (map (item_chunks ?pf (write_swaps cf q) (oc_mem q)) ?is)) (ic_rest p)"
    using assms(3) M(3) unfolding wrote_def by auto
  have "\<forall>it \<in> set its. item_shape (fst it) \<and> target_ok B' {s} it"
    using ok t item_chunks_length(3) [of B "own (oc_begin_end q)"] by simp
  then show ?thesis by (rule read_back [OF M(1,2,4,5) _ l sw])
qed


text \<open>C17: the optimised swaps of arrays, which run with wide words over aligned chunks, store half-words where the target is
  not aligned and unroll the rest, do the same as reversing the bytes of each element, for every alignment of source and
  target, both byte orders and both sizes of \<open>long\<close>; nothing else is written. Swapping twice gives back the array.\<close>

theorem swap_arrays_correct:
  assumes "sz \<in> {2, 4, 8, 16}" "0 < n" "separate orig (sz * n) target (sz * n)" "separate target (sz * n) back (sz * n)"
  shows "\<exists>m'. swap_array pf sz m orig target n = Some m' \<and> m' = mem_write m target (swapped sz (mem_read m orig (sz * n))) \<and>
    (\<exists>m''. swap_array pf sz m' target back n = Some m'' \<and> mem_read m'' back (sz * n) = mem_read m orig (sz * n))"
proof -
  have S: "swap_array pf sz m x buf n = Some (mem_write m buf (swapped sz (mem_read m x (sz * n))))"
    if "separate x (sz * n) buf (sz * n)" for m x buf
    using assms(1,2) that by (auto simp: swap_array_def swap_2_array_correct swap_4_array_correct swap_8_array_correct swap_16_array_correct)
  have sz: "0 < sz" using assms(1) by auto
  then have l: "length (swapped sz (mem_read m x (sz * n))) = sz * n" for m x by (intro length_swapped) simp_all
  let ?m = "mem_write m target (swapped sz (mem_read m orig (sz * n)))"
  have t: "mem_read ?m target (sz * n) = swapped sz (mem_read m orig (sz * n))" by (rule mem_read_here [OF l])
  have "swapped sz (mem_read ?m target (sz * n)) = mem_read m orig (sz * n)"
    unfolding t using sz by (intro swapped_involution [of sz _ n]) simp_all
  then have "mem_read (mem_write ?m back (swapped sz (mem_read ?m target (sz * n)))) back (sz * n) = mem_read m orig (sz * n)"
    by (simp add: mem_read_here)
  then show ?thesis using S assms(3,4) by auto
qed

text \<open>C33: the sizes of buffers. \<open>first_size\<close> returns for exactly the requests up to \<open>2 ^ 64 - 65536\<close>, with a multiple of 512 that
  is large enough, less than twice the request above the default, and within one chunk of it beyond the exponential range;
  for a larger request its loop reaches zero and does not end. \<open>next_size\<close> gives a strictly larger size below \<open>2 ^ 63\<close>,
  but 0 for the largest request that ends.\<close>

theorem first_size_correct:
  "(first_size m = None \<longleftrightarrow> 2 ^ 64 - 65536 < unat m) \<and>
   (\<forall>s. first_size m = Some s \<longrightarrow> m \<le> s \<and> 512 dvd unat s \<and> 512 \<le> unat s \<and> unat s < max 513 (2 * unat m) \<and>
     (65536 \<le> m \<longrightarrow> unat s < unat m + 65536)) \<and>
   (unat m < 2 ^ 63 \<longrightarrow> (\<exists>s. next_size m = Some s \<and> m < s \<and> unat s \<le> unat m + 131072)) \<and>
   next_size (- 65536) = Some 0"
proof (intro conjI allI impI)
  have "m \<le> 32768 \<longleftrightarrow> unat m \<le> 32768" by (simp add: word_le_nat_alt)
  then show "first_size m = None \<longleftrightarrow> 2 ^ 64 - 65536 < unat m"
    by (auto simp: first_size_eq word_le_nat_alt)
next
  fix s assume "first_size m = Some s"
  from first_size_bounds [OF this] show "m \<le> s" "512 dvd unat s" "512 \<le> unat s" "unat s < max 513 (2 * unat m)"
    "65536 \<le> m \<Longrightarrow> unat s < unat m + 65536" .
next
  assume "unat m < 2 ^ 63"
  then obtain s where "next_size m = Some s" "unat m < unat s" "unat s \<le> unat m + 131072" by (rule next_size_bounds)
  then show "\<exists>s. next_size m = Some s \<and> m < s \<and> unat s \<le> unat m + 131072" by (auto simp: word_less_nat_alt)
next
  have "align_up 65536 18446744073709486080 = 18446744073709486080" by (intro align_up_same) simp_all
  then have "first_size (- 65536) = Some (- 65536)" by (simp add: first_size_eq)
  then show "next_size (- 65536) = Some 0"
    by (simp add: next_size_def grow_step_def EXP_GROWTH_MAX_def LINEAR_GROWTH_CHUNK_def)
qed

text \<open>C34: consolidating. The chain becomes one block with the same contents, or there is no memory and the chain stays. The
  first block is moved with the bytes below its current size only: where the write pointer is behind that, as after
  an earlier \<open>consolidate\<close> that has lowered the current size below the capacity, the bytes between the two are lost, and the
  contents have in their place what the new buffer happened to hold.\<close>

theorem consolidate_correct:
  fixes q :: "'m output_cdr"
  assumes "cdr_memory ops minv" "oc_inv minv q B" "oc_begin_end q = s # bs" "bs \<noteq> []"
    and "\<not> bk_dont_delete s" "bk_rd s < 8" "bk_rd s \<le> bk_cur_size s" "bk_cur_size s \<le> bk_max_size s"
    and "length (oc_contents q) < 2 ^ 60"
  defines "k \<equiv> min (bk_cur_size s) (bk_wr s) - bk_rd s"
  shows "\<exists>q' r. oc_consolidate ops q = Some (q', r) \<and>
    (if r = 0 then oc_begin_end q' = [oc_current q'] \<and> oc_is_writable q' \<and>
         oc_contents q' = take k (oc_contents q) @ mem_read (oc_mem q) (bk_rd_ptr (oc_current q') + k) (bk_length s - k) @
           drop (bk_length s) (oc_contents q) \<and>
         (bk_wr s \<le> bk_cur_size s \<longrightarrow> oc_contents q' = oc_contents q)
     else r = -1 \<and> oc_begin_end q' = oc_begin_end q \<and> oc_contents q' = oc_contents q \<and>
       out_of_memory ops (2 * length (oc_contents q) + 65600) (oc_heap q'))"
proof -
  have c: "oc_contents q = mem_read (oc_mem q) (bk_rd_ptr s) (bk_length s) @ mem_contents (oc_mem q) bs"
    using assms(3) by (simp add: oc_contents_def mem_contents_def)
  have kl: "k \<le> bk_length s" by (simp add: k_def bk_length_def)
  then have t: "take k (oc_contents q) = mem_read (oc_mem q) (bk_rd_ptr s) k"
    using mem_read_add [of "oc_mem q" "bk_rd_ptr s" k "bk_length s - k"] by (simp add: c)
  obtain q' r where r: "oc_consolidate ops q = Some (q', r)"
    "r = -1 \<and> oc_begin_end q' = oc_begin_end q \<and> oc_contents q' = oc_contents q \<and>
       out_of_memory ops (2 * length (oc_contents q) + 65600) (oc_heap q') \<or>
     r = 0 \<and> oc_begin_end q' = [oc_current q'] \<and> oc_is_writable q' \<and> oc_alignment q' = oc_alignment q \<and>
       oc_contents q' = mem_read (oc_mem q) (bk_rd_ptr s) k @
         mem_read (oc_mem q) (bk_rd_ptr (oc_current q') + k) (bk_length s - k) @ mem_contents (oc_mem q) bs"
    using cdr_memory.oc_consolidate_correct [OF assms(1-9)] unfolding k_def by blast
  have "oc_contents q' = oc_contents q" if "bk_wr s \<le> bk_cur_size s" "r = 0"
  proof -
    have "k = bk_length s" using that(1) by (simp add: k_def bk_length_def min_def)
    then show ?thesis using r(2) that(2) c by simp
  qed
  then show ?thesis using r t c by (intro exI [of _ q'] exI [of _ r]) auto
qed


section \<open>Concrete streams\<close>

definition le64 :: platform where "le64 = \<lparr>little_endian = True, sizeof_long_8 = True\<rparr>"
definition be32 :: platform where "be32 = \<lparr>little_endian = False, sizeof_long_8 = False\<rparr>"

definition config_on :: "platform \<Rightarrow> cdr_config" where
  "config_on pf = \<lparr>cf_platform = pf, cf_swap_on_write = True, cf_swap_on_read = True, cf_wchar_maxbytes = 4\<rparr>"

text \<open>One allocator for the streams, and one that has handed out 100 bytes to the caller.\<close>

definition pools0 :: static_pools where
  "pools0 = (\<lambda>al. if al = 4 then static_init 8 2000
     else if al = 2 then \<lparr>sa_buffer = 5000, sa_size = 100, sa_offset = 100\<rparr> else static_init 0 0)"

definition blocks0 :: blocks where "blocks0 = [5000 \<mapsto> (2, 100)]"

definition stream0 :: "bool \<Rightarrow> static_pools output_cdr" where
  "stream0 sw = the (output_cdr_init (static_ops 4) 4 16 sw 256 1 2 of_nat pools0)"

lemma stream0_eq:
  "output_cdr_init (static_ops 4) 4 16 sw 256 1 2 of_nat pools0 = Some \<lparr>oc_mem = of_nat,
     oc_heap = pools0(4 := static_init 8 2000\<lparr>sa_offset := 24\<rparr>), oc_before = [],
     oc_current = \<lparr>bk_base = 8, bk_max_size = 24, bk_cur_size = 24, bk_rd = 0, bk_wr = 0, bk_dont_delete = False, bk_allocator = 4\<rparr>,
     oc_cont = [], oc_alignment = 0, oc_is_writable = True, oc_do_byte_swap = sw, oc_good_bit = True, oc_memcpy_tradeoff = 256,
     oc_major = 1, oc_minor = 2\<rparr>"
  by (simp add: output_cdr_init_def new_block_def static_ops_def static_malloc_def pools0_def static_init_def MAX_ALIGNMENT_def
    mb_align_def ACE_ptr_align_binary_def ACE_align_binary_def)

lemmas stream0_unfold = stream0_def [unfolded stream0_eq option.sel]

lemma low_pools0: "low_pools pools0 blocks0"
  by (auto simp: low_pools_def pool_inv_def pools0_def blocks0_def static_init_def apart_def split: if_splits)

lemma stream0_inv:
  "\<exists>B. oc_inv low_pools (stream0 sw) B \<and>
     (\<forall>x n. 5000 \<le> x \<and> x + n \<le> 5100 \<longrightarrow> foreign B (own (oc_begin_end (stream0 sw))) x n)"
proof -
  have e: "output_cdr_init (static_ops 4) 4 16 sw 256 1 2 of_nat pools0 = Some (stream0 sw)"
    by (simp only: stream0_unfold stream0_eq)
  obtain B where "oc_inv low_pools (stream0 sw) B"
    "\<forall>x n. foreign blocks0 {} x n \<longrightarrow> foreign B (own (oc_begin_end (stream0 sw))) x n"
    using cp.output_cdr_init_correct [OF low_pools0 _ e] by auto
  moreover have "foreign blocks0 {} x n" if "5000 \<le> x" "x + n \<le> 5100" for x n
    using that by (auto simp: foreign_def blocks0_def)
  ultimately show ?thesis by blast
qed

lemma stream0_simps [simp]:
  "oc_contents (stream0 sw) = []" "oc_mem (stream0 sw) = of_nat" "oc_do_byte_swap (stream0 sw) = sw"
  "bk_cur_size (oc_current (stream0 sw)) = 24"
  by (simp_all add: stream0_unfold oc_contents_def oc_begin_end_def bk_length_def)

lemma adjust_fits: "adjust_current sz al q = Some (q1, buf) \<Longrightarrow> oc_adjust ops sz al q = Some (q1, Some buf)"
  by (subst oc_adjust.simps) simp

lemma adjust_grows:
  "adjust_current sz al q = None \<Longrightarrow> grow_chain ops sz q = Some (q1, 0) \<Longrightarrow> adjust_current sz al q1 = Some (q2, buf) \<Longrightarrow>
     oc_adjust ops sz al q = Some (q2, Some buf)"
  by (subst oc_adjust.simps) (simp add: adjust_fits)

lemmas run_simps = adjust_fits adjust_current_def ACE_align_binary_def ptr_add_def bk_wr_ptr_def bk_end_def write_1_def write_4_def
  write_array_def put_value_def swap_array_def write_swaps_def config_on_def

lemma grow0: "\<exists>q'. write_items (static_ops 4) (config_on le64) [C_octet 7, C_array 1 1 30 5000] (stream0 True) = Some (q', True)"
  by (simp add: run_simps stream0_unfold adjust_grows grow_chain_def MAX_ALIGNMENT_def next_size_def first_size_eq new_block_def
    static_ops_def static_malloc_def static_init_def bk_rd_ptr_def)

theorem cdr_write_correct_witness:
  "\<exists>q'. write_items (static_ops 4) (config_on le64) [C_octet 7, C_array 1 1 30 5000] (stream0 True) = Some (q', True) \<and>
     oc_contents q' = 7 # mem_read of_nat 5000 30"
proof -
  let ?is = "[C_octet 7, C_array 1 1 30 5000]"
  obtain B where B: "oc_inv low_pools (stream0 True) B"
    "\<forall>x n. 5000 \<le> x \<and> x + n \<le> 5100 \<longrightarrow> foreign B (own (oc_begin_end (stream0 True))) x n"
    using stream0_inv by blast
  have ok: "\<forall>i \<in> set ?is. item_ok B (own (oc_begin_end (stream0 True))) i" using B(2) by (simp add: alignments_def)
  obtain q1 where q1: "write_items (static_ops 4) (config_on le64) ?is (stream0 True) = Some (q1, True)" using grow0 by blast
  obtain q' r bs where w: "write_items (static_ops 4) (config_on le64) ?is (stream0 True) = Some (q', r)"
    "oc_contents q' = oc_contents (stream0 True) @ bs"
    "if r then laid (length (oc_contents (stream0 True))) (concat (map (item_chunks (cf_platform (config_on le64))
       (write_swaps (config_on le64) (stream0 True)) (oc_mem (stream0 True))) ?is)) bs
     else \<not> oc_good_bit q' \<and> out_of_memory (static_ops 4) 2000000 (oc_heap q')"
    using cdr_write_correct [OF cp.cdr_memory_axioms [of 4] B(1) ok, of 2000000 "config_on le64"] by (auto simp: item_cost_def)
  have r: "r" using q1 w(1) by simp
  then have "oc_contents q' = 7 # mem_read of_nat 5000 30" using w(2,3) by (auto simp: array_wire_def)
  then show ?thesis using w(1) r by (intro exI [of _ q']) simp
qed

definition items0 :: "(cdr_item \<times> addr) list" where
  "items0 = [(C_octet 7, 0), (C_ulong 258, 0), (C_array 2 2 3 5000, 5050)]"

lemmas read_simps = input_cdr_from_def oc_begin_end_def total_length_def bk_length_def MAX_ALIGNMENT_def new_block_def static_ops_def
  static_malloc_def pools0_def static_init_def mb_align_def ACE_ptr_align_binary_def bk_copy_def bk_space_def bk_mark_def
  bk_rd_ptr_def read_1_def ic_rd_ptr_def ic_wr_ptr_def ic_advance_def read_4_def ic_adjust_def read_typed_array_def
  ic_length_def read_array_def read_swaps_def ic_bad_def

lemma run0:
  "\<exists>q' p. write_items (static_ops 4) (config_on le64) (map fst items0) (stream0 True) = Some (q', True) \<and>
     input_cdr_from (static_ops 4) 4 q' = Some p \<and> snd (snd (read_items (static_ops 4) (config_on le64) items0 p))"
  by (simp add: items0_def run_simps stream0_unfold read_simps)

theorem cdr_round_trip_witness:
  "\<exists>q' p p'. write_items (static_ops 4) (config_on le64) (map fst items0) (stream0 True) = Some (q', True) \<and>
     input_cdr_from (static_ops 4) 4 q' = Some p \<and>
     read_items (static_ops 4) (config_on le64) items0 p = (p', [V_octet 7, V_ulong 258, V_bytes (mem_read of_nat 5000 6)], True) \<and>
     ic_rest p' = []"
proof -
  obtain B where B: "oc_inv low_pools (stream0 True) B"
    "\<forall>x n. 5000 \<le> x \<and> x + n \<le> 5100 \<longrightarrow> foreign B (own (oc_begin_end (stream0 True))) x n"
    using stream0_inv by blast
  have ok: "\<forall>it \<in> set items0. item_ok B (own (oc_begin_end (stream0 True))) (fst it) \<and>
      target_ok B (own (oc_begin_end (stream0 True))) it"
    using B(2) by (simp add: items0_def alignments_def target_ok_def)
  have k: "bk_cur_size (oc_current (stream0 True)) + sum_list (map (item_cost \<circ> fst) items0) < 2 ^ 61"
    by (simp add: items0_def item_cost_def)
  have sw: "cf_swap_on_write (config_on le64) = cf_swap_on_read (config_on le64) \<or> \<not> oc_do_byte_swap (stream0 True)"
    by (simp add: config_on_def)
  obtain q1 p1 where run: "write_items (static_ops 4) (config_on le64) (map fst items0) (stream0 True) = Some (q1, True)"
    "input_cdr_from (static_ops 4) 4 q1 = Some p1" "snd (snd (read_items (static_ops 4) (config_on le64) items0 p1))"
    using run0 by blast
  let ?res = "\<lambda>p. \<exists>p' vs s. read_items (static_ops 4) (config_on le64) items0 p = (p', vs, s) \<and>
       (if s then vs = map (item_value (oc_mem (stream0 True)) \<circ> fst) items0 \<and> ic_rest p' = [] else no_memory (static_ops 4) p')"
  obtain q' r where w: "write_items (static_ops 4) (config_on le64) (map fst items0) (stream0 True) = Some (q', r)"
    "r \<longrightarrow> (\<forall>al p. input_cdr_from (static_ops 4) al q' = Some p \<longrightarrow> ?res p)"
    using cdr_round_trip [OF cp.cdr_memory_axioms [of 4] B(1) _ ok k sw] by auto
  have "input_cdr_from (static_ops 4) 4 q1 = Some p1 \<longrightarrow> ?res p1" using w run(1) by simp
  then obtain p' vs s where "read_items (static_ops 4) (config_on le64) items0 p1 = (p', vs, s)"
    "if s then vs = map (item_value (oc_mem (stream0 True)) \<circ> fst) items0 \<and> ic_rest p' = [] else no_memory (static_ops 4) p'"
    using run(2) by auto
  then show ?thesis
    using run by (intro exI [of _ q1] exI [of _ p1] exI [of _ p']) (simp add: items0_def)
qed

text \<open>The same bytes in the memory of a big-endian machine with a \<open>long\<close> of 32 bits, which swaps as well.\<close>

definition pools1 :: static_pools where
  "pools1 = pools0(4 := static_init 8 2000\<lparr>sa_offset := 24\<rparr>)"

definition received0 :: "static_pools input_cdr" where
  "received0 = (input_cdr_on_buffer 8 14 True 1 2 4
     (mem_write (\<lambda>_. 0) 8 [7, 9, 10, 11, 2, 1, 0, 0, 136, 137, 138, 139, 140, 141]) pools1)"

lemma received0_inv: "ic_inv low_pools received0 (blocks0(8 \<mapsto> (4, 24))) 8"
proof -
  have "low_pools pools1 (blocks0(8 \<mapsto> (4, 24)))"
    by (auto simp: low_pools_def pool_inv_def pools1_def pools0_def blocks0_def static_init_def apart_def split: if_splits)
  then show ?thesis
    by (simp add: ic_inv_def received0_def input_cdr_on_buffer_def ic_rd_ptr_def ic_wr_ptr_def bk_rd_ptr_def bk_wr_ptr_def)
qed

lemma received0_rest: "ic_rest received0 = [7, 9, 10, 11, 2, 1, 0, 0, 136, 137, 138, 139, 140, 141]"
  using mem_read_here [of "[7, 9, 10, 11, 2, 1, 0, 0, 136, 137, 138, 139, 140, 141 :: byte]" 14 "\<lambda>_. 0" 8]
  by (simp add: received0_def input_cdr_on_buffer_def ic_rest_def ic_rd_ptr_def ic_length_def bk_rd_ptr_def bk_length_def)

lemma run1:
  "\<exists>q'. write_items (static_ops 4) (config_on le64) (map fst items0) (stream0 False) = Some (q', True) \<and>
     oc_contents q' = ic_rest received0"
  by (simp add: items0_def run_simps stream0_unfold received0_rest oc_contents_def oc_begin_end_def bk_rd_ptr_def bk_length_def
    store_def native_def le64_def bytes_le_4 mem_read_def mem_write_def mem_contents_def upt_conv_Cons)

lemma swapped_pairs: "swapped 2 (a # b # xs) = b # a # swapped 2 xs"
  by (subst swapped.simps) simp

lemma run2: "snd (snd (read_items (static_ops 4) (config_on be32) items0 received0))"
  by (simp add: items0_def received0_def input_cdr_on_buffer_def config_on_def swap_array_def ACE_align_binary_def ptr_add_def
    bk_wr_ptr_def read_simps)

theorem cdr_interchange_witness:
  "\<exists>q' p'. write_items (static_ops 4) (config_on le64) (map fst items0) (stream0 False) = Some (q', True) \<and>
     oc_contents q' = ic_rest received0 \<and> read_items (static_ops 4) (config_on be32) items0 received0 =
       (p', [V_octet 7, V_ulong 258, V_bytes [137, 136, 139, 138, 141, 140]], True)"
proof -
  obtain B where B: "oc_inv low_pools (stream0 False) B"
    "\<forall>x n. 5000 \<le> x \<and> x + n \<le> 5100 \<longrightarrow> foreign B (own (oc_begin_end (stream0 False))) x n"
    using stream0_inv by blast
  have ok: "\<forall>it \<in> set items0. item_ok B (own (oc_begin_end (stream0 False))) (fst it)"
    using B(2) by (simp add: items0_def alignments_def)
  have k: "bk_cur_size (oc_current (stream0 False)) + sum_list (map (item_cost \<circ> fst) items0) < 2 ^ 61"
    by (simp add: items0_def item_cost_def)
  obtain q' where w: "write_items (static_ops 4) (config_on le64) (map fst items0) (stream0 False) = Some (q', True)"
    "oc_contents q' = ic_rest received0" using run1 by blast
  have p: "ic_rd_ptr received0 mod 8 = 0" "ic_good_bit received0"
    by (simp_all add: received0_def input_cdr_on_buffer_def ic_rd_ptr_def bk_rd_ptr_def)
  have t: "\<forall>it \<in> set items0. target_ok (blocks0(8 \<mapsto> (4, 24))) {8} it"
    by (simp add: items0_def target_ok_def foreign_def blocks0_def)
  have sw: "(write_swaps (config_on le64) (stream0 False) \<noteq> read_swaps (config_on be32) received0) =
      (little_endian (cf_platform (config_on le64)) \<noteq> little_endian (cf_platform (config_on be32)))"
    by (simp add: write_swaps_def read_swaps_def config_on_def le64_def be32_def received0_def input_cdr_on_buffer_def)
  obtain p' vs r where r: "read_items (static_ops 4) (config_on be32) items0 received0 = (p', vs, r)"
    "if r then vs = map (received (cf_platform (config_on le64)) (cf_platform (config_on be32)) (oc_mem (stream0 False)) \<circ> fst) items0 \<and>
       ic_rest p' = [] else no_memory (static_ops 4) p'"
    using cdr_interchange [OF cp.cdr_memory_axioms [of 4] B(1) _ ok k w(1) cp.cdr_memory_axioms [of 4] received0_inv
      w(2) [symmetric] p t sw] by auto
  have "r" using run2 r(1) by simp
  then have "vs = [V_octet 7, V_ulong 258, V_bytes [137, 136, 139, 138, 141, 140]]"
    using r(2) by (simp add: items0_def received_def config_on_def le64_def be32_def array_wire_def mem_read_def upt_conv_Cons swapped_pairs)
  then show ?thesis using w r(1) \<open>r\<close> by (intro exI [of _ q'] exI [of _ p']) simp
qed


theorem swap_arrays_correct_witness:
  "\<exists>m'. swap_array be32 2 of_nat 1 100 7 = Some m' \<and>
     mem_read m' 100 14 = [2, 1, 4, 3, 6, 5, 8, 7, 10, 9, 12, 11, 14, 13]"
proof -
  obtain m' where m: "swap_array be32 2 of_nat 1 100 7 = Some m'"
    "m' = mem_write of_nat 100 (swapped 2 (mem_read of_nat 1 (2 * 7)))"
    using swap_arrays_correct [of 2 7 1 100 200 be32 of_nat] by (auto simp: separate_def)
  have s: "swapped 2 (mem_read of_nat 1 (2 * 7)) = [2, 1, 4, 3, 6, 5, 8, 7, 10, 9, 12, 11, 14, 13]"
    by (simp add: mem_read_def upt_conv_Cons swapped_pairs)
  have "mem_read m' 100 14 = [2, 1, 4, 3, 6, 5, 8, 7, 10, 9, 12, 11, 14, 13]"
    unfolding m(2) s by (rule mem_read_here) simp
  then show ?thesis using m(1) by blast
qed

theorem first_size_correct_witness:
  "\<exists>s. next_size 100000 = Some s \<and> 100000 < unat s \<and> unat s \<le> 231072"
proof -
  obtain s where "next_size 100000 = Some s" "100000 < s" "unat s \<le> unat (100000 :: 64 word) + 131072"
    using first_size_correct [of 100000] by auto
  then show ?thesis by (auto simp: word_less_nat_alt)
qed

text \<open>A first block of 24 bytes that is full, with the current size at 16, and a second block of four bytes.\<close>

definition pools2 :: static_pools where
  "pools2 = pools0(4 := static_init 8 2000\<lparr>sa_offset := 536\<rparr>)"

definition block1 :: mblk where
  "block1 = \<lparr>bk_base = 8, bk_max_size = 24, bk_cur_size = 16, bk_rd = 0, bk_wr = 24, bk_dont_delete = False, bk_allocator = 4\<rparr>"

definition block2 :: mblk where
  "block2 = \<lparr>bk_base = 32, bk_max_size = 512, bk_cur_size = 512, bk_rd = 0, bk_wr = 4, bk_dont_delete = False, bk_allocator = 4\<rparr>"

definition stream2 :: "static_pools output_cdr" where
  "stream2 = (stream0 True)\<lparr>oc_heap := pools2, oc_before := [block1], oc_current := block2, oc_alignment := 28\<rparr>"

lemma stream2_inv: "oc_inv low_pools stream2 (blocks0(8 \<mapsto> (4, 24), 32 \<mapsto> (4, 512)))"
proof -
  have "low_pools pools2 (blocks0(8 \<mapsto> (4, 24), 32 \<mapsto> (4, 512)))"
    by (auto simp: low_pools_def pool_inv_def pools2_def pools0_def blocks0_def static_init_def apart_def split: if_splits)
  then show ?thesis
    by (simp add: oc_inv_def stream2_def stream0_unfold oc_begin_end_def blk_ok_def block1_def block2_def bk_wr_ptr_def
      total_length_def bk_length_def)
qed

lemma stream2_contents: "oc_contents stream2 = map of_nat [8..<36]"
  by (simp add: stream2_def stream0_unfold oc_contents_def oc_begin_end_def mem_contents_def mem_read_def block1_def block2_def
    bk_rd_ptr_def bk_length_def upt_conv_Cons)

lemma run3: "\<exists>q'. oc_consolidate (static_ops 4) stream2 = Some (q', 0) \<and> bk_rd_ptr (oc_current q') = 544"
  by (simp add: oc_consolidate_def stream2_def stream0_unfold oc_begin_end_def total_length_def bk_length_def block1_def block2_def
    oc_start_def oc_chain_def MAX_ALIGNMENT_def first_size_eq bk_set_size_def static_ops_def static_malloc_def pools2_def static_init_def
    bk_copy_def bk_space_def bk_mark_def bk_wr_ptr_def bk_rd_ptr_def)

theorem consolidate_correct_witness:
  "\<exists>q'. oc_consolidate (static_ops 4) stream2 = Some (q', 0) \<and>
     oc_contents q' = map of_nat [8..<24] @ map of_nat [560..<568] @ map of_nat [32..<36]"
proof -
  have b: "oc_begin_end stream2 = block1 # [block2]" by (simp add: oc_begin_end_def stream2_def)
  have l: "length (oc_contents stream2) < 2 ^ 60" by (simp add: stream2_contents)
  have s: "\<not> bk_dont_delete block1" "bk_rd block1 < 8" "bk_rd block1 \<le> bk_cur_size block1" "bk_cur_size block1 \<le> bk_max_size block1"
    "min (bk_cur_size block1) (bk_wr block1) - bk_rd block1 = 16" "bk_length block1 = 24"
    by (simp_all add: block1_def bk_length_def)
  obtain q1 where q1: "oc_consolidate (static_ops 4) stream2 = Some (q1, 0)" "bk_rd_ptr (oc_current q1) = 544" using run3 by blast
  have m: "oc_mem stream2 = of_nat" by (simp add: stream2_def stream0_unfold)
  from consolidate_correct [OF cp.cdr_memory_axioms [of 4] stream2_inv b _ s(1-4) l] q1
  have "oc_contents q1 = take 16 (oc_contents stream2) @ mem_read (oc_mem stream2) 560 8 @ drop 24 (oc_contents stream2)"
    by (simp add: s(5,6))
  also have "\<dots> = map of_nat [8..<24] @ map of_nat [560..<568] @ map of_nat [32..<36]"
    unfolding stream2_contents m by (simp add: take_map drop_map mem_read_def)
  finally show ?thesis using q1(1) by blast
qed


end
