(* ===== verification/ACE_CDR_Reset.thy ===== *)
theory ACE_CDR_Reset
  imports ACE_CDR_Props
begin


section \<open>Copying a chain into another block\<close>




section \<open>Properties\<close>


section \<open>A concrete stream\<close>





end
