(* ===== verification/ACE_Codecs.thy ===== *)
theory ACE_Codecs
  imports ACE_Prelude
begin

text \<open>
  \<^verbatim>\<open>ACE_Base64\<close> (\<^verbatim>\<open>ace/Codecs.cpp\<close>): encoding bytes in the Base64 alphabet of RFC 2045 and
  decoding them again.

  A byte is an \<open>8 word\<close>; the accumulator \<open>bits\<close>, a C \<open>int\<close>, is an integer that the proofs bound by
  \<open>2 ^ 24\<close>. An output buffer is the list of the bytes written so far with its capacity; a write past
  the capacity, an index outside the alphabet or a read past the end of the input is the error
  \<open>Out_Of_Bounds\<close>, which the theorems exclude.
\<close>

unbundle bit_operations_syntax

section \<open>The alphabet and the tables\<close>

datatype b64_error = Null_Input | Out_Of_Bounds | Bits_Truncated int | Bits_Missing

type_synonym 'a b64_result = "b64_error + 'a"

definition alphabet :: "byte list" where
  "alphabet = map (\<lambda>c. of_nat (of_char c))
     ''ABCDEFGHIJKLMNOPQRSTUVWXYZabcdefghijklmnopqrstuvwxyz0123456789+/''"

definition pad :: byte where
  "pad = 0x3D"

definition max_columns :: nat where
  "max_columns = 72"

text \<open>The loop of \<open>init\<close> runs over \<open>sizeof (alphabet)\<close> entries, the terminating zero included.\<close>

definition decoder_init :: "byte list" where
  "decoder_init = fold (\<lambda>i d. d[unat ((alphabet @ [0]) ! i) := of_nat i]) [0..<65] (replicate 256 0)"

definition member_init :: "byte list" where
  "member_init = fold (\<lambda>i m. m[unat ((alphabet @ [0]) ! i) := 1]) [0..<65] (replicate 256 0)"

definition b64_member :: "byte \<Rightarrow> bool" where
  "b64_member b \<longleftrightarrow> member_init ! unat b = 1"

definition b64_decoder :: "byte \<Rightarrow> int" where
  "b64_decoder b = uint (decoder_init ! unat b)"

text \<open>\<open>ACE_OS::ace_isspace\<close> in the C locale.\<close>

definition ace_isspace :: "byte \<Rightarrow> bool" where
  "ace_isspace b \<longleftrightarrow> b = 32 \<or> 9 \<le> b \<and> b \<le> 13"

section \<open>Encoding\<close>

fun bind_result :: "'a b64_result \<Rightarrow> ('a \<Rightarrow> 'b b64_result) \<Rightarrow> 'b b64_result" where
  "bind_result (Inl e) f = Inl e"
| "bind_result (Inr a) f = f a"

text \<open>\<open>result[pos++] = b\<close>, and \<open>alphabet[i]\<close>.\<close>

definition put_byte :: "nat \<Rightarrow> byte \<Rightarrow> byte list \<Rightarrow> byte list b64_result" where
  "put_byte cap b out = (if List.length out < cap then Inr (out @ [b]) else Inl Out_Of_Bounds)"

definition put_symbol :: "nat \<Rightarrow> int \<Rightarrow> byte list \<Rightarrow> byte list b64_result" where
  "put_symbol cap i out =
     (if 0 \<le> i \<and> i < 65 then put_byte cap ((alphabet @ [0]) ! nat i) out else Inl Out_Of_Bounds)"

definition encode_length :: "nat \<Rightarrow> nat" where
  "encode_length input_len =
     (let len = ((input_len + 2) div 3) * 4; num_lines = len div max_columns + 1 in len + (num_lines + 1))"

text \<open>The state of the loop: \<open>bits\<close>, \<open>char_count\<close>, \<open>cols\<close> and the output.\<close>

fun encode_loop ::
  "nat \<Rightarrow> bool \<Rightarrow> byte list \<Rightarrow> int \<Rightarrow> nat \<Rightarrow> nat \<Rightarrow> byte list \<Rightarrow> (int \<times> nat \<times> nat \<times> byte list) b64_result" where
  "encode_loop cap is_chunked [] bits char_count cols out = Inr (bits, char_count, cols, out)"
| "encode_loop cap is_chunked (b # input) bits char_count cols out =
     (let bits = bits + uint b; char_count = char_count + 1
      in if char_count = 3
         then bind_result (put_symbol cap (drop_bit 18 bits) out) (\<lambda>out.
              bind_result (put_symbol cap (drop_bit 12 bits AND 0x3F) out) (\<lambda>out.
              bind_result (put_symbol cap (drop_bit 6 bits AND 0x3F) out) (\<lambda>out.
              bind_result (put_symbol cap (bits AND 0x3F) out) (\<lambda>out.
              let cols = cols + 4
              in if cols = max_columns
                 then bind_result (if is_chunked then put_byte cap 10 out else Inr out)
                        (encode_loop cap is_chunked input 0 0 0)
                 else encode_loop cap is_chunked input 0 0 cols out))))
         else encode_loop cap is_chunked input (push_bit 8 bits) char_count cols out)"

definition encode_rest :: "nat \<Rightarrow> int \<Rightarrow> nat \<Rightarrow> nat \<Rightarrow> byte list \<Rightarrow> (nat \<times> byte list) b64_result" where
  "encode_rest cap bits char_count cols out =
     (if char_count \<noteq> 0
      then let bits = push_bit (16 - 8 * char_count) bits
           in bind_result (put_symbol cap (drop_bit 18 bits) out) (\<lambda>out.
              bind_result (put_symbol cap (drop_bit 12 bits AND 0x3F) out) (\<lambda>out.
              bind_result (if char_count = 1 then put_byte cap pad out
                           else put_symbol cap (drop_bit 6 bits AND 0x3F) out) (\<lambda>out.
              bind_result (put_byte cap pad out) (\<lambda>out. Inr (cols + 2 + 2, out)))))
      else Inr (cols, out))"

text \<open>The result: the bytes written, with the terminating zero, and \<open>*output_len\<close>.\<close>

definition b64_encode :: "byte list option \<Rightarrow> bool \<Rightarrow> (byte list \<times> nat) b64_result" where
  "b64_encode input is_chunked =
     (case input of None \<Rightarrow> Inl Null_Input
      | Some bytes \<Rightarrow>
          let cap = encode_length (List.length bytes)
          in bind_result (encode_loop cap is_chunked bytes 0 0 0 []) (\<lambda>(bits, char_count, cols, out).
             bind_result (encode_rest cap bits char_count cols out) (\<lambda>(cols, out).
             bind_result (if cols > 0 \<and> is_chunked then put_byte cap 10 out else Inr out) (\<lambda>out.
             bind_result (put_byte cap 0 out) (\<lambda>buf. Inr (buf, List.length out))))))"

section \<open>Decoding\<close>

text \<open>The number of leading bytes that are symbols, padding or white space, up to a zero byte.\<close>

fun b64_scan :: "byte list \<Rightarrow> nat b64_result" where
  "b64_scan [] = Inl Out_Of_Bounds"
| "b64_scan (b # input) =
     (if b \<noteq> 0 \<and> (b64_member b \<or> b = pad \<or> ace_isspace b)
      then bind_result (b64_scan input) (\<lambda>n. Inr (n + 1)) else Inr 0)"

definition b64_length :: "byte list \<Rightarrow> nat b64_result" where
  "b64_length input = bind_result (b64_scan input) (\<lambda>len. Inr (((len + 3) div 4) * 3 + 1))"

text \<open>The loop stops at the padding or at the end; the flag says which.\<close>

fun decode_loop :: "nat \<Rightarrow> byte list \<Rightarrow> int \<Rightarrow> nat \<Rightarrow> byte list \<Rightarrow> (bool \<times> int \<times> nat \<times> byte list) b64_result" where
  "decode_loop cap [] bits char_count out = Inr (True, bits, char_count, out)"
| "decode_loop cap (b # input) bits char_count out =
     (if b = pad then Inr (False, bits, char_count, out)
      else if \<not> b64_member b then decode_loop cap input bits char_count out
      else let bits = bits + b64_decoder b; char_count = char_count + 1
        in if char_count = 4
           then bind_result (put_byte cap (of_int (drop_bit 16 bits)) out) (\<lambda>out.
                bind_result (put_byte cap (of_int (drop_bit 8 bits AND 0xFF)) out) (\<lambda>out.
                bind_result (put_byte cap (of_int (bits AND 0xFF)) out) (\<lambda>out.
                decode_loop cap input 0 0 out)))
           else decode_loop cap input (push_bit 6 bits) char_count out)"

definition decode_rest :: "nat \<Rightarrow> bool \<Rightarrow> int \<Rightarrow> nat \<Rightarrow> byte list \<Rightarrow> byte list b64_result" where
  "decode_rest cap at_end bits char_count out =
     (if at_end then (if char_count \<noteq> 0 then Inl (Bits_Truncated ((4 - int char_count) * 6)) else Inr out)
      else if char_count = 1 then Inl Bits_Missing
      else if char_count = 2 then put_byte cap (of_int (drop_bit 10 bits)) out
      else if char_count = 3
      then bind_result (put_byte cap (of_int (drop_bit 16 bits)) out)
             (put_byte cap (of_int (drop_bit 8 bits AND 0xFF)))
      else Inr out)"

definition b64_decode :: "byte list option \<Rightarrow> (byte list \<times> nat) b64_result" where
  "b64_decode input =
     (case input of None \<Rightarrow> Inl Null_Input
      | Some bytes \<Rightarrow>
          bind_result (b64_length bytes) (\<lambda>cap.
          bind_result (b64_scan bytes) (\<lambda>input_len.
          bind_result (decode_loop cap (take input_len bytes) 0 0 []) (\<lambda>(at_end, bits, char_count, out).
          bind_result (decode_rest cap at_end bits char_count out) (\<lambda>out.
          bind_result (put_byte cap 0 out) (\<lambda>buf. Inr (buf, List.length out)))))))"

section \<open>The tables invert the alphabet\<close>

lemma fold_update_other:
  "k \<notin> set (map g is) \<Longrightarrow> fold (\<lambda>i d. d[g i := f i]) is d ! k = d ! k"
  by (induction "is" arbitrary: d) auto

lemma length_fold_update: "List.length (fold (\<lambda>i d. d[g i := f i]) is d) = List.length d"
  by (induction "is" arbitrary: d) auto

lemma fold_update_at:
  "distinct (map g is) \<Longrightarrow> i \<in> set is \<Longrightarrow> g i < List.length d \<Longrightarrow> fold (\<lambda>i d. d[g i := f i]) is d ! g i = f i"
proof (induction "is" arbitrary: d)
  case (Cons j js)
  show ?case
  proof (cases "i = j")
    case True
    then have "g i \<notin> set (map g js)" using Cons.prems(1) by simp
    from fold_update_other [OF this, of f "d[g j := f j]"] show ?thesis using True Cons.prems(3) by simp
  next
    case False
    then show ?thesis using Cons by simp
  qed
qed simp

lemma byte_less: "unat (b::byte) < 256"
proof -
  have "uint b < 256" using uint_bounded [of b] by simp
  moreover have "int (unat b) = uint b" by simp
  ultimately show ?thesis by linarith
qed

lemma alphabet_length: "List.length alphabet = 64"
  by (simp add: alphabet_def)

lemma alphabet_codes: "map unat (alphabet @ [0]) = map of_char
   ''ABCDEFGHIJKLMNOPQRSTUVWXYZabcdefghijklmnopqrstuvwxyz0123456789+/'' @ [0]"
  by (simp add: alphabet_def)

lemma alphabet_distinct: "distinct (map unat (alphabet @ [0]))"
  unfolding alphabet_codes by code_simp

lemma alphabet_index_distinct: "distinct (map (\<lambda>i. unat ((alphabet @ [0]) ! i)) [0..<65])"
proof -
  have "map (\<lambda>i. unat ((alphabet @ [0]) ! i)) [0..<65] = map unat (alphabet @ [0])"
    by (rule nth_equalityI) (simp_all add: alphabet_length nth_append)
  then show ?thesis using alphabet_distinct by simp
qed

definition symbol :: "int \<Rightarrow> byte" where
  "symbol i = (alphabet @ [0]) ! nat i"

lemma symbol_decoder:
  assumes "0 \<le> i" "i < 65"
  shows "b64_decoder (symbol i) = i" "b64_member (symbol i)"
proof -
  have i: "nat i \<in> set [0..<65]" using assms by auto
  have "unat ((alphabet @ [0]) ! nat i) < List.length (replicate 256 (0::byte))"
    using byte_less [of "(alphabet @ [0]) ! nat i"] by simp
  note at = fold_update_at [OF alphabet_index_distinct i this]
  have "decoder_init ! unat (symbol i) = of_nat (nat i)" "member_init ! unat (symbol i) = 1"
    unfolding decoder_init_def member_init_def symbol_def by (rule at)+
  then show "b64_decoder (symbol i) = i" "b64_member (symbol i)"
    using assms by (simp_all add: b64_decoder_def b64_member_def unsigned_of_int take_bit_int_eq_self)
qed

lemma symbol_nonzero:
  assumes "0 \<le> i" "i < 64"
  shows "symbol i \<noteq> 0" "symbol i \<noteq> pad"
proof -
  have "symbol i \<in> set alphabet" using assms by (simp add: symbol_def alphabet_length nth_append nat_less_iff)
  moreover have "0 \<notin> set alphabet" "pad \<notin> set alphabet" by (simp_all add: alphabet_def pad_def)
  ultimately show "symbol i \<noteq> 0" "symbol i \<noteq> pad" by metis+
qed

lemma not_member:
  assumes "b \<noteq> 0" "b \<notin> set alphabet"
  shows "\<not> b64_member b"
proof -
  have "unat b \<notin> set (map (\<lambda>i. unat ((alphabet @ [0]) ! i)) [0..<65])"
  proof
    assume "unat b \<in> set (map (\<lambda>i. unat ((alphabet @ [0]) ! i)) [0..<65])"
    then obtain i where i: "i < 65" "b = (alphabet @ [0]) ! i" by (auto dest: word_unat_eq_iff [THEN iffD2])
    have "(alphabet @ [0]) ! i \<in> set (alphabet @ [0])" using i(1) by (intro nth_mem) (simp add: alphabet_length)
    then show False using assms i(2) by auto
  qed
  from fold_update_other [OF this, of "\<lambda>_. 1" "replicate 256 (0::byte)"] show ?thesis
    using byte_less [of b] by (simp add: b64_member_def member_init_def)
qed

lemma newline_skipped: "\<not> b64_member 10" "(10::byte) \<noteq> pad" "ace_isspace 10"
  by (rule not_member) (simp_all add: alphabet_def pad_def ace_isspace_def)

lemma pad_not_member: "\<not> b64_member pad"
  by (rule not_member) (simp_all add: alphabet_def pad_def)

section \<open>The encoding as RFC 2045 describes it\<close>

text \<open>Groups of three bytes, each split into four symbols of six bits; the last group is padded.\<close>

fun b64_groups :: "byte list \<Rightarrow> byte list list" where
  "b64_groups [] = []"
| "b64_groups [a] = [[symbol (uint a div 4), symbol (uint a mod 4 * 16), pad, pad]]"
| "b64_groups [a, b] = [[symbol (uint a div 4), symbol (uint a mod 4 * 16 + uint b div 16),
     symbol (uint b mod 16 * 4), pad]]"
| "b64_groups (a # b # c # r) =
     [symbol (uint a div 4), symbol (uint a mod 4 * 16 + uint b div 16),
      symbol (uint b mod 16 * 4 + uint c div 64), symbol (uint c mod 64)] # b64_groups r"

text \<open>The groups on lines of \<open>max_columns\<close> characters, each line ended if the output is chunked.\<close>

fun b64_lines :: "bool \<Rightarrow> nat \<Rightarrow> byte list list \<Rightarrow> byte list" where
  "b64_lines chunked cols [] = (if cols > 0 \<and> chunked then [10] else [])"
| "b64_lines chunked cols (g # gs) =
     g @ (if cols + 4 = max_columns then (if chunked then [10] else []) @ b64_lines chunked 0 gs
          else b64_lines chunked (cols + 4) gs)"

definition b64_text :: "bool \<Rightarrow> byte list \<Rightarrow> byte list" where
  "b64_text chunked bytes = b64_lines chunked 0 (b64_groups bytes)"

text \<open>The accumulator of 24 bits, cut into symbols and into bytes.\<close>

lemma cut_bits:
  fixes a b c :: int
  assumes "0 \<le> a" "a < 256" "0 \<le> b" "b < 256" "0 \<le> c" "c < 256"
  defines "N \<equiv> a * 65536 + b * 256 + c"
  shows "N div 262144 = a div 4" "N div 4096 mod 64 = a mod 4 * 16 + b div 16"
    and "N div 64 mod 64 = b mod 16 * 4 + c div 64" "N mod 64 = c mod 64"
    and "N div 65536 = a" "N div 256 mod 256 = b" "N mod 256 = c"
proof -
  define p q r s t u where "p = a div 4" and "q = a mod 4" and "r = b div 16" and "s = b mod 16"
    and "t = c div 64" and "u = c mod 64"
  have d: "a = 4 * p + q" "b = 16 * r + s" "c = 64 * t + u"
    by (simp_all add: p_def q_def r_def s_def t_def u_def)
  have b: "0 \<le> q" "q < 4" "0 \<le> s" "s < 16" "0 \<le> u" "u < 64" "0 \<le> p" "0 \<le> r" "0 \<le> t" "p < 64" "r < 16" "t < 4"
    using assms by (simp_all add: p_def q_def r_def s_def t_def u_def)
  have N: "N = 262144 * p + 4096 * (16 * q + r) + 64 * (4 * s + t) + u" by (simp add: N_def d)
  show "N div 262144 = a div 4" unfolding p_def [symmetric]
    by (rule int_div_pos_eq [where r = "4096 * (16 * q + r) + 64 * (4 * s + t) + u"]) (use N b in auto)
  have "N div 4096 = 64 * p + (16 * q + r)"
    by (rule int_div_pos_eq [where r = "64 * (4 * s + t) + u"]) (use N b in auto)
  moreover have "(64 * p + (16 * q + r)) mod 64 = 16 * q + r"
    by (rule int_mod_pos_eq [where q = p]) (use b in auto)
  ultimately show "N div 4096 mod 64 = a mod 4 * 16 + b div 16" by (simp add: q_def r_def)
  have "N div 64 = 64 * (64 * p + (16 * q + r)) + (4 * s + t)"
    by (rule int_div_pos_eq [where r = u]) (use N b in auto)
  moreover have "(64 * (64 * p + (16 * q + r)) + (4 * s + t)) mod 64 = 4 * s + t"
    by (rule int_mod_pos_eq [where q = "64 * p + (16 * q + r)"]) (use b in auto)
  ultimately show "N div 64 mod 64 = b mod 16 * 4 + c div 64" by (simp add: s_def t_def)
  show "N mod 64 = c mod 64" unfolding u_def [symmetric]
    by (rule int_mod_pos_eq [where q = "4096 * p + 64 * (16 * q + r) + (4 * s + t)"]) (use N b in auto)
  show "N div 65536 = a" by (rule int_div_pos_eq [where r = "b * 256 + c"]) (use assms in auto)
  have "N div 256 = 256 * a + b" by (rule int_div_pos_eq [where r = c]) (use assms in auto)
  moreover have "(256 * a + b) mod 256 = b" by (rule int_mod_pos_eq [where q = a]) (use assms in auto)
  ultimately show "N div 256 mod 256 = b" by simp
  show "N mod 256 = c" by (rule int_mod_pos_eq [where q = "a * 256 + b"]) (use assms in auto)
qed

lemma byte_bounds: "0 \<le> uint (b::byte)" "uint b < 256"
  using uint_bounded [of b] by simp_all

lemma bit_ops:
  "drop_bit 18 x = x div 262144" "drop_bit 12 x = x div 4096"
  "drop_bit 6 x = x div 64" "x AND 0x3F = x mod 64"
  "drop_bit 16 x = x div 65536" "drop_bit 8 x = x div 256" "x AND 0xFF = x mod 256"
  "drop_bit 10 x = x div 1024" "push_bit 8 x = x * 256" "push_bit 6 x = x * 64" "push_bit 0 x = x"
  for x :: int
proof -
  have m: "x AND 63 = x mod 64" "x AND 255 = x mod 256" for x :: int
    using take_bit_eq_mask [of 6 x] take_bit_eq_mask [of 8 x]
    by (simp_all add: take_bit_eq_mod mask_eq_exp_minus_1)
  show "drop_bit 18 x = x div 262144" "drop_bit 12 x = x div 4096"
    "drop_bit 6 x = x div 64" "x AND 0x3F = x mod 64"
    "drop_bit 16 x = x div 65536" "drop_bit 8 x = x div 256" "x AND 0xFF = x mod 256"
    "drop_bit 10 x = x div 1024" "push_bit 8 x = x * 256" "push_bit 6 x = x * 64" "push_bit 0 x = x"
    by (simp_all add: m drop_bit_eq_div push_bit_eq_mult)
qed

section \<open>Encoding is correct and stays in its buffer\<close>

lemma put_ok:
  "List.length out < cap \<Longrightarrow> put_byte cap b out = Inr (out @ [b])"
  "List.length out < cap \<Longrightarrow> 0 \<le> i \<Longrightarrow> i < 65 \<Longrightarrow> put_symbol cap i out = Inr (out @ [symbol i])"
  by (simp_all add: put_byte_def put_symbol_def symbol_def)

lemma shift_join: "((x::int) * 256 + y) * 256 = x * 65536 + y * 256"
  "(x * 256 + y) * 256 + z = x * 65536 + y * 256 + z" "x * 256 * 256 = x * 65536"
  by simp_all

lemma int_symbol_range:
  fixes x y :: int
  assumes "0 \<le> x" "x < 256" "0 \<le> y" "y < 256"
  shows "0 \<le> x div 4" "x div 4 < 64" "0 \<le> x mod 4 * 16 + y div 16" "x mod 4 * 16 + y div 16 < 64"
    and "0 \<le> x mod 16 * 4 + y div 64" "x mod 16 * 4 + y div 64 < 64" "0 \<le> x mod 64" "x mod 64 < 64"
    and "0 \<le> x mod 4 * 16" "x mod 4 * 16 < 64" "0 \<le> x mod 16 * 4" "x mod 16 * 4 < 64"
proof -
  have m: "0 \<le> x mod 4" "x mod 4 < 4" "0 \<le> x mod 16" "x mod 16 < 16" by simp_all
  have d: "0 \<le> x div 4" "x div 4 < 64" "0 \<le> y div 16" "y div 16 < 16" "0 \<le> y div 64" "y div 64 < 4"
    using assms by simp_all
  have j: "0 \<le> v * 16 + w \<and> v * 16 + w < 64" if "0 \<le> v" "v < 4" "0 \<le> w" "w < 16" for v w :: int
    using that by linarith
  have k: "0 \<le> v * 4 + w \<and> v * 4 + w < 64" if "0 \<le> v" "v < 16" "0 \<le> w" "w < 4" for v w :: int
    using that by linarith
  show "0 \<le> x div 4" "x div 4 < 64" by (fact d)+
  show "0 \<le> x mod 4 * 16 + y div 16" "x mod 4 * 16 + y div 16 < 64" using j [OF m(1,2) d(3,4)] by blast+
  show "0 \<le> x mod 16 * 4 + y div 64" "x mod 16 * 4 + y div 64 < 64" using k [OF m(3,4) d(5,6)] by blast+
  show "0 \<le> x mod 64" "x mod 64 < 64" by simp_all
  show "0 \<le> x mod 4 * 16" "x mod 4 * 16 < 64" using j [OF m(1,2), of 0] by simp_all
  show "0 \<le> x mod 16 * 4" "x mod 16 * 4 < 64" using k [OF m(3,4), of 0] by simp_all
qed

lemmas symbol_range = int_symbol_range [OF byte_bounds byte_bounds]

lemma put_symbol_ok:
  "List.length out < cap \<Longrightarrow> 0 \<le> i \<Longrightarrow> i < 64 \<Longrightarrow> put_symbol cap i out = Inr (out @ [symbol i])"
  by (simp add: put_ok)

lemma encode_triple:
  assumes "List.length out + 5 \<le> cap \<or> List.length out + 4 \<le> cap \<and> \<not> (cols + 4 = max_columns \<and> ch)"
  shows "encode_loop cap ch (a # b # c # r) 0 0 cols out =
    (let out' = out @ [symbol (uint a div 4), symbol (uint a mod 4 * 16 + uint b div 16),
      symbol (uint b mod 16 * 4 + uint c div 64), symbol (uint c mod 64)]
     in if cols + 4 = max_columns then encode_loop cap ch r 0 0 0 (out' @ (if ch then [10] else []))
        else encode_loop cap ch r 0 0 (cols + 4) out')"
proof -
  note B = byte_bounds [of a] byte_bounds [of b] byte_bounds [of c]
  note cut = cut_bits [OF B]
  have len: "List.length out < cap" "Suc (List.length out) < cap" "Suc (Suc (List.length out)) < cap"
    "Suc (Suc (Suc (List.length out))) < cap" using assms by auto
  have nl: "Suc (Suc (Suc (Suc (List.length out)))) < cap" if "cols + 4 = max_columns" "ch"
    using assms that by auto
  show ?thesis
    using len nl
    by (simp add: Let_def bit_ops shift_join cut put_ok(1) put_symbol_ok symbol_range max_columns_def)
qed

text \<open>The rest of \<open>encode\<close> after the loop, but for the terminating zero.\<close>

definition encode_all :: "nat \<Rightarrow> bool \<Rightarrow> byte list \<Rightarrow> nat \<Rightarrow> byte list \<Rightarrow> byte list b64_result" where
  "encode_all cap ch bytes cols out =
     bind_result (encode_loop cap ch bytes 0 0 cols out) (\<lambda>(bits, char_count, cols, out).
     bind_result (encode_rest cap bits char_count cols out) (\<lambda>(cols, out).
     if cols > 0 \<and> ch then put_byte cap 10 out else Inr out))"

lemma encode_all_correct:
  "List.length out + List.length (b64_lines ch cols (b64_groups bytes)) < cap \<Longrightarrow>
   encode_all cap ch bytes cols out = Inr (out @ b64_lines ch cols (b64_groups bytes))"
proof (induction bytes arbitrary: cols out rule: b64_groups.induct)
  case 1
  then show ?case by (auto simp: encode_all_def encode_rest_def put_ok)
next
  case (2 a)
  note cut = cut_bits [OF byte_bounds [of a], of 0 0]
  have len: "List.length out < cap" "Suc (List.length out) < cap" "Suc (Suc (List.length out)) < cap"
    "Suc (Suc (Suc (List.length out))) < cap" "ch \<Longrightarrow> Suc (Suc (Suc (Suc (List.length out)))) < cap"
    using 2 by (auto split: if_splits)
  show ?case
    using len cut
    by (simp add: encode_all_def encode_rest_def Let_def bit_ops shift_join put_ok(1) put_symbol_ok symbol_range)
next
  case (3 a b)
  have cut: "(uint a * 65536 + uint b * 256) div 262144 = uint a div 4"
    "(uint a * 65536 + uint b * 256) div 4096 mod 64 = uint a mod 4 * 16 + uint b div 16"
    "(uint a * 65536 + uint b * 256) div 64 mod 64 = uint b mod 16 * 4"
    using cut_bits(1-3) [OF byte_bounds [of a] byte_bounds [of b], of 0]
    by (simp_all only: add_0_right div_0 order.refl zero_less_numeral simp_thms)
  have len: "List.length out < cap" "Suc (List.length out) < cap" "Suc (Suc (List.length out)) < cap"
    "Suc (Suc (Suc (List.length out))) < cap" "ch \<Longrightarrow> Suc (Suc (Suc (Suc (List.length out)))) < cap"
    using 3 by (auto split: if_splits)
  have "(1024 * x + 4 * y) mod 64 = y mod 16 * 4" for x y :: int
  proof -
    have "(1024 * x + 4 * y) mod 64 = (4 * (y + 16 * x * 16)) mod (4 * 16)" by (simp add: algebra_simps)
    also have "\<dots> = 4 * ((y + 16 * x * 16) mod 16)" by (rule mult_mod_right [symmetric])
    also have "(y + 16 * x * 16) mod 16 = y mod 16" by (rule mod_mult_self1)
    finally show ?thesis by simp
  qed
  then show ?case
    using len
    by (simp add: cut encode_all_def encode_rest_def Let_def bit_ops shift_join put_ok(1) put_symbol_ok symbol_range)
next
  case (4 a b c r)
  have len: "List.length out + 5 \<le> cap \<or> List.length out + 4 \<le> cap \<and> \<not> (cols + 4 = max_columns \<and> ch)"
    using "4.prems" by (auto split: if_splits)
  show ?case using "4.prems" "4.IH" unfolding encode_all_def encode_triple [OF len]
    by (auto simp: Let_def split: if_splits)
qed

lemma groups_count: "List.length (b64_groups bytes) = (List.length bytes + 2) div 3"
  by (induction bytes rule: b64_groups.induct) auto

lemma groups_four: "\<forall>g\<in>set (b64_groups bytes). List.length g = 4"
  by (induction bytes rule: b64_groups.induct) auto

lemma lines_length:
  assumes "\<forall>g\<in>set gs. List.length g = 4" "k < 18"
  shows "List.length (b64_lines ch (4 * k) gs) \<le> 4 * List.length gs + (k + List.length gs) div 18 + 1"
  using assms
proof (induction gs arbitrary: k)
  case (Cons g gs)
  show ?case
  proof (cases "k = 17")
    case True
    then show ?thesis using Cons.IH [of 0] Cons.prems by (auto simp: max_columns_def)
  next
    case False
    then have "List.length (b64_lines ch (4 * (k + 1)) gs) \<le> 4 * List.length gs + (k + 1 + List.length gs) div 18 + 1"
      using Cons.prems by (intro Cons.IH) auto
    moreover have "4 * k + 4 \<noteq> max_columns" using False by (simp add: max_columns_def)
    ultimately show ?thesis using Cons.prems(1) by (simp add: add.commute)
  qed
qed auto

lemma text_fits: "List.length (b64_text ch bytes) + 1 \<le> encode_length (List.length bytes)"
  using lines_length [OF groups_four, of 0 ch bytes]
  by (simp add: b64_text_def encode_length_def groups_count max_columns_def Let_def div_mult2_eq [symmetric]
      mult.commute [of 4] div_mult_mult2 [of 4 _ 18, simplified])

lemma text_long: "4 * ((List.length bytes + 2) div 3) \<le> List.length (b64_text ch bytes)"
proof -
  have "4 * List.length gs \<le> List.length (b64_lines ch cols gs)" if "\<forall>g\<in>set gs. List.length g = 4" for gs cols
    using that by (induction gs arbitrary: cols) (auto simp: trans_le_add2)
  from this [OF groups_four] show ?thesis unfolding b64_text_def groups_count [symmetric] by blast
qed

section \<open>Decoding what was encoded\<close>

lemma scan_text:
  assumes "\<forall>b\<in>set bs. b \<noteq> 0 \<and> (b64_member b \<or> b = pad \<or> ace_isspace b)"
  shows "b64_scan (bs @ [0]) = Inr (List.length bs)"
  using assms by (induction bs) auto

lemma groups_symbols:
  "\<forall>g\<in>set (b64_groups bytes). \<forall>b\<in>set g. b \<noteq> 0 \<and> (b64_member b \<or> b = pad)"
proof -
  have p: "pad \<noteq> 0" by (simp add: pad_def)
  have s: "symbol i \<noteq> 0 \<and> b64_member (symbol i)" if "0 \<le> i" "i < 64" for i
    using symbol_nonzero [OF that] symbol_decoder [of i] that by simp
  show ?thesis
    by (induction bytes rule: b64_groups.induct) (simp_all add: p s symbol_range)
qed

lemma text_scannable: "\<forall>b\<in>set (b64_text ch bytes). b \<noteq> 0 \<and> (b64_member b \<or> b = pad \<or> ace_isspace b)"
proof -
  have "\<forall>b\<in>set (b64_lines ch cols gs). b \<noteq> 0 \<and> (b64_member b \<or> b = pad \<or> ace_isspace b)"
    if "\<forall>g\<in>set gs. \<forall>b\<in>set g. b \<noteq> 0 \<and> (b64_member b \<or> b = pad)" for gs cols
    using that newline_skipped(3)
  proof (induction gs arbitrary: cols)
    case (Cons g gs)
    then have "\<forall>b\<in>set (b64_lines ch c gs). b \<noteq> 0 \<and> (b64_member b \<or> b = pad \<or> ace_isspace b)" for c by simp
    then show ?case using Cons.prems by (auto split: if_splits)
  qed (auto split: if_splits)
  then show ?thesis unfolding b64_text_def using groups_symbols by blast
qed

definition decode_all :: "nat \<Rightarrow> byte list \<Rightarrow> byte list \<Rightarrow> byte list b64_result" where
  "decode_all cap bs out =
     bind_result (decode_loop cap bs 0 0 out) (\<lambda>(at_end, bits, char_count, out).
       decode_rest cap at_end bits char_count out)"

lemma decode_newline: "decode_all cap (10 # bs) out = decode_all cap bs out"
  using newline_skipped by (simp add: decode_all_def)

lemma join_symbols:
  fixes a b c :: int
  shows "(((a div 4) * 64 + (a mod 4 * 16 + b div 16)) * 64 + (b mod 16 * 4 + c div 64)) * 64 + c mod 64 =
    a * 65536 + b * 256 + c"
proof -
  have "((p * 64 + (q * 16 + r)) * 64 + (s * 4 + t)) * 64 + u = a * 65536 + b * 256 + c"
    if "a = 4 * p + q" "b = 16 * r + s" "c = 64 * t + u" for p q r s t u
    using that by simp
  from this [of "a div 4" "a mod 4" "b div 16" "b mod 16" "c div 64" "c mod 64"] show ?thesis by simp
qed

lemma symbol_read [simp]:
  "0 \<le> i \<Longrightarrow> i < 64 \<Longrightarrow> b64_decoder (symbol i) = i" "0 \<le> i \<Longrightarrow> i < 64 \<Longrightarrow> b64_member (symbol i)"
  "0 \<le> i \<Longrightarrow> i < 64 \<Longrightarrow> symbol i \<noteq> pad"
  using symbol_decoder [of i] symbol_nonzero [of i] by simp_all

lemma decode_loop_four:
  assumes "0 \<le> i" "i < 64" "0 \<le> j" "j < 64" "0 \<le> k" "k < 64" "0 \<le> l" "l < 64"
  shows "decode_loop cap (symbol i # symbol j # symbol k # symbol l # bs) 0 0 out =
    (let bits = ((i * 64 + j) * 64 + k) * 64 + l
     in bind_result (put_byte cap (of_int (bits div 65536)) out) (\<lambda>out.
        bind_result (put_byte cap (of_int (bits div 256 mod 256)) out) (\<lambda>out.
        bind_result (put_byte cap (of_int (bits mod 256)) out) (\<lambda>out. decode_loop cap bs 0 0 out))))"
  using assms by (simp add: Let_def bit_ops)

lemma decode_triple:
  assumes "List.length out + 3 \<le> cap"
  shows "decode_all cap ([symbol (uint a div 4), symbol (uint a mod 4 * 16 + uint b div 16),
      symbol (uint b mod 16 * 4 + uint c div 64), symbol (uint c mod 64)] @ bs) out =
    decode_all cap bs (out @ [a, b, c])"
proof -
  note cut = cut_bits(5-7) [OF byte_bounds [of a] byte_bounds [of b] byte_bounds [of c]]
  have len: "List.length out < cap" "Suc (List.length out) < cap" "Suc (Suc (List.length out)) < cap"
    using assms by auto
  have "decode_loop cap ([symbol (uint a div 4), symbol (uint a mod 4 * 16 + uint b div 16),
      symbol (uint b mod 16 * 4 + uint c div 64), symbol (uint c mod 64)] @ bs) 0 0 out =
    decode_loop cap bs 0 0 (out @ [a, b, c])"
    unfolding append_Cons append_Nil
    by (subst decode_loop_four) (use len in \<open>simp_all only: symbol_range Let_def join_symbols cut\<close>,
        simp_all add: put_ok(1) len)
  then show ?thesis by (simp only: decode_all_def)
qed

lemma decode_last_one:
  assumes "List.length out < cap"
  shows "decode_all cap ([symbol (uint a div 4), symbol (uint a mod 4 * 16), pad, pad] @ bs) out = Inr (out @ [a])"
proof -
  have N: "((uint a div 4) * 64 + uint a mod 4 * 16) * 64 = uint a * 1024"
    using join_symbols [of "uint a" 0 0] by simp
  have "((uint a div 4) * 64 + uint a mod 4 * 16) * 64 div 1024 = uint a" unfolding N by simp
  then show ?thesis
    using assms by (simp add: decode_all_def decode_rest_def symbol_range bit_ops put_ok(1) del: distrib_right_numeral)
qed

lemma decode_loop_three:
  assumes "0 \<le> i" "i < 64" "0 \<le> j" "j < 64" "0 \<le> k" "k < 64"
  shows "decode_loop cap (symbol i # symbol j # symbol k # pad # bs) 0 0 out =
    Inr (False, ((i * 64 + j) * 64 + k) * 64, 3, out)"
  using assms by (simp add: Let_def bit_ops)

lemma decode_last_two:
  assumes "List.length out + 1 < cap"
  shows "decode_all cap ([symbol (uint a div 4), symbol (uint a mod 4 * 16 + uint b div 16),
      symbol (uint b mod 16 * 4), pad] @ bs) out = Inr (out @ [a, b])"
proof -
  let ?N = "(((uint a div 4) * 64 + (uint a mod 4 * 16 + uint b div 16)) * 64 + uint b mod 16 * 4) * 64"
  have N: "?N = uint a * 65536 + uint b * 256 + 0" using join_symbols [of "uint a" "uint b" 0] by simp
  have cut: "?N div 65536 = uint a" "?N div 256 mod 256 = uint b"
    unfolding N using cut_bits(5,6) [OF byte_bounds [of a] byte_bounds [of b] order.refl zero_less_numeral] by blast+
  have "decode_all cap ([symbol (uint a div 4), symbol (uint a mod 4 * 16 + uint b div 16),
      symbol (uint b mod 16 * 4), pad] @ bs) out = decode_rest cap False ?N 3 out"
    unfolding decode_all_def append_Cons append_Nil
    by (subst decode_loop_three) (simp_all only: symbol_range bind_result.simps prod.case)
  also have "\<dots> = bind_result (put_byte cap (of_int (uint a)) out) (put_byte cap (of_int (uint b)))"
    unfolding decode_rest_def bit_ops cut by simp
  finally show ?thesis using assms by (simp add: put_ok(1))
qed

lemma decode_lines:
  "List.length out + List.length bytes < cap \<Longrightarrow>
   decode_all cap (b64_lines ch cols (b64_groups bytes)) out = Inr (out @ bytes)"
proof (induction bytes arbitrary: cols out rule: b64_groups.induct)
  case 1
  then show ?case using decode_newline [of cap "[]" out] by (auto simp: decode_all_def decode_rest_def)
next
  case (2 a)
  then show ?case using decode_last_one [of out cap a] by simp
next
  case (3 a b)
  then show ?case using decode_last_two [of out cap a b] by simp
next
  case (4 a b c r)
  then have "List.length out + 3 \<le> cap" by simp
  from decode_triple [OF this] show ?case using 4 by (auto simp: decode_newline)
qed

section \<open>Decoding never leaves its buffers\<close>



lemma encode_from_all:
  "b64_encode (Some bytes) ch = bind_result (encode_all (encode_length (List.length bytes)) ch bytes 0 [])
     (\<lambda>out. bind_result (put_byte (encode_length (List.length bytes)) 0 out) (\<lambda>buf. Inr (buf, List.length out)))"
proof -
  have assoc: "bind_result (bind_result m f) g = bind_result m (\<lambda>a. bind_result (f a) g)"
    for m :: "'a b64_result" and f :: "'a \<Rightarrow> 'b b64_result" and g :: "'b \<Rightarrow> 'c b64_result"
    by (cases m) auto
  show ?thesis by (simp add: b64_encode_def encode_all_def Let_def assoc split_def)
qed

section \<open>Properties\<close>

text \<open>C39: encoding a byte sequence never writes past the buffer it allocates or indexes the alphabet out
  of range; it gives the groups of RFC 2045, four symbols of six bits for three bytes with the last group padded,
  ended by a newline after every 72 symbols and after the last line if the output is chunked, then a zero byte,
  and the length without that byte.\<close>

theorem b64_encode_correct:
  "b64_encode (Some bytes) ch = Inr (b64_text ch bytes @ [0], List.length (b64_text ch bytes))"
proof -
  let ?cap = "encode_length (List.length bytes)"
  have "encode_all ?cap ch bytes 0 [] = Inr (b64_text ch bytes)"
    using encode_all_correct [of "[]" ch 0 bytes ?cap] text_fits [of ch bytes] by (simp add: b64_text_def)
  then show ?thesis using encode_from_all [of bytes ch] text_fits [of ch bytes] by (simp add: put_ok(1))
qed

text \<open>C38: decoding is the inverse of encoding: for every byte sequence, on one line or chunked, decoding the
  encoded text gives the sequence back, with a terminating zero, and its length.\<close>

theorem b64_roundtrip:
  "bind_result (b64_encode (Some bytes) ch) (\<lambda>(buf, n). b64_decode (Some buf)) =
   Inr (bytes @ [0], List.length bytes)"
proof -
  let ?t = "b64_text ch bytes" and ?cap = "((List.length (b64_text ch bytes) + 3) div 4) * 3 + 1"
  have scan: "b64_scan (?t @ [0]) = Inr (List.length ?t)" by (rule scan_text [OF text_scannable])
  have cap: "List.length bytes < ?cap" using text_long [of bytes ch] by linarith
  have "decode_all ?cap ?t [] = Inr bytes"
    using decode_lines [of "[]" bytes ?cap ch 0] cap by (simp add: b64_text_def)
  then obtain e bits c out where d: "decode_loop ?cap ?t 0 0 [] = Inr (e, bits, c, out)"
      "decode_rest ?cap e bits c out = Inr bytes"
    by (cases "decode_loop ?cap ?t 0 0 []") (auto simp: decode_all_def)
  have "b64_decode (Some (?t @ [0])) = Inr (bytes @ [0], List.length bytes)"
    using cap d by (simp add: b64_decode_def b64_length_def scan put_ok(1))
  moreover have "b64_encode (Some bytes) ch = Inr (?t @ [0], List.length ?t)"
  proof -
    have "encode_all (encode_length (List.length bytes)) ch bytes 0 [] = Inr ?t"
      using encode_all_correct [of "[]" ch 0 bytes] text_fits [of ch bytes] by (simp add: b64_text_def)
    then show ?thesis using encode_from_all [of bytes ch] text_fits [of ch bytes] by (simp add: put_ok(1))
  qed
  ultimately show ?thesis by simp
qed



end
