(* ===== verification/Spec2Isabelle.thy ===== *)
theory Spec2Isabelle
  imports ACE_Timer_Heap_Correct ACE_Timer_List ACE_Timer_Wheel_Props ACE_Message_Queue_Correct ACE_Hash_Map_Props ACE_CDR_Reset ACE_Codecs
begin

text \<open>
  A verification of the core of the ACE library (\<^verbatim>\<open>src/ACE/ace\<close>): time values, the timer queues, the
  message queue, the hash map with its allocator, the CDR streams, and the Base64 codec.

  \<^bold>\<open>The program and its parts.\<close> ACE is a C++ library for event-driven network programs. An event loop asks a
  timer queue how long it may wait, and calls it to dispatch the timers that are due; tasks hand message blocks
  to each other through message queues that block when full or empty. Both compare and add
  \<^verbatim>\<open>ACE_Time_Value\<close>s. The timer queues (heap, list, wheel) are concrete classes under one base class that
  drives them through virtual functions; list and wheel draw their nodes from a free list. The hash map is the
  container most of the library keeps its tables in; it takes its memory from an \<^verbatim>\<open>ACE_Allocator\<close>, as do the buffers of
  the CDR streams, which turn values into the byte format of CORBA and back.

  \<^bold>\<open>Theories and sources.\<close>

  \<^item> \<open>ACE_Prelude\<close>: addresses, bytes, C++ division, lists.
  \<^item> \<open>ACE_Time_Value\<close>: \<^verbatim>\<open>Time_Value.cpp\<close>, \<^verbatim>\<open>.inl\<close>, \<^verbatim>\<open>.h\<close>. A time value is a pair of integers; the loops of
    \<open>normalize\<close> are recursive functions with a measure, with and without saturation. \<open>tv_total\<close> is the time in
    microseconds. Shown: \<open>normalize\<close> keeps the time and gives the normal form, saturation clamps to the range of
    \<open>time_t\<close>, the operators agree with arithmetic on totals, milliseconds survive a round trip.
  \<^item> \<open>ACE_Timer_Queue\<close>: \<^verbatim>\<open>Timer_Queue_T.cpp\<close> and the timer node of \<^verbatim>\<open>Timer_Queue_Iterator\<close>. The virtual functions
    are a record of operations; \<open>expire\<close>, \<open>dispatch_info_i\<close>, \<open>calculate_timeout\<close>, \<open>schedule\<close> take it as an argument. The
    locale \<open>timer_queue\<close> states what a concrete queue promises (which nodes are queued, that \<open>remove_first\<close> takes an
    earliest one, what a node taken out may undergo) and proves once what the base class makes of it: \<open>expire\<close> ends,
    dispatches exactly the due timers, each once, by time. The abstract state of a queue is the multiset of its timers, on
    which \<open>expire\<close> has a specification of its own; \<open>timer_queues_agree\<close> below uses it to show that heap, list and wheel are
    interchangeable. \<open>recompute_next_abs_interval_time\<close> equals the loop it replaced.
  \<^item> \<open>ACE_Links\<close>: null-terminated chains and rings with a sentinel in a store of nodes.
  \<^item> \<open>ACE_Timer_Heap\<close>, \<open>ACE_Timer_Heap_Inv\<close>, \<open>ACE_Timer_Heap_Correct\<close>: \<^verbatim>\<open>Timer_Heap_T.cpp\<close>. Arrays are lists of the
    allocated size; a read past the end is the error \<open>None\<close>. Shown: heap order, the id index and the pool stay
    consistent under every operation, the search for a free id succeeds, the interpretation \<open>th\<close> of the contract, and
    what schedule, cancel, reset, close and expire do.
  \<^item> \<open>ACE_Timer_List\<close>: \<^verbatim>\<open>Free_List.cpp\<close> and \<^verbatim>\<open>Timer_List_T.cpp\<close>, on one store of nodes; the interpretation \<open>tl\<close>.
  \<^item> \<open>ACE_Timer_Wheel\<close>, \<open>ACE_Timer_Wheel_Inv\<close>, \<open>ACE_Timer_Wheel_Correct\<close>, \<open>ACE_Timer_Wheel_Cancel\<close>,
    \<open>ACE_Timer_Wheel_Props\<close>: \<^verbatim>\<open>Timer_Wheel_T.cpp\<close>. A time determines its slot (its milliseconds over the resolution) and the
    slot its spoke. Shown: the search for the earliest spoke may stop at the first head less than one resolution
    after the last time; the interpretation \<open>tw\<close>; the wheel's own \<open>expire\<close> equals that of the base class; ids are new
    until the counter of a spoke runs over, and what happens then; the constructor's rounding; closing once and twice.
  \<^item> \<open>ACE_Message_Queue\<close>, \<open>ACE_Message_Queue_Correct\<close>: \<^verbatim>\<open>Message_Queue_T.cpp\<close>. Byte counts are 64-bit words. A public
    operation holds the lock throughout, so it is one step; the script of a wait says what other threads leave behind
    when it wakes up. The locale \<open>list_buffer\<close> turns \<open>enqueue\<close> and \<open>dequeue\<close> into operations on an ordered list. Shown:
    priority order is stable, flow control, the error returns, what each end hands out, closing, the iterators.
  \<^item> \<open>ACE_Allocator\<close>: \<^verbatim>\<open>Malloc_Base.h\<close>, \<^verbatim>\<open>Malloc_Allocator.cpp\<close>. The virtual functions as a record, what a client may rely on
    as the locale \<open>allocator\<close> (blocks handed out do not overlap, freed ones are forgotten), the static allocator as its
    interpretation \<open>sp\<close>.
  \<^item> \<open>ACE_Hash_Map\<close>, \<open>ACE_Hash_Map_Inv\<close>, \<open>ACE_Hash_Map_Ops\<close>, \<open>ACE_Hash_Map_Life\<close>, \<open>ACE_Hash_Map_Iter\<close>, \<open>ACE_Hash_Map_Props\<close>:
    \<^verbatim>\<open>Hash_Map_Manager_T.cpp\<close> and \<^verbatim>\<open>.inl\<close>, with the functors of \<^verbatim>\<open>Functor.inl\<close> and \<^verbatim>\<open>ACE::hash_pjw\<close>. Buckets are rings in one
    store; table and entries are blocks of the allocator. The locale \<open>hash_table\<close> extends \<open>allocator\<close> by the laws of the functors.
    Shown: every script of operations refines the same script on a finite map, opening and closing give back all
    memory, the iterators visit every entry once.
  \<^item> \<open>ACE_CDR_Base\<close>, \<open>ACE_CDR_Swap\<close>, \<open>ACE_CDR_Sizes\<close>: \<^verbatim>\<open>CDR_Base.cpp\<close>, \<^verbatim>\<open>CDR_Base.inl\<close>, the portable branches. Memory is a function from
    addresses to bytes; a platform has a byte order and a size of \<open>long\<close>. Shown: the word-wide, unrolled swaps of arrays
    are elementwise reversal, alignment, the sizes to which buffers grow and when that loop ends.
  \<^item> \<open>ACE_CDR_Stream\<close>: \<^verbatim>\<open>CDR_Stream.cpp\<close>, \<^verbatim>\<open>CDR_Stream.inl\<close> and what they use of \<^verbatim>\<open>Message_Block.cpp\<close>. \<open>ACE_CDR_Output\<close>, \<open>ACE_CDR_Write\<close>:
    the locale \<open>cdr_memory\<close> extends \<open>allocator\<close> by an address space; the invariant of an output stream, growing its chain,
    and the layout of the values that a script of writes appends. \<open>ACE_CDR_Read\<close>: an input stream finds them again.
    \<open>ACE_CDR_Bounds\<close>: reads of arbitrary input. \<open>ACE_CDR_Copy\<close>: copying and consolidating chains. \<open>ACE_CDR_Props\<close>: the interpretation
    \<open>cp\<close> on static allocators; the round trip, the exchange with a machine of the other byte order, and the other properties.
    \<open>ACE_CDR_Reset\<close>: growing an input stream and giving it other data, and what happens when it has been read from.
  \<^item> \<open>ACE_Codecs\<close>: \<^verbatim>\<open>Codecs.cpp\<close>. Every store is checked against the size of its buffer. Shown: encoding gives the
    RFC 2045 text, decoding inverts it, decoding arbitrary input stays in bounds.

  \<^bold>\<open>Conventions.\<close> Objects live in a store, a function from addresses to records; address 0 is null. State is passed
  explicitly; a template parameter is a type variable; functors are records of functions on the user's state. A
  public operation runs under the object's lock and is one step. Counters that cannot run over before the memory does
  are natural numbers, identifiers that can are cut to their width.

  \<^bold>\<open>Fuel and bounds.\<close> Loops along the links of a store of timer nodes carry \<open>fl_brk\<close>, the number of addresses ever
  handed out: a ring or chain has distinct nodes below it, so the fuel is never used up when the invariant holds
  (\<open>list_at_length\<close>, \<open>spoke_length\<close>). Loops that may not end are \<open>partial_function\<close>s with the result \<open>None\<close> for not
  returning: \<open>expire\<close>, whose callbacks may keep scheduling; the walks of the message queue and of the buckets of the
  hash map; the count of bits; \<open>adjust\<close> of an output stream, which grows at most twice, and the loop over the sizes of
  buffers, which does not end for the largest requests (\<open>first_size_correct\<close>). The
  theorems prove that they return. The timer wheel holds times from the epoch up to \<open>2 ^ 63\<close> milliseconds
  (\<open>wheel_time_ok\<close>), the range in which \<open>msec\<close> does not wrap.

  \<^bold>\<open>Assumptions of the properties.\<close> \<open>inert\<close>: the callbacks of \<open>expire\<close> do not operate on the queue. Operations by callbacks,
  which the code permits, are covered by the properties of the single operations. CDR streams: the address space ends at
  \<open>2 ^ 63\<close>, so that a pointer and a size do not wrap around; what is written lies outside the buffers of the stream; no code
  set translators; \<open>wchar_t\<close> has four bytes. The allocations of message block and data block objects always succeed, those of
  buffers may fail.

  \<^bold>\<open>Not modelled.\<close> \<open>dump\<close> (output only); multiplication of time values by a \<open>double\<close> and stream output; the hash-table
  queue and the adapters that run a queue on a thread or signal; reference counts of event handlers and of data blocks
  (parameters or summaries where the models read them); of CDR the inline assembly, wide strings, other formats of
  \<open>LongDouble\<close>, the constructors and exchanges that share data blocks, translators and monitors; the dynamic, NT and VxWorks queues;
  the other containers, strings and options, which are of the kind modelled here but separate components; reactors, threads,
  sockets and the other wrappers of the operating system, which are input and output; TAO, CIAO, DAnCE and the programs
  on top, much of it generated.
\<close>

definition timer_interval :: "'t timer \<Rightarrow> ace_time_value" where
  "timer_interval x = snd (snd (snd x))"

definition count_functor :: "('q \<times> nat, 't) timeout_functor" where
  "count_functor = \<lparr>fn_preinvoke = \<lambda>i c s. (s, 0), fn_timeout = \<lambda>i c (q, u). (q, Suc u),
     fn_postinvoke = \<lambda>i c a s. s\<rparr>"

lemma count_functor_inert: "inert count_functor c (\<lambda>_. Suc)"
  by (simp add: inert_def upcall_effect_def count_functor_def)

lemma timer_interval_of [simp]: "timer_interval (timer_of nd) = nd_interval nd"
  by (simp add: timer_interval_def timer_of_def)

lemma one_timer_heap:
  "heap_inv (fst (heap_schedule_i heap0 7 70 (seconds 4) zero_time)) {}"
  "queue_contents heap_ops heap_queued (fst (heap_schedule_i heap0 7 70 (seconds 4) zero_time)) =
    {#(7, 70, seconds 4, zero_time)#}"
proof -
  let ?q = "fst (heap_schedule_i heap0 7 70 (seconds 4) zero_time)"
  show "heap_inv ?q {}" using heap_schedule_correct(1) [OF heap0_inv] by (metis prod.collapse)
  have "heap_queued ?q = {1}" "timer_of (th_nodes ?q 1) = (7, 70, seconds 4, zero_time)" by code_simp+
  then show "queue_contents heap_ops heap_queued ?q = {#(7, 70, seconds 4, zero_time)#}"
    by (simp add: queue_contents_def)
qed

lemma one_timer_list:
  "list_inv (fst (list_schedule_i list0 7 70 (seconds 4) zero_time)) {}"
  "queue_contents list_ops list_queued (fst (list_schedule_i list0 7 70 (seconds 4) zero_time)) =
    {#(7, 70, seconds 4, zero_time)#}"
proof -
  let ?q = "fst (list_schedule_i list0 7 70 (seconds 4) zero_time)"
  obtain xs where "list_at list0 xs {}" using list3_inv(1) list_inv_iff by blast
  then show "list_inv ?q {}" using list_schedule_i_at list_invI by (metis prod.collapse)
  have "list_nodes ?q = [2]" "timer_of (fl_nodes ?q 2) = (7, 70, seconds 4, zero_time)" by code_simp+
  then show "queue_contents list_ops list_queued ?q = {#(7, 70, seconds 4, zero_time)#}"
    by (simp add: queue_contents_def list_queued_def)
qed

lemma one_timer_wheel:
  "wheel_inv wheel1 {}" "queue_contents wheel_ops wheel_queued wheel1 = {#(7, 70, seconds 4, zero_time)#}"
proof -
  obtain n where n: "wheel_inv wheel1 {}" "wheel_queued wheel1 = {n}" "nd_type (fl_nodes wheel1 n) = 7"
    "nd_act (fl_nodes wheel1 n) = 70" "nd_interval (fl_nodes wheel1 n) = zero_time" "lvalue wheel1 n = seconds 4"
    using wheel1_facts by blast
  then show "wheel_inv wheel1 {}" "queue_contents wheel_ops wheel_queued wheel1 = {#(7, 70, seconds 4, zero_time)#}"
    by (simp_all add: queue_contents_def timer_of_def)
qed

section \<open>The timer queues agree\<close>

lemma wheel_sane_contents:
  assumes "wheel_inv w L" "tv_normal c" "\<forall>x \<in># queue_contents wheel_ops wheel_queued w. timer_sane c x"
    and "\<forall>x \<in># queue_contents wheel_ops wheel_queued w. (tv_total c + tv_total (timer_interval x)) div 1000 < 2 ^ 63"
  shows "tw.sane w c"
proof (rule tw.sane_contents [OF assms(1,2,3)])
  fix a assume a: "a \<in> tw.due w c" "nd_interval (op_node wheel_ops w a) > zero_time"
  then have q: "a \<in> wheel_queued w" by (simp add: tw.due_def)
  have t: "timer_of (fl_nodes w a) \<in># queue_contents wheel_ops wheel_queued w"
    using q tw.finite_queued [OF assms(1)] by (simp add: queue_contents_def)
  have "wheel_time_ok (nd_timer_value (recompute_next_abs_interval_time (fl_nodes w a) c))"
    using bspec [OF assms(3) t] bspec [OF assms(4) t] a q assms(2) wheel_invD(5) [OF assms(1)]
    by (intro recompute_in_range) (auto simp: timer_of_def timer_interval_def tw.due_def tw.val_def)
  then show "wheel_time_ok (nd_timer_value (recompute_next_abs_interval_time (op_node wheel_ops w a) c))" by simp
qed

text \<open>C2: a heap, a list and a wheel that hold the same timers are interchangeable for the event loop: \<open>expire\<close>
  returns on each of them, dispatches the same timers (as the abstract multiset of timers demands), as often, and
  the three hold the same timers afterwards, with their invariants kept. The callbacks do not operate on the queue,
  and the times stay in the ranges in which the arithmetic of the code does not wrap.\<close>

theorem timer_queues_agree:
  assumes "heap_inv h {}" "list_inv l {}" "wheel_inv w {}"
    and "queue_contents heap_ops heap_queued h = M" "queue_contents list_ops list_queued l = M"
    and "queue_contents wheel_ops wheel_queued w = M"
    and "inert fh c g" "inert fl c g" "inert fw c g" "tv_normal c"
    and "\<forall>x \<in># M. timer_sane c x \<and> (tv_total c + tv_total (timer_interval x)) div 1000 < 2 ^ 63"
  shows "\<exists>h' l' w' is js ks.
    expire heap_ops fh c (h, u) = Some ((h', fold g is u), length is) \<and>
    expire list_ops fl c (l, u) = Some ((l', fold g js u), length js) \<and>
    wheel_expire fw c (w, u) = Some ((w', fold g ks u), length ks) \<and>
    mset is = dispatch_spec c M \<and> mset js = dispatch_spec c M \<and> mset ks = dispatch_spec c M \<and>
    heap_inv h' {} \<and> list_inv l' {} \<and> wheel_inv w' {} \<and>
    queue_contents heap_ops heap_queued h' = expire_spec c M \<and>
    queue_contents list_ops list_queued l' = expire_spec c M \<and>
    queue_contents wheel_ops wheel_queued w' = expire_spec c M"
proof -
  have "th.sane h c" using assms(4,10,11) by (intro th.sane_contents [OF assms(1)]) auto
  moreover have "tl.sane l c" using assms(5,10,11) by (intro tl.sane_contents [OF assms(2)]) auto
  ultimately have s: "th.sane h c" "tl.sane l c" .
  have sw: "tw.sane w c" using assms by (intro wheel_sane_contents) auto
  show ?thesis
    using th.expire_refines [OF assms(7,1) s(1), of u] tl.expire_refines [OF assms(8,2) s(2), of u]
      tw.expire_refines [OF assms(9,3) sw, of u] wheel_expire_eq [OF assms(9,3) sw, of u] assms(4-6)
    by metis
qed

theorem timer_queues_agree_witness:
  "\<exists>h l w h' l' w'. queue_contents heap_ops heap_queued h = {#(7 :: nat, 70, seconds 4, zero_time)#} \<and>
     queue_contents list_ops list_queued l = {#(7 :: nat, 70, seconds 4, zero_time)#} \<and>
     queue_contents wheel_ops wheel_queued w = {#(7 :: nat, 70, seconds 4, zero_time)#} \<and>
     expire heap_ops count_functor (seconds 5) (h, 0) = Some ((h', 1), 1) \<and>
     expire list_ops count_functor (seconds 5) (l, 0) = Some ((l', 1), 1) \<and>
     wheel_expire count_functor (seconds 5) (w, 0) = Some ((w', 1), 1) \<and>
     queue_contents heap_ops heap_queued h' = {#} \<and> queue_contents list_ops list_queued l' = {#} \<and>
     queue_contents wheel_ops wheel_queued w' = {#}"
proof -
  let ?M = "{#(7, 70, seconds 4, zero_time)#} :: nat timer multiset" and ?c = "seconds 5"
  define h where "h = fst (heap_schedule_i heap0 7 70 (seconds 4) zero_time)"
  define l where "l = fst (list_schedule_i list0 7 70 (seconds 4) zero_time)"
  have h: "heap_inv h {}" "queue_contents heap_ops heap_queued h = ?M"
    using one_timer_heap by (simp_all add: h_def)
  have l: "list_inv l {}" "queue_contents list_ops list_queued l = ?M"
    using one_timer_list by (simp_all add: l_def)
  note w = one_timer_wheel
  have le: "seconds 4 \<le> seconds 5" "\<not> zero_time < zero_time" by code_simp+
  have sp: "dispatch_spec ?c ?M = {#timer_info (7, 70, seconds 4, zero_time)#}" "expire_spec ?c ?M = {#}"
    using le by (simp_all add: dispatch_spec_def expire_spec_def)
  have ok: "\<forall>x \<in># ?M. timer_sane ?c x \<and> (tv_total ?c + tv_total (timer_interval x)) div 1000 < 2 ^ 63"
    by (simp add: tv_normal_def tv_total_def zero_time_def timer_interval_def)
  have n: "tv_normal ?c" by (simp add: tv_normal_def)
  obtain h' l' w' "is" js ks where E: "expire heap_ops count_functor ?c (h, 0) = Some ((h', fold (\<lambda>_. Suc) is 0), length is)"
    "expire list_ops count_functor ?c (l, 0) = Some ((l', fold (\<lambda>_. Suc) js 0), length js)"
    "wheel_expire count_functor ?c (wheel1, 0) = Some ((w', fold (\<lambda>_. Suc) ks 0), length ks)"
    "mset is = dispatch_spec ?c ?M" "mset js = dispatch_spec ?c ?M" "mset ks = dispatch_spec ?c ?M"
    "queue_contents heap_ops heap_queued h' = expire_spec ?c ?M"
    "queue_contents list_ops list_queued l' = expire_spec ?c ?M"
    "queue_contents wheel_ops wheel_queued w' = expire_spec ?c ?M"
    using timer_queues_agree [OF h(1) l(1) w(1) h(2) l(2) w(2) count_functor_inert count_functor_inert count_functor_inert n ok,
      of 0] by blast
  have "length is = 1" "length js = 1" "length ks = 1" using E(4-6) sp by (metis size_mset size_single)+
  then have "fold (\<lambda>_. Suc) is 0 = 1" "fold (\<lambda>_. Suc) js 0 = 1" "fold (\<lambda>_. Suc) ks 0 = 1"
    by (auto simp: length_Suc_conv)
  with E \<open>length is = 1\<close> \<open>length js = 1\<close> \<open>length ks = 1\<close> h(2) l(2) w(2) sp(2) show ?thesis by metis
qed

end
